(* ===== verification/Prelude.thy ===== *)
theory Prelude
  imports Main "HOL-Library.Word" "HOL-Library.Multiset"
begin

text \<open>
  Shared vocabulary of the development: the machine integers of the C++ code, the
  interface of a transition system with an invariant, the interface of a bounded FIFO
  queue, and the list lemmas (a segment of a list that is overwritten, the number of
  threads in a given program point) that the component theories have in common.
\<close>

section \<open>Machine integers\<close>

text \<open>
  \<open>std::byte\<close> and \<open>uint8_t\<close>, \<open>uint32_t\<close>, \<open>uint64_t\<close> and \<open>std::size_t\<close> of the x86-64
  Linux targets the code is built for. Addition and subtraction wrap, as in C++.
\<close>

type_synonym u8 = "8 word"
type_synonym u32 = "32 word"
type_synonym u64 = "64 word"

named_theorems unat_simps \<open>reading word arithmetic over the natural numbers\<close>

declare unat_of_nat [unat_simps]

lemma unat_plus_simple64 [unat_simps]:
  "unat a + unat b < 2 ^ 64 \<Longrightarrow> unat (a + b :: u64) = unat a + unat b"
  by (simp add: unat_word_ariths)

lemma unat_minus_simple64 [unat_simps]:
  "unat b \<le> unat a \<Longrightarrow> unat (a - b :: u64) = unat a - unat b"
  by (simp add: unat_sub word_le_nat_alt)

lemma unat_ucast_u32_u64 [simp]: "unat (ucast (w :: u32) :: u64) = unat w"
  by transfer (simp add: take_bit_int_eq_self)

lemma unat_u32_less: "unat (w :: u32) < 2 ^ 32"
  using unsigned_less [of w, where ?'a = nat] by simp

lemma unat_u64_less: "unat (w :: u64) < 2 ^ 64"
  using unsigned_less [of w, where ?'a = nat] by simp

section \<open>Transition systems with an invariant\<close>

text \<open>
  Every concurrent component is a step relation. The interface states what a component
  has to show of an invariant: it holds in the initial states and every step keeps it.
  The client lemma is the induction over a run, done once.
\<close>

locale invariant_system =
  fixes init :: "'s \<Rightarrow> bool"
    and step :: "'s \<Rightarrow> 's \<Rightarrow> bool"
    and good :: "'s \<Rightarrow> bool"
  assumes init_good: "init s \<Longrightarrow> good s"
    and step_good: "step s t \<Longrightarrow> good s \<Longrightarrow> good t"
begin

lemma run_good:
  assumes "step\<^sup>*\<^sup>* s t" and "good s"
  shows "good t"
  using assms by (induction rule: rtranclp_induct) (auto intro: step_good)

lemma reachable_good:
  assumes "init s" and "step\<^sup>*\<^sup>* s t"
  shows "good t"
  using run_good [OF assms(2) init_good [OF assms(1)]] .

end

text \<open>
  Runs that are computed: \<open>turn m s\<close> is the state after move \<open>m\<close>, if it is possible. When every
  turn is a step, a list of moves that goes through is a run; with an invariant, it ends in a
  good state.
\<close>

fun run_turns :: "('m \<Rightarrow> 's \<Rightarrow> 's option) \<Rightarrow> 'm list \<Rightarrow> 's \<Rightarrow> 's option" where
  "run_turns turn [] s = Some s"
| "run_turns turn (m # ms) s = (case turn m s of None \<Rightarrow> None | Some t \<Rightarrow> run_turns turn ms t)"

locale scheduled_system =
  fixes step :: "'s \<Rightarrow> 's \<Rightarrow> bool"
    and turn :: "'m \<Rightarrow> 's \<Rightarrow> 's option"
  assumes turn_step: "turn m s = Some t \<Longrightarrow> step s t"
begin

lemma turns_run: "run_turns turn ms s = Some t \<Longrightarrow> step\<^sup>*\<^sup>* s t"
  by (induction ms arbitrary: s)
    (auto split: option.splits dest!: turn_step intro: converse_rtranclp_into_rtranclp)

lemma turns_reach:
  assumes "case run_turns turn ms s of None \<Rightarrow> False | Some t \<Rightarrow> Q t"
  shows "\<exists>t. step\<^sup>*\<^sup>* s t \<and> Q t"
  using assms by (auto split: option.splits dest: turns_run)

end

locale scheduled_invariant = invariant_system init step good + scheduled_system step turn
  for init :: "'s \<Rightarrow> bool" and step :: "'s \<Rightarrow> 's \<Rightarrow> bool" and good :: "'s \<Rightarrow> bool"
    and turn :: "'m \<Rightarrow> 's \<Rightarrow> 's option"
begin

lemma turns_good:
  assumes "init s" and "run_turns turn ms s = Some t"
  shows "good t"
  using reachable_good [OF assms(1) turns_run [OF assms(2)]] .

end

section \<open>Bounded FIFO queues\<close>

text \<open>
  The contract of a bounded queue, stated over an abstract list of contents: \<open>put\<close> is
  refused exactly when the queue is full and otherwise appends, \<open>get\<close> is refused exactly
  when it is empty and otherwise removes the oldest element. A client is a run of
  operations: \<open>run_ops\<close> returns the accepted insertions, the delivered elements and the
  final queue.
\<close>

datatype 'a queue_op = Put 'a | Get

fun run_ops ::
  "('a \<Rightarrow> 'q \<Rightarrow> 'q option) \<Rightarrow> ('q \<Rightarrow> ('a \<times> 'q) option) \<Rightarrow> 'q \<Rightarrow> 'a queue_op list
    \<Rightarrow> 'a list \<times> 'a list \<times> 'q" where
  "run_ops put get q [] = ([], [], q)"
| "run_ops put get q (Put x # os) =
     (case put x q of
        None \<Rightarrow> run_ops put get q os
      | Some q' \<Rightarrow> (case run_ops put get q' os of (ins, outs, r) \<Rightarrow> (x # ins, outs, r)))"
| "run_ops put get q (Get # os) =
     (case get q of
        None \<Rightarrow> run_ops put get q os
      | Some (x, q') \<Rightarrow> (case run_ops put get q' os of (ins, outs, r) \<Rightarrow> (ins, x # outs, r)))"

locale bounded_queue =
  fixes wf :: "'q \<Rightarrow> bool"
    and contents :: "'q \<Rightarrow> 'a list"
    and limit :: "'q \<Rightarrow> nat"
    and put :: "'a \<Rightarrow> 'q \<Rightarrow> 'q option"
    and get :: "'q \<Rightarrow> ('a \<times> 'q) option"
  assumes within_limit: "wf q \<Longrightarrow> length (contents q) \<le> limit q"
    and put_refused: "wf q \<Longrightarrow> put x q = None \<longleftrightarrow> length (contents q) = limit q"
    and put_appends: "wf q \<Longrightarrow> put x q = Some q' \<Longrightarrow>
      wf q' \<and> contents q' = contents q @ [x] \<and> limit q' = limit q"
    and get_refused: "wf q \<Longrightarrow> get q = None \<longleftrightarrow> contents q = []"
    and get_removes: "wf q \<Longrightarrow> get q = Some (x, q') \<Longrightarrow>
      wf q' \<and> contents q = x # contents q' \<and> limit q' = limit q"
begin

lemma run_ops_fifo:
  assumes "wf q" and "run_ops put get q os = (ins, outs, r)"
  shows "wf r \<and> limit r = limit q \<and> contents q @ ins = outs @ contents r
    \<and> length (contents r) \<le> limit q"
  using assms
proof (induction os arbitrary: q ins outs r)
  case Nil
  then show ?case by (auto dest: within_limit)
next
  case (Cons a os)
  show ?case
  proof (cases a)
    case (Put x)
    show ?thesis
    proof (cases "put x q")
      case None
      with Put Cons show ?thesis by simp
    next
      case (Some q')
      with Put Cons.prems obtain ins' where
        "run_ops put get q' os = (ins', outs, r)" "ins = x # ins'"
        by (auto split: prod.splits)
      with Cons.IH [of q'] put_appends [OF Cons.prems(1) Some] show ?thesis by auto
    qed
  next
    case Get
    show ?thesis
    proof (cases "get q")
      case None
      with Get Cons show ?thesis by simp
    next
      case (Some p)
      obtain x q' where p: "p = (x, q')" by (cases p)
      with Get Some Cons.prems obtain outs' where
        "run_ops put get q' os = (ins, outs', r)" "outs = x # outs'"
        by (auto split: prod.splits)
      with Cons.IH [of q'] get_removes [OF Cons.prems(1) Some [unfolded p]]
      show ?thesis by auto
    qed
  qed
qed

end

section \<open>Threads\<close>

text \<open>
  The threads of a concurrent component are a list of program points, indexed by the
  thread. \<open>cnt P ps\<close> is the number of threads at a point that satisfies \<open>P\<close>.
\<close>

definition cnt :: "('a \<Rightarrow> bool) \<Rightarrow> 'a list \<Rightarrow> nat" where
  "cnt P xs = length (filter P xs)"

lemma cnt_Nil [simp]: "cnt P [] = 0"
  by (simp add: cnt_def)

lemma cnt_Cons [simp]: "cnt P (x # xs) = (if P x then Suc (cnt P xs) else cnt P xs)"
  by (simp add: cnt_def)

lemma cnt_replicate [simp]: "cnt P (replicate n x) = (if P x then n else 0)"
  by (induction n) auto

lemma cnt_pos: "i < length xs \<Longrightarrow> P (xs ! i) \<Longrightarrow> 0 < cnt P xs"
  by (auto simp: cnt_def filter_empty_conv)

lemma cnt_zero_iff: "cnt P xs = 0 \<longleftrightarrow> (\<forall>x \<in> set xs. \<not> P x)"
  by (simp add: cnt_def filter_empty_conv)

lemma cnt_pos_ex: "0 < cnt P xs \<Longrightarrow> \<exists>i < length xs. P (xs ! i)"
  by (metis cnt_zero_iff in_set_conv_nth less_numeral_extra(3))

lemma cnt_update:
  assumes "i < length xs"
  shows "cnt P (xs[i := x]) =
    (if P (xs ! i) then cnt P xs - 1 else cnt P xs) + (if P x then 1 else 0)"
  using assms
proof (induction xs arbitrary: i)
  case Nil
  then show ?case by simp
next
  case (Cons y ys)
  show ?case
  proof (cases i)
    case 0
    then show ?thesis by simp
  next
    case (Suc j)
    then have "0 < cnt P ys" if "P (ys ! j)"
      using Cons.prems that cnt_pos [of j ys P] by simp
    with Suc Cons show ?thesis by auto
  qed
qed

lemma cnt_map: "cnt P (map f xs) = cnt (\<lambda>x. P (f x)) xs"
  by (simp add: cnt_def filter_map o_def)

lemma cnt_disj:
  assumes "\<And>x. \<not> (P x \<and> Q x)"
  shows "cnt (\<lambda>x. P x \<or> Q x) xs = cnt P xs + cnt Q xs"
  using assms by (induction xs) auto

text \<open>
  The additive form of an update: it needs no case split on the program point that is
  left, so that counting arguments become linear arithmetic.
\<close>

lemma cnt_move:
  assumes "i < length xs" and "xs ! i = y"
  shows "cnt P (xs[i := x]) + (if P y then 1 else 0) = cnt P xs + (if P x then 1 else 0)"
  using assms cnt_update [of i xs P x] cnt_pos [of i xs P] by auto

text \<open>The same for a sum over the threads.\<close>

lemma sum_list_move:
  fixes f :: "'a \<Rightarrow> 'b :: comm_monoid_add"
  assumes "i < length xs"
  shows "sum_list (map f (xs[i := x])) + f (xs ! i) = sum_list (map f xs) + f x"
  using assms
proof (induction xs arbitrary: i)
  case (Cons y ys)
  then show ?case by (cases i) (auto simp: ac_simps)
qed simp

lemma sum_list_at:
  fixes f :: "'a \<Rightarrow> 'b :: comm_monoid_add"
  assumes "i < length xs" and "xs ! i = y"
  shows "sum_list (map f (xs[i := x])) + f y = sum_list (map f xs) + f x"
  using sum_list_move [OF assms(1)] assms(2) by blast

lemma cnt_le_one_unique:
  assumes "cnt P xs \<le> 1" and "i < length xs" and "j < length xs"
    and "P (xs ! i)" and "P (xs ! j)"
  shows "i = j"
proof (rule ccontr)
  assume "i \<noteq> j"
  from assms(2,4) have "{i, j} \<subseteq> {k. k < length xs \<and> P (xs ! k)}" using assms by auto
  then have "card {i, j} \<le> card {k. k < length xs \<and> P (xs ! k)}"
    by (intro card_mono) auto
  with \<open>i \<noteq> j\<close> assms(1) show False
    by (simp add: cnt_def length_filter_conv_card)
qed

end
