(* ===== verification/Channel.thy ===== *)
theory Channel
  imports Prelude
begin

text \<open>
  The bounded channel of \<^verbatim>\<open>hw-3/buffered_channel.h\<close>: the ring buffer and the
  critical sections of \<open>Send\<close>, \<open>Recv\<close> and \<open>Close\<close> as functions on a record, and the
  monitor they form (one mutex, two condition variables) as a step relation between
  states of any number of threads. What the mutex makes atomic is one step; a notify
  happens after the unlock and is a step of its own; waiters may wake spuriously.
\<close>

section \<open>State and construction\<close>

record 'a channel =
  capacity :: nat
  closed :: bool
  buffer :: "'a list"
  head :: nat
  tail :: nat
  csize :: nat

datatype channel_error = SendToClosed

text \<open>
  The constructor clamps a capacity that is not positive to 1. \<open>buffer(capacity)\<close>
  value-initialises the elements: \<open>dflt\<close> is the value of \<open>T()\<close>.
\<close>

definition BufferedChannel :: "'a \<Rightarrow> int \<Rightarrow> 'a channel" where
  "BufferedChannel dflt n =
     (let cap = (if n > 0 then nat n else 1)
      in \<lparr>capacity = cap, closed = False, buffer = replicate cap dflt,
          head = 0, tail = 0, csize = 0\<rparr>)"

section \<open>Critical sections\<close>

text \<open>The predicates the two condition variables wait for.\<close>

definition send_pred :: "'a channel \<Rightarrow> bool" where
  "send_pred c \<longleftrightarrow> closed c \<or> csize c < capacity c"

definition recv_pred :: "'a channel \<Rightarrow> bool" where
  "recv_pred c \<longleftrightarrow> closed c \<or> csize c > 0"

text \<open>
  What \<open>Send\<close> and \<open>Recv\<close> do between the end of the wait and the unlock. A moved-from
  object is left in the slot \<open>Recv\<close> reads; \<open>moved\<close> is the value the move constructor of
  \<open>T\<close> leaves behind (the identity for a trivially copyable type).
\<close>

definition send_locked :: "'a \<Rightarrow> 'a channel \<Rightarrow> channel_error + 'a channel" where
  "send_locked v c =
     (if closed c then Inl SendToClosed
      else Inr (c\<lparr>buffer := (buffer c)[tail c := v],
                  tail := (tail c + 1) mod capacity c,
                  csize := csize c + 1\<rparr>))"

definition recv_locked :: "('a \<Rightarrow> 'a) \<Rightarrow> 'a channel \<Rightarrow> 'a option \<times> 'a channel" where
  "recv_locked moved c =
     (if csize c = 0 then (None, c)
      else (let v = buffer c ! head c
            in (Some v, c\<lparr>buffer := (buffer c)[head c := moved v],
                          head := (head c + 1) mod capacity c,
                          csize := csize c - 1\<rparr>)))"

text \<open>The flag says whether the call goes on to notify the waiters.\<close>

definition close_locked :: "'a channel \<Rightarrow> bool \<times> 'a channel" where
  "close_locked c = (if closed c then (False, c) else (True, c\<lparr>closed := True\<rparr>))"

section \<open>The ring buffer is a bounded queue\<close>

definition chan_contents :: "'a channel \<Rightarrow> 'a list" where
  "chan_contents c = map (\<lambda>k. buffer c ! ((head c + k) mod capacity c)) [0..<csize c]"

definition chan_ok :: "'a channel \<Rightarrow> bool" where
  "chan_ok c \<longleftrightarrow> 0 < capacity c \<and> length (buffer c) = capacity c \<and> head c < capacity c
     \<and> tail c = (head c + csize c) mod capacity c \<and> csize c \<le> capacity c"

lemma chan_ok_new: "chan_ok (BufferedChannel dflt n)"
  by (simp add: chan_ok_def BufferedChannel_def Let_def)

lemma chan_contents_new [simp]: "chan_contents (BufferedChannel dflt n) = []"
  by (simp add: chan_contents_def BufferedChannel_def Let_def)

lemma length_chan_contents [simp]: "length (chan_contents c) = csize c"
  by (simp add: chan_contents_def)

lemma ring_slots_differ:
  assumes "j < k" and "k < h + n" and "h \<le> j" and "n \<le> (m :: nat)"
  shows "j mod m \<noteq> k mod m"
proof
  assume "j mod m = k mod m"
  then have "m dvd k - j" using assms(1) by (metis less_imp_le mod_eq_dvd_iff_nat)
  moreover have "0 < k - j" "k - j < m" using assms by auto
  ultimately show False by (auto dest: dvd_imp_le)
qed

lemma send_locked_ok:
  assumes "chan_ok c" and "csize c < capacity c" and "send_locked v c = Inr c'"
  shows "chan_ok c' \<and> chan_contents c' = chan_contents c @ [v] \<and> closed c' = closed c
    \<and> \<not> closed c \<and> capacity c' = capacity c \<and> csize c' = Suc (csize c)"
proof -
  let ?m = "capacity c"
  have c': "c' = c\<lparr>buffer := (buffer c)[tail c := v], tail := (tail c + 1) mod ?m,
      csize := csize c + 1\<rparr>" and open_c: "\<not> closed c"
    using assms(3) by (auto simp: send_locked_def split: if_splits)
  have keep: "(buffer c)[tail c := v] ! ((head c + k) mod ?m) = buffer c ! ((head c + k) mod ?m)"
    if "k < csize c" for k
    using assms(1,2) that ring_slots_differ [of "head c + k" "head c + csize c" "head c" "Suc (csize c)" ?m]
    by (auto simp: chan_ok_def)
  have "chan_contents c' = chan_contents c @ [v]"
    using assms(1) keep by (auto simp: c' chan_contents_def chan_ok_def)
  moreover have "chan_ok c'"
    using assms(1,2) by (auto simp: c' chan_ok_def mod_Suc_eq)
  ultimately show ?thesis using open_c by (simp add: c')
qed

lemma recv_locked_ok:
  assumes "chan_ok c" and "recv_locked moved c = (Some v, c')"
  shows "chan_ok c' \<and> chan_contents c = v # chan_contents c' \<and> closed c' = closed c
    \<and> capacity c' = capacity c \<and> csize c = Suc (csize c')"
proof -
  let ?m = "capacity c"
  have pos: "0 < csize c" and v: "v = buffer c ! head c"
    and c': "c' = c\<lparr>buffer := (buffer c)[head c := moved v], head := (head c + 1) mod ?m,
      csize := csize c - 1\<rparr>"
    using assms(2) by (auto simp: recv_locked_def Let_def split: if_splits)
  have keep: "(buffer c)[head c := moved v] ! ((head c + k) mod ?m) = buffer c ! ((head c + k) mod ?m)"
    if "0 < k" "k < csize c" for k
    using assms(1) that ring_slots_differ [of "head c" "head c + k" "head c" "csize c" ?m]
    by (auto simp: chan_ok_def)
  have "chan_contents c' = map (\<lambda>k. buffer c ! ((head c + k) mod ?m)) [1..<csize c]"
    using keep [of "Suc _"]
    by (auto simp: c' chan_contents_def mod_simps intro!: nth_equalityI)
  moreover have "chan_contents c = v # map (\<lambda>k. buffer c ! ((head c + k) mod ?m)) [1..<csize c]"
    using pos assms(1) by (simp add: chan_contents_def v upt_conv_Cons chan_ok_def)
  moreover have "chan_ok c'"
    using assms(1) pos by (cases "csize c") (auto simp: c' chan_ok_def mod_simps)
  ultimately show ?thesis using pos by (simp add: c')
qed

lemma recv_locked_None:
  "recv_locked moved c = (None, c') \<longleftrightarrow> csize c = 0 \<and> c' = c"
  by (auto simp: recv_locked_def Let_def)

text \<open>
  What a caller of \<open>Send\<close> and \<open>Recv\<close> that does not block sees: the operation goes through
  when its wait predicate holds. On an open channel this is a bounded queue.
\<close>

definition chan_put :: "'a \<Rightarrow> 'a channel \<Rightarrow> 'a channel option" where
  "chan_put v c =
     (if send_pred c then (case send_locked v c of Inl _ \<Rightarrow> None | Inr c' \<Rightarrow> Some c') else None)"

definition chan_get :: "('a \<Rightarrow> 'a) \<Rightarrow> 'a channel \<Rightarrow> ('a \<times> 'a channel) option" where
  "chan_get moved c =
     (if recv_pred c
      then (case recv_locked moved c of (None, _) \<Rightarrow> None | (Some v, c') \<Rightarrow> Some (v, c'))
      else None)"

interpretation ring: bounded_queue "\<lambda>c. chan_ok c \<and> \<not> closed c" chan_contents capacity
  chan_put "chan_get moved" for moved
proof (unfold_locales, goal_cases)
  case (1 q)
  then show ?case by (simp add: chan_ok_def)
next
  case (2 q x)
  then show ?case
    by (auto simp: chan_put_def send_pred_def send_locked_def chan_ok_def)
next
  case (3 q x q')
  then have "csize q < capacity q" and "send_locked x q = Inr q'"
    by (auto simp: chan_put_def send_pred_def split: if_splits sum.splits)
  then show ?case using 3 send_locked_ok [of q x q'] by simp
next
  case (4 q)
  then show ?case
    by (auto simp: chan_get_def recv_pred_def recv_locked_def Let_def
        simp flip: length_0_conv)
next
  case (5 q x q')
  then have "recv_locked moved q = (Some x, q')"
    by (auto simp: chan_get_def split: if_splits prod.splits option.splits)
  then show ?case using 5 recv_locked_ok [of q moved x q'] by simp
qed

end
