(* ===== verification/Channel_Monitor.thy ===== *)
theory Channel_Monitor
  imports Channel
begin

text \<open>
  The threads around the channel of \<^verbatim>\<open>hw-3/buffered_channel.h\<close>. A step is one thread
  running a critical section (atomic: the mutex is held), falling asleep on a condition
  variable, notifying after its unlock, or waking up for no reason. The ghost fields
  record what was sent and received, in the order of the critical sections, which calls
  threw and which returned \<open>nullopt\<close>.
\<close>

section \<open>Threads and steps\<close>

datatype 'a chan_pc =
    ChIdle
  | SendEnter 'a
  | SendWaiting 'a
  | SendNotify
  | RecvEnter
  | RecvWaiting
  | RecvNotify 'a
  | CloseEnter
  | CloseNotifyEmpty
  | CloseNotifyFull

record 'a chan_sys =
  chan :: "'a channel"
  cthr :: "'a chan_pc list"
  sent :: "(nat \<times> 'a) list"
  recvd :: "(nat \<times> 'a) list"
  threw :: "nat list"
  nulls :: "nat list"

text \<open>\<open>notify_all\<close> on either condition variable: its waiters go back to the lock.\<close>

fun wake_receiver :: "'a chan_pc \<Rightarrow> 'a chan_pc" where
  "wake_receiver RecvWaiting = RecvEnter"
| "wake_receiver p = p"

fun wake_sender :: "'a chan_pc \<Rightarrow> 'a chan_pc" where
  "wake_sender (SendWaiting v) = SendEnter v"
| "wake_sender p = p"

fun is_send_waiting :: "'a chan_pc \<Rightarrow> bool" where
  "is_send_waiting (SendWaiting _) = True"
| "is_send_waiting _ = False"

fun is_send_enter :: "'a chan_pc \<Rightarrow> bool" where
  "is_send_enter (SendEnter _) = True"
| "is_send_enter _ = False"

fun is_recv_notify :: "'a chan_pc \<Rightarrow> bool" where
  "is_recv_notify (RecvNotify _) = True"
| "is_recv_notify _ = False"

definition chan_init :: "'a \<Rightarrow> int \<Rightarrow> 'a chan_sys \<Rightarrow> bool" where
  "chan_init dflt n s \<longleftrightarrow>
     (\<exists>threads. s = \<lparr>chan = BufferedChannel dflt n, cthr = replicate threads ChIdle,
        sent = [], recvd = [], threw = [], nulls = []\<rparr>)"

inductive chan_step :: "('a \<Rightarrow> 'a) \<Rightarrow> 'a chan_sys \<Rightarrow> 'a chan_sys \<Rightarrow> bool" for moved where
  call_send:
    "i < length (cthr s) \<Longrightarrow> cthr s ! i = ChIdle \<Longrightarrow>
     chan_step moved s (s\<lparr>cthr := (cthr s)[i := SendEnter v]\<rparr>)"
| send_block:
    "i < length (cthr s) \<Longrightarrow> cthr s ! i = SendEnter v \<Longrightarrow> \<not> send_pred (chan s) \<Longrightarrow>
     chan_step moved s (s\<lparr>cthr := (cthr s)[i := SendWaiting v]\<rparr>)"
| send_throw:
    "i < length (cthr s) \<Longrightarrow> cthr s ! i = SendEnter v \<Longrightarrow> send_pred (chan s) \<Longrightarrow>
     send_locked v (chan s) = Inl e \<Longrightarrow>
     chan_step moved s (s\<lparr>cthr := (cthr s)[i := ChIdle], threw := threw s @ [i]\<rparr>)"
| send_go:
    "i < length (cthr s) \<Longrightarrow> cthr s ! i = SendEnter v \<Longrightarrow> send_pred (chan s) \<Longrightarrow>
     send_locked v (chan s) = Inr c \<Longrightarrow>
     chan_step moved s (s\<lparr>chan := c, cthr := (cthr s)[i := SendNotify],
       sent := sent s @ [(i, v)]\<rparr>)"
| send_notify_one:
    "i < length (cthr s) \<Longrightarrow> cthr s ! i = SendNotify \<Longrightarrow>
     j < length (cthr s) \<Longrightarrow> cthr s ! j = RecvWaiting \<Longrightarrow>
     chan_step moved s (s\<lparr>cthr := (cthr s)[i := ChIdle, j := RecvEnter]\<rparr>)"
| send_notify_none:
    "i < length (cthr s) \<Longrightarrow> cthr s ! i = SendNotify \<Longrightarrow> RecvWaiting \<notin> set (cthr s) \<Longrightarrow>
     chan_step moved s (s\<lparr>cthr := (cthr s)[i := ChIdle]\<rparr>)"
| spurious_send:
    "i < length (cthr s) \<Longrightarrow> cthr s ! i = SendWaiting v \<Longrightarrow>
     chan_step moved s (s\<lparr>cthr := (cthr s)[i := SendEnter v]\<rparr>)"
| call_recv:
    "i < length (cthr s) \<Longrightarrow> cthr s ! i = ChIdle \<Longrightarrow>
     chan_step moved s (s\<lparr>cthr := (cthr s)[i := RecvEnter]\<rparr>)"
| recv_block:
    "i < length (cthr s) \<Longrightarrow> cthr s ! i = RecvEnter \<Longrightarrow> \<not> recv_pred (chan s) \<Longrightarrow>
     chan_step moved s (s\<lparr>cthr := (cthr s)[i := RecvWaiting]\<rparr>)"
| recv_null:
    "i < length (cthr s) \<Longrightarrow> cthr s ! i = RecvEnter \<Longrightarrow> recv_pred (chan s) \<Longrightarrow>
     recv_locked moved (chan s) = (None, c) \<Longrightarrow>
     chan_step moved s (s\<lparr>chan := c, cthr := (cthr s)[i := ChIdle], nulls := nulls s @ [i]\<rparr>)"
| recv_go:
    "i < length (cthr s) \<Longrightarrow> cthr s ! i = RecvEnter \<Longrightarrow> recv_pred (chan s) \<Longrightarrow>
     recv_locked moved (chan s) = (Some v, c) \<Longrightarrow>
     chan_step moved s (s\<lparr>chan := c, cthr := (cthr s)[i := RecvNotify v],
       recvd := recvd s @ [(i, v)]\<rparr>)"
| recv_notify_one:
    "i < length (cthr s) \<Longrightarrow> cthr s ! i = RecvNotify v \<Longrightarrow>
     j < length (cthr s) \<Longrightarrow> cthr s ! j = SendWaiting w \<Longrightarrow>
     chan_step moved s (s\<lparr>cthr := (cthr s)[i := ChIdle, j := SendEnter w]\<rparr>)"
| recv_notify_none:
    "i < length (cthr s) \<Longrightarrow> cthr s ! i = RecvNotify v \<Longrightarrow>
     (\<forall>p \<in> set (cthr s). \<not> is_send_waiting p) \<Longrightarrow>
     chan_step moved s (s\<lparr>cthr := (cthr s)[i := ChIdle]\<rparr>)"
| spurious_recv:
    "i < length (cthr s) \<Longrightarrow> cthr s ! i = RecvWaiting \<Longrightarrow>
     chan_step moved s (s\<lparr>cthr := (cthr s)[i := RecvEnter]\<rparr>)"
| call_close:
    "i < length (cthr s) \<Longrightarrow> cthr s ! i = ChIdle \<Longrightarrow>
     chan_step moved s (s\<lparr>cthr := (cthr s)[i := CloseEnter]\<rparr>)"
| close_again:
    "i < length (cthr s) \<Longrightarrow> cthr s ! i = CloseEnter \<Longrightarrow>
     close_locked (chan s) = (False, c) \<Longrightarrow>
     chan_step moved s (s\<lparr>chan := c, cthr := (cthr s)[i := ChIdle]\<rparr>)"
| close_first:
    "i < length (cthr s) \<Longrightarrow> cthr s ! i = CloseEnter \<Longrightarrow>
     close_locked (chan s) = (True, c) \<Longrightarrow>
     chan_step moved s (s\<lparr>chan := c, cthr := (cthr s)[i := CloseNotifyEmpty]\<rparr>)"
| close_notify_empty:
    "i < length (cthr s) \<Longrightarrow> cthr s ! i = CloseNotifyEmpty \<Longrightarrow>
     chan_step moved s (s\<lparr>cthr := map wake_receiver ((cthr s)[i := CloseNotifyFull])\<rparr>)"
| close_notify_full:
    "i < length (cthr s) \<Longrightarrow> cthr s ! i = CloseNotifyFull \<Longrightarrow>
     chan_step moved s (s\<lparr>cthr := map wake_sender ((cthr s)[i := ChIdle])\<rparr>)"

section \<open>The invariant\<close>

text \<open>
  The history: what was sent is what was received followed by what the ring holds. A
  \<open>nullopt\<close> is returned by a closed and empty channel only. The two wake-up
  conditions say that no notification is lost: while a receiver sleeps, every element in
  the ring is matched by a notification on its way or by a receiver that will look
  again; while a sender sleeps on an open channel, the same holds for every free slot;
  while anyone sleeps on a closed channel, the closing thread still has to notify.
\<close>

definition history_ok :: "'a chan_sys \<Rightarrow> bool" where
  "history_ok s \<longleftrightarrow> chan_ok (chan s) \<and>
     map snd (sent s) = map snd (recvd s) @ chan_contents (chan s) \<and>
     (nulls s \<noteq> [] \<longrightarrow> closed (chan s) \<and> csize (chan s) = 0) \<and>
     (threw s \<noteq> [] \<longrightarrow> closed (chan s))"

abbreviation n_at :: "'a chan_pc \<Rightarrow> 'a chan_pc list \<Rightarrow> nat" where
  "n_at q ps \<equiv> cnt (\<lambda>p. p = q) ps"

definition receivers_woken :: "'a channel \<Rightarrow> 'a chan_pc list \<Rightarrow> bool" where
  "receivers_woken c ps \<longleftrightarrow> (0 < n_at RecvWaiting ps \<longrightarrow>
     csize c \<le> n_at SendNotify ps + n_at RecvEnter ps \<and>
     (closed c \<longrightarrow> 0 < n_at CloseNotifyEmpty ps))"

definition senders_woken :: "'a channel \<Rightarrow> 'a chan_pc list \<Rightarrow> bool" where
  "senders_woken c ps \<longleftrightarrow> (0 < cnt is_send_waiting ps \<longrightarrow>
     (if closed c then 0 < n_at CloseNotifyEmpty ps + n_at CloseNotifyFull ps
      else capacity c \<le> csize c + cnt is_recv_notify ps + cnt is_send_enter ps))"

definition chan_good :: "'a chan_sys \<Rightarrow> bool" where
  "chan_good s \<longleftrightarrow> history_ok s \<and>
     receivers_woken (chan s) (cthr s) \<and> senders_woken (chan s) (cthr s)"

lemma chan_init_good: "chan_init dflt n s \<Longrightarrow> chan_good s"
  by (auto simp: chan_init_def chan_good_def history_ok_def receivers_woken_def
      senders_woken_def chan_ok_new)

text \<open>What each critical section does, in the form the step cases need.\<close>

lemma send_goE:
  assumes "send_pred c" and "send_locked v c = Inr c'" and "chan_ok c"
  obtains "\<not> closed c" "csize c < capacity c" "chan_ok c'" "closed c' = closed c"
    "chan_contents c' = chan_contents c @ [v]" "capacity c' = capacity c" "csize c' = Suc (csize c)"
proof -
  have "\<not> closed c" "csize c < capacity c"
    using assms(1,2) by (auto simp: send_pred_def send_locked_def split: if_splits)
  with send_locked_ok [OF assms(3) _ assms(2)] that show thesis by simp
qed

lemma send_throwE:
  assumes "send_pred c" and "send_locked v c = Inl e"
  obtains "closed c"
  using assms by (auto simp: send_locked_def split: if_splits)

lemma recv_nullE:
  assumes "recv_pred c" and "recv_locked moved c = (None, c')"
  obtains "closed c" "csize c = 0" "c' = c"
  using assms by (auto simp: recv_locked_None recv_pred_def)

lemma close_locked_simps [simp]:
  "close_locked c = (False, c') \<longleftrightarrow> closed c \<and> c' = c"
  "close_locked c = (True, c') \<longleftrightarrow> \<not> closed c \<and> c' = c\<lparr>closed := True\<rparr>"
  by (auto simp: close_locked_def)

lemma chan_ok_close [simp]: "chan_ok (c\<lparr>closed := b\<rparr>) = chan_ok c"
  and chan_contents_close [simp]: "chan_contents (c\<lparr>closed := b\<rparr>) = chan_contents c"
  by (simp_all add: chan_ok_def chan_contents_def)

lemma history_ok_thr [simp]: "history_ok (s\<lparr>cthr := ps\<rparr>) = history_ok s"
  by (simp add: history_ok_def)

lemma history_ok_step:
  assumes "chan_step moved s t" and "history_ok s"
  shows "history_ok t"
  using assms
proof (cases rule: chan_step.cases)
  case (send_throw i v e)
  with assms(2) show ?thesis by (auto simp: history_ok_def elim: send_throwE)
next
  case (send_go i v c)
  with assms(2) have "chan_ok (chan s)" by (simp add: history_ok_def)
  with send_go(4,5) have "\<not> closed (chan s)" "chan_ok c" "closed c = closed (chan s)"
    "chan_contents c = chan_contents (chan s) @ [v]"
    by (auto elim: send_goE)
  with send_go assms(2) show ?thesis by (auto simp: history_ok_def)
next
  case (recv_null i c)
  with assms(2) show ?thesis by (auto simp: history_ok_def elim: recv_nullE)
next
  case (recv_go i v c)
  with assms(2) recv_locked_ok [of "chan s" moved v c] show ?thesis
    by (auto simp: history_ok_def)
qed (auto simp: history_ok_def)

text \<open>
  A thread that moves from \<open>p\<close> to \<open>q\<close> changes the counters of the two wake-up conditions
  by the difference of the two points.
\<close>

lemma recv_counts_move:
  assumes "i < length ps" and "ps ! i = p"
  shows
    "cnt (\<lambda>x. x = RecvWaiting) (ps[i := q]) + (if p = RecvWaiting then 1 else 0)
       = cnt (\<lambda>x. x = RecvWaiting) ps + (if q = RecvWaiting then 1 else 0)"
    "cnt (\<lambda>x. x = SendNotify) (ps[i := q]) + (if p = SendNotify then 1 else 0)
       = cnt (\<lambda>x. x = SendNotify) ps + (if q = SendNotify then 1 else 0)"
    "cnt (\<lambda>x. x = RecvEnter) (ps[i := q]) + (if p = RecvEnter then 1 else 0)
       = cnt (\<lambda>x. x = RecvEnter) ps + (if q = RecvEnter then 1 else 0)"
    "cnt (\<lambda>x. x = CloseNotifyEmpty) (ps[i := q]) + (if p = CloseNotifyEmpty then 1 else 0)
       = cnt (\<lambda>x. x = CloseNotifyEmpty) ps + (if q = CloseNotifyEmpty then 1 else 0)"
  by (rule cnt_move [OF assms])+

lemma send_counts_move:
  assumes "i < length ps" and "ps ! i = p"
  shows
    "cnt is_send_waiting (ps[i := q]) + (if is_send_waiting p then 1 else 0)
       = cnt is_send_waiting ps + (if is_send_waiting q then 1 else 0)"
    "cnt is_recv_notify (ps[i := q]) + (if is_recv_notify p then 1 else 0)
       = cnt is_recv_notify ps + (if is_recv_notify q then 1 else 0)"
    "cnt is_send_enter (ps[i := q]) + (if is_send_enter p then 1 else 0)
       = cnt is_send_enter ps + (if is_send_enter q then 1 else 0)"
    "cnt (\<lambda>x. x = CloseNotifyEmpty) (ps[i := q]) + (if p = CloseNotifyEmpty then 1 else 0)
       = cnt (\<lambda>x. x = CloseNotifyEmpty) ps + (if q = CloseNotifyEmpty then 1 else 0)"
    "cnt (\<lambda>x. x = CloseNotifyFull) (ps[i := q]) + (if p = CloseNotifyFull then 1 else 0)
       = cnt (\<lambda>x. x = CloseNotifyFull) ps + (if q = CloseNotifyFull then 1 else 0)"
  by (rule cnt_move [OF assms])+

lemma wake_receiver_waiting [simp]: "wake_receiver p \<noteq> RecvWaiting"
  by (cases p) auto

lemma wake_sender_waiting [simp]: "\<not> is_send_waiting (wake_sender p)"
  by (cases p) auto

lemma cnt_none [simp]: "(\<And>x. \<not> P x) \<Longrightarrow> cnt P xs = 0"
  by (simp add: cnt_zero_iff)

lemma wake_receiver_keeps [simp]:
  "is_send_waiting (wake_receiver p) = is_send_waiting p"
  "is_recv_notify (wake_receiver p) = is_recv_notify p"
  "is_send_enter (wake_receiver p) = is_send_enter p"
  "wake_receiver p = CloseNotifyFull \<longleftrightarrow> p = CloseNotifyFull"
  "wake_receiver p = CloseNotifyEmpty \<longleftrightarrow> p = CloseNotifyEmpty"
  by (cases p; simp)+

lemma wake_sender_keeps [simp]:
  "wake_sender p = RecvWaiting \<longleftrightarrow> p = RecvWaiting"
  "wake_sender p = SendNotify \<longleftrightarrow> p = SendNotify"
  "wake_sender p = RecvEnter \<longleftrightarrow> p = RecvEnter"
  "wake_sender p = CloseNotifyEmpty \<longleftrightarrow> p = CloseNotifyEmpty"
  by (cases p; simp)+

lemma receivers_woken_quiet:
  assumes "i < length ps" and "ps ! i = p" and "receivers_woken c ps"
    and "p \<notin> {SendNotify, RecvEnter, CloseNotifyEmpty}"
    and "q \<noteq> RecvWaiting"
  shows "receivers_woken c (ps[i := q])"
  using recv_counts_move [OF assms(1,2), of q] assms(3,4,5)
  by (auto simp: receivers_woken_def split: if_splits)

lemma senders_woken_quiet:
  assumes "i < length ps" and "ps ! i = p" and "senders_woken c ps"
    and "\<not> is_recv_notify p" "\<not> is_send_enter p" "p \<noteq> CloseNotifyEmpty" "p \<noteq> CloseNotifyFull"
    and "\<not> is_send_waiting q"
  shows "senders_woken c (ps[i := q])"
  using send_counts_move [OF assms(1,2), of q] assms(3-)
  by (auto simp: senders_woken_def split: if_splits)

lemma receivers_woken_step:
  assumes "chan_step moved s t" and "history_ok s" and "receivers_woken (chan s) (cthr s)"
  shows "receivers_woken (chan t) (cthr t)"
  using assms(1)
proof (cases rule: chan_step.cases)
  case (send_go i v c)
  from assms(2) have "chan_ok (chan s)" by (simp add: history_ok_def)
  with send_go(4,5) have "csize c = Suc (csize (chan s))" "closed c = closed (chan s)"
    by (auto elim: send_goE)
  with send_go assms(3) recv_counts_move [OF send_go(2,3), of SendNotify]
  show ?thesis by (auto simp: receivers_woken_def)
next
  case (recv_go i v c)
  with assms(2) have "csize (chan s) = Suc (csize c)" "closed c = closed (chan s)"
    using recv_locked_ok [of "chan s" moved v c] by (auto simp: history_ok_def)
  with recv_go assms(3) recv_counts_move [OF recv_go(2,3), of "RecvNotify v"]
  show ?thesis by (auto simp: receivers_woken_def)
next
  case (send_notify_one i j)
  then have "i \<noteq> j" by auto
  with send_notify_one assms(3) recv_counts_move [OF send_notify_one(2,3), of ChIdle]
    recv_counts_move [of j "(cthr s)[i := ChIdle]" RecvWaiting RecvEnter]
  show ?thesis by (auto simp: receivers_woken_def)
next
  case (recv_notify_one i v j w)
  then have "i \<noteq> j" by auto
  with recv_notify_one assms(3) show ?thesis
    by (auto intro!: receivers_woken_quiet [of j _ "SendWaiting w"]
        receivers_woken_quiet [of i _ "RecvNotify v"])
next
  case (send_notify_none i)
  then have "cnt (\<lambda>p. p = RecvWaiting) (cthr s) = 0" by (auto simp: cnt_zero_iff)
  with send_notify_none recv_counts_move [OF send_notify_none(2,3), of ChIdle] show ?thesis
    by (auto simp: receivers_woken_def)
next
  case (close_first i c)
  with assms(3) recv_counts_move [OF close_first(2,3), of CloseNotifyEmpty] show ?thesis
    by (auto simp: receivers_woken_def)
next
  case (recv_block i)
  with recv_counts_move [OF recv_block(2,3), of RecvWaiting] show ?thesis
    by (auto simp: receivers_woken_def recv_pred_def)
next
  case (recv_null i c)
  with assms(3) recv_counts_move [OF recv_null(2,3), of ChIdle] show ?thesis
    by (auto simp: receivers_woken_def elim!: recv_nullE)
next
  case (close_notify_empty i)
  then show ?thesis by (simp add: receivers_woken_def cnt_map)
next
  case (close_notify_full i)
  with assms(3) receivers_woken_quiet [OF close_notify_full(2,3), of "chan s" ChIdle]
  show ?thesis by (simp add: receivers_woken_def cnt_map)
qed (use assms(3) in \<open>auto intro!: receivers_woken_quiet\<close>)

lemma senders_woken_step:
  assumes "chan_step moved s t" and "history_ok s" and "senders_woken (chan s) (cthr s)"
  shows "senders_woken (chan t) (cthr t)"
  using assms(1)
proof (cases rule: chan_step.cases)
  case (send_go i v c)
  from assms(2) have "chan_ok (chan s)" by (simp add: history_ok_def)
  with send_go(4,5) have "csize c = Suc (csize (chan s))" "closed c = closed (chan s)"
    "capacity c = capacity (chan s)"
    by (auto elim: send_goE)
  with send_go assms(3) send_counts_move [OF send_go(2,3), of SendNotify]
  show ?thesis by (auto simp: senders_woken_def split: if_splits)
next
  case (recv_go i v c)
  with assms(2) have "csize (chan s) = Suc (csize c)" "closed c = closed (chan s)"
    "capacity c = capacity (chan s)"
    using recv_locked_ok [of "chan s" moved v c] by (auto simp: history_ok_def)
  with recv_go assms(3) send_counts_move [OF recv_go(2,3), of "RecvNotify v"]
  show ?thesis by (auto simp: senders_woken_def split: if_splits)
next
  case (recv_notify_one i v j w)
  then have "i \<noteq> j" by auto
  with recv_notify_one assms(3) send_counts_move [OF recv_notify_one(2,3), of ChIdle]
    send_counts_move [of j "(cthr s)[i := ChIdle]" "SendWaiting w" "SendEnter w"]
  show ?thesis by (auto simp: senders_woken_def split: if_splits)
next
  case (send_notify_one i j)
  then have "i \<noteq> j" by auto
  with send_notify_one assms(3) show ?thesis
    by (auto intro!: senders_woken_quiet [of j _ RecvWaiting] senders_woken_quiet [of i _ SendNotify])
next
  case (recv_notify_none i v)
  then have "cnt is_send_waiting (cthr s) = 0" by (auto simp: cnt_zero_iff)
  with recv_notify_none send_counts_move [OF recv_notify_none(2,3), of ChIdle] show ?thesis
    by (auto simp: senders_woken_def)
next
  case (close_first i c)
  with assms(3) send_counts_move [OF close_first(2,3), of CloseNotifyEmpty] show ?thesis
    by (auto simp: senders_woken_def)
next
  case (send_block i v)
  with send_counts_move [OF send_block(2,3), of "SendWaiting v"] show ?thesis
    by (auto simp: senders_woken_def send_pred_def)
next
  case (send_throw i v e)
  with assms(3) send_counts_move [OF send_throw(2,3), of ChIdle] show ?thesis
    by (auto simp: senders_woken_def elim!: send_throwE)
next
  case (close_notify_full i)
  then show ?thesis by (simp add: senders_woken_def cnt_map)
next
  case (close_notify_empty i)
  with send_counts_move [OF close_notify_empty(2,3), of CloseNotifyFull] assms(3)
  show ?thesis by (auto simp: senders_woken_def cnt_map split: if_splits)
next
  case (spurious_send i v)
  with assms(3) send_counts_move [OF spurious_send(2,3), of "SendEnter v"] show ?thesis
    by (auto simp: senders_woken_def split: if_splits)
next
  case (recv_null i c)
  with assms(3) show ?thesis
    by (auto intro!: senders_woken_quiet elim!: recv_nullE)
qed (use assms(3) in \<open>auto intro!: senders_woken_quiet\<close>)

interpretation monitor: invariant_system "chan_init dflt n" "chan_step moved" chan_good
  for dflt n moved
proof unfold_locales
  show "chan_good s" if "chan_init dflt n s" for s
    using that by (rule chan_init_good)
  show "chan_good t" if "chan_step moved s t" "chan_good s" for s t
    using that history_ok_step receivers_woken_step senders_woken_step
    by (auto simp: chan_good_def)
qed

section \<open>An executable scheduler\<close>

text \<open>
  A turn starts a call of a thread or lets it run to its next step; a \<open>notify_one\<close> with a
  waiter to choose is left to the relation (\<open>None\<close>).
\<close>

datatype 'a chan_action = TurnSend nat 'a | TurnRecv nat | TurnClose nat | TurnGo nat

definition chan_go :: "('a \<Rightarrow> 'a) \<Rightarrow> nat \<Rightarrow> 'a chan_sys \<Rightarrow> 'a chan_sys option" where
  "chan_go moved i s =
     (case cthr s ! i of
        SendEnter v \<Rightarrow>
          (if \<not> send_pred (chan s) then Some (s\<lparr>cthr := (cthr s)[i := SendWaiting v]\<rparr>)
           else case send_locked v (chan s) of
                  Inl e \<Rightarrow> Some (s\<lparr>cthr := (cthr s)[i := ChIdle], threw := threw s @ [i]\<rparr>)
                | Inr c \<Rightarrow> Some (s\<lparr>chan := c, cthr := (cthr s)[i := SendNotify], sent := sent s @ [(i, v)]\<rparr>))
      | RecvEnter \<Rightarrow>
          (if \<not> recv_pred (chan s) then Some (s\<lparr>cthr := (cthr s)[i := RecvWaiting]\<rparr>)
           else case recv_locked moved (chan s) of
                  (None, c) \<Rightarrow> Some (s\<lparr>chan := c, cthr := (cthr s)[i := ChIdle], nulls := nulls s @ [i]\<rparr>)
                | (Some v, c) \<Rightarrow> Some (s\<lparr>chan := c, cthr := (cthr s)[i := RecvNotify v],
                    recvd := recvd s @ [(i, v)]\<rparr>))
      | CloseEnter \<Rightarrow>
          (case close_locked (chan s) of
             (False, c) \<Rightarrow> Some (s\<lparr>chan := c, cthr := (cthr s)[i := ChIdle]\<rparr>)
           | (True, c) \<Rightarrow> Some (s\<lparr>chan := c, cthr := (cthr s)[i := CloseNotifyEmpty]\<rparr>))
      | CloseNotifyEmpty \<Rightarrow> Some (s\<lparr>cthr := map wake_receiver ((cthr s)[i := CloseNotifyFull])\<rparr>)
      | CloseNotifyFull \<Rightarrow> Some (s\<lparr>cthr := map wake_sender ((cthr s)[i := ChIdle])\<rparr>)
      | SendNotify \<Rightarrow> (if RecvWaiting \<in> set (cthr s) then None else Some (s\<lparr>cthr := (cthr s)[i := ChIdle]\<rparr>))
      | RecvNotify v \<Rightarrow> (if list_ex is_send_waiting (cthr s) then None
          else Some (s\<lparr>cthr := (cthr s)[i := ChIdle]\<rparr>))
      | _ \<Rightarrow> None)"

fun chan_turn :: "('a \<Rightarrow> 'a) \<Rightarrow> 'a chan_action \<Rightarrow> 'a chan_sys \<Rightarrow> 'a chan_sys option" where
  "chan_turn moved (TurnSend i v) s =
     (if i < length (cthr s) \<and> cthr s ! i = ChIdle then Some (s\<lparr>cthr := (cthr s)[i := SendEnter v]\<rparr>) else None)"
| "chan_turn moved (TurnRecv i) s =
     (if i < length (cthr s) \<and> cthr s ! i = ChIdle then Some (s\<lparr>cthr := (cthr s)[i := RecvEnter]\<rparr>) else None)"
| "chan_turn moved (TurnClose i) s =
     (if i < length (cthr s) \<and> cthr s ! i = ChIdle then Some (s\<lparr>cthr := (cthr s)[i := CloseEnter]\<rparr>) else None)"
| "chan_turn moved (TurnGo i) s = (if i < length (cthr s) then chan_go moved i s else None)"

abbreviation chan_turns :: "('a \<Rightarrow> 'a) \<Rightarrow> 'a chan_action list \<Rightarrow> 'a chan_sys \<Rightarrow> 'a chan_sys option" where
  "chan_turns moved \<equiv> run_turns (chan_turn moved)"

lemma chan_go_step:
  assumes "chan_go moved i s = Some t" and "i < length (cthr s)"
  shows "chan_step moved s t"
proof (cases "cthr s ! i")
  case (SendEnter v)
  with assms chan_step.send_block [of i s v moved] chan_step.send_throw [of i s v _ moved]
    chan_step.send_go [of i s v _ moved]
  show ?thesis by (auto simp: chan_go_def split: if_splits sum.splits)
next
  case RecvEnter
  with assms chan_step.recv_block [of i s moved] chan_step.recv_null [of i s moved]
    chan_step.recv_go [of i s moved]
  show ?thesis by (auto simp: chan_go_def split: if_splits prod.splits option.splits)
next
  case CloseEnter
  with assms chan_step.close_again [of i s _ moved] chan_step.close_first [of i s _ moved]
  show ?thesis by (auto simp: chan_go_def split: prod.splits bool.splits)
next
  case CloseNotifyEmpty
  with assms chan_step.close_notify_empty [of i s moved] show ?thesis by (auto simp: chan_go_def)
next
  case CloseNotifyFull
  with assms chan_step.close_notify_full [of i s moved] show ?thesis by (auto simp: chan_go_def)
next
  case SendNotify
  with assms chan_step.send_notify_none [of i s moved] show ?thesis
    by (auto simp: chan_go_def split: if_splits)
next
  case (RecvNotify v)
  with assms chan_step.recv_notify_none [of i s v moved] show ?thesis
    by (auto simp: chan_go_def list_ex_iff split: if_splits)
qed (use assms in \<open>simp_all add: chan_go_def\<close>)

lemma chan_turn_step: "chan_turn moved x s = Some t \<Longrightarrow> chan_step moved s t"
  by (cases x) (auto intro: chan_go_step chan_step.intros(1,8,15) split: if_splits)

interpretation chan_schedule: scheduled_system "chan_step moved" "chan_turn moved" for moved
  by unfold_locales (rule chan_turn_step)

lemmas chan_turns_run = chan_schedule.turns_run
lemmas chan_turns_reach = chan_schedule.turns_reach

section \<open>Properties\<close>

text \<open>A channel of capacity 1 and three threads.\<close>

definition chan_start :: "int chan_sys" where
  "chan_start = \<lparr>chan = BufferedChannel 0 1, cthr = [ChIdle, ChIdle, ChIdle],
     sent = [], recvd = [], threw = [], nulls = []\<rparr>"

lemma chan_start_init: "chan_init 0 1 chan_start"
  by (simp add: chan_init_def chan_start_def exI [of _ 3] numeral_3_eq_3)

lemmas chan_eval = chan_start_def BufferedChannel_def Let_def chan_go_def send_pred_def recv_pred_def
  send_locked_def recv_locked_def close_locked_def chan_contents_def

lemma chan_capacity_step:
  assumes "chan_step moved s t"
  shows "capacity (chan t) = capacity (chan s)"
  using assms
  by (cases rule: chan_step.cases)
    (auto simp: send_locked_def recv_locked_def close_locked_def Let_def split: if_splits)

lemma chan_capacity_run:
  "(chan_step moved)\<^sup>*\<^sup>* s t \<Longrightarrow> capacity (chan t) = capacity (chan s)"
  by (induction rule: rtranclp_induct) (auto dest: chan_capacity_step)

text \<open>C8: On every run of any number of threads, the values sent are the values received followed by
  the contents of the ring, in order: nothing is lost, duplicated or reordered; and the channel
  never holds more than its capacity, which is the constructor's argument, or 1 when that is not
  positive.\<close>
theorem channel_fifo:
  assumes "chan_init dflt n s" and "(chan_step moved)\<^sup>*\<^sup>* s t"
  shows "map snd (sent t) = map snd (recvd t) @ chan_contents (chan t) \<and>
    csize (chan t) \<le> (if n > 0 then nat n else 1)"
proof -
  have ok: "history_ok t" using monitor.reachable_good [OF assms] by (simp add: chan_good_def)
  have "capacity (chan s) = (if n > 0 then nat n else 1)"
    using assms(1) by (auto simp: chan_init_def BufferedChannel_def Let_def)
  with ok chan_capacity_run [OF assms(2)] show ?thesis
    by (simp add: history_ok_def chan_ok_def split: if_splits)
qed

theorem channel_fifo_witness:
  "\<exists>t. (chan_step id)\<^sup>*\<^sup>* chan_start t \<and> map snd (sent t) = [5, 6] \<and> map snd (recvd t) = [5] \<and>
     map snd (sent t) = map snd (recvd t) @ chan_contents (chan t) \<and>
     csize (chan t) \<le> (if (1 :: int) > 0 then nat 1 else 1)"
proof -
  have "\<exists>t. (chan_step id)\<^sup>*\<^sup>* chan_start t \<and> (map snd (sent t) = [5, 6] \<and> map snd (recvd t) = [5])"
    by (rule chan_turns_reach [where ms = "[TurnSend 0 5, TurnGo 0, TurnGo 0, TurnRecv 1, TurnGo 1, TurnGo 1,
          TurnSend 2 6, TurnGo 2]"]) (simp add: chan_eval)
  then obtain t where t: "(chan_step id)\<^sup>*\<^sup>* chan_start t" "map snd (sent t) = [5, 6]" "map snd (recvd t) = [5]"
    by (elim exE conjE) (rule that)
  note p = channel_fifo [OF chan_start_init t(1)]
  show ?thesis by (intro exI [of _ t] conjI t p [THEN conjunct1] p [THEN conjunct2])
qed

text \<open>C30: Each step of the monitor is a step of a bounded queue that can be closed, or leaves it
  alone: a send appends to an open queue that is not full, a receive takes the oldest value of a
  queue that is not empty, and close is final: afterwards nothing is appended.\<close>
theorem channel_refines_closable_queue:
  assumes "chan_init dflt n s" and "(chan_step moved)\<^sup>*\<^sup>* s t" and "chan_step moved t u"
  shows
    "(chan_contents (chan u) = chan_contents (chan t) \<and> closed (chan u) = closed (chan t) \<and>
       sent u = sent t \<and> recvd u = recvd t) \<or>
     (\<exists>i v. \<not> closed (chan t) \<and> \<not> closed (chan u) \<and>
       length (chan_contents (chan t)) < capacity (chan t) \<and>
       chan_contents (chan u) = chan_contents (chan t) @ [v] \<and> sent u = sent t @ [(i, v)] \<and> recvd u = recvd t) \<or>
     (\<exists>i v. closed (chan u) = closed (chan t) \<and> chan_contents (chan t) = v # chan_contents (chan u) \<and>
       recvd u = recvd t @ [(i, v)] \<and> sent u = sent t) \<or>
     (\<not> closed (chan t) \<and> closed (chan u) \<and> chan_contents (chan u) = chan_contents (chan t) \<and>
       sent u = sent t \<and> recvd u = recvd t)"
proof -
  have ok: "chan_ok (chan t)"
    using monitor.reachable_good [OF assms(1,2)] by (simp add: chan_good_def history_ok_def)
  show ?thesis
    using assms(3)
  proof (cases rule: chan_step.cases)
    case (send_go i v c)
    from send_goE [OF send_go(4,5) ok] have "\<not> closed (chan t)" "csize (chan t) < capacity (chan t)"
      "closed c = closed (chan t)" "chan_contents c = chan_contents (chan t) @ [v]" by auto
    with send_go show ?thesis by auto
  next
    case (recv_go i v c)
    with recv_locked_ok [OF ok recv_go(5)] show ?thesis by auto
  qed (auto simp: recv_locked_None)
qed

theorem channel_refines_closable_queue_witness:
  "\<exists>t u. (chan_step id)\<^sup>*\<^sup>* chan_start t \<and> chan_step id t u \<and> sent t = [] \<and> sent u = [(0, 5)] \<and>
    ((chan_contents (chan u) = chan_contents (chan t) \<and> closed (chan u) = closed (chan t) \<and>
       sent u = sent t \<and> recvd u = recvd t) \<or>
     (\<exists>i v. \<not> closed (chan t) \<and> \<not> closed (chan u) \<and>
       length (chan_contents (chan t)) < capacity (chan t) \<and>
       chan_contents (chan u) = chan_contents (chan t) @ [v] \<and> sent u = sent t @ [(i, v)] \<and> recvd u = recvd t) \<or>
     (\<exists>i v. closed (chan u) = closed (chan t) \<and> chan_contents (chan t) = v # chan_contents (chan u) \<and>
       recvd u = recvd t @ [(i, v)] \<and> sent u = sent t) \<or>
     (\<not> closed (chan t) \<and> closed (chan u) \<and> chan_contents (chan u) = chan_contents (chan t) \<and>
       sent u = sent t \<and> recvd u = recvd t))"
proof -
  let ?t = "chan_start\<lparr>cthr := [SendEnter 5, ChIdle, ChIdle]\<rparr>"
  have "chan_turns id [TurnSend 0 5] chan_start = Some ?t" by (simp add: chan_eval)
  then have t: "(chan_step id)\<^sup>*\<^sup>* chan_start ?t" by (rule chan_turns_run)
  obtain u where u: "chan_turn id (TurnGo 0) ?t = Some u" "sent u = [(0, 5)]"
    by (simp add: chan_eval)
  have "sent ?t = []" by (simp add: chan_start_def)
  with u(2) t chan_turn_step [OF u(1)] channel_refines_closable_queue [OF chan_start_init t chan_turn_step [OF u(1)]]
  show ?thesis by blast
qed

lemma quiet_waiters:
  assumes "chan_good t"
    and "\<forall>p \<in> set (cthr t). p = ChIdle \<or> p = RecvWaiting \<or> is_send_waiting p"
  shows "(RecvWaiting \<in> set (cthr t) \<longrightarrow> \<not> closed (chan t) \<and> csize (chan t) = 0) \<and>
    (list_ex is_send_waiting (cthr t) \<longrightarrow> \<not> closed (chan t) \<and> csize (chan t) = capacity (chan t))"
proof -
  have good: "receivers_woken (chan t) (cthr t)" "senders_woken (chan t) (cthr t)" "chan_ok (chan t)"
    using assms(1) by (simp_all add: chan_good_def history_ok_def)
  have none: "cnt P (cthr t) = 0" if "\<not> P ChIdle" "\<not> P RecvWaiting" "\<And>v. \<not> P (SendWaiting v)" for P
    using assms(2) that by (force simp: cnt_zero_iff elim: is_send_waiting.elims)
  have zero: "cnt (\<lambda>p. p = SendNotify) (cthr t) = 0" "cnt (\<lambda>p. p = RecvEnter) (cthr t) = 0"
    "cnt (\<lambda>p. p = CloseNotifyEmpty) (cthr t) = 0" "cnt (\<lambda>p. p = CloseNotifyFull) (cthr t) = 0"
    "cnt is_recv_notify (cthr t) = 0" "cnt is_send_enter (cthr t) = 0"
    by (rule none; simp)+
  have "RecvWaiting \<in> set (cthr t) \<Longrightarrow> 0 < cnt (\<lambda>p. p = RecvWaiting) (cthr t)"
    using cnt_zero_iff [of "\<lambda>p. p = RecvWaiting" "cthr t"] by fastforce
  moreover have "list_ex is_send_waiting (cthr t) \<Longrightarrow> 0 < cnt is_send_waiting (cthr t)"
    using cnt_zero_iff [of is_send_waiting "cthr t"] by (fastforce simp: list_ex_iff)
  ultimately show ?thesis
    using good zero by (auto simp: receivers_woken_def senders_woken_def chan_ok_def split: if_splits)
qed

text \<open>C10: No wake-up is lost, although each send and each receive notifies one waiter only and the
  notification comes after the unlock: in a state in which every thread is idle or asleep, a
  sleeping receiver means that the channel is open and empty, and a sleeping sender that it is
  open and full. In particular nobody stays asleep on a closed channel.\<close>
theorem channel_no_lost_wakeup:
  assumes "chan_init dflt n s" and "(chan_step moved)\<^sup>*\<^sup>* s t"
    and "\<forall>p \<in> set (cthr t). p = ChIdle \<or> p = RecvWaiting \<or> is_send_waiting p"
  shows "(RecvWaiting \<in> set (cthr t) \<longrightarrow> \<not> closed (chan t) \<and> csize (chan t) = 0) \<and>
    (list_ex is_send_waiting (cthr t) \<longrightarrow> \<not> closed (chan t) \<and> csize (chan t) = capacity (chan t))"
  using monitor.reachable_good [OF assms(1,2)] assms(3) by (rule quiet_waiters)

theorem channel_no_lost_wakeup_witness:
  "\<exists>t. (chan_step id)\<^sup>*\<^sup>* chan_start t \<and> cthr t = [ChIdle, SendWaiting 6, ChIdle] \<and>
    (RecvWaiting \<in> set (cthr t) \<longrightarrow> \<not> closed (chan t) \<and> csize (chan t) = 0) \<and>
    (list_ex is_send_waiting (cthr t) \<longrightarrow> \<not> closed (chan t) \<and> csize (chan t) = capacity (chan t))"
proof -
  have "\<exists>t. (chan_step id)\<^sup>*\<^sup>* chan_start t \<and> cthr t = [ChIdle, SendWaiting 6, ChIdle]"
    by (rule chan_turns_reach [where ms = "[TurnSend 0 5, TurnGo 0, TurnGo 0, TurnSend 1 6, TurnGo 1]"])
      (simp add: chan_eval)
  then obtain t where t: "(chan_step id)\<^sup>*\<^sup>* chan_start t" "cthr t = [ChIdle, SendWaiting 6, ChIdle]"
    by (elim exE conjE) (rule that)
  have "\<forall>p \<in> set (cthr t). p = ChIdle \<or> p = RecvWaiting \<or> is_send_waiting p" by (simp add: t(2))
  note p = channel_no_lost_wakeup [OF chan_start_init t(1) this]
  show ?thesis by (intro exI [of _ t] conjI t p [THEN conjunct1] p [THEN conjunct2])
qed

text \<open>Recv returns nullopt only when the channel is closed and everything that was ever sent has
  been received; Send throws only on a closed channel.\<close>
theorem channel_drained_before_nullopt:
  assumes "chan_init dflt n s" and "(chan_step moved)\<^sup>*\<^sup>* s t"
  shows "(nulls t \<noteq> [] \<longrightarrow> closed (chan t) \<and> map snd (sent t) = map snd (recvd t)) \<and>
    (threw t \<noteq> [] \<longrightarrow> closed (chan t))"
proof -
  have "history_ok t" using monitor.reachable_good [OF assms] by (simp add: chan_good_def)
  then show ?thesis by (auto simp: history_ok_def chan_contents_def)
qed

theorem channel_drained_before_nullopt_witness:
  "\<exists>t. (chan_step id)\<^sup>*\<^sup>* chan_start t \<and> nulls t = [1] \<and> threw t = [2] \<and>
    (nulls t \<noteq> [] \<longrightarrow> closed (chan t) \<and> map snd (sent t) = map snd (recvd t)) \<and>
    (threw t \<noteq> [] \<longrightarrow> closed (chan t))"
proof -
  have "\<exists>t. (chan_step id)\<^sup>*\<^sup>* chan_start t \<and> (nulls t = [1] \<and> threw t = [2])"
    by (rule chan_turns_reach [where ms = "[TurnSend 0 5, TurnGo 0, TurnGo 0, TurnClose 0, TurnGo 0, TurnGo 0,
          TurnGo 0, TurnRecv 1, TurnGo 1, TurnGo 1, TurnRecv 1, TurnGo 1, TurnSend 2 7, TurnGo 2]"])
      (simp add: chan_eval)
  then obtain t where t: "(chan_step id)\<^sup>*\<^sup>* chan_start t" "nulls t = [1]" "threw t = [2]"
    by (elim exE conjE) (rule that)
  note p = channel_drained_before_nullopt [OF chan_start_init t(1)]
  show ?thesis by (intro exI [of _ t] conjI t p [THEN conjunct1] p [THEN conjunct2])
qed

text \<open>The ring buffer alone, without threads: on any sequence of sends and receives on a new
  channel the accepted values come out in order, and at most the capacity is held.\<close>
theorem channel_run_fifo:
  assumes "run_ops chan_put (chan_get moved) (BufferedChannel dflt n) os = (ins, outs, c)"
  shows "ins = outs @ chan_contents c \<and> length (chan_contents c) \<le> (if n > 0 then nat n else 1)"
proof -
  have new: "chan_ok (BufferedChannel dflt n) \<and> \<not> closed (BufferedChannel dflt n)"
    "capacity (BufferedChannel dflt n) = (if n > 0 then nat n else 1)"
    using chan_ok_new [of dflt n] by (simp_all add: BufferedChannel_def Let_def)
  from ring.run_ops_fifo [OF new(1) assms] new(2) show ?thesis by simp
qed

theorem channel_run_fifo_witness:
  "\<exists>ins outs c. run_ops chan_put (chan_get id) (BufferedChannel 0 2) [Put 1, Put 2, Put 3, Get, Put (4 :: int)]
      = (ins, outs, c) \<and>
    ins = outs @ chan_contents c \<and> length (chan_contents c) \<le> (if (2 :: int) > 0 then nat 2 else 1)"
proof -
  obtain ins outs c where r: "run_ops chan_put (chan_get id) (BufferedChannel 0 2)
      [Put 1, Put 2, Put 3, Get, Put (4 :: int)] = (ins, outs, c)" by (metis prod_cases3)
  from channel_run_fifo [OF r] r show ?thesis by blast
qed

end
