(* ===== verification/Channel_Client.thy ===== *)
theory Channel_Client
  imports Channel_Monitor
begin

text \<open>
  A client of the channel: the program of \<^verbatim>\<open>hw-3/benchmark.cpp\<close>. \<open>CalcSum\<close> starts a
  thread that runs \<open>Send\<close> and a number of reader threads, joins them and returns the sum
  of what the readers received; \<open>Send\<close> starts the sender threads, joins them and closes the
  channel. Every step of the program is a step of one thread: local code, or a step of the
  monitor of theory \<open>Channel_Monitor\<close>, so that what is proved of the channel there holds
  of it here. The number of values (\<open>kCount\<close> in the code) is the parameter \<open>kcount\<close>.
\<close>

section \<open>Threads\<close>

text \<open>
  The sender threads are the threads \<open>0 ..< senders_count\<close> of the monitor, the readers come
  next, and the thread that runs \<open>Send\<close> is the last. The main thread never touches the
  channel. \<open>STerminated\<close> is a sender whose \<open>Send\<close> threw: the exception leaves the thread
  function, which is \<open>std::terminate\<close>.
\<close>

datatype sum_sender = SNew | SLoop int | SIn int | SDone | STerminated
datatype sum_reader = RNew | RLoop | RIn | RGot int | RDone
datatype sum_closer = CNew | CSpawn nat | CJoin nat | CClosing | CDone
datatype sum_main = MStart | MSpawn nat | MJoin nat | MJoinSender | MReturned

record bench =
  csys :: "int chan_sys"
  senders :: "sum_sender list"
  readers :: "sum_reader list"
  closer :: sum_closer
  main_thread :: sum_main
  total :: u64
  answer :: "u64 option"

definition kCount :: int where
  "kCount = 500000"

definition bench_start :: "nat \<Rightarrow> nat \<Rightarrow> int \<Rightarrow> bench" where
  "bench_start senders_count readers_count buff_size =
     \<lparr>csys = \<lparr>chan = BufferedChannel 0 buff_size,
              cthr = replicate (senders_count + readers_count + 1) ChIdle,
              sent = [], recvd = [], threw = [], nulls = []\<rparr>,
      senders = replicate senders_count SNew, readers = replicate readers_count RNew,
      closer = CNew, main_thread = MStart, total = 0, answer = None\<rparr>"

text \<open>A thread enters an operation of the channel.\<close>

definition enter :: "nat \<Rightarrow> int chan_pc \<Rightarrow> bench \<Rightarrow> bench" where
  "enter k p b = b\<lparr>csys := (csys b)\<lparr>cthr := (cthr (csys b))[k := p]\<rparr>\<rparr>"

section \<open>What each thread does between the operations of the channel\<close>

text \<open>The loop of the lambda in \<open>Send\<close>: \<open>for (i = start; i < kCount; i += threads_count)\<close>.\<close>

definition sender_move :: "int \<Rightarrow> nat \<Rightarrow> bench \<Rightarrow> bench option" where
  "sender_move kcount j b =
     (case senders b ! j of
        SLoop i \<Rightarrow>
          (if i < kcount
           then Some (enter j (SendEnter i) (b\<lparr>senders := (senders b)[j := SIn i]\<rparr>))
           else Some (b\<lparr>senders := (senders b)[j := SDone]\<rparr>))
      | _ \<Rightarrow> None)"

text \<open>The loop of a reader: \<open>Recv\<close>, and the value is added to the atomic sum.\<close>

definition reader_move :: "nat \<Rightarrow> bench \<Rightarrow> bench option" where
  "reader_move j b =
     (case readers b ! j of
        RLoop \<Rightarrow> Some (enter (length (senders b) + j) RecvEnter (b\<lparr>readers := (readers b)[j := RIn]\<rparr>))
      | RGot v \<Rightarrow> Some (b\<lparr>readers := (readers b)[j := RLoop], total := total b + word_of_int v\<rparr>)
      | _ \<Rightarrow> None)"

text \<open>\<open>Send\<close>: it starts the senders, joins them in order and closes the channel.\<close>

definition closer_move :: "bench \<Rightarrow> bench option" where
  "closer_move b =
     (case closer b of
        CSpawn j \<Rightarrow>
          (if j < length (senders b)
           then Some (b\<lparr>senders := (senders b)[j := SLoop (int j)], closer := CSpawn (Suc j)\<rparr>)
           else Some (b\<lparr>closer := CJoin 0\<rparr>))
      | CJoin j \<Rightarrow>
          (if j < length (senders b)
           then (if senders b ! j = SDone then Some (b\<lparr>closer := CJoin (Suc j)\<rparr>) else None)
           else Some (enter (length (senders b) + length (readers b)) CloseEnter (b\<lparr>closer := CClosing\<rparr>)))
      | _ \<Rightarrow> None)"

text \<open>\<open>CalcSum\<close>: it starts \<open>Send\<close> and the readers, joins the readers, then \<open>Send\<close>.\<close>

definition main_move :: "bench \<Rightarrow> bench option" where
  "main_move b =
     (case main_thread b of
        MStart \<Rightarrow> Some (b\<lparr>closer := CSpawn 0, main_thread := MSpawn 0\<rparr>)
      | MSpawn j \<Rightarrow>
          (if j < length (readers b)
           then Some (b\<lparr>readers := (readers b)[j := RLoop], main_thread := MSpawn (Suc j)\<rparr>)
           else Some (b\<lparr>main_thread := MJoin 0\<rparr>))
      | MJoin j \<Rightarrow>
          (if j < length (readers b)
           then (if readers b ! j = RDone then Some (b\<lparr>main_thread := MJoin (Suc j)\<rparr>) else None)
           else Some (b\<lparr>main_thread := MJoinSender\<rparr>))
      | MJoinSender \<Rightarrow>
          (if closer b = CDone then Some (b\<lparr>main_thread := MReturned, answer := Some (total b)\<rparr>) else None)
      | MReturned \<Rightarrow> None)"

section \<open>Returns from the channel\<close>

text \<open>What a thread does with the end of its operation; the point it leaves says how it ended.\<close>

fun sender_after :: "nat \<Rightarrow> sum_sender \<Rightarrow> int chan_pc \<Rightarrow> sum_sender" where
  "sender_after threads_count (SIn i) SendNotify = SLoop (i + int threads_count)"
| "sender_after threads_count (SIn i) (SendEnter v) = STerminated"
| "sender_after threads_count p q = p"

fun reader_after :: "sum_reader \<Rightarrow> int chan_pc \<Rightarrow> sum_reader" where
  "reader_after RIn (RecvNotify v) = RGot v"
| "reader_after RIn RecvEnter = RDone"
| "reader_after p q = p"

fun closer_after :: "sum_closer \<Rightarrow> int chan_pc \<Rightarrow> sum_closer" where
  "closer_after CClosing CloseEnter = CDone"
| "closer_after CClosing CloseNotifyFull = CDone"
| "closer_after p q = p"

definition returns :: "int chan_sys \<Rightarrow> int chan_sys \<Rightarrow> nat \<Rightarrow> bool" where
  "returns c c' k \<longleftrightarrow> cthr c ! k \<noteq> ChIdle \<and> cthr c' ! k = ChIdle"

definition no_call :: "int chan_sys \<Rightarrow> int chan_sys \<Rightarrow> bool" where
  "no_call c c' \<longleftrightarrow> (\<forall>k \<in> set [0..<length (cthr c)]. cthr c ! k = ChIdle \<longrightarrow> cthr c' ! k = ChIdle)"

definition after_chan :: "int chan_sys \<Rightarrow> bench \<Rightarrow> bench" where
  "after_chan c' b =
     (let c = csys b; n = length (senders b); m = length (readers b) in
      b\<lparr>csys := c',
        senders := map (\<lambda>j. if returns c c' j then sender_after n (senders b ! j) (cthr c ! j)
                            else senders b ! j) [0..<n],
        readers := map (\<lambda>j. if returns c c' (n + j) then reader_after (readers b ! j) (cthr c ! (n + j))
                            else readers b ! j) [0..<m],
        closer := (if returns c c' (n + m) then closer_after (closer b) (cthr c ! (n + m)) else closer b)\<rparr>)"

inductive bench_step :: "int \<Rightarrow> bench \<Rightarrow> bench \<Rightarrow> bool" for kcount where
  sender: "j < length (senders b) \<Longrightarrow> sender_move kcount j b = Some b' \<Longrightarrow> bench_step kcount b b'"
| reader: "j < length (readers b) \<Longrightarrow> reader_move j b = Some b' \<Longrightarrow> bench_step kcount b b'"
| closer: "closer_move b = Some b' \<Longrightarrow> bench_step kcount b b'"
| main: "main_move b = Some b' \<Longrightarrow> bench_step kcount b b'"
| channel: "chan_step id (csys b) c' \<Longrightarrow> no_call (csys b) c' \<Longrightarrow> bench_step kcount b (after_chan c' b)"

section \<open>A step of the monitor, seen by its threads\<close>

text \<open>
  One thread moves, from \<open>p\<close> to \<open>q\<close>; the others stay, or wake up.
\<close>

fun point_move :: "int chan_sys \<Rightarrow> int chan_sys \<Rightarrow> int chan_pc \<Rightarrow> int chan_pc \<Rightarrow> bool" where
  "point_move s t (SendEnter v) q \<longleftrightarrow>
     q = SendWaiting v \<or> q = SendNotify \<or> q = ChIdle \<and> closed (chan s)"
| "point_move s t (SendWaiting v) q \<longleftrightarrow> q = SendEnter v"
| "point_move s t SendNotify q \<longleftrightarrow> q = ChIdle"
| "point_move s t RecvEnter q \<longleftrightarrow>
     q = RecvWaiting \<or> q = ChIdle \<and> nulls t \<noteq> [] \<or> (\<exists>v. q = RecvNotify v)"
| "point_move s t RecvWaiting q \<longleftrightarrow> q = RecvEnter"
| "point_move s t (RecvNotify v) q \<longleftrightarrow> q = ChIdle"
| "point_move s t CloseEnter q \<longleftrightarrow> (q = ChIdle \<or> q = CloseNotifyEmpty) \<and> closed (chan t)"
| "point_move s t CloseNotifyEmpty q \<longleftrightarrow> q = CloseNotifyFull"
| "point_move s t CloseNotifyFull q \<longleftrightarrow> q = ChIdle"
| "point_move s t ChIdle q \<longleftrightarrow> False"

fun stays :: "'a chan_pc \<Rightarrow> 'a chan_pc \<Rightarrow> bool" where
  "stays RecvWaiting q \<longleftrightarrow> q = RecvWaiting \<or> q = RecvEnter"
| "stays (SendWaiting v) q \<longleftrightarrow> q = SendWaiting v \<or> q = SendEnter v"
| "stays p q \<longleftrightarrow> q = p"

lemma stays_refl [simp]: "stays p p"
  by (cases p) auto

lemma stays_wake [simp]: "stays p (wake_receiver p)" "stays p (wake_sender p)"
  by (cases p; simp)+

lemma stays_idle: "stays p q \<Longrightarrow> p = ChIdle \<longleftrightarrow> q = ChIdle"
  by (cases p) auto

lemma no_callD: "no_call c c' \<Longrightarrow> k < length (cthr c) \<Longrightarrow> cthr c ! k = ChIdle \<Longrightarrow> cthr c' ! k = ChIdle"
  by (auto simp: no_call_def)

section \<open>The values on their way\<close>

text \<open>
  Where a value is, from the loop that will send it to the sum it is added to: the sum of all
  of them, over machine integers, does not change in a run.
\<close>

fun point_val :: "int chan_pc \<Rightarrow> u64" where
  "point_val (SendEnter v) = word_of_int v"
| "point_val (SendWaiting v) = word_of_int v"
| "point_val (RecvNotify v) = word_of_int v"
| "point_val _ = 0"

definition ring_val :: "int channel \<Rightarrow> u64" where
  "ring_val c = sum_list (map word_of_int (chan_contents c))"

definition chan_val :: "int chan_sys \<Rightarrow> u64" where
  "chan_val s = ring_val (chan s) + sum_list (map point_val (cthr s))"

text \<open>What a thread takes with it when its operation returns.\<close>

definition brought :: "int chan_pc \<Rightarrow> int chan_pc \<Rightarrow> u64" where
  "brought p q = (if q = ChIdle then point_val p else 0)"

lemma ring_val_close [simp]: "ring_val (c\<lparr>closed := x\<rparr>) = ring_val c"
  by (simp add: ring_val_def)

lemma stays_val: "stays p q \<Longrightarrow> point_val q = point_val p"
  by (cases p) auto

text \<open>Thread \<open>k\<close> makes the step from \<open>s\<close> to \<open>t\<close>.\<close>

definition mover :: "nat \<Rightarrow> int chan_sys \<Rightarrow> int chan_sys \<Rightarrow> bool" where
  "mover k s t \<longleftrightarrow> k < length (cthr s) \<and> length (cthr t) = length (cthr s) \<and>
    point_move s t (cthr s ! k) (cthr t ! k) \<and>
    (\<forall>j < length (cthr s). j \<noteq> k \<longrightarrow> stays (cthr s ! j) (cthr t ! j)) \<and>
    (closed (chan t) \<longrightarrow> closed (chan s) \<or> cthr s ! k = CloseEnter) \<and>
    (closed (chan s) \<longrightarrow> closed (chan t)) \<and> (nulls s \<noteq> [] \<longrightarrow> nulls t \<noteq> []) \<and>
    ring_val (chan t) + point_val (cthr t ! k) + brought (cthr s ! k) (cthr t ! k)
      = ring_val (chan s) + point_val (cthr s ! k)"

lemma monitor_step_mover:
  assumes "chan_step id s t" and "no_call s t" and "chan_ok (chan s)"
  shows "\<exists>k. mover k s t"
  using assms(1)
proof (cases rule: chan_step.cases)
  case (call_send i v)
  with no_callD [OF assms(2), of i] show ?thesis by simp
next
  case (call_recv i)
  with no_callD [OF assms(2), of i] show ?thesis by simp
next
  case (call_close i)
  with no_callD [OF assms(2), of i] show ?thesis by simp
next
  case (send_notify_one i j)
  then have "i \<noteq> j" by auto
  with send_notify_one show ?thesis
    by (intro exI [of _ i]) (auto simp: mover_def nth_list_update brought_def)
next
  case (recv_notify_one i v j w)
  then have "i \<noteq> j" by auto
  with recv_notify_one show ?thesis
    by (intro exI [of _ i]) (auto simp: mover_def nth_list_update brought_def)
next
  case (send_throw i v e)
  then show ?thesis
    by (intro exI [of _ i]) (auto simp: mover_def nth_list_update brought_def elim: send_throwE)
next
  case (send_go i v c)
  from send_goE [OF send_go(4,5) assms(3)] have c: "\<not> closed (chan s)" "closed c = closed (chan s)"
    "chan_contents c = chan_contents (chan s) @ [v]" by auto
  with send_go show ?thesis
    by (intro exI [of _ i]) (auto simp: mover_def nth_list_update brought_def ring_val_def)
next
  case (recv_go i v c)
  with recv_locked_ok [OF assms(3) recv_go(5)] show ?thesis
    by (intro exI [of _ i]) (auto simp: mover_def nth_list_update brought_def ring_val_def)
next
  case (recv_null i c)
  then show ?thesis
    by (intro exI [of _ i]) (auto simp: mover_def nth_list_update recv_locked_None brought_def)
qed (auto simp: mover_def nth_list_update brought_def intro!: exI)

lemma moverD:
  assumes "mover k s t"
  shows "k < length (cthr s)" "length (cthr t) = length (cthr s)"
    "point_move s t (cthr s ! k) (cthr t ! k)"
    "\<And>j. j < length (cthr s) \<Longrightarrow> j \<noteq> k \<Longrightarrow> stays (cthr s ! j) (cthr t ! j)"
    "closed (chan t) \<Longrightarrow> closed (chan s) \<or> cthr s ! k = CloseEnter"
    "closed (chan s) \<Longrightarrow> closed (chan t)" "nulls s \<noteq> [] \<Longrightarrow> nulls t \<noteq> []"
    "ring_val (chan t) + point_val (cthr t ! k) + brought (cthr s ! k) (cthr t ! k)
      = ring_val (chan s) + point_val (cthr s ! k)"
    "cthr s ! k \<noteq> ChIdle"
  using assms by (auto simp: mover_def)

lemma chan_val_move:
  assumes "mover k s t"
  shows "chan_val t + brought (cthr s ! k) (cthr t ! k) = chan_val s"
proof -
  note m = moverD [OF assms]
  have "map point_val (cthr t) = map point_val ((cthr s)[k := cthr t ! k])"
    using m(1,2,4) by (intro nth_equalityI) (auto simp: nth_list_update stays_val)
  with sum_list_move [OF m(1), of point_val "cthr t ! k"]
  have "sum_list (map point_val (cthr t))
      = sum_list (map point_val (cthr s)) + point_val (cthr t ! k) - point_val (cthr s ! k)"
    by (simp add: eq_diff_eq)
  moreover from m(8) have "ring_val (chan t) = ring_val (chan s) + point_val (cthr s ! k)
      - point_val (cthr t ! k) - brought (cthr s ! k) (cthr t ! k)"
    by (simp add: eq_diff_eq ac_simps)
  ultimately show ?thesis by (simp add: chan_val_def)
qed

section \<open>The sum of the loop\<close>

text \<open>What the loop of a sender sends in all, from the value \<open>i\<close> of its variable on.\<close>

function stride :: "int \<Rightarrow> int \<Rightarrow> int \<Rightarrow> int" where
  "stride kcount step i = (if 0 < step \<and> i < kcount then i + stride kcount step (i + step) else 0)"
  by auto
termination by (relation "measure (\<lambda>(kcount, step, i). nat (kcount - i))") auto

declare stride.simps [simp del]

lemma stride_end [simp]: "kcount \<le> i \<Longrightarrow> stride kcount step i = 0"
  by (simp add: stride.simps)

text \<open>The values of \<open>n\<close> senders that start one after the other are all values, once each.\<close>

lemma stride_window:
  assumes "0 < n"
  shows "(\<Sum>j<n. stride kcount (int n) (i + int j)) = stride kcount 1 i"
proof (induction "nat (kcount - i)" arbitrary: i rule: less_induct)
  case less
  show ?case
  proof (cases "i < kcount")
    case True
    obtain m where n: "n = Suc m" using assms by (cases n) auto
    have "(\<Sum>j<n. stride kcount (int n) (i + int j))
        = i + stride kcount (int n) (i + int n) + (\<Sum>j<m. stride kcount (int n) (i + int (Suc j)))"
      using True by (simp add: n sum.lessThan_Suc_shift stride.simps [of kcount _ i] del: sum.lessThan_Suc)
    also have "\<dots> = i + (\<Sum>j<n. stride kcount (int n) ((i + 1) + int j))"
      by (simp add: n ac_simps)
    also have "\<dots> = i + stride kcount 1 (i + 1)" using less [of "i + 1"] True by simp
    finally show ?thesis using True by (simp add: stride.simps [of kcount 1 i])
  qed simp
qed

lemma stride_one:
  "0 \<le> i \<Longrightarrow> i \<le> kcount \<Longrightarrow> 2 * stride kcount 1 i = kcount * (kcount - 1) - i * (i - 1)"
proof (induction "nat (kcount - i)" arbitrary: i rule: less_induct)
  case less
  show ?case
  proof (cases "i < kcount")
    case True
    with less have "2 * stride kcount 1 (i + 1) = kcount * (kcount - 1) - (i + 1) * i" by simp
    with True show ?thesis by (simp add: stride.simps [of kcount 1 i] algebra_simps)
  qed (use less in simp)
qed

text \<open>
  \<open>Run\<close> compares what \<open>CalcSum\<close> returned with \<open>ok_ans\<close>, which is
  \<open>static_cast<int64_t>(kCount) * (kCount - 1) / 2\<close>, and throws when they differ. The benchmark
  is registered for three triples of a buffer size and two numbers of threads, which depend on
  what \<open>hardware_concurrency\<close> returned.
\<close>

definition ok_ans :: "int \<Rightarrow> u64" where
  "ok_ans kcount = word_of_int (kcount * (kcount - 1) div 2)"

datatype run_error = WrongSum

definition Run_check :: "int \<Rightarrow> u64 \<Rightarrow> run_error + unit" where
  "Run_check kcount result = (if ok_ans kcount \<noteq> result then Inl WrongSum else Inr ())"

definition kHalf :: "int \<Rightarrow> int" where
  "kHalf kThreads = max 1 (kThreads div 2)"

definition kAnotherHalf :: "int \<Rightarrow> int" where
  "kAnotherHalf kThreads = max 1 (kThreads - kHalf kThreads)"

definition Run_args :: "int \<Rightarrow> (int \<times> int \<times> int) list" where
  "Run_args kThreads =
     [(2, 2, max 1 (kThreads - 2)), (10, kHalf kThreads, kAnotherHalf kThreads),
      (100000, kHalf kThreads, kAnotherHalf kThreads)]"

lemma Run_args_positive:
  "(buff_size, senders_count, readers_count) \<in> set (Run_args kThreads) \<Longrightarrow>
    0 < senders_count \<and> 0 < readers_count"
  by (auto simp: Run_args_def kHalf_def kAnotherHalf_def)

lemma stride_all:
  assumes "0 < n" and "0 \<le> kcount"
  shows "word_of_int (\<Sum>j<n. stride kcount (int n) (int j)) = ok_ans kcount"
proof -
  have "2 * stride kcount 1 0 = kcount * (kcount - 1)" using stride_one [of 0 kcount] assms(2) by simp
  then have "stride kcount 1 0 = kcount * (kcount - 1) div 2" by simp
  with stride_window [OF assms(1), of kcount 0] show ?thesis by (simp add: ok_ans_def)
qed

lemma ok_ans_kCount: "sint (ok_ans kCount) = kCount * (kCount - 1) div 2"
  by (simp add: ok_ans_def kCount_def)

end
