(* ===== verification/Channel_Client_Sum.thy ===== *)
theory Channel_Client_Sum
  imports Channel_Client
begin

text \<open>
  The invariant of the channel's client (\<^verbatim>\<open>hw-3/benchmark.cpp\<close>): which thread has been
  started and joined, which operation of the channel each is in, and where every value is.
\<close>

section \<open>The invariant\<close>

fun sender_fits :: "sum_sender \<Rightarrow> int chan_pc \<Rightarrow> bool" where
  "sender_fits (SIn i) q \<longleftrightarrow> q = SendEnter i \<or> q = SendWaiting i \<or> q = SendNotify"
| "sender_fits STerminated q \<longleftrightarrow> False"
| "sender_fits p q \<longleftrightarrow> q = ChIdle"

fun reader_fits :: "sum_reader \<Rightarrow> int chan_pc \<Rightarrow> bool" where
  "reader_fits RIn q \<longleftrightarrow> q = RecvEnter \<or> q = RecvWaiting \<or> (\<exists>v. q = RecvNotify v)"
| "reader_fits p q \<longleftrightarrow> q = ChIdle"

fun closer_fits :: "bool \<Rightarrow> sum_closer \<Rightarrow> int chan_pc \<Rightarrow> bool" where
  "closer_fits cl CClosing q \<longleftrightarrow> q = CloseEnter \<or> (q = CloseNotifyEmpty \<or> q = CloseNotifyFull) \<and> cl"
| "closer_fits cl CDone q \<longleftrightarrow> q = ChIdle \<and> cl"
| "closer_fits cl p q \<longleftrightarrow> q = ChIdle"

definition points_fit :: "bench \<Rightarrow> bool" where
  "points_fit b \<longleftrightarrow>
     (let n = length (senders b); m = length (readers b); ps = cthr (csys b) in
      length ps = n + m + 1 \<and>
      (\<forall>j < n. sender_fits (senders b ! j) (ps ! j)) \<and>
      (\<forall>j < m. reader_fits (readers b ! j) (ps ! (n + j))) \<and>
      closer_fits (closed (chan (csys b))) (closer b) (ps ! (n + m)))"

text \<open>What \<open>Send\<close> and \<open>CalcSum\<close> know of the threads they have started and joined.\<close>

fun closer_knows :: "sum_closer \<Rightarrow> sum_sender list \<Rightarrow> bool" where
  "closer_knows CNew ss \<longleftrightarrow> (\<forall>i < length ss. ss ! i = SNew)"
| "closer_knows (CSpawn j) ss \<longleftrightarrow> j \<le> length ss \<and> (\<forall>i < length ss. ss ! i = SNew \<longleftrightarrow> j \<le> i)"
| "closer_knows (CJoin j) ss \<longleftrightarrow> j \<le> length ss \<and>
     (\<forall>i < length ss. ss ! i \<noteq> SNew \<and> (i < j \<longrightarrow> ss ! i = SDone))"
| "closer_knows CClosing ss \<longleftrightarrow> (\<forall>i < length ss. ss ! i = SDone)"
| "closer_knows CDone ss \<longleftrightarrow> (\<forall>i < length ss. ss ! i = SDone)"

fun main_knows :: "sum_main \<Rightarrow> sum_closer \<Rightarrow> sum_reader list \<Rightarrow> bool" where
  "main_knows MStart c rs \<longleftrightarrow> c = CNew \<and> (\<forall>i < length rs. rs ! i = RNew)"
| "main_knows (MSpawn j) c rs \<longleftrightarrow> c \<noteq> CNew \<and> j \<le> length rs \<and> (\<forall>i < length rs. rs ! i = RNew \<longleftrightarrow> j \<le> i)"
| "main_knows (MJoin j) c rs \<longleftrightarrow> c \<noteq> CNew \<and> j \<le> length rs \<and>
     (\<forall>i < length rs. rs ! i \<noteq> RNew \<and> (i < j \<longrightarrow> rs ! i = RDone))"
| "main_knows MJoinSender c rs \<longleftrightarrow> c \<noteq> CNew \<and> (\<forall>i < length rs. rs ! i = RDone)"
| "main_knows MReturned c rs \<longleftrightarrow> c = CDone \<and> (\<forall>i < length rs. rs ! i = RDone)"

definition phases_ok :: "bench \<Rightarrow> bool" where
  "phases_ok b \<longleftrightarrow> closer_knows (closer b) (senders b) \<and> main_knows (main_thread b) (closer b) (readers b) \<and>
     (closed (chan (csys b)) \<longrightarrow> closer b = CClosing \<or> closer b = CDone) \<and>
     (RDone \<in> set (readers b) \<longrightarrow> nulls (csys b) \<noteq> []) \<and>
     answer b = (if main_thread b = MReturned then Some (total b) else None)"

text \<open>The values that are not in the channel: still to be sent, or received and not yet added.\<close>

fun sender_val :: "int \<Rightarrow> nat \<Rightarrow> sum_sender \<Rightarrow> u64" where
  "sender_val kcount n (SLoop i) = word_of_int (stride kcount (int n) i)"
| "sender_val kcount n (SIn i) = word_of_int (stride kcount (int n) (i + int n))"
| "sender_val kcount n _ = 0"

fun reader_val :: "sum_reader \<Rightarrow> u64" where
  "reader_val (RGot v) = word_of_int v"
| "reader_val _ = 0"

fun closer_val :: "int \<Rightarrow> nat \<Rightarrow> sum_closer \<Rightarrow> u64" where
  "closer_val kcount n CNew = word_of_int (\<Sum>j = 0..<n. stride kcount (int n) (int j))"
| "closer_val kcount n (CSpawn k) = word_of_int (\<Sum>j = k..<n. stride kcount (int n) (int j))"
| "closer_val kcount n _ = 0"

definition all_val :: "int \<Rightarrow> bench \<Rightarrow> u64" where
  "all_val kcount b =
     (let n = length (senders b) in
      total b + chan_val (csys b) + sum_list (map (sender_val kcount n) (senders b)) +
      sum_list (map reader_val (readers b)) + closer_val kcount n (closer b))"

definition bench_ok :: "bench \<Rightarrow> bool" where
  "bench_ok b \<longleftrightarrow> chan_good (csys b) \<and> points_fit b \<and> phases_ok b"

lemma bench_start_ok: "bench_ok (bench_start n m c)"
proof -
  have "chan_good (csys (bench_start n m c))"
    by (rule chan_init_good [where dflt = 0 and n = c]) (auto simp: chan_init_def bench_start_def intro: exI [of _ "Suc (n + m)"])
  then show ?thesis
    by (simp add: bench_ok_def bench_start_def points_fit_def phases_ok_def BufferedChannel_def Let_def
        del: replicate_Suc)
qed

section \<open>A step in the channel\<close>

lemma closed_csize_null: "chan_good s \<Longrightarrow> nulls s \<noteq> [] \<Longrightarrow> closed (chan s) \<and> csize (chan s) = 0"
  by (simp add: chan_good_def history_ok_def)

text \<open>Which thread of the program moved, and what became of it.\<close>

lemma after_chan_lists:
  assumes "points_fit b" and "mover k (csys b) c'"
  shows
    "senders (after_chan c' b) = (if k < length (senders b) \<and> cthr c' ! k = ChIdle
       then (senders b)[k := sender_after (length (senders b)) (senders b ! k) (cthr (csys b) ! k)]
       else senders b)"
    "readers (after_chan c' b) =
       (if length (senders b) \<le> k \<and> k < length (senders b) + length (readers b) \<and> cthr c' ! k = ChIdle
       then (readers b)[k - length (senders b) :=
         reader_after (readers b ! (k - length (senders b))) (cthr (csys b) ! k)]
       else readers b)"
    "closer (after_chan c' b) =
       (if k = length (senders b) + length (readers b) \<and> cthr c' ! k = ChIdle
       then closer_after (closer b) (cthr (csys b) ! k) else closer b)"
proof -
  have ret: "returns (csys b) c' j \<longleftrightarrow> j = k \<and> cthr c' ! k = ChIdle" if "j < length (cthr (csys b))" for j
    using moverD(4,9) [OF assms(2)] that stays_idle [of "cthr (csys b) ! j" "cthr c' ! j"]
    by (auto simp: returns_def)
  have len: "length (cthr (csys b)) = length (senders b) + length (readers b) + 1"
    using assms(1) by (simp add: points_fit_def Let_def)
  show "senders (after_chan c' b) = (if k < length (senders b) \<and> cthr c' ! k = ChIdle
       then (senders b)[k := sender_after (length (senders b)) (senders b ! k) (cthr (csys b) ! k)]
       else senders b)"
    by (rule nth_equalityI) (auto simp: after_chan_def Let_def ret len nth_list_update)
  show "readers (after_chan c' b) =
       (if length (senders b) \<le> k \<and> k < length (senders b) + length (readers b) \<and> cthr c' ! k = ChIdle
       then (readers b)[k - length (senders b) :=
         reader_after (readers b ! (k - length (senders b))) (cthr (csys b) ! k)]
       else readers b)"
    by (rule nth_equalityI) (auto simp: after_chan_def Let_def ret len nth_list_update)
  show "closer (after_chan c' b) =
       (if k = length (senders b) + length (readers b) \<and> cthr c' ! k = ChIdle
       then closer_after (closer b) (cthr (csys b) ! k) else closer b)"
    by (auto simp: after_chan_def Let_def ret len)
qed

lemma after_chan_simps [simp]:
  "csys (after_chan c' b) = c'" "main_thread (after_chan c' b) = main_thread b"
  "total (after_chan c' b) = total b" "answer (after_chan c' b) = answer b"
  by (simp_all add: after_chan_def Let_def)

lemma fits_stays:
  "sender_fits x p \<Longrightarrow> stays p q \<Longrightarrow> sender_fits x q"
  "reader_fits y p \<Longrightarrow> stays p q \<Longrightarrow> reader_fits y q"
  "closer_fits cl z p \<Longrightarrow> stays p q \<Longrightarrow> (cl \<longrightarrow> cl') \<Longrightarrow> closer_fits cl' z q"
proof -
  show "sender_fits x p \<Longrightarrow> stays p q \<Longrightarrow> sender_fits x q" by (cases x) auto
  show "reader_fits y p \<Longrightarrow> stays p q \<Longrightarrow> reader_fits y q" by (cases y) auto
  show "closer_fits cl z p \<Longrightarrow> stays p q \<Longrightarrow> (cl \<longrightarrow> cl') \<Longrightarrow> closer_fits cl' z q" by (cases z) auto
qed

lemma points_fitD:
  assumes "points_fit b"
  shows "length (cthr (csys b)) = length (senders b) + length (readers b) + 1"
    "\<And>j. j < length (senders b) \<Longrightarrow> sender_fits (senders b ! j) (cthr (csys b) ! j)"
    "\<And>j. j < length (readers b) \<Longrightarrow> reader_fits (readers b ! j) (cthr (csys b) ! (length (senders b) + j))"
    "closer_fits (closed (chan (csys b))) (closer b) (cthr (csys b) ! (length (senders b) + length (readers b)))"
  using assms by (auto simp: points_fit_def Let_def)

lemma closer_knows_sender:
  assumes "closer_knows c ss" and "k < length ss" and "ss ! k \<noteq> SNew" and "ss ! k \<noteq> SDone" and "x \<noteq> SNew"
  shows "closer_knows c (ss[k := x])"
  using assms by (cases c) (auto simp: nth_list_update)

lemma main_knows_reader:
  assumes "main_knows p c rs" and "k < length rs" and "rs ! k \<noteq> RNew" and "rs ! k \<noteq> RDone" and "x \<noteq> RNew"
  shows "main_knows p c (rs[k := x])"
  using assms by (cases p) (auto simp: nth_list_update)

lemma main_knows_closer:
  assumes "main_knows p c rs" and "c \<noteq> CNew" and "c \<noteq> CDone" and "c' \<noteq> CNew"
  shows "main_knows p c' rs"
  using assms by (cases p) auto

text \<open>A thread in the middle of an operation, by what it does there.\<close>

lemma sender_in_call:
  assumes "sender_fits x p" and "p \<noteq> ChIdle" and "point_move s t p q"
  obtains i where "x = SIn i" "p \<noteq> CloseEnter" "q \<noteq> ChIdle" "sender_fits x q" "brought p q = 0"
  | i where "x = SIn i" "p = SendNotify" "q = ChIdle" "brought p q = 0"
  | i where "x = SIn i" "p = SendEnter i" "q = ChIdle" "closed (chan s)"
  using assms by (cases x) (auto simp: brought_def)

lemma reader_in_call:
  assumes "reader_fits x p" and "p \<noteq> ChIdle" and "point_move s t p q"
  obtains "x = RIn" "p \<noteq> CloseEnter" "q \<noteq> ChIdle" "reader_fits x q" "brought p q = 0"
  | v where "x = RIn" "p = RecvNotify v" "q = ChIdle" "brought p q = word_of_int v"
  | "x = RIn" "p = RecvEnter" "q = ChIdle" "nulls t \<noteq> []" "brought p q = 0"
  using assms by (cases x) (auto simp: brought_def)

lemma closer_in_call:
  assumes "closer_fits (closed (chan s)) x p" and "p \<noteq> ChIdle" and "point_move s t p q"
    and "closed (chan s) \<longrightarrow> closed (chan t)"
  obtains "x = CClosing" "q \<noteq> ChIdle" "closer_fits (closed (chan t)) x q" "brought p q = 0"
  | "x = CClosing" "closer_after x p = CDone" "q = ChIdle" "closed (chan t)" "brought p q = 0"
  using assms by (cases x) (auto simp: brought_def)

text \<open>The parts of the invariant after a step of thread \<open>k\<close> in the channel.\<close>

lemma points_fit_mover:
  assumes "points_fit b" and k: "mover k (csys b) (csys b')"
    and "length (senders b') = length (senders b)" "length (readers b') = length (readers b)"
    and "\<And>j. j < length (senders b) \<Longrightarrow> j \<noteq> k \<Longrightarrow> senders b' ! j = senders b ! j"
    and "\<And>j. j < length (readers b) \<Longrightarrow> length (senders b) + j \<noteq> k \<Longrightarrow> readers b' ! j = readers b ! j"
    and "k \<noteq> length (senders b) + length (readers b) \<Longrightarrow> closer b' = closer b"
    and "k < length (senders b) \<Longrightarrow> sender_fits (senders b' ! k) (cthr (csys b') ! k)"
    and "\<And>j. k = length (senders b) + j \<Longrightarrow> j < length (readers b) \<Longrightarrow>
      reader_fits (readers b' ! j) (cthr (csys b') ! k)"
    and "k = length (senders b) + length (readers b) \<Longrightarrow>
      closer_fits (closed (chan (csys b'))) (closer b') (cthr (csys b') ! k)"
  shows "points_fit b'"
proof -
  let ?n = "length (senders b)" and ?m = "length (readers b)"
  note b = points_fitD [OF assms(1)] and m = moverD [OF k]
  have "sender_fits (senders b' ! j) (cthr (csys b') ! j)" if "j < ?n" for j
    using that m(4) [of j] assms(5,8) b(1) fits_stays(1) [OF b(2) [OF that]] by (cases "j = k") auto
  moreover have "reader_fits (readers b' ! j) (cthr (csys b') ! (?n + j))" if "j < ?m" for j
    using that m(4) [of "?n + j"] assms(6,9) b(1) fits_stays(2) [OF b(3) [OF that]]
    by (cases "?n + j = k") auto
  moreover have "closer_fits (closed (chan (csys b'))) (closer b') (cthr (csys b') ! (?n + ?m))"
    using m(4) [of "?n + ?m"] m(6) assms(7,10) b(1) fits_stays(3) [OF b(4)] by (cases "?n + ?m = k") auto
  ultimately show ?thesis using m(2) assms(3,4) b(1) by (auto simp: points_fit_def Let_def)
qed

lemma phases_ok_mover:
  assumes "phases_ok b" and k: "mover k (csys b) (csys b')"
    and "closer_knows (closer b') (senders b')" and "main_knows (main_thread b) (closer b') (readers b')"
    and "RDone \<in> set (readers b') \<Longrightarrow> RDone \<in> set (readers b) \<or> nulls (csys b') \<noteq> []"
    and "closer b' = closer b \<or> closer b' = CDone"
    and "cthr (csys b) ! k \<noteq> CloseEnter \<or> closer b = CClosing"
    and "main_thread b' = main_thread b" "answer b' = answer b" "total b' = total b"
  shows "phases_ok b'"
  using assms(1,3-) moverD(5-7) [OF k] unfolding phases_ok_def by auto

lemma bench_okD:
  assumes "bench_ok b"
  shows "chan_good (csys b)" "points_fit b" "phases_ok b" "closer_knows (closer b) (senders b)"
    "main_knows (main_thread b) (closer b) (readers b)"
    "closed (chan (csys b)) \<Longrightarrow> closer b = CClosing \<or> closer b = CDone"
  using assms by (auto simp: bench_ok_def phases_ok_def)

lemma bench_channel_sender:
  assumes "bench_ok b" and k: "mover k (csys b) c'" and "k < length (senders b)" and "chan_good c'"
  shows "bench_ok (after_chan c' b) \<and> all_val kcount (after_chan c' b) = all_val kcount b"
proof -
  let ?b = "after_chan c' b" and ?n = "length (senders b)"
  note ok = bench_okD [OF assms(1)] and m = moverD [OF k]
  note lists = after_chan_lists [OF ok(2) k] and val = chan_val_move [OF k]
  have k': "mover k (csys b) (csys ?b)" using k by simp
  from sender_in_call [OF points_fitD(2) [OF ok(2) assms(3)] m(9,3)] show ?thesis
  proof cases
    case (1 i)
    with assms(3) lists have same: "senders ?b = senders b" "readers ?b = readers b" "closer ?b = closer b"
      by simp_all
    have "phases_ok ?b" by (rule phases_ok_mover [OF ok(3) k']) (use same ok 1 in simp_all)
    moreover have "points_fit ?b" by (rule points_fit_mover [OF ok(2) k']) (use same assms(3) 1 in simp_all)
    ultimately show ?thesis using assms(4) val 1 by (simp add: bench_ok_def all_val_def same Let_def)
  next
    case (2 i)
    with assms(3) lists have same: "senders ?b = (senders b)[k := SLoop (i + int ?n)]"
      "readers ?b = readers b" "closer ?b = closer b" by simp_all
    have "closer_knows (closer b) (senders ?b)"
      unfolding same by (rule closer_knows_sender [OF ok(4) assms(3)]) (use 2 in simp_all)
    then have "phases_ok ?b" by (intro phases_ok_mover [OF ok(3) k']) (use same ok 2 in simp_all)
    moreover have "points_fit ?b" by (rule points_fit_mover [OF ok(2) k']) (use same assms(3) 2 in simp_all)
    moreover have "sum_list (map (sender_val kcount ?n) (senders ?b)) = sum_list (map (sender_val kcount ?n) (senders b))"
      using sum_list_move [OF assms(3), of "sender_val kcount ?n" "SLoop (i + int ?n)"] 2 by (simp add: same)
    ultimately show ?thesis using assms(4) val 2 by (simp add: bench_ok_def all_val_def same Let_def)
  next
    case (3 i)
    with ok(4,6) assms(3) show ?thesis by auto
  qed
qed

lemma bench_channel_reader:
  assumes "bench_ok b" and k: "mover (length (senders b) + j) (csys b) c'" and "j < length (readers b)"
    and "chan_good c'"
  shows "bench_ok (after_chan c' b) \<and> all_val kcount (after_chan c' b) = all_val kcount b"
proof -
  let ?b = "after_chan c' b"
  note ok = bench_okD [OF assms(1)] and m = moverD [OF k]
  note lists = after_chan_lists [OF ok(2) k] and val = chan_val_move [OF k]
  have k': "mover (length (senders b) + j) (csys b) (csys ?b)" using k by simp
  have update: "bench_ok ?b \<and> all_val kcount ?b = all_val kcount b"
    if same: "senders ?b = senders b" "readers ?b = (readers b)[j := x]" "closer ?b = closer b"
      and x: "x \<noteq> RNew" "readers b ! j = RIn" "cthr (csys b) ! (length (senders b) + j) \<noteq> CloseEnter"
        "x = RDone \<Longrightarrow> nulls c' \<noteq> []" "reader_fits x (cthr c' ! (length (senders b) + j))"
        "reader_val x = brought (cthr (csys b) ! (length (senders b) + j)) (cthr c' ! (length (senders b) + j))"
    for x
  proof -
    have "main_knows (main_thread b) (closer b) (readers ?b)"
      unfolding same by (rule main_knows_reader [OF ok(5) assms(3)]) (use x in simp_all)
    moreover have "RDone \<in> set (readers ?b) \<Longrightarrow> RDone \<in> set (readers b) \<or> nulls c' \<noteq> []"
      using x(4) set_update_subset_insert [of "readers b" j x] by (auto simp: same)
    ultimately have "phases_ok ?b"
      by (intro phases_ok_mover [OF ok(3) k']) (use same ok x in simp_all)
    moreover have "points_fit ?b" by (rule points_fit_mover [OF ok(2) k']) (use same assms(3) x in simp_all)
    moreover have "sum_list (map reader_val (readers ?b)) = sum_list (map reader_val (readers b)) + reader_val x"
      using sum_list_move [OF assms(3), of reader_val x] x(2) by (simp add: same)
    ultimately show ?thesis using assms(4) val x(6)
      by (simp add: bench_ok_def all_val_def same Let_def ac_simps)
  qed
  from reader_in_call [OF points_fitD(3) [OF ok(2) assms(3)] m(9,3)] show ?thesis
  proof cases
    case 1
    show ?thesis by (rule update [of RIn]) (use 1 lists assms(3) list_update_id [of "readers b" j] in simp_all)
  next
    case (2 v)
    show ?thesis by (rule update [of "RGot v"]) (use 2 lists assms(3) in simp_all)
  next
    case 3
    show ?thesis by (rule update [of RDone]) (use 3 lists assms(3) in simp_all)
  qed
qed

lemma bench_channel_closer:
  assumes "bench_ok b" and k: "mover (length (senders b) + length (readers b)) (csys b) c'" and "chan_good c'"
  shows "bench_ok (after_chan c' b) \<and> all_val kcount (after_chan c' b) = all_val kcount b"
proof -
  let ?b = "after_chan c' b" and ?k = "length (senders b) + length (readers b)"
  note ok = bench_okD [OF assms(1)] and m = moverD [OF k]
  note lists = after_chan_lists [OF ok(2) k] and val = chan_val_move [OF k]
  have k': "mover ?k (csys b) (csys ?b)" using k by simp
  have "closed (chan (csys b)) \<longrightarrow> closed (chan c')" using m(6) by blast
  from closer_in_call [OF points_fitD(4) [OF ok(2)] m(9,3) this] show ?thesis
  proof cases
    case 1
    with lists have same: "senders ?b = senders b" "readers ?b = readers b" "closer ?b = closer b"
      by simp_all
    have "phases_ok ?b" by (rule phases_ok_mover [OF ok(3) k']) (use same ok 1 in simp_all)
    moreover have "points_fit ?b" by (rule points_fit_mover [OF ok(2) k']) (use same 1 in simp_all)
    ultimately show ?thesis using assms(3) val 1 by (simp add: bench_ok_def all_val_def same Let_def)
  next
    case 2
    with lists have same: "senders ?b = senders b" "readers ?b = readers b" "closer ?b = CDone"
      by simp_all
    have "main_knows (main_thread b) (closer ?b) (readers b)"
      using main_knows_closer [OF ok(5)] 2(1) by (simp add: same)
    then have "phases_ok ?b" by (intro phases_ok_mover [OF ok(3) k']) (use same ok(4) 2 in simp_all)
    moreover have "points_fit ?b" by (rule points_fit_mover [OF ok(2) k']) (use same 2 in simp_all)
    ultimately show ?thesis using assms(3) val 2 by (simp add: bench_ok_def all_val_def same Let_def)
  qed
qed

lemma bench_channel:
  assumes "bench_ok b" and "chan_step id (csys b) c'" and "no_call (csys b) c'"
  shows "bench_ok (after_chan c' b) \<and> all_val kcount (after_chan c' b) = all_val kcount b"
proof -
  note ok = bench_okD [OF assms(1)]
  have good': "chan_good c'" using assms(2) ok(1) by (rule monitor.step_good)
  obtain k where k: "mover k (csys b) c'"
    using monitor_step_mover [OF assms(2,3)] ok(1) by (auto simp: chan_good_def history_ok_def)
  have "k < length (senders b) + length (readers b) + 1"
    using moverD(1) [OF k] points_fitD(1) [OF ok(2)] by simp
  then have "k < length (senders b) \<or> k - length (senders b) < length (readers b) \<and>
      k = length (senders b) + (k - length (senders b)) \<or> k = length (senders b) + length (readers b)"
    by linarith
  then consider "k < length (senders b)" | j where "k = length (senders b) + j" "j < length (readers b)"
    | "k = length (senders b) + length (readers b)"
    by blast
  then show ?thesis
  proof cases
    case 1
    from bench_channel_sender [OF assms(1) k 1 good'] show ?thesis .
  next
    case (2 j)
    from bench_channel_reader [OF assms(1) k [unfolded 2(1)] 2(2) good'] show ?thesis .
  next
    case 3
    from bench_channel_closer [OF assms(1) k [unfolded 3] good'] show ?thesis .
  qed
qed

section \<open>A step of the threads' own code\<close>

lemma enter_simps [simp]:
  "senders (enter k p b) = senders b" "readers (enter k p b) = readers b"
  "closer (enter k p b) = closer b" "main_thread (enter k p b) = main_thread b"
  "total (enter k p b) = total b" "answer (enter k p b) = answer b"
  "chan (csys (enter k p b)) = chan (csys b)" "nulls (csys (enter k p b)) = nulls (csys b)"
  "cthr (csys (enter k p b)) = (cthr (csys b))[k := p]"
  by (simp_all add: enter_def)

text \<open>Entering an operation is a step of the monitor, by an idle thread.\<close>

lemma enter_step:
  assumes "k < length (cthr (csys b))" and "cthr (csys b) ! k = ChIdle"
    and "p = SendEnter v \<or> p = RecvEnter \<or> p = CloseEnter"
  shows "chan_step id (csys b) (csys (enter k p b))"
  using assms chan_step.call_send [OF assms(1,2)] chan_step.call_recv [OF assms(1,2)]
    chan_step.call_close [OF assms(1,2)]
  by (auto simp: enter_def)

lemma enter_good:
  assumes "k < length (cthr (csys b))" and "cthr (csys b) ! k = ChIdle" and "chan_good (csys b)"
    and "p = SendEnter v \<or> p = RecvEnter \<or> p = CloseEnter"
  shows "chan_good (csys (enter k p b))"
  using enter_step [OF assms(1,2,4)] assms(3) by (rule monitor.step_good)

lemma enter_val:
  assumes "k < length (cthr (csys b))" and "cthr (csys b) ! k = ChIdle"
  shows "chan_val (csys (enter k p b)) = chan_val (csys b) + point_val p"
  using sum_list_move [OF assms(1), of point_val p] assms(2) by (simp add: chan_val_def)

lemma sender_step_ok:
  assumes "bench_ok b" and "j < length (senders b)" and "sender_move kcount j b = Some b'"
  shows "bench_ok b' \<and> all_val kcount b' = all_val kcount b"
proof -
  note ok = bench_okD [OF assms(1)] and fit = points_fitD [OF ok(2)]
  obtain i where i: "senders b ! j = SLoop i"
    using assms(3) by (auto simp: sender_move_def split: sum_sender.splits)
  have idle: "j < length (cthr (csys b))" "cthr (csys b) ! j = ChIdle"
    using fit(1) fit(2) [OF assms(2)] assms(2) i by auto
  show ?thesis
  proof (cases "i < kcount")
    case True
    with assms(3) i have b': "b' = enter j (SendEnter i) (b\<lparr>senders := (senders b)[j := SIn i]\<rparr>)"
      by (simp add: sender_move_def)
    have "chan_good (csys b')" using enter_good [of j "b\<lparr>senders := (senders b)[j := SIn i]\<rparr>"] idle ok(1)
      by (simp add: b')
    moreover have "points_fit b'"
      using fit assms(2) by (auto simp: points_fit_def b' nth_list_update Let_def)
    moreover have "phases_ok b'"
      using ok(3,4) assms(2) i by (auto simp: phases_ok_def b' intro!: closer_knows_sender)
    moreover have "stride kcount (int (length (senders b))) i
        = i + stride kcount (int (length (senders b))) (i + int (length (senders b)))"
      using True assms(2) by (subst stride.simps) auto
    then have "all_val kcount b' = all_val kcount b"
      using enter_val [of j "b\<lparr>senders := (senders b)[j := SIn i]\<rparr>"] idle
        sum_list_move [OF assms(2), of "sender_val kcount (length (senders b))" "SIn i"]
      by (simp add: b' all_val_def Let_def i algebra_simps)
    ultimately show ?thesis by (simp add: bench_ok_def)
  next
    case False
    with assms(3) i have b': "b' = b\<lparr>senders := (senders b)[j := SDone]\<rparr>" by (simp add: sender_move_def)
    have "points_fit b'" using fit assms(2) idle by (auto simp: points_fit_def b' nth_list_update Let_def)
    moreover have "phases_ok b'"
      using ok(3,4) assms(2) i by (auto simp: phases_ok_def b' intro!: closer_knows_sender)
    moreover have "all_val kcount b' = all_val kcount b"
      using False sum_list_move [OF assms(2), of "sender_val kcount (length (senders b))" SDone]
      by (simp add: b' all_val_def Let_def i)
    ultimately show ?thesis using ok(1) by (simp add: bench_ok_def b')
  qed
qed

lemma reader_step_ok:
  assumes "bench_ok b" and "j < length (readers b)" and "reader_move j b = Some b'"
  shows "bench_ok b' \<and> all_val kcount b' = all_val kcount b"
proof -
  note ok = bench_okD [OF assms(1)] and fit = points_fitD [OF ok(2)]
  let ?k = "length (senders b) + j"
  have idle: "?k < length (cthr (csys b))" using fit(1) assms(2) by simp
  from assms(3) consider "readers b ! j = RLoop"
      "b' = enter ?k RecvEnter (b\<lparr>readers := (readers b)[j := RIn]\<rparr>)"
    | v where "readers b ! j = RGot v"
      "b' = b\<lparr>readers := (readers b)[j := RLoop], total := total b + word_of_int v\<rparr>"
    by (auto simp: reader_move_def split: sum_reader.splits)
  then show ?thesis
  proof cases
    case 1
    then have "cthr (csys b) ! ?k = ChIdle" using fit(3) [OF assms(2)] by simp
    with idle enter_good [of ?k "b\<lparr>readers := (readers b)[j := RIn]\<rparr>"] ok(1)
    have "chan_good (csys b')" by (simp add: 1)
    moreover have "points_fit b'"
      using fit assms(2) by (auto simp: points_fit_def 1 nth_list_update Let_def)
    moreover have "phases_ok b'"
      using ok(3,5) assms(2) 1(1) set_update_subset_insert [of "readers b" j RIn]
      by (auto simp: phases_ok_def 1(2) intro!: main_knows_reader)
    moreover have "all_val kcount b' = all_val kcount b"
      using enter_val [of ?k "b\<lparr>readers := (readers b)[j := RIn]\<rparr>"] idle \<open>cthr (csys b) ! ?k = ChIdle\<close>
        sum_list_move [OF assms(2), of reader_val RIn]
      by (simp add: 1 all_val_def Let_def)
    ultimately show ?thesis by (simp add: bench_ok_def)
  next
    case (2 v)
    have "points_fit b'" using fit fit(3) [OF assms(2)] 2(1) assms(2)
      by (auto simp: points_fit_def 2(2) nth_list_update Let_def)
    moreover have "main_thread b \<noteq> MReturned" using ok(5) assms(2) 2(1) by auto
    then have "phases_ok b'"
      using ok(3,5) assms(2) 2(1) set_update_subset_insert [of "readers b" j RLoop]
      by (auto simp: phases_ok_def 2(2) intro!: main_knows_reader)
    moreover have "all_val kcount b' = all_val kcount b"
      using sum_list_move [OF assms(2), of reader_val RLoop] 2(1) by (simp add: 2(2) all_val_def Let_def algebra_simps)
    ultimately show ?thesis using ok(1) by (simp add: bench_ok_def 2)
  qed
qed

lemma closer_step_ok:
  assumes "bench_ok b" and "closer_move b = Some b'"
  shows "bench_ok b' \<and> all_val kcount b' = all_val kcount b"
proof -
  note ok = bench_okD [OF assms(1)] and fit = points_fitD [OF ok(2)]
  let ?n = "length (senders b)"
  from assms(2) consider
    (spawn) j where "closer b = CSpawn j" "j < ?n"
      "b' = b\<lparr>senders := (senders b)[j := SLoop (int j)], closer := CSpawn (Suc j)\<rparr>"
  | (spawned) j where "closer b = CSpawn j" "\<not> j < ?n" "b' = b\<lparr>closer := CJoin 0\<rparr>"
  | (join) j where "closer b = CJoin j" "j < ?n" "senders b ! j = SDone" "b' = b\<lparr>closer := CJoin (Suc j)\<rparr>"
  | (joined) j where "closer b = CJoin j" "\<not> j < ?n"
      "b' = enter (?n + length (readers b)) CloseEnter (b\<lparr>closer := CClosing\<rparr>)"
    by (auto simp: closer_move_def split: sum_closer.splits if_splits)
  then show ?thesis
  proof cases
    case (spawn j)
    then have new: "senders b ! j = SNew" using ok(4) by simp
    have "points_fit b'" using fit fit(2) [OF spawn(2)] new spawn(1,2)
      by (auto simp: points_fit_def spawn(3) nth_list_update Let_def)
    moreover have "phases_ok b'" using ok(3) spawn(1,2) main_knows_closer [OF ok(5)]
      by (auto simp: phases_ok_def spawn(3) nth_list_update)
    moreover have "all_val kcount b' = all_val kcount b"
      using sum_list_move [OF spawn(2), of "sender_val kcount ?n" "SLoop (int j)"] new spawn(1,2)
      by (simp add: spawn(3) all_val_def Let_def sum.atLeast_Suc_lessThan [of j ?n] algebra_simps)
    ultimately show ?thesis using ok(1) by (simp add: bench_ok_def spawn(3))
  next
    case (spawned j)
    have "points_fit b'" using fit spawned(1) by (auto simp: points_fit_def spawned(3) Let_def)
    moreover have "phases_ok b'" using ok(3) spawned(1,2) main_knows_closer [OF ok(5)]
      by (auto simp: phases_ok_def spawned(3))
    moreover have "all_val kcount b' = all_val kcount b" using spawned by (simp add: all_val_def Let_def)
    ultimately show ?thesis using ok(1) by (simp add: bench_ok_def spawned(3))
  next
    case (join j)
    have "points_fit b'" using fit join(1) by (auto simp: points_fit_def join(4) Let_def)
    moreover have "phases_ok b'" using ok(3) join(1-3) main_knows_closer [OF ok(5)]
      by (auto simp: phases_ok_def join(4) less_Suc_eq)
    moreover have "all_val kcount b' = all_val kcount b" using join by (simp add: all_val_def Let_def)
    ultimately show ?thesis using ok(1) by (simp add: bench_ok_def join(4))
  next
    case (joined j)
    let ?k = "?n + length (readers b)"
    have idle: "?k < length (cthr (csys b))" "cthr (csys b) ! ?k = ChIdle"
      using fit(1,4) joined(1) by auto
    have "chan_good (csys b')" using enter_good [of ?k "b\<lparr>closer := CClosing\<rparr>"] idle ok(1)
      by (simp add: joined(3))
    moreover have "points_fit b'" using fit by (auto simp: points_fit_def joined(3) nth_list_update Let_def)
    moreover have "phases_ok b'" using ok(3) joined(1,2) main_knows_closer [OF ok(5)]
      by (auto simp: phases_ok_def joined(3))
    moreover have "all_val kcount b' = all_val kcount b"
      using enter_val [of ?k "b\<lparr>closer := CClosing\<rparr>"] idle joined by (simp add: all_val_def Let_def)
    ultimately show ?thesis by (simp add: bench_ok_def)
  qed
qed

lemma main_step_ok:
  assumes "bench_ok b" and "main_move b = Some b'"
  shows "bench_ok b' \<and> all_val kcount b' = all_val kcount b"
proof -
  note ok = bench_okD [OF assms(1)] and fit = points_fitD [OF ok(2)]
  let ?m = "length (readers b)"
  have pass: "bench_ok b' \<and> all_val kcount b' = all_val kcount b"
    if "b' = b\<lparr>main_thread := m\<rparr>" "main_knows m (closer b) (readers b)"
      "m \<noteq> MReturned" "main_thread b \<noteq> MReturned" for m
    using that ok(1,2,3) by (auto simp: bench_ok_def points_fit_def phases_ok_def all_val_def Let_def)
  from assms(2) consider
    (start) "main_thread b = MStart" "b' = b\<lparr>closer := CSpawn 0, main_thread := MSpawn 0\<rparr>"
  | (spawn) j where "main_thread b = MSpawn j" "j < ?m"
      "b' = b\<lparr>readers := (readers b)[j := RLoop], main_thread := MSpawn (Suc j)\<rparr>"
  | (spawned) j where "main_thread b = MSpawn j" "\<not> j < ?m" "b' = b\<lparr>main_thread := MJoin 0\<rparr>"
  | (join) j where "main_thread b = MJoin j" "j < ?m" "readers b ! j = RDone"
      "b' = b\<lparr>main_thread := MJoin (Suc j)\<rparr>"
  | (joined) j where "main_thread b = MJoin j" "\<not> j < ?m" "b' = b\<lparr>main_thread := MJoinSender\<rparr>"
  | (return) "main_thread b = MJoinSender" "closer b = CDone"
      "b' = b\<lparr>main_thread := MReturned, answer := Some (total b)\<rparr>"
    by (auto simp: main_move_def split: sum_main.splits if_splits)
  then show ?thesis
  proof cases
    case start
    have "points_fit b'" using fit ok(5) start(1) by (auto simp: points_fit_def start(2) Let_def)
    moreover have "phases_ok b'" using ok(3) start by (auto simp: phases_ok_def)
    moreover have "all_val kcount b' = all_val kcount b" using ok(5) start by (simp add: all_val_def Let_def)
    ultimately show ?thesis using ok(1) by (simp add: bench_ok_def start(2))
  next
    case (spawn j)
    then have new: "readers b ! j = RNew" using ok(5) by simp
    have "points_fit b'" using fit fit(3) [OF spawn(2)] new spawn(2)
      by (auto simp: points_fit_def spawn(3) nth_list_update Let_def)
    moreover have "phases_ok b'"
      using ok(3) spawn(1,2) set_update_subset_insert [of "readers b" j RLoop]
      by (auto simp: phases_ok_def spawn(3) nth_list_update)
    moreover have "all_val kcount b' = all_val kcount b"
      using sum_list_move [OF spawn(2), of reader_val RLoop] new by (simp add: spawn(3) all_val_def Let_def)
    ultimately show ?thesis using ok(1) by (simp add: bench_ok_def spawn(3))
  next
    case (spawned j)
    show ?thesis by (rule pass [OF spawned(3)]) (use spawned(1,2) ok(5) in auto)
  next
    case (join j)
    show ?thesis by (rule pass [OF join(4)]) (use join(1-3) ok(5) in \<open>auto simp: less_Suc_eq\<close>)
  next
    case (joined j)
    show ?thesis by (rule pass [OF joined(3)]) (use joined(1,2) ok(5) in auto)
  next
    case return
    with ok(1,2,3,5) show ?thesis by (auto simp: bench_ok_def points_fit_def phases_ok_def all_val_def Let_def)
  qed
qed

lemma bench_lengths:
  assumes "bench_step kcount b b'"
  shows "length (senders b') = length (senders b) \<and> length (readers b') = length (readers b)"
  using assms
  by (cases rule: bench_step.cases)
    (auto simp: sender_move_def reader_move_def closer_move_def main_move_def after_chan_def Let_def
      split: sum_sender.splits sum_reader.splits sum_closer.splits sum_main.splits if_splits)

lemma bench_step_ok:
  assumes "bench_step kcount b b'" and "bench_ok b"
  shows "bench_ok b' \<and> all_val kcount b' = all_val kcount b"
  using assms(1)
proof (cases rule: bench_step.cases)
  case (sender j)
  then show ?thesis using sender_step_ok [OF assms(2)] by blast
next
  case (reader j)
  then show ?thesis using reader_step_ok [OF assms(2)] by blast
next
  case closer
  then show ?thesis using closer_step_ok [OF assms(2)] by blast
next
  case main
  then show ?thesis using main_step_ok [OF assms(2)] by blast
next
  case (channel c')
  then show ?thesis using bench_channel [OF assms(2)] by blast
qed

text \<open>The shape of a run with \<open>n\<close> senders and \<open>m\<close> readers.\<close>

definition bench_inv :: "int \<Rightarrow> nat \<Rightarrow> nat \<Rightarrow> bench \<Rightarrow> bool" where
  "bench_inv kcount n m b \<longleftrightarrow> bench_ok b \<and> length (senders b) = n \<and> length (readers b) = m \<and>
     all_val kcount b = word_of_int (\<Sum>j<n. stride kcount (int n) (int j))"

interpretation bench: invariant_system "\<lambda>b. b = bench_start n m c" "bench_step kcount" "bench_inv kcount n m"
  for n m c kcount
proof unfold_locales
  show "bench_inv kcount n m b" if "b = bench_start n m c" for b
    using that bench_start_ok [of n m c]
    by (auto simp: bench_inv_def bench_start_def all_val_def chan_val_def ring_val_def atLeast0LessThan
        sum_list_replicate)
  show "bench_inv kcount n m b'" if "bench_step kcount b b'" "bench_inv kcount n m b" for b b'
    using that bench_step_ok bench_lengths by (fastforce simp: bench_inv_def)
qed

lemma sum_list_zero: "(\<And>x. x \<in> set xs \<Longrightarrow> f x = 0) \<Longrightarrow> sum_list (map f xs) = (0 :: 'b :: comm_monoid_add)"
  by (induction xs) auto

text \<open>When \<open>CalcSum\<close> has returned, no value is on its way.\<close>

lemma returned_total:
  assumes "bench_ok b" and "main_thread b = MReturned" and "readers b \<noteq> []"
  shows "all_val kcount b = total b"
proof -
  note ok = bench_okD [OF assms(1)] and fit = points_fitD [OF ok(2)]
  have fin: "\<And>i. i < length (readers b) \<Longrightarrow> readers b ! i = RDone" "closer b = CDone"
    using ok(5) assms(2) by auto
  then have sdone: "\<And>i. i < length (senders b) \<Longrightarrow> senders b ! i = SDone" using ok(4) by simp
  have "RDone \<in> set (readers b)" using fin(1) [of 0] assms(3) by (metis length_greater_0_conv nth_mem)
  then have "csize (chan (csys b)) = 0"
    using ok(3) closed_csize_null [OF ok(1)] by (auto simp: phases_ok_def)
  then have "chan_contents (chan (csys b)) = []" by (simp flip: length_0_conv)
  moreover have "cthr (csys b) ! k = ChIdle" if "k < length (cthr (csys b))" for k
  proof -
    have "k < length (senders b) \<or> k - length (senders b) < length (readers b) \<and>
      k = length (senders b) + (k - length (senders b)) \<or> k = length (senders b) + length (readers b)"
      using that fit(1) by linarith
    then show ?thesis
      using fit(2) [of k] sdone [of k] fit(3) [of "k - length (senders b)"]
        fin(1) [of "k - length (senders b)"] fit(4) fin(2) by auto
  qed
  then have "\<And>p. p \<in> set (cthr (csys b)) \<Longrightarrow> point_val p = 0"
    by (metis in_set_conv_nth point_val.simps(4))
  ultimately have "chan_val (csys b) = 0"
    by (auto simp: chan_val_def ring_val_def intro!: sum_list_zero)
  moreover have "sum_list (map (sender_val kcount (length (senders b))) (senders b)) = 0"
    using sdone by (intro sum_list_zero) (auto simp: in_set_conv_nth)
  moreover have "sum_list (map reader_val (readers b)) = 0"
    using fin(1) by (intro sum_list_zero) (auto simp: in_set_conv_nth)
  ultimately show ?thesis using fin(2) by (simp add: all_val_def Let_def)
qed

end
