(* ===== verification/Channel_Client_Live.thy ===== *)
theory Channel_Client_Live
  imports Channel_Client_Sum
begin

text \<open>
  The client of the channel (\<^verbatim>\<open>hw-3/benchmark.cpp\<close>) always can finish: a weight of the
  states, and in every state before the return of \<open>CalcSum\<close> a step that lowers it. The properties
  of the program are at the end.
\<close>

section \<open>The weight\<close>

text \<open>
  Every value still to be sent pays for its way through the channel: for the two critical
  sections, for the notifications and for the threads these wake up. Closing pays for waking
  all \<open>N\<close> threads twice.
\<close>

function laps :: "int \<Rightarrow> int \<Rightarrow> int \<Rightarrow> nat" where
  "laps kcount step i = (if 0 < step \<and> i < kcount then Suc (laps kcount step (i + step)) else 0)"
  by auto
termination by (relation "measure (\<lambda>(kcount, step, i). nat (kcount - i))") auto

declare laps.simps [simp del]

fun point_w :: "nat \<Rightarrow> int chan_pc \<Rightarrow> nat" where
  "point_w N ChIdle = 0"
| "point_w N (SendEnter v) = 8"
| "point_w N (SendWaiting v) = 7"
| "point_w N SendNotify = 2"
| "point_w N RecvEnter = 1"
| "point_w N RecvWaiting = 0"
| "point_w N (RecvNotify v) = 5"
| "point_w N CloseEnter = 2 * N + 3"
| "point_w N CloseNotifyEmpty = 2 * N + 2"
| "point_w N CloseNotifyFull = N + 1"

definition chan_w :: "int chan_sys \<Rightarrow> nat" where
  "chan_w s = 5 * csize (chan s) + sum_list (map (point_w (length (cthr s))) (cthr s))"

fun sender_w :: "int \<Rightarrow> nat \<Rightarrow> sum_sender \<Rightarrow> nat" where
  "sender_w kcount n (SLoop i) = 10 * laps kcount (int n) i + 1"
| "sender_w kcount n (SIn i) = 10 * laps kcount (int n) (i + int n) + 1"
| "sender_w kcount n _ = 0"

fun reader_w :: "sum_reader \<Rightarrow> nat" where
  "reader_w RLoop = 2"
| "reader_w (RGot v) = 3"
| "reader_w _ = 0"

fun closer_w :: "int \<Rightarrow> nat \<Rightarrow> nat \<Rightarrow> sum_closer \<Rightarrow> nat" where
  "closer_w kcount n N CNew = (\<Sum>i = 0..<n. 10 * laps kcount (int n) (int i) + 2) + n + 2 * N + 6"
| "closer_w kcount n N (CSpawn j) = (\<Sum>i = j..<n. 10 * laps kcount (int n) (int i) + 2) + n + 2 * N + 6"
| "closer_w kcount n N (CJoin j) = (n - j) + 2 * N + 4"
| "closer_w kcount n N _ = 0"

fun main_w :: "nat \<Rightarrow> sum_main \<Rightarrow> nat" where
  "main_w m MStart = 4 * m + 4"
| "main_w m (MSpawn j) = 3 * (m - j) + m + 3"
| "main_w m (MJoin j) = (m - j) + 2"
| "main_w m MJoinSender = 1"
| "main_w m MReturned = 0"

definition bench_w :: "int \<Rightarrow> bench \<Rightarrow> nat" where
  "bench_w kcount b =
     (let n = length (senders b); m = length (readers b) in
      chan_w (csys b) + sum_list (map (sender_w kcount n) (senders b)) + sum_list (map reader_w (readers b)) +
      closer_w kcount n (n + m + 1) (closer b) + main_w m (main_thread b))"

section \<open>A step in the channel\<close>

definition active :: "int chan_pc \<Rightarrow> bool" where
  "active p \<longleftrightarrow> p \<noteq> ChIdle \<and> p \<noteq> RecvWaiting \<and> (\<forall>v. p \<noteq> SendWaiting v)"

text \<open>What a reader gains when its receive returns a value.\<close>

fun credit :: "int chan_pc \<Rightarrow> int chan_pc \<Rightarrow> nat" where
  "credit (RecvNotify v) q = 3"
| "credit p q = 0"

lemma point_w_wake:
  "point_w N (wake_receiver p) \<le> Suc (point_w N p)" "point_w N (wake_sender p) \<le> Suc (point_w N p)"
  by (cases p; simp)+

lemma sum_wake:
  assumes "\<And>p. f (w p) \<le> Suc (f p)"
  shows "sum_list (map f (map w ps)) \<le> sum_list (map f ps) + length ps"
  using assms by (induction ps) (auto simp: add_mono le_SucI intro: add_mono [THEN order_trans])

text \<open>Thread \<open>k\<close> can make a step that lowers the weight.\<close>

definition lowers :: "nat \<Rightarrow> int chan_sys \<Rightarrow> bool" where
  "lowers k s \<longleftrightarrow> (\<exists>t. chan_step id s t \<and> no_call s t \<and> cthr t ! k \<noteq> cthr s ! k \<and>
     chan_w t + credit (cthr s ! k) (cthr t ! k) < chan_w s)"

lemma lowers_go:
  assumes "chan_step id s t" and "k < length (cthr s)" and "active (cthr s ! k)"
    and "cthr t = (cthr s)[k := q]" "q \<noteq> cthr s ! k"
    and "5 * csize (chan t) + point_w (length (cthr s)) q + credit (cthr s ! k) q
      < 5 * csize (chan s) + point_w (length (cthr s)) (cthr s ! k)"
  shows "lowers k s"
  unfolding lowers_def using assms sum_list_move [OF assms(2), of "point_w (length (cthr s))" q]
  by (intro exI [of _ t]) (auto simp: no_call_def nth_list_update active_def chan_w_def)

lemma lowers_wake:
  assumes "chan_step id s (s\<lparr>cthr := (cthr s)[k := ChIdle, j := q]\<rparr>)"
    and "k < length (cthr s)" and "active (cthr s ! k)"
    and "j < length (cthr s)" and "cthr s ! j = RecvWaiting \<or> is_send_waiting (cthr s ! j)"
    and "point_w (length (cthr s)) q \<le> Suc (point_w (length (cthr s)) (cthr s ! j))"
    and "credit (cthr s ! k) ChIdle + 1 < point_w (length (cthr s)) (cthr s ! k)"
  shows "lowers k s"
proof -
  have "j \<noteq> k" "cthr s ! j \<noteq> ChIdle"
    using assms(3,5) by (auto simp: active_def elim: is_send_waiting.elims)
  then show ?thesis
    unfolding lowers_def using assms sum_list_move [OF assms(2), of "point_w (length (cthr s))" ChIdle]
      sum_list_move [of j "(cthr s)[k := ChIdle]" "point_w (length (cthr s))" q]
    by (intro exI [of _ "s\<lparr>cthr := (cthr s)[k := ChIdle, j := q]\<rparr>"])
      (auto simp: no_call_def nth_list_update active_def chan_w_def)
qed

lemma lowers_wake_all:
  assumes "chan_step id s (s\<lparr>cthr := map w ((cthr s)[k := q])\<rparr>)"
    and "k < length (cthr s)" and "active (cthr s ! k)"
    and "\<And>x. point_w (length (cthr s)) (w x) \<le> Suc (point_w (length (cthr s)) x)"
    and "\<And>x. w x = ChIdle \<longleftrightarrow> x = ChIdle" and "w q \<noteq> cthr s ! k"
    and "point_w (length (cthr s)) q + length (cthr s) < point_w (length (cthr s)) (cthr s ! k)"
    and "credit (cthr s ! k) (w q) = 0"
  shows "lowers k s"
  unfolding lowers_def using assms sum_list_move [OF assms(2), of "point_w (length (cthr s))" q]
    sum_wake [of "point_w (length (cthr s))" w "(cthr s)[k := q]"]
  by (intro exI [of _ "s\<lparr>cthr := map w ((cthr s)[k := q])\<rparr>"])
    (auto simp: no_call_def nth_list_update active_def chan_w_def)

lemma lowers_send:
  assumes k: "k < length (cthr s)" "active (cthr s ! k)" and "chan_ok (chan s)"
    and p: "cthr s ! k = SendEnter v"
  shows "lowers k s"
proof -
  consider "\<not> send_pred (chan s)" | e where "send_pred (chan s)" "send_locked v (chan s) = Inl e"
    | c where "send_pred (chan s)" "send_locked v (chan s) = Inr c"
    by (cases "send_locked v (chan s)") auto
  then show ?thesis
  proof cases
    case 1
    show ?thesis by (rule lowers_go [OF chan_step.send_block [OF k(1) p 1] k]) (use p in auto)
  next
    case (2 e)
    show ?thesis by (rule lowers_go [OF chan_step.send_throw [OF k(1) p 2] k]) (use p in auto)
  next
    case (3 c)
    from send_goE [OF 3 assms(3)] have "csize c = Suc (csize (chan s))" .
    then show ?thesis by (intro lowers_go [OF chan_step.send_go [OF k(1) p 3] k]) (use p in auto)
  qed
qed

lemma lowers_recv:
  assumes k: "k < length (cthr s)" "active (cthr s ! k)" and "chan_ok (chan s)"
    and p: "cthr s ! k = RecvEnter"
  shows "lowers k s"
proof -
  consider "\<not> recv_pred (chan s)" | c where "recv_pred (chan s)" "recv_locked id (chan s) = (None, c)"
    | v c where "recv_pred (chan s)" "recv_locked id (chan s) = (Some v, c)"
    by (cases "recv_locked id (chan s)"; cases "fst (recv_locked id (chan s))") auto
  then show ?thesis
  proof cases
    case 1
    show ?thesis by (rule lowers_go [OF chan_step.recv_block [OF k(1) p 1] k]) (use p in auto)
  next
    case (2 c)
    show ?thesis
      by (rule lowers_go [OF chan_step.recv_null [OF k(1) p 2] k]) (use p 2 in \<open>auto simp: recv_locked_None\<close>)
  next
    case (3 v c)
    show ?thesis
      by (rule lowers_go [OF chan_step.recv_go [OF k(1) p 3] k])
        (use p recv_locked_ok [OF assms(3) 3(2)] in auto)
  qed
qed

lemma lowers_notify:
  assumes k: "k < length (cthr s)" "active (cthr s ! k)"
    and p: "cthr s ! k = SendNotify \<or> cthr s ! k = RecvNotify v"
  shows "lowers k s"
  using p
proof
  assume p: "cthr s ! k = SendNotify"
  show ?thesis
  proof (cases "RecvWaiting \<in> set (cthr s)")
    case True
    then obtain j where j: "j < length (cthr s)" "cthr s ! j = RecvWaiting" by (auto simp: in_set_conv_nth)
    show ?thesis
      by (rule lowers_wake [OF chan_step.send_notify_one [OF k(1) p j] k]) (use j p in auto)
  next
    case False
    show ?thesis by (rule lowers_go [OF chan_step.send_notify_none [OF k(1) p False] k]) (use p in auto)
  qed
next
  assume p: "cthr s ! k = RecvNotify v"
  show ?thesis
  proof (cases "\<forall>p \<in> set (cthr s). \<not> is_send_waiting p")
    case True
    show ?thesis by (rule lowers_go [OF chan_step.recv_notify_none [OF k(1) p True] k]) (use p in auto)
  next
    case False
    then obtain j w where j: "j < length (cthr s)" "cthr s ! j = SendWaiting w"
      by (auto simp: in_set_conv_nth elim!: is_send_waiting.elims)
    show ?thesis
      by (rule lowers_wake [OF chan_step.recv_notify_one [OF k(1) p j] k]) (use j p in auto)
  qed
qed

lemma lowers_close:
  assumes k: "k < length (cthr s)" "active (cthr s ! k)"
    and "cthr s ! k = CloseEnter \<or> cthr s ! k = CloseNotifyEmpty \<or> cthr s ! k = CloseNotifyFull"
  shows "lowers k s"
proof -
  consider (shut) "cthr s ! k = CloseEnter" "close_locked (chan s) = (False, chan s)"
    | (first) "cthr s ! k = CloseEnter" "close_locked (chan s) = (True, (chan s)\<lparr>closed := True\<rparr>)"
    | (empty) "cthr s ! k = CloseNotifyEmpty" | (full) "cthr s ! k = CloseNotifyFull"
    using assms(3) by auto
  then show ?thesis
  proof cases
    case shut
    from chan_step.close_again [OF k(1) this] k show ?thesis by (rule lowers_go) (use shut in auto)
  next
    case first
    from chan_step.close_first [OF k(1) this] k show ?thesis by (rule lowers_go) (use first in auto)
  next
    case empty
    show ?thesis
      by (rule lowers_wake_all [OF chan_step.close_notify_empty [OF k(1) empty] k])
        (use empty point_w_wake in \<open>auto elim: wake_receiver.elims\<close>)
  next
    case full
    show ?thesis
      by (rule lowers_wake_all [OF chan_step.close_notify_full [OF k(1) full] k])
        (use full point_w_wake in \<open>auto elim: wake_sender.elims\<close>)
  qed
qed

lemma active_lowers:
  assumes "k < length (cthr s)" and "active (cthr s ! k)" and "chan_ok (chan s)"
  shows "lowers k s"
  using assms lowers_send [OF assms] lowers_recv [OF assms] lowers_notify [OF assms(1,2)]
    lowers_close [OF assms(1,2)]
  by (cases "cthr s ! k") (simp_all add: active_def)

text \<open>In the program: the threads that return from the channel do not gain more than is paid.\<close>

lemma sum_list_le_move:
  fixes f :: "'a \<Rightarrow> nat"
  assumes "k < length xs" and "f y \<le> f (xs ! k) + d"
  shows "sum_list (map f (xs[k := y])) \<le> sum_list (map f xs) + d"
  using sum_list_move [OF assms(1), of f y] assms(2) by simp

lemma after_chan_w:
  assumes "bench_ok b" and k: "mover k (csys b) c'"
  shows "bench_w kcount (after_chan c' b) + chan_w (csys b)
    \<le> bench_w kcount b + chan_w c' + credit (cthr (csys b) ! k) (cthr c' ! k)"
proof -
  let ?b = "after_chan c' b" and ?n = "length (senders b)" and ?m = "length (readers b)"
  note ok = bench_okD [OF assms(1)] and m = moverD [OF k]
  note lists = after_chan_lists [OF ok(2) k]
  have "sum_list (map (sender_w kcount ?n) (senders ?b)) \<le> sum_list (map (sender_w kcount ?n) (senders b))"
  proof (cases "k < ?n")
    case True
    then have "sender_w kcount ?n (sender_after ?n (senders b ! k) (cthr (csys b) ! k)) \<le> sender_w kcount ?n (senders b ! k) + 0"
      by (cases "senders b ! k"; cases "cthr (csys b) ! k") auto
    from sum_list_le_move [OF True this] show ?thesis by (simp add: lists)
  qed (simp add: lists)
  moreover have "sum_list (map reader_w (readers ?b))
      \<le> sum_list (map reader_w (readers b)) + credit (cthr (csys b) ! k) (cthr c' ! k)"
  proof (cases "?n \<le> k \<and> k < ?n + ?m")
    case True
    then have j: "k - ?n < ?m" by linarith
    have "reader_w (reader_after (readers b ! (k - ?n)) (cthr (csys b) ! k))
        \<le> reader_w (readers b ! (k - ?n)) + credit (cthr (csys b) ! k) (cthr c' ! k)"
      by (cases "readers b ! (k - ?n)"; cases "cthr (csys b) ! k") auto
    from sum_list_le_move [OF j this] show ?thesis by (auto simp: lists)
  qed (auto simp add: lists)
  moreover have "closer_w kcount ?n (?n + ?m + 1) (closer ?b) \<le> closer_w kcount ?n (?n + ?m + 1) (closer b)"
    by (cases "closer b"; cases "cthr (csys b) ! k") (auto simp: lists)
  moreover have "length (senders ?b) = ?n" "length (readers ?b) = ?m" by (simp_all add: lists)
  ultimately show ?thesis by (simp add: bench_w_def Let_def)
qed

lemma active_thread_moves:
  assumes "bench_ok b" and "k < length (cthr (csys b))" and "active (cthr (csys b) ! k)"
  shows "\<exists>b'. bench_step kcount b b' \<and> bench_w kcount b' < bench_w kcount b"
proof -
  note ok = bench_okD [OF assms(1)]
  have ch: "chan_ok (chan (csys b))" using ok(1) by (simp add: chan_good_def history_ok_def)
  from active_lowers [OF assms(2,3) ch] obtain c' where c': "chan_step id (csys b) c'" "no_call (csys b) c'"
    "cthr c' ! k \<noteq> cthr (csys b) ! k" "chan_w c' + credit (cthr (csys b) ! k) (cthr c' ! k) < chan_w (csys b)"
    by (auto simp: lowers_def)
  obtain k' where k': "mover k' (csys b) c'" using monitor_step_mover [OF c'(1,2) ch] by blast
  have "k' = k"
    using moverD(4) [OF k' assms(2)] c'(3) assms(3) by (cases "cthr (csys b) ! k") (auto simp: active_def)
  with after_chan_w [OF assms(1) k', of kcount] c'(4)
  have "bench_w kcount (after_chan c' b) < bench_w kcount b" by simp
  with bench_step.channel [OF c'(1,2)] show ?thesis by blast
qed

section \<open>A step of the threads' own code\<close>

lemma enter_w:
  assumes "k < length (cthr (csys b))" and "cthr (csys b) ! k = ChIdle"
  shows "chan_w (csys (enter k p b)) = chan_w (csys b) + point_w (length (cthr (csys b))) p"
  using sum_list_move [OF assms(1), of "point_w (length (cthr (csys b)))" p] assms(2)
  by (simp add: chan_w_def)

lemma sender_moves:
  assumes "bench_ok b" and "j < length (senders b)" and "senders b ! j = SLoop i"
  shows "\<exists>b'. bench_step kcount b b' \<and> bench_w kcount b' < bench_w kcount b"
proof -
  note fit = points_fitD [OF bench_okD(2) [OF assms(1)]]
  have idle: "j < length (cthr (csys b))" "cthr (csys b) ! j = ChIdle"
    using fit(1) fit(2) [OF assms(2)] assms(2,3) by auto
  obtain b' where b': "sender_move kcount j b = Some b'"
    using assms(3) by (cases "i < kcount") (auto simp: sender_move_def)
  have "bench_w kcount b' < bench_w kcount b"
  proof (cases "i < kcount")
    case True
    have "laps kcount (int (length (senders b))) i = Suc (laps kcount (int (length (senders b))) (i + int (length (senders b))))"
      using True assms(2) by (subst laps.simps) auto
    then show ?thesis
      using True b' assms(3) enter_w [of j "b\<lparr>senders := (senders b)[j := SIn i]\<rparr>"] idle
        sum_list_move [OF assms(2), of "sender_w kcount (length (senders b))" "SIn i"]
      by (auto simp: sender_move_def bench_w_def Let_def)
  next
    case False
    then show ?thesis
      using b' assms(3) sum_list_move [OF assms(2), of "sender_w kcount (length (senders b))" SDone]
      by (auto simp: sender_move_def bench_w_def Let_def)
  qed
  with bench_step.sender [OF assms(2) b'] show ?thesis by blast
qed

lemma reader_moves:
  assumes "bench_ok b" and "j < length (readers b)" and "readers b ! j = RLoop \<or> readers b ! j = RGot v"
  shows "\<exists>b'. bench_step kcount b b' \<and> bench_w kcount b' < bench_w kcount b"
proof -
  note fit = points_fitD [OF bench_okD(2) [OF assms(1)]]
  let ?k = "length (senders b) + j"
  have idle: "?k < length (cthr (csys b))" "cthr (csys b) ! ?k = ChIdle"
    using fit(1) fit(3) [OF assms(2)] assms(2,3) by auto
  obtain b' where b': "reader_move j b = Some b'" using assms(3) by (auto simp: reader_move_def)
  have "bench_w kcount b' < bench_w kcount b"
    using b' assms(3) enter_w [of ?k "b\<lparr>readers := (readers b)[j := RIn]\<rparr>"] idle
      sum_list_move [OF assms(2), of reader_w RIn] sum_list_move [OF assms(2), of reader_w RLoop]
    by (auto simp: reader_move_def bench_w_def Let_def)
  with bench_step.reader [OF assms(2) b'] show ?thesis by blast
qed

lemma closer_moves:
  assumes "bench_ok b" and "closer_move b = Some b'"
  shows "\<exists>b'. bench_step kcount b b' \<and> bench_w kcount b' < bench_w kcount b"
proof -
  note ok = bench_okD [OF assms(1)] and fit = points_fitD [OF ok(2)]
  let ?n = "length (senders b)" and ?k = "length (senders b) + length (readers b)"
  have "bench_w kcount b' < bench_w kcount b"
  proof (cases "closer b")
    case (CSpawn j)
    show ?thesis
    proof (cases "j < ?n")
      case True
      then have "senders b ! j = SNew" using ok(4) CSpawn by simp
      with True CSpawn assms(2) sum_list_move [OF True, of "sender_w kcount ?n" "SLoop (int j)"]
      show ?thesis
        by (auto simp: closer_move_def bench_w_def Let_def sum.atLeast_Suc_lessThan [OF True])
    qed (use CSpawn assms(2) in \<open>auto simp: closer_move_def bench_w_def Let_def\<close>)
  next
    case (CJoin j)
    have idle: "?k < length (cthr (csys b))" "cthr (csys b) ! ?k = ChIdle" using fit(1,4) CJoin by auto
    with CJoin assms(2) enter_w [of ?k "b\<lparr>closer := CClosing\<rparr>"] fit(1) show ?thesis
      by (auto simp: closer_move_def bench_w_def Let_def split: if_splits)
  qed (use assms(2) in \<open>auto simp: closer_move_def\<close>)
  with bench_step.closer [OF assms(2)] show ?thesis by blast
qed

lemma main_moves:
  assumes "bench_ok b" and "main_move b = Some b'"
  shows "\<exists>b'. bench_step kcount b b' \<and> bench_w kcount b' < bench_w kcount b"
proof -
  note ok = bench_okD [OF assms(1)]
  have "bench_w kcount b' < bench_w kcount b"
  proof (cases "main_thread b")
    case (MSpawn j)
    show ?thesis
    proof (cases "j < length (readers b)")
      case True
      then have "readers b ! j = RNew" using ok(5) MSpawn by simp
      with True MSpawn assms(2) sum_list_move [OF True, of reader_w RLoop] show ?thesis
        by (auto simp: main_move_def bench_w_def Let_def)
    qed (use MSpawn assms(2) in \<open>auto simp: main_move_def bench_w_def Let_def\<close>)
  qed (use assms(2) ok(5) in \<open>auto simp: main_move_def bench_w_def Let_def split: if_splits\<close>)
  with bench_step.main [OF assms(2)] show ?thesis by blast
qed

section \<open>Nobody is stuck\<close>

lemma some_thread_moves:
  assumes "bench_ok b" and "main_thread b \<noteq> MReturned" and "readers b \<noteq> []"
  shows "\<exists>b'. bench_step kcount b b' \<and> bench_w kcount b' < bench_w kcount b"
proof (rule ccontr)
  assume stuck: "\<not> ?thesis"
  note ok = bench_okD [OF assms(1)] and fit = points_fitD [OF ok(2)]
  let ?n = "length (senders b)" and ?m = "length (readers b)" and ?ps = "cthr (csys b)"
  have asleep: "?ps ! k = ChIdle \<or> ?ps ! k = RecvWaiting \<or> is_send_waiting (?ps ! k)" if "k < length ?ps" for k
    using active_thread_moves [OF assms(1) that] stuck by (cases "?ps ! k") (auto simp: active_def)
  then have "\<forall>p \<in> set ?ps. p = ChIdle \<or> p = RecvWaiting \<or> is_send_waiting p"
    by (metis in_set_conv_nth)
  note quiet = quiet_waiters [OF ok(1) this]
  have sender: "senders b ! i = SNew \<or> senders b ! i = SDone \<or> is_send_waiting (?ps ! i)" if "i < ?n" for i
    using sender_moves [OF assms(1) that] stuck fit(1) fit(2) [OF that] asleep [of i] that
    by (cases "senders b ! i") auto
  have reader: "readers b ! i = RNew \<or> readers b ! i = RDone \<or> ?ps ! (?n + i) = RecvWaiting" if "i < ?m" for i
    using reader_moves [OF assms(1) that] stuck fit(1) fit(3) [OF that] asleep [of "?n + i"] that
    by (cases "readers b ! i") auto
  have "main_move b = None" using main_moves [OF assms(1)] stuck by (cases "main_move b") auto
  then have main: "\<And>i. i < ?m \<Longrightarrow> readers b ! i \<noteq> RNew" "closer b \<noteq> CNew"
    "closer b \<noteq> CDone \<or> (\<exists>i < ?m. readers b ! i \<noteq> RDone)"
    using ok(5) assms(2) by (auto simp: main_move_def split: sum_main.splits if_splits)
  have "closer_move b = None" using closer_moves [OF assms(1)] stuck by (cases "closer_move b") auto
  moreover have "closer b \<noteq> CClosing" using fit(1,4) asleep [of "?n + ?m"] by auto
  ultimately consider "closer b = CDone" | j where "closer b = CJoin j" "j < ?n" "senders b ! j \<noteq> SDone"
    using main(2) by (auto simp: closer_move_def split: sum_closer.splits if_splits)
  then show False
  proof cases
    case 1
    with main(3) obtain i where i: "i < ?m" "readers b ! i \<noteq> RDone" by auto
    with reader [OF i(1)] main(1) [OF i(1)] have "RecvWaiting \<in> set ?ps"
      using fit(1) nth_mem [of "?n + i" ?ps] by auto
    with quiet have "\<not> closed (chan (csys b))" by simp
    with fit(4) 1 show False by simp
  next
    case (2 j)
    with sender [OF 2(2)] ok(4) have "list_ex is_send_waiting ?ps"
      using fit(1) nth_mem [of j ?ps] by (auto simp: list_ex_iff)
    with quiet have full: "\<not> closed (chan (csys b))" "csize (chan (csys b)) = capacity (chan (csys b))" by simp_all
    moreover have "0 < capacity (chan (csys b))" using ok(1) by (simp add: chan_good_def history_ok_def chan_ok_def)
    ultimately have "RecvWaiting \<notin> set ?ps" using quiet by auto
    moreover have "?ps ! ?n \<in> set ?ps" using fit(1) by (intro nth_mem) simp
    ultimately have "?ps ! (?n + 0) \<noteq> RecvWaiting" by auto
    then have "readers b ! 0 = RDone" using reader [of 0] main(1) [of 0] assms(3) by simp
    then have "RDone \<in> set (readers b)" using assms(3) by (metis length_greater_0_conv nth_mem)
    then show False using full(1) ok(3) closed_csize_null [OF ok(1)] by (auto simp: phases_ok_def)
  qed
qed

lemma bench_finishes:
  assumes "bench_inv kcount n m b" and "0 < m"
  shows "\<exists>b'. (bench_step kcount)\<^sup>*\<^sup>* b b' \<and> main_thread b' = MReturned"
  using assms(1)
proof (induction "bench_w kcount b" arbitrary: b rule: less_induct)
  case less
  show ?case
  proof (cases "main_thread b = MReturned")
    case False
    have "readers b \<noteq> []" using less.prems assms(2) by (auto simp: bench_inv_def)
    with less.prems False obtain b1 where b1: "bench_step kcount b b1" "bench_w kcount b1 < bench_w kcount b"
      using some_thread_moves [of b kcount] by (auto simp: bench_inv_def)
    from less.hyps [OF b1(2) bench.step_good [OF b1(1) less.prems]] b1(1) show ?thesis
      by (blast intro: converse_rtranclp_into_rtranclp)
  qed blast
qed

lemma bench_answer:
  assumes "bench_inv kcount n m b" and "0 < n" "0 < m" "0 \<le> kcount"
  shows "answer b = (if main_thread b = MReturned then Some (ok_ans kcount) else None)"
proof -
  have b: "bench_ok b" "readers b \<noteq> []" "all_val kcount b = ok_ans kcount"
    using assms stride_all [OF assms(2,4)] by (auto simp: bench_inv_def)
  from returned_total [OF b(1) _ b(2), of kcount] b(3) bench_okD(3) [OF b(1)] show ?thesis
    by (auto simp: phases_ok_def)
qed

lemma bench_no_throw:
  assumes "bench_inv kcount n m b"
  shows "STerminated \<notin> set (senders b)"
  using assms points_fitD(2) [of b] by (fastforce simp: bench_inv_def bench_ok_def in_set_conv_nth)

section \<open>Properties\<close>

text \<open>C14: \<open>CalcSum\<close> with at least one sender and one reader, on a channel of any size and under
  every schedule, wake-ups for no reason included: no \<open>Send\<close> throws, because the channel is
  closed after the last value has been sent only, and when it returns, its result is the sum of
  the numbers below \<open>kCount\<close>, each received and added once.\<close>
theorem calc_sum_correct:
  assumes "0 < senders_count" and "0 < readers_count" and "0 \<le> kcount"
    and "(bench_step kcount)\<^sup>*\<^sup>* (bench_start senders_count readers_count buff_size) b"
  shows "STerminated \<notin> set (senders b) \<and>
    (case answer b of None \<Rightarrow> main_thread b \<noteq> MReturned
     | Some result \<Rightarrow> main_thread b = MReturned \<and> Run_check kcount result = Inr ())"
proof -
  have "bench_inv kcount senders_count readers_count b"
    using bench.reachable_good [OF refl assms(4)] .
  from bench_no_throw [OF this] bench_answer [OF this assms(1-3)] show ?thesis
    by (simp add: Run_check_def)
qed

theorem calc_sum_correct_witness:
  "\<exists>b. (bench_step 4)\<^sup>*\<^sup>* (bench_start 2 3 1) b \<and> answer b = Some 6 \<and> STerminated \<notin> set (senders b) \<and>
    (case answer b of None \<Rightarrow> main_thread b \<noteq> MReturned
     | Some result \<Rightarrow> main_thread b = MReturned \<and> Run_check 4 result = Inr ())"
proof -
  have inv: "bench_inv 4 2 3 (bench_start 2 3 1)" by (rule bench.init_good) simp
  from bench_finishes [OF this] obtain b where b: "(bench_step 4)\<^sup>*\<^sup>* (bench_start 2 3 1) b" "main_thread b = MReturned"
    by auto
  from bench_answer [OF bench.run_good [OF b(1) inv]] b(2) have "answer b = Some 6"
    by (simp add: ok_ans_def)
  with b(1) calc_sum_correct [of 2 3 4, OF _ _ _ b(1)] show ?thesis by auto
qed

text \<open>C15: The registered benchmark always finishes, and never throws: for each of its triples of
  arguments, whatever the number of hardware threads, from every state that \<open>CalcSum\<close> can reach
  there is a way to its return, and it returns \<open>kCount * (kCount - 1) / 2\<close>, which \<open>int64_t\<close> holds.
  In particular the two joins cannot deadlock with the channel.\<close>
theorem benchmark_finishes:
  assumes "(buff_size, senders_count, readers_count) \<in> set (Run_args kThreads)"
    and "(bench_step kCount)\<^sup>*\<^sup>* (bench_start (nat senders_count) (nat readers_count) buff_size) b"
  shows "\<exists>b' result. (bench_step kCount)\<^sup>*\<^sup>* b b' \<and> answer b' = Some result \<and>
    Run_check kCount result = Inr () \<and> sint result = kCount * (kCount - 1) div 2"
proof -
  have pos: "0 < nat senders_count" "0 < nat readers_count" "0 \<le> kCount"
    using Run_args_positive [OF assms(1)] by (auto simp: kCount_def)
  have inv: "bench_inv kCount (nat senders_count) (nat readers_count) b"
    using bench.reachable_good [OF refl assms(2)] .
  from bench_finishes [OF inv pos(2)] obtain b' where b': "(bench_step kCount)\<^sup>*\<^sup>* b b'" "main_thread b' = MReturned"
    by blast
  from bench_answer [OF bench.run_good [OF b'(1) inv] pos] b' ok_ans_kCount show ?thesis
    by (auto simp: Run_check_def)
qed

theorem benchmark_finishes_witness:
  "(2, 2, 6) \<in> set (Run_args 8) \<and>
   (\<exists>b' result. (bench_step kCount)\<^sup>*\<^sup>* (bench_start 2 6 2) b' \<and> answer b' = Some result \<and>
     Run_check kCount result = Inr () \<and> sint result = kCount * (kCount - 1) div 2)"
proof -
  have a: "(2, 2, 6) \<in> set (Run_args 8)" by (simp add: Run_args_def)
  from benchmark_finishes [OF a, of "bench_start 2 6 2"] a show ?thesis by simp
qed

end
