(* ===== verification/Mutex.thy ===== *)
theory Mutex
  imports Prelude
begin

text \<open>
  The futex mutex of \<^verbatim>\<open>hw-4/mutex.h\<close> and \<^verbatim>\<open>hw-4/mutex.cpp\<close>, and the client that
  \<^verbatim>\<open>hw-4/test.cpp\<close> and \<^verbatim>\<open>hw-4/benchmark.cpp\<close> run against it: every thread increments a
  shared \<open>int\<close> under the lock. A step is one atomic operation, one system call or one
  unprotected load or store of the counter. The futex is the one the comments of
  \<^verbatim>\<open>mutex.h\<close> describe: it sleeps only if the cell still holds the expected value, a wake
  releases any one sleeper, and a sleeper may return early.
\<close>

section \<open>Atomic operations and the futex\<close>

definition compare_exchange_strong :: "u32 \<Rightarrow> u32 \<Rightarrow> u32 \<Rightarrow> bool \<times> u32 \<times> u32" where
  "compare_exchange_strong cell expected desired =
     (if cell = expected then (True, desired, expected) else (False, cell, cell))"

definition exchange :: "u32 \<Rightarrow> u32 \<Rightarrow> u32 \<times> u32" where
  "exchange cell desired = (cell, desired)"

text \<open>
  The kernel compares the 32-bit cell with the low 32 bits of the argument; \<open>True\<close> means
  that the caller goes to sleep.
\<close>

definition FutexWait :: "u32 \<Rightarrow> u64 \<Rightarrow> bool" where
  "FutexWait cell expected_value \<longleftrightarrow> cell = ucast expected_value"

section \<open>Program points of a thread\<close>

datatype mutex_pc =
    MIdle
  | LockCas
  | LockTest u32
  | LockMark
  | LockLoop u32
  | LockFutex
  | LockAsleep
  | LockRetry
  | MHeld
  | MLoaded u32
  | UnlockXchg
  | UnlockTest u32
  | UnlockWake
  | UnlockDone

text \<open>
  The code of \<open>Lock\<close> and \<open>Unlock\<close> between system calls: from the value of \<open>mtx_state\<close>
  and the program point to their next values. \<open>LockMark\<close> and \<open>LockRetry\<close> are the two
  \<open>exchange(2)\<close> of \<open>Lock\<close>, before and inside its loop.
\<close>

fun lock_step :: "u32 \<Rightarrow> mutex_pc \<Rightarrow> (u32 \<times> mutex_pc) option" where
  "lock_step m LockCas =
     (case compare_exchange_strong m 0 1 of
        (ok, m', expected) \<Rightarrow> Some (m', if ok then MHeld else LockTest expected))"
| "lock_step m (LockTest expected) =
     Some (m, if expected \<noteq> 2 then LockMark else LockLoop expected)"
| "lock_step m LockMark = (case exchange m 2 of (prev, m') \<Rightarrow> Some (m', LockLoop prev))"
| "lock_step m (LockLoop expected) = Some (m, if expected \<noteq> 0 then LockFutex else MHeld)"
| "lock_step m LockRetry = (case exchange m 2 of (prev, m') \<Rightarrow> Some (m', LockLoop prev))"
| "lock_step m UnlockXchg = (case exchange m 0 of (prev, m') \<Rightarrow> Some (m', UnlockTest prev))"
| "lock_step m (UnlockTest prev) = Some (m, if prev = 2 then UnlockWake else UnlockDone)"
| "lock_step m _ = None"

section \<open>The system\<close>

record mutex_sys =
  mtx_state :: u32
  mthr :: "mutex_pc list"
  iters :: "nat list"
  counter :: u32
  overflowed :: bool

definition mutex_init :: "nat \<Rightarrow> mutex_sys \<Rightarrow> bool" where
  "mutex_init threads s \<longleftrightarrow>
     s = \<lparr>mtx_state = 0, mthr = replicate threads MIdle, iters = replicate threads 0,
          counter = 0, overflowed = False\<rparr>"

text \<open>
  The counter is an \<open>int\<close> of 32 bits: a word that \<open>sint\<close> reads. To increment the largest value is not
  defined; \<open>overflowed\<close> records that this has happened.
\<close>

definition INT_MAX :: u32 where
  "INT_MAX = 0x7FFFFFFF"

text \<open>
  \<open>rounds\<close> is the number of iterations each thread makes (100 in \<open>Concurrency.Simple\<close>).
  \<open>++counter\<close> is a load and a store.
\<close>

inductive mutex_move :: "nat \<Rightarrow> mutex_sys \<Rightarrow> mutex_sys \<Rightarrow> bool" for rounds where
  call_lock:
    "i < length (mthr s) \<Longrightarrow> mthr s ! i = MIdle \<Longrightarrow> iters s ! i < rounds \<Longrightarrow>
     mutex_move rounds s (s\<lparr>mthr := (mthr s)[i := LockCas]\<rparr>)"
| run_code:
    "i < length (mthr s) \<Longrightarrow> lock_step (mtx_state s) (mthr s ! i) = Some (m, p) \<Longrightarrow>
     mutex_move rounds s (s\<lparr>mtx_state := m, mthr := (mthr s)[i := p]\<rparr>)"
| futex_sleep:
    "i < length (mthr s) \<Longrightarrow> mthr s ! i = LockFutex \<Longrightarrow> FutexWait (mtx_state s) 2 \<Longrightarrow>
     mutex_move rounds s (s\<lparr>mthr := (mthr s)[i := LockAsleep]\<rparr>)"
| futex_again:
    "i < length (mthr s) \<Longrightarrow> mthr s ! i = LockFutex \<Longrightarrow> \<not> FutexWait (mtx_state s) 2 \<Longrightarrow>
     mutex_move rounds s (s\<lparr>mthr := (mthr s)[i := LockRetry]\<rparr>)"
| wake_one:
    "i < length (mthr s) \<Longrightarrow> mthr s ! i = UnlockWake \<Longrightarrow>
     j < length (mthr s) \<Longrightarrow> mthr s ! j = LockAsleep \<Longrightarrow>
     mutex_move rounds s (s\<lparr>mthr := (mthr s)[i := UnlockDone, j := LockRetry]\<rparr>)"
| wake_none:
    "i < length (mthr s) \<Longrightarrow> mthr s ! i = UnlockWake \<Longrightarrow> LockAsleep \<notin> set (mthr s) \<Longrightarrow>
     mutex_move rounds s (s\<lparr>mthr := (mthr s)[i := UnlockDone]\<rparr>)"
| load_counter:
    "i < length (mthr s) \<Longrightarrow> mthr s ! i = MHeld \<Longrightarrow>
     mutex_move rounds s (s\<lparr>mthr := (mthr s)[i := MLoaded (counter s)]\<rparr>)"
| store_counter:
    "i < length (mthr s) \<Longrightarrow> mthr s ! i = MLoaded c \<Longrightarrow>
     mutex_move rounds s (s\<lparr>mthr := (mthr s)[i := UnlockXchg], counter := c + 1,
       overflowed := overflowed s \<or> c = INT_MAX\<rparr>)"
| next_iteration:
    "i < length (mthr s) \<Longrightarrow> mthr s ! i = UnlockDone \<Longrightarrow>
     mutex_move rounds s (s\<lparr>mthr := (mthr s)[i := MIdle], iters := (iters s)[i := Suc (iters s ! i)]\<rparr>)"

text \<open>The steps of the system: the moves above, and a futex wait that returns early.\<close>

inductive mutex_step :: "nat \<Rightarrow> mutex_sys \<Rightarrow> mutex_sys \<Rightarrow> bool" for rounds where
  move: "mutex_move rounds s t \<Longrightarrow> mutex_step rounds s t"
| spurious:
    "i < length (mthr s) \<Longrightarrow> mthr s ! i = LockAsleep \<Longrightarrow>
     mutex_step rounds s (s\<lparr>mthr := (mthr s)[i := LockRetry]\<rparr>)"

section \<open>The invariant\<close>

text \<open>
  \<open>owner\<close>: the thread has the lock. \<open>alert\<close>: it is on its way to an \<open>exchange(2)\<close> or to
  a futex wait on the value 2, or it has released a contended lock and has not woken
  anybody yet. \<open>stored\<close>: its increment is in the counter, the iteration is not yet
  counted. Nobody sleeps unless the word says that there is competition or an alert
  thread will say so or wake a sleeper.
\<close>

fun owner :: "mutex_pc \<Rightarrow> bool" where
  "owner (LockLoop e) \<longleftrightarrow> e = 0"
| "owner MHeld \<longleftrightarrow> True"
| "owner (MLoaded _) \<longleftrightarrow> True"
| "owner UnlockXchg \<longleftrightarrow> True"
| "owner _ \<longleftrightarrow> False"

fun alert :: "mutex_pc \<Rightarrow> bool" where
  "alert (LockTest e) \<longleftrightarrow> True"
| "alert LockMark \<longleftrightarrow> True"
| "alert (LockLoop e) \<longleftrightarrow> e \<noteq> 0"
| "alert LockFutex \<longleftrightarrow> True"
| "alert LockRetry \<longleftrightarrow> True"
| "alert (UnlockTest prev) \<longleftrightarrow> prev = 2"
| "alert UnlockWake \<longleftrightarrow> True"
| "alert _ \<longleftrightarrow> False"

fun stored :: "mutex_pc \<Rightarrow> bool" where
  "stored UnlockXchg \<longleftrightarrow> True"
| "stored (UnlockTest _) \<longleftrightarrow> True"
| "stored UnlockWake \<longleftrightarrow> True"
| "stored UnlockDone \<longleftrightarrow> True"
| "stored _ \<longleftrightarrow> False"

abbreviation asleep :: "mutex_pc \<Rightarrow> bool" where
  "asleep p \<equiv> p = LockAsleep"

definition lock_word_ok :: "u32 \<Rightarrow> mutex_pc list \<Rightarrow> bool" where
  "lock_word_ok m ps \<longleftrightarrow> m \<in> {0, 1, 2} \<and> cnt owner ps = (if m = 0 then 0 else 1)"

definition sleepers_woken :: "u32 \<Rightarrow> mutex_pc list \<Rightarrow> bool" where
  "sleepers_woken m ps \<longleftrightarrow>
     (0 < cnt asleep ps \<longrightarrow> m = 2 \<or> 0 < cnt alert ps)"

text \<open>The increments so far; the counter is their number unless it has overflowed.\<close>

definition increments :: "mutex_sys \<Rightarrow> nat" where
  "increments s = sum_list (iters s) + cnt stored (mthr s)"

definition counted :: "nat \<Rightarrow> u32 \<Rightarrow> bool \<Rightarrow> bool" where
  "counted n c over \<longleftrightarrow> c = word_of_nat n \<and> (over \<longleftrightarrow> 2 ^ 31 \<le> n)"

lemma counted_0 [simp]: "counted 0 0 False"
  by (simp add: counted_def)

lemma counted_Suc:
  assumes "counted n c over"
  shows "counted (Suc n) (c + 1) (over \<or> c = INT_MAX)"
proof -
  have max: "INT_MAX = word_of_nat (2 ^ 31 - 1)" by (simp add: INT_MAX_def)
  have "word_of_nat n = INT_MAX \<Longrightarrow> 2 ^ 31 - 1 \<le> n"
  proof -
    assume "word_of_nat n = INT_MAX"
    then have "unat (word_of_nat n :: u32) = 2 ^ 31 - 1" by (simp add: max unat_of_nat)
    then show ?thesis by (metis unat_of_nat mod_less_eq_dividend)
  qed
  moreover have "2 ^ 31 \<le> Suc n \<longleftrightarrow> 2 ^ 31 \<le> n \<or> n = 2 ^ 31 - 1" by auto
  ultimately show ?thesis using assms max by (auto simp: counted_def add.commute)
qed

lemma counted_value:
  assumes "counted n c over"
  shows "if n < 2 ^ 31 then sint c = int n \<and> \<not> over else over"
  using assms by (auto simp: counted_def signed_of_nat signed_take_bit_int_eq_self)

definition counter_ok :: "nat \<Rightarrow> mutex_sys \<Rightarrow> bool" where
  "counter_ok rounds s \<longleftrightarrow> length (iters s) = length (mthr s) \<and>
     counted (increments s) (counter s) (overflowed s) \<and>
     (\<forall>i < length (mthr s). \<forall>c. mthr s ! i = MLoaded c \<longrightarrow> c = counter s) \<and>
     (\<forall>i < length (mthr s). iters s ! i < rounds \<or> (iters s ! i = rounds \<and> mthr s ! i = MIdle))"

definition mutex_good :: "nat \<Rightarrow> nat \<Rightarrow> mutex_sys \<Rightarrow> bool" where
  "mutex_good threads rounds s \<longleftrightarrow> length (mthr s) = threads \<and>
     lock_word_ok (mtx_state s) (mthr s) \<and> sleepers_woken (mtx_state s) (mthr s) \<and>
     counter_ok rounds s"

lemmas mutex_atomics = compare_exchange_strong_def exchange_def FutexWait_def

lemma mutex_counts_move:
  assumes "i < length ps" and "ps ! i = p"
  shows
    "cnt owner (ps[i := q]) + (if owner p then 1 else 0)
       = cnt owner ps + (if owner q then 1 else 0)"
    "cnt asleep (ps[i := q]) + (if asleep p then 1 else 0)
       = cnt asleep ps + (if asleep q then 1 else 0)"
    "cnt alert (ps[i := q]) + (if alert p then 1 else 0)
       = cnt alert ps + (if alert q then 1 else 0)"
    "cnt stored (ps[i := q]) + (if stored p then 1 else 0)
       = cnt stored ps + (if stored q then 1 else 0)"
  by (rule cnt_move [OF assms])+

lemma owner_holds_word:
  assumes "lock_word_ok m ps" and "i < length ps" and "owner (ps ! i)"
  shows "m \<noteq> 0" and "j < length ps \<Longrightarrow> owner (ps ! j) \<Longrightarrow> j = i"
  using assms cnt_pos [of i ps owner] cnt_le_one_unique [of owner ps j i]
  by (auto simp: lock_word_ok_def split: if_splits)

lemma lock_word_quiet:
  assumes "i < length ps" and "ps ! i = p" and "lock_word_ok m ps" and "owner q = owner p"
  shows "lock_word_ok m (ps[i := q])"
  using mutex_counts_move(1) [OF assms(1,2), of q] assms(3,4)
  by (auto simp: lock_word_ok_def split: if_splits)

lemma sleepers_woken_quiet:
  assumes "i < length ps" and "ps ! i = p" and "sleepers_woken m ps"
    and "\<not> asleep q" and "alert p \<longrightarrow> alert q"
  shows "sleepers_woken m (ps[i := q])"
  using mutex_counts_move(2,3) [OF assms(1,2), of q] assms(3-)
  by (auto simp: sleepers_woken_def split: if_splits)

lemma lock_step_word:
  assumes "i < length ps" and "lock_step m (ps ! i) = Some (m', q)" and "lock_word_ok m ps"
  shows "lock_word_ok m' (ps[i := q])"
proof -
  note mv = mutex_counts_move(1) [OF assms(1) refl, of q]
  show ?thesis
    using mv assms(2,3) owner_holds_word(1) [OF assms(3,1)]
    by (cases "ps ! i") (auto simp: lock_word_ok_def mutex_atomics split: if_splits)
qed

lemma lock_step_sleepers:
  assumes "i < length ps" and "lock_step m (ps ! i) = Some (m', q)"
    and "lock_word_ok m ps" and "sleepers_woken m ps"
  shows "sleepers_woken m' (ps[i := q])"
proof -
  note mv = mutex_counts_move [OF assms(1) refl, of q]
  show ?thesis
    using mv(2,3) assms(2-4)
    by (cases "ps ! i") (auto simp: sleepers_woken_def lock_word_ok_def mutex_atomics split: if_splits)
qed

lemma mutex_move_word:
  assumes "mutex_move rounds s t" and "lock_word_ok (mtx_state s) (mthr s)"
    and "sleepers_woken (mtx_state s) (mthr s)"
  shows "lock_word_ok (mtx_state t) (mthr t) \<and> sleepers_woken (mtx_state t) (mthr t)"
  using assms(1)
proof (cases rule: mutex_move.cases)
  case (run_code i m p)
  with assms(2,3) show ?thesis by (simp add: lock_step_word lock_step_sleepers)
next
  case (futex_sleep i)
  then have "mtx_state s = 2" by (simp add: FutexWait_def)
  with futex_sleep assms(2) show ?thesis
    by (auto intro!: lock_word_quiet simp: sleepers_woken_def)
next
  case (wake_one i j)
  then have "i \<noteq> j" by auto
  with wake_one mutex_counts_move [of i "mthr s" UnlockWake UnlockDone]
    mutex_counts_move [of j "(mthr s)[i := UnlockDone]" LockAsleep LockRetry]
    assms(2,3)
  show ?thesis by (auto simp: lock_word_ok_def sleepers_woken_def)
next
  case (wake_none i)
  then have "cnt asleep (mthr s) = 0" by (auto simp: cnt_zero_iff)
  with wake_none mutex_counts_move [OF wake_none(2,3), of UnlockDone] assms(2)
  show ?thesis by (auto simp: lock_word_ok_def sleepers_woken_def)
qed (use assms(2,3) in \<open>auto intro!: lock_word_quiet sleepers_woken_quiet\<close>)

text \<open>The counter: only the owner writes it, and nobody else holds a loaded value.\<close>

lemma lock_step_counted:
  assumes "lock_step m p = Some (m', q)"
  shows "stored q = stored p" and "q \<noteq> MLoaded c" and "p \<noteq> MIdle" and "q \<noteq> MIdle"
  using assms by (cases p; auto simp: mutex_atomics split: if_splits)+

lemma counter_ok_quiet:
  assumes "i < length (mthr s)" and "mthr s ! i = p" and "counter_ok rounds s"
    and "stored q = stored p" and "q \<noteq> MIdle" and "p \<noteq> MIdle \<or> iters s ! i < rounds"
    and "\<forall>c. q = MLoaded c \<longrightarrow> c = counter s"
  shows "counter_ok rounds (s\<lparr>mtx_state := m, mthr := (mthr s)[i := q]\<rparr>)"
  using mutex_counts_move(4) [OF assms(1,2), of q] assms
  by (auto simp: counter_ok_def increments_def nth_list_update split: if_splits)

lemma counter_ok_word [simp]:
  "counter_ok rounds (s\<lparr>mtx_state := m\<rparr>) = counter_ok rounds s"
  by (simp add: counter_ok_def increments_def)

lemma mutex_move_counter:
  assumes "mutex_move rounds s t" and "counter_ok rounds s"
    and "lock_word_ok (mtx_state s) (mthr s)"
  shows "counter_ok rounds t"
  using assms(1)
proof (cases rule: mutex_move.cases)
  case (call_lock i)
  with assms(2) counter_ok_quiet [of i s MIdle rounds LockCas "mtx_state s"] show ?thesis by simp
next
  case (run_code i m p)
  with assms(2) counter_ok_quiet [of i s _ rounds p m] lock_step_counted [OF run_code(3)]
  show ?thesis by simp
next
  case (futex_sleep i)
  with assms(2) counter_ok_quiet [of i s LockFutex rounds LockAsleep "mtx_state s"]
  show ?thesis by simp
next
  case (futex_again i)
  with assms(2) counter_ok_quiet [of i s LockFutex rounds LockRetry "mtx_state s"]
  show ?thesis by simp
next
  case (wake_one i j)
  then have "i \<noteq> j" by auto
  with wake_one assms(2) counter_ok_quiet [of i s UnlockWake rounds UnlockDone "mtx_state s"]
    counter_ok_quiet [of j "s\<lparr>mthr := (mthr s)[i := UnlockDone]\<rparr>" LockAsleep rounds LockRetry "mtx_state s"]
  show ?thesis by simp
next
  case (wake_none i)
  with assms(2) counter_ok_quiet [of i s UnlockWake rounds UnlockDone "mtx_state s"]
  show ?thesis by simp
next
  case (load_counter i)
  with assms(2) counter_ok_quiet [of i s MHeld rounds "MLoaded (counter s)" "mtx_state s"]
  show ?thesis by simp
next
  case (store_counter i c)
  have alone: "mthr s ! j \<noteq> MLoaded d" if "j < length (mthr s)" "j \<noteq> i" for j d
    using owner_holds_word(2) [OF assms(3) store_counter(2), of j] store_counter(3) that by auto
  from store_counter assms(2) have "c = counter s" by (auto simp: counter_ok_def)
  then have "counted (Suc (increments s)) (c + 1) (overflowed s \<or> c = INT_MAX)"
    using assms(2) by (intro counted_Suc) (simp add: counter_ok_def)
  moreover have "increments t = Suc (increments s)"
    using store_counter mutex_counts_move(4) [OF store_counter(2,3), of UnlockXchg] by (simp add: increments_def)
  ultimately show ?thesis
    using store_counter assms(2) alone by (auto simp: counter_ok_def nth_list_update)
next
  case (next_iteration i)
  then have "cnt stored (mthr s) = Suc (cnt stored ((mthr s)[i := MIdle]))"
    using mutex_counts_move(4) [OF next_iteration(2,3), of MIdle] by simp
  moreover have "iters s ! i \<le> sum_list (iters s)"
    using next_iteration assms(2) by (auto simp: counter_ok_def intro: elem_le_sum_list)
  ultimately show ?thesis
    using next_iteration assms(2)
    by (auto simp: counter_ok_def increments_def nth_list_update sum_list_update Suc_le_eq)
qed

lemma mutex_init_good: "mutex_init threads s \<Longrightarrow> 0 < rounds \<or> rounds = 0 \<Longrightarrow> mutex_good threads rounds s"
  by (auto simp: mutex_init_def mutex_good_def lock_word_ok_def sleepers_woken_def counter_ok_def
      increments_def sum_list_replicate)

lemma mutex_step_good:
  assumes "mutex_step rounds s t" and "mutex_good threads rounds s"
  shows "mutex_good threads rounds t"
  using assms(1)
proof (cases rule: mutex_step.cases)
  case move
  then have "length (mthr t) = length (mthr s)" by (auto elim: mutex_move.cases)
  with move assms(2) mutex_move_word [OF move] mutex_move_counter [OF move] show ?thesis
    by (simp add: mutex_good_def)
next
  case (spurious i)
  with assms(2) counter_ok_quiet [of i s LockAsleep rounds LockRetry "mtx_state s"] show ?thesis
    by (auto simp: mutex_good_def intro!: lock_word_quiet sleepers_woken_quiet)
qed

interpretation futex_mutex: invariant_system "mutex_init threads" "mutex_step rounds"
  "mutex_good threads rounds" for threads rounds
  by unfold_locales (auto intro: mutex_init_good mutex_step_good)

section \<open>Deadlock freedom\<close>

text \<open>The program points from which a thread can move by itself.\<close>

lemma lock_step_defined:
  "p \<in> {LockCas, LockMark, LockRetry, UnlockXchg} \<or> (\<exists>e. p = LockTest e \<or> p = LockLoop e \<or> p = UnlockTest e)
   \<Longrightarrow> \<exists>m' q. lock_step m p = Some (m', q)"
  by (auto simp: mutex_atomics)

lemma mutex_can_move:
  assumes "i < length (mthr s)" and "\<not> asleep (mthr s ! i)"
    and "mthr s ! i = MIdle \<longrightarrow> iters s ! i < rounds"
  shows "\<exists>t. mutex_move rounds s t"
proof (cases "mthr s ! i")
  case MIdle
  with assms show ?thesis by (blast intro: mutex_move.call_lock)
next
  case LockFutex
  with assms(1) show ?thesis
    by (cases "FutexWait (mtx_state s) 2") (blast intro: futex_sleep futex_again)+
next
  case UnlockWake
  show ?thesis
  proof (cases "LockAsleep \<in> set (mthr s)")
    case True
    then obtain j where "j < length (mthr s)" "mthr s ! j = LockAsleep"
      by (auto simp: in_set_conv_nth)
    with UnlockWake assms(1) show ?thesis by (blast intro: wake_one)
  next
    case False
    with UnlockWake assms(1) show ?thesis by (blast intro: wake_none)
  qed
next
  case MHeld
  with assms(1) show ?thesis by (blast intro: load_counter)
next
  case (MLoaded c)
  with assms(1) show ?thesis by (blast intro: store_counter)
next
  case UnlockDone
  with assms(1) show ?thesis by (blast intro: next_iteration)
next
  case LockAsleep
  with assms(2) show ?thesis by simp
qed (use assms(1) run_code lock_step_defined [of "mthr s ! i" "mtx_state s"] in blast)+

lemma good_not_stuck:
  assumes "mutex_good threads rounds s" and "\<not> (\<exists>t. mutex_move rounds s t)"
  shows "\<forall>i < threads. mthr s ! i = MIdle \<and> iters s ! i = rounds"
proof -
  have stuck: "asleep (mthr s ! i) \<or> (mthr s ! i = MIdle \<and> iters s ! i = rounds)"
    if "i < length (mthr s)" for i
    using mutex_can_move [OF that, of rounds] assms that
    by (auto simp: mutex_good_def counter_ok_def)
  have others: "\<not> alert (mthr s ! i)" "\<not> owner (mthr s ! i)" if "i < length (mthr s)" for i
    using stuck [OF that] by auto
  have "cnt asleep (mthr s) = 0"
  proof (rule ccontr)
    assume sl: "cnt asleep (mthr s) \<noteq> 0"
    have "cnt alert (mthr s) = 0" "cnt owner (mthr s) = 0"
      using others by (auto simp: cnt_zero_iff in_set_conv_nth)
    with sl assms(1) show False
      by (auto simp: mutex_good_def sleepers_woken_def lock_word_ok_def)
  qed
  then have "\<not> asleep (mthr s ! i)" if "i < length (mthr s)" for i
    using cnt_pos [OF that, of asleep] by auto
  then show ?thesis using stuck assms(1) by (auto simp: mutex_good_def)
qed

section \<open>An executable scheduler\<close>

text \<open>Thread \<open>i\<close> makes its next move, where there is exactly one.\<close>

definition mutex_turn :: "nat \<Rightarrow> nat \<Rightarrow> mutex_sys \<Rightarrow> mutex_sys option" where
  "mutex_turn rounds i s =
     (if i < length (mthr s)
      then (case mthr s ! i of
              MIdle \<Rightarrow> (if iters s ! i < rounds then Some (s\<lparr>mthr := (mthr s)[i := LockCas]\<rparr>) else None)
            | LockFutex \<Rightarrow> Some (s\<lparr>mthr := (mthr s)[i :=
                if FutexWait (mtx_state s) 2 then LockAsleep else LockRetry]\<rparr>)
            | MHeld \<Rightarrow> Some (s\<lparr>mthr := (mthr s)[i := MLoaded (counter s)]\<rparr>)
            | MLoaded c \<Rightarrow> Some (s\<lparr>mthr := (mthr s)[i := UnlockXchg], counter := c + 1,
                overflowed := overflowed s \<or> c = INT_MAX\<rparr>)
            | UnlockDone \<Rightarrow> Some (s\<lparr>mthr := (mthr s)[i := MIdle], iters := (iters s)[i := Suc (iters s ! i)]\<rparr>)
            | UnlockWake \<Rightarrow> None
            | LockAsleep \<Rightarrow> None
            | p \<Rightarrow> (case lock_step (mtx_state s) p of
                      None \<Rightarrow> None
                    | Some (m, q) \<Rightarrow> Some (s\<lparr>mtx_state := m, mthr := (mthr s)[i := q]\<rparr>)))
      else None)"

abbreviation mutex_turns :: "nat \<Rightarrow> nat list \<Rightarrow> mutex_sys \<Rightarrow> mutex_sys option" where
  "mutex_turns rounds \<equiv> run_turns (mutex_turn rounds)"

lemma mutex_turn_step:
  assumes "mutex_turn rounds i s = Some t"
  shows "mutex_step rounds s t"
proof -
  have i: "i < length (mthr s)" using assms by (simp add: mutex_turn_def split: if_splits)
  have "mutex_move rounds s t"
    using assms i mutex_move.call_lock [of i s rounds] mutex_move.run_code [of i s _ _ rounds]
      mutex_move.futex_sleep [of i s rounds] mutex_move.futex_again [of i s rounds]
      mutex_move.load_counter [of i s rounds] mutex_move.store_counter [of i s _ rounds]
      mutex_move.next_iteration [of i s rounds]
    by (cases "mthr s ! i") (auto simp: mutex_turn_def split: if_splits prod.splits)
  then show ?thesis by (rule mutex_step.move)
qed

interpretation mutex_schedule: scheduled_system "mutex_step rounds" "mutex_turn rounds" for rounds
  by unfold_locales (rule mutex_turn_step)

lemmas mutex_turns_run = mutex_schedule.turns_run
lemmas mutex_turns_reach = mutex_schedule.turns_reach

section \<open>Properties\<close>

definition mutex_start :: mutex_sys where
  "mutex_start = \<lparr>mtx_state = 0, mthr = [MIdle, MIdle], iters = [0, 0], counter = 0, overflowed = False\<rparr>"

lemma mutex_start_init: "mutex_init 2 mutex_start"
  by (simp add: mutex_init_def mutex_start_def numeral_2_eq_2)

lemmas mutex_eval = mutex_start_def mutex_turn_def mutex_atomics

text \<open>Thread 0 holds the lock, thread 1 sleeps in the futex.\<close>

lemma contended_run:
  "\<exists>t. (mutex_step 1)\<^sup>*\<^sup>* mutex_start t \<and> (mthr t = [MHeld, LockAsleep] \<and> mtx_state t = 2)"
  by (rule mutex_turns_reach [where ms = "[0, 0, 1, 1, 1, 1, 1, 1]"]) (simp add: mutex_eval)

text \<open>C6: Mutual exclusion: on every run of any number of threads, with any interleaving and any
  spurious wake-ups, at most one thread is between the end of Lock and the exchange of Unlock,
  and while one is, the lock word is not 0.\<close>
theorem mutex_exclusion:
  assumes "mutex_init threads s" and "(mutex_step rounds)\<^sup>*\<^sup>* s t"
    and "i < threads" and "j < threads" and "owner (mthr t ! i)" and "owner (mthr t ! j)"
  shows "i = j \<and> mtx_state t \<noteq> 0"
proof -
  have good: "mutex_good threads rounds t" by (rule futex_mutex.reachable_good [OF assms(1,2)])
  then have "lock_word_ok (mtx_state t) (mthr t)" "i < length (mthr t)" "j < length (mthr t)"
    using assms(3,4) by (simp_all add: mutex_good_def)
  with owner_holds_word(1) [of "mtx_state t" "mthr t" i] owner_holds_word(2) [of "mtx_state t" "mthr t" i j]
    assms(5,6) show ?thesis by auto
qed

theorem mutex_exclusion_witness:
  "\<exists>t. (mutex_step 1)\<^sup>*\<^sup>* mutex_start t \<and> mthr t = [MHeld, LockAsleep] \<and> (0 :: nat) = 0 \<and> mtx_state t \<noteq> 0"
proof -
  obtain t where t: "(mutex_step 1)\<^sup>*\<^sup>* mutex_start t" "mthr t = [MHeld, LockAsleep]"
    using contended_run by blast
  from mutex_exclusion [OF mutex_start_init t(1), of 0 0] t show ?thesis by auto
qed

text \<open>No deadlock and no lost wake-up: on every run, either some thread can move by itself (the
  spurious return of a futex wait does not count) or every thread has finished all its rounds;
  a thread asleep in the futex is never left behind.\<close>
theorem mutex_deadlock_free:
  assumes "mutex_init threads s" and "(mutex_step rounds)\<^sup>*\<^sup>* s t"
  shows "(\<exists>u. mutex_move rounds t u) \<or> (\<forall>i < threads. mthr t ! i = MIdle \<and> iters t ! i = rounds)"
  using good_not_stuck [OF futex_mutex.reachable_good [OF assms]] by blast

theorem mutex_deadlock_free_witness:
  "\<exists>t. (mutex_step 1)\<^sup>*\<^sup>* mutex_start t \<and> mthr t = [MHeld, LockAsleep] \<and>
    ((\<exists>u. mutex_move 1 t u) \<or> (\<forall>i < 2. mthr t ! i = MIdle \<and> iters t ! i = 1))"
proof -
  obtain t where t: "(mutex_step 1)\<^sup>*\<^sup>* mutex_start t" "mthr t = [MHeld, LockAsleep]"
    using contended_run by blast
  from mutex_deadlock_free [OF mutex_start_init t(1)] t show ?thesis by blast
qed

text \<open>No increment under the lock is lost: on every run the counter is the number of completed
  rounds plus the increments of rounds not yet completed, and when all threads have finished it
  is threads times rounds, as the stress test asserts; it overflows exactly when that is no \<open>int\<close>.\<close>
theorem mutex_counter_exact:
  assumes "mutex_init threads s" and "(mutex_step rounds)\<^sup>*\<^sup>* s t"
  shows "(if increments t < 2 ^ 31 then sint (counter t) = int (increments t) \<and> \<not> overflowed t else overflowed t) \<and>
    ((\<forall>i < threads. mthr t ! i = MIdle \<and> iters t ! i = rounds) \<longrightarrow> increments t = threads * rounds)"
proof -
  have good: "mutex_good threads rounds t" by (rule futex_mutex.reachable_good [OF assms])
  then have ok: "counter_ok rounds t" "length (mthr t) = threads" by (simp_all add: mutex_good_def)
  then have len: "length (iters t) = threads" by (simp add: counter_ok_def)
  have "increments t = threads * rounds" if fin: "\<forall>i < threads. mthr t ! i = MIdle \<and> iters t ! i = rounds"
  proof -
    have "cnt stored (mthr t) = 0" using fin ok(2) by (auto simp: cnt_zero_iff in_set_conv_nth)
    moreover have "iters t = replicate threads rounds" using fin len by (auto intro: nth_equalityI)
    ultimately show ?thesis by (simp add: increments_def sum_list_replicate)
  qed
  moreover have "counted (increments t) (counter t) (overflowed t)" using ok(1) by (simp add: counter_ok_def)
  ultimately show ?thesis using counted_value by blast
qed

theorem mutex_counter_exact_witness:
  "\<exists>t. (mutex_step 1)\<^sup>*\<^sup>* mutex_start t \<and> mthr t = [MIdle, MIdle] \<and> sint (counter t) = 2 \<and> \<not> overflowed t"
proof -
  have "\<exists>t. (mutex_step 1)\<^sup>*\<^sup>* mutex_start t \<and> (mthr t = [MIdle, MIdle] \<and> iters t = [1, 1])"
    by (rule mutex_turns_reach [where ms = "[0, 0, 0, 0, 0, 0, 0, 1, 1, 1, 1, 1, 1, 1]"]) (simp add: mutex_eval)
  then obtain t where t: "(mutex_step 1)\<^sup>*\<^sup>* mutex_start t" "mthr t = [MIdle, MIdle]" "iters t = [1, 1]"
    by (elim exE conjE) (rule that)
  from mutex_counter_exact [OF mutex_start_init t(1)] t show ?thesis by (auto simp: increments_def cnt_def)
qed

text \<open>The abstract lock: who holds it, if anyone.\<close>

definition holders :: "mutex_sys \<Rightarrow> nat list" where
  "holders s = filter (\<lambda>i. owner (mthr s ! i)) [0..<length (mthr s)]"

definition lock_spec :: "nat list \<Rightarrow> nat list \<Rightarrow> bool" where
  "lock_spec a b \<longleftrightarrow> a = b \<or> (\<exists>i. a = [] \<and> b = [i]) \<or> (\<exists>i. a = [i] \<and> b = [])"

lemma filter_upt_one: "k < n \<Longrightarrow> filter (\<lambda>j. j = k) [0..<n] = [k]"
  by (induction n) (auto simp: less_Suc_eq filter_empty_conv)

lemma holders_cases:
  assumes "lock_word_ok (mtx_state s) (mthr s)"
  obtains "holders s = []" "mtx_state s = 0" "\<And>j. j < length (mthr s) \<Longrightarrow> \<not> owner (mthr s ! j)"
  | k where "holders s = [k]" "mtx_state s \<noteq> 0" "k < length (mthr s)" "owner (mthr s ! k)"
      "\<And>j. j < length (mthr s) \<Longrightarrow> owner (mthr s ! j) \<Longrightarrow> j = k"
proof (cases "\<exists>k < length (mthr s). owner (mthr s ! k)")
  case False
  then have "cnt owner (mthr s) = 0" by (auto simp: cnt_zero_iff in_set_conv_nth)
  then have "mtx_state s = 0" using assms by (simp add: lock_word_ok_def split: if_splits)
  moreover have "holders s = []" using False by (simp add: holders_def filter_empty_conv)
  ultimately show thesis using that(1) False by blast
next
  case True
  then obtain k where k: "k < length (mthr s)" "owner (mthr s ! k)" by blast
  have uniq: "j = k" if "j < length (mthr s)" "owner (mthr s ! j)" for j
    using owner_holds_word(2) [OF assms k that] .
  have "holders s = filter (\<lambda>j. j = k) [0..<length (mthr s)]"
  proof -
    have "owner (mthr s ! j) \<longleftrightarrow> j = k" if "j \<in> set [0..<length (mthr s)]" for j
      using that uniq [of j] k(2) by fastforce
    then show ?thesis unfolding holders_def by (rule filter_cong [OF refl])
  qed
  also have "\<dots> = [k]" by (rule filter_upt_one [OF k(1)])
  finally have "holders s = [k]" .
  with that(2) k uniq owner_holds_word(1) [OF assms k] show thesis by blast
qed

lemma step_moves_one:
  assumes "mutex_step rounds s t"
  shows "length (mthr t) = length (mthr s) \<and>
    (\<exists>i. \<forall>j. j \<noteq> i \<longrightarrow> owner (mthr t ! j) = owner (mthr s ! j))"
  using assms
proof (cases rule: mutex_step.cases)
  case move
  then show ?thesis
  proof (cases rule: mutex_move.cases)
    case (wake_one i j)
    then show ?thesis by (auto simp: nth_list_update intro!: exI [of _ i])
  qed (auto intro!: exI simp: nth_list_update split: if_splits)
next
  case (spurious i)
  then show ?thesis by (auto simp: nth_list_update)
qed

text \<open>The futex mutex implements a lock: the word is 0 exactly when nobody holds the lock, at most
  one thread does, and every step either leaves the holder alone, gives a free lock to one
  thread, or frees the lock; no step passes it on directly.\<close>
theorem mutex_refines_lock:
  assumes "mutex_init threads s" and "(mutex_step rounds)\<^sup>*\<^sup>* s t" and "mutex_step rounds t u"
  shows "lock_spec (holders t) (holders u) \<and> (mtx_state t = 0 \<longleftrightarrow> holders t = []) \<and> length (holders t) \<le> 1"
proof -
  have ok: "lock_word_ok (mtx_state t) (mthr t)" "lock_word_ok (mtx_state u) (mthr u)"
    using futex_mutex.reachable_good [OF assms(1,2)]
      futex_mutex.reachable_good [OF assms(1) rtranclp.rtrancl_into_rtrancl [OF assms(2,3)]]
    by (simp_all add: mutex_good_def)
  from step_moves_one [OF assms(3)] obtain i where len: "length (mthr u) = length (mthr t)"
    and same: "\<And>j. j \<noteq> i \<Longrightarrow> owner (mthr u ! j) = owner (mthr t ! j)" by blast
  have "lock_spec (holders t) (holders u)"
  proof (cases rule: holders_cases [OF ok(1)])
    case 1
    then show ?thesis
    proof (cases rule: holders_cases [OF ok(2)])
      case 1
      with \<open>holders t = []\<close> show ?thesis by (simp only: lock_spec_def simp_thms)
    next
      case (2 k)
      with \<open>holders t = []\<close> show ?thesis by (metis lock_spec_def)
    qed
  next
    case (2 k)
    note hk = 2
    show ?thesis
    proof (cases rule: holders_cases [OF ok(2)])
      case 1
      with hk(1) show ?thesis by (metis lock_spec_def)
    next
      case (2 l)
      have "k = l"
      proof (cases "k = i")
        case True
        then show ?thesis using same [of l] 2(3,4) hk(5) [of l] len by metis
      next
        case False
        then show ?thesis using same [of k] 2(5) [of k] hk(3,4) len by metis
      qed
      with hk(1) 2(1) show ?thesis by (metis lock_spec_def)
    qed
  qed
  moreover have "(mtx_state t = 0 \<longleftrightarrow> holders t = []) \<and> length (holders t) \<le> 1"
  proof (cases rule: holders_cases [OF ok(1)])
    case 1
    from 1(1,2) show ?thesis by simp
  next
    case (2 k)
    from 2(1,2) show ?thesis by simp
  qed
  ultimately show ?thesis by blast
qed

theorem mutex_refines_lock_witness:
  "\<exists>t u. (mutex_step 1)\<^sup>*\<^sup>* mutex_start t \<and> mutex_step 1 t u \<and> holders t = [0] \<and>
    lock_spec (holders t) (holders u) \<and> (mtx_state t = 0 \<longleftrightarrow> holders t = []) \<and> length (holders t) \<le> 1"
proof -
  obtain t where t: "(mutex_step 1)\<^sup>*\<^sup>* mutex_start t" "mthr t = [MHeld, LockAsleep]"
    using contended_run by blast
  have "mutex_step 1 t (t\<lparr>mthr := (mthr t)[0 := MLoaded (counter t)]\<rparr>)"
    using t(2) by (intro mutex_step.move mutex_move.load_counter) simp_all
  moreover have "holders t = [0]" using t(2) by (simp add: holders_def)
  ultimately obtain u where u: "mutex_step 1 t u" and h: "holders t = [0]" by blast
  from mutex_refines_lock [OF mutex_start_init t(1) u] have
    "lock_spec (holders t) (holders u) \<and> (mtx_state t = 0 \<longleftrightarrow> holders t = []) \<and> length (holders t) \<le> 1" .
  with t(1) u h show ?thesis by blast
qed

end
