(* ===== verification/Mutex_Ends.thy ===== *)
theory Mutex_Ends
  imports Mutex
begin

text \<open>
  Every thread gets the mutex: a run of the client in which no futex wait returns early ends, after a
  bounded number of steps, with all rounds of all threads done. The measure counts, in this order,
  the releases that are still to come, the wake-ups that are still to be sent, how far the lock word is
  from 2 (between two releases it only rises), and the steps each thread has left on its path.
\<close>

section \<open>The measure\<close>

text \<open>The lock has been released in this round; a wake-up is owed.\<close>

fun released :: "mutex_pc \<Rightarrow> bool" where
  "released (UnlockTest _) \<longleftrightarrow> True"
| "released UnlockWake \<longleftrightarrow> True"
| "released UnlockDone \<longleftrightarrow> True"
| "released _ \<longleftrightarrow> False"

fun waking :: "mutex_pc \<Rightarrow> bool" where
  "waking (UnlockTest prev) \<longleftrightarrow> prev = 2"
| "waking UnlockWake \<longleftrightarrow> True"
| "waking _ \<longleftrightarrow> False"

text \<open>
  The path of a thread; while the word is 2 a waiting thread ends asleep, while it is not the
  waiting thread comes back to its \<open>exchange(2)\<close>, which makes it 2.
\<close>

fun path :: "bool \<Rightarrow> mutex_pc \<Rightarrow> nat" where
  "path _ (UnlockTest _) = 20"
| "path _ UnlockWake = 19"
| "path _ UnlockDone = 18"
| "path _ MIdle = 17"
| "path _ LockCas = 16"
| "path _ (LockTest _) = 15"
| "path _ LockMark = 14"
| "path competition LockRetry = (if competition then 13 else 11)"
| "path competition (LockLoop _) = (if competition then 12 else 13)"
| "path competition LockFutex = (if competition then 11 else 12)"
| "path _ LockAsleep = 10"
| "path _ MHeld = 3"
| "path _ (MLoaded _) = 2"
| "path _ UnlockXchg = 1"

definition to_release :: "nat \<Rightarrow> mutex_pc \<times> nat \<Rightarrow> nat" where
  "to_release rounds x = rounds - snd x - (if released (fst x) then 1 else 0)"

definition releases_left :: "nat \<Rightarrow> mutex_sys \<Rightarrow> nat" where
  "releases_left rounds s = sum_list (map (to_release rounds) (zip (mthr s) (iters s)))"

definition word_distance :: "u32 \<Rightarrow> nat" where
  "word_distance m = (if m = 2 then 0 else if m = 0 then 2 else 1)"

definition path_left :: "mutex_sys \<Rightarrow> nat" where
  "path_left s = sum_list (map (path (mtx_state s = 2)) (mthr s))"

definition mutex_measure :: "nat \<Rightarrow> (mutex_sys \<times> mutex_sys) set" where
  "mutex_measure rounds =
     measures [releases_left rounds, \<lambda>s. cnt waking (mthr s), \<lambda>s. word_distance (mtx_state s), path_left]"

section \<open>Every move decreases it\<close>

lemma zip_update_fst: "i < length ps \<Longrightarrow> length ks = length ps \<Longrightarrow> zip (ps[i := p]) ks = (zip ps ks)[i := (p, ks ! i)]"
  by (metis list_update_id zip_update)

lemma releases_move:
  assumes "i < length ps" and "length ks = length ps"
  shows "sum_list (map (to_release rounds) (zip (ps[i := p]) (ks[i := k]))) + to_release rounds (ps ! i, ks ! i) =
    sum_list (map (to_release rounds) (zip ps ks)) + to_release rounds (p, k)"
  using sum_list_at [of i "zip ps ks" "(ps ! i, ks ! i)" "to_release rounds" "(p, k)"] assms by (simp add: zip_update)

text \<open>One thread moves, the word stays.\<close>

lemma thread_less:
  assumes i: "i < length (mthr s)" and len: "length (iters s) = length (mthr s)" and p: "mthr s ! i = p"
    and t: "mthr t = (mthr s)[i := q]" "iters t = iters s" "mtx_state t = mtx_state s"
    and rel: "released q = released p" "waking q \<longrightarrow> waking p"
    and less: "waking p = waking q \<Longrightarrow> path (mtx_state s = 2) q < path (mtx_state s = 2) p"
  shows "(t, s) \<in> mutex_measure rounds"
proof -
  have "releases_left rounds t = releases_left rounds s"
    using releases_move [OF i len, of rounds q "iters s ! i"] rel t p by (simp add: releases_left_def to_release_def)
  moreover have "cnt waking (mthr t) + (if waking p then 1 else 0) = cnt waking (mthr s) + (if waking q then 1 else 0)"
    using cnt_move [OF i p] t by simp
  moreover have "path_left t + path (mtx_state s = 2) p = path_left s + path (mtx_state s = 2) q"
    using sum_list_at [OF i p] t by (simp add: path_left_def)
  ultimately show ?thesis
    using rel(2) less t(3) by (cases "waking p"; cases "waking q") (simp_all add: mutex_measure_def)
qed

text \<open>A thread raises the word.\<close>

lemma word_less:
  assumes i: "i < length (mthr s)" and len: "length (iters s) = length (mthr s)" and p: "mthr s ! i = p"
    and t: "mthr t = (mthr s)[i := q]" "iters t = iters s"
    and rel: "released q = released p" "waking q = waking p"
    and less: "word_distance (mtx_state t) < word_distance (mtx_state s)"
  shows "(t, s) \<in> mutex_measure rounds"
proof -
  have "releases_left rounds t = releases_left rounds s"
    using releases_move [OF i len, of rounds q "iters s ! i"] rel t p by (simp add: releases_left_def to_release_def)
  moreover have "cnt waking (mthr t) = cnt waking (mthr s)"
    using cnt_move [OF i p, of waking q] t rel by (simp split: if_splits)
  ultimately show ?thesis using less by (simp add: mutex_measure_def)
qed

text \<open>The code between system calls.\<close>

lemma code_less:
  assumes i: "i < length (mthr s)" and code: "lock_step (mtx_state s) (mthr s ! i) = Some (m, q)"
    and ok: "counter_ok rounds s"
  shows "(s\<lparr>mtx_state := m, mthr := (mthr s)[i := q]\<rparr>, s) \<in> mutex_measure rounds"
proof -
  let ?t = "s\<lparr>mtx_state := m, mthr := (mthr s)[i := q]\<rparr>"
  have len: "length (iters s) = length (mthr s)" using ok by (simp add: counter_ok_def)
  note stays = thread_less [OF i len, of _ ?t q rounds] and rises = word_less [OF i len, of _ ?t q rounds]
  show ?thesis
  proof (cases "mthr s ! i")
    case UnlockXchg
    then have "iters s ! i < rounds" using ok i by (auto simp: counter_ok_def)
    then have "releases_left rounds ?t < releases_left rounds s"
      using releases_move [OF i len, of rounds q "iters s ! i"] UnlockXchg code
      by (auto simp: releases_left_def to_release_def exchange_def)
    then show ?thesis by (simp add: mutex_measure_def)
  next
    case LockCas
    with code stays [OF LockCas] rises [OF LockCas] show ?thesis
      by (auto simp: compare_exchange_strong_def word_distance_def split: if_splits)
  next
    case LockMark
    with code stays [OF LockMark] rises [OF LockMark] show ?thesis
      by (cases "mtx_state s = 2") (auto simp: exchange_def word_distance_def)
  next
    case LockRetry
    with code stays [OF LockRetry] rises [OF LockRetry] show ?thesis
      by (cases "mtx_state s = 2") (auto simp: exchange_def word_distance_def)
  qed (use code stays in \<open>auto split: if_splits\<close>)
qed

lemma move_less:
  assumes "mutex_move rounds s t" and ok: "counter_ok rounds s"
  shows "(t, s) \<in> mutex_measure rounds"
  using assms(1)
proof cases
  case (call_lock i)
  with ok thread_less [of i s MIdle t LockCas] show ?thesis by (simp add: counter_ok_def)
next
  case (run_code i m p)
  with ok code_less show ?thesis by blast
next
  case (futex_sleep i)
  with ok thread_less [of i s LockFutex t LockAsleep] show ?thesis by (simp add: counter_ok_def FutexWait_def)
next
  case (futex_again i)
  with ok thread_less [of i s LockFutex t LockRetry] show ?thesis by (simp add: counter_ok_def FutexWait_def)
next
  case (wake_one i j)
  then have ne: "i \<noteq> j" by auto
  have len: "length (iters s) = length (mthr s)" using ok by (simp add: counter_ok_def)
  let ?ps = "(mthr s)[i := UnlockDone]"
  have "releases_left rounds t = releases_left rounds s"
    using releases_move [of i "mthr s" "iters s" rounds UnlockDone "iters s ! i"]
      releases_move [of j ?ps "iters s" rounds LockRetry "iters s ! j"] wake_one len ne
    by (simp add: releases_left_def to_release_def)
  moreover have "cnt waking (mthr t) < cnt waking (mthr s)"
    using cnt_move [of i "mthr s" UnlockWake waking UnlockDone] cnt_move [of j ?ps LockAsleep waking LockRetry] wake_one ne
    by simp
  ultimately show ?thesis by (simp add: mutex_measure_def)
next
  case (wake_none i)
  with ok thread_less [of i s UnlockWake t UnlockDone] show ?thesis by (simp add: counter_ok_def)
next
  case (load_counter i)
  with ok thread_less [of i s MHeld t "MLoaded (counter s)"] show ?thesis by (simp add: counter_ok_def)
next
  case (store_counter i c)
  with ok thread_less [of i s "MLoaded c" t UnlockXchg] show ?thesis by (simp add: counter_ok_def)
next
  case (next_iteration i)
  have len: "length (iters s) = length (mthr s)" using ok by (simp add: counter_ok_def)
  have "releases_left rounds t = releases_left rounds s"
    using releases_move [of i "mthr s" "iters s" rounds MIdle "Suc (iters s ! i)"] next_iteration len
    by (simp add: releases_left_def to_release_def)
  moreover have "cnt waking (mthr t) = cnt waking (mthr s)"
    using cnt_move [of i "mthr s" UnlockDone waking MIdle] next_iteration by simp
  moreover have "path_left t < path_left s"
    using sum_list_at [of i "mthr s" UnlockDone "path (mtx_state s = 2)" MIdle] next_iteration by (simp add: path_left_def)
  ultimately show ?thesis using next_iteration by (simp add: mutex_measure_def)
qed

section \<open>Every run ends\<close>

lemma moves_are_steps: "(mutex_move rounds)\<^sup>*\<^sup>* s t \<Longrightarrow> (mutex_step rounds)\<^sup>*\<^sup>* s t"
  by (induction rule: rtranclp_induct) (auto intro: move rtranclp.rtrancl_into_rtrancl)

lemma reachable_counter_ok:
  assumes "mutex_init threads s" and "(mutex_step rounds)\<^sup>*\<^sup>* s t"
  shows "counter_ok rounds t"
  using futex_mutex.reachable_good [OF assms] by (simp add: mutex_good_def)

lemma no_endless_run:
  assumes "mutex_init threads s" and "(mutex_step rounds)\<^sup>*\<^sup>* s t" and "f 0 = t" and "\<And>i. mutex_move rounds (f i) (f (Suc i))"
  shows False
proof -
  have run: "(mutex_move rounds)\<^sup>*\<^sup>* t (f i)" for i
    by (induction i) (use assms(3,4) in \<open>auto intro: rtranclp.rtrancl_into_rtrancl\<close>)
  have "(mutex_step rounds)\<^sup>*\<^sup>* s (f i)" for i using assms(2) moves_are_steps [OF run] by (meson rtranclp_trans)
  then have "(f (Suc i), f i) \<in> mutex_measure rounds" for i
    using move_less [OF assms(4) reachable_counter_ok [OF assms(1)]] by blast
  moreover have "wf (mutex_measure rounds)" by (simp add: mutex_measure_def)
  ultimately show False unfolding wf_iff_no_infinite_down_chain by blast
qed

text \<open>A state without moves is the end: every thread has made all its rounds.\<close>

lemma ended_mutex:
  assumes "mutex_init threads s" and "(mutex_step rounds)\<^sup>*\<^sup>* s u" and "\<nexists>v. mutex_move rounds u v"
  shows "mthr u = replicate threads MIdle \<and> iters u = replicate threads rounds \<and> mtx_state u = 0 \<and>
    (if threads * rounds < 2 ^ 31 then sint (counter u) = int (threads * rounds) \<and> \<not> overflowed u else overflowed u)"
proof -
  note good = futex_mutex.reachable_good [OF assms(1,2)]
  then have len: "length (mthr u) = threads" "length (iters u) = threads" by (simp_all add: mutex_good_def counter_ok_def)
  have "\<forall>i < threads. mthr u ! i = MIdle \<and> iters u ! i = rounds" using good_not_stuck [OF good] assms(3) by blast
  with len have idle: "mthr u = replicate threads MIdle" "iters u = replicate threads rounds"
    by (auto intro: nth_equalityI)
  then have n: "increments u = threads * rounds" by (simp add: increments_def sum_list_replicate)
  have "counted (increments u) (counter u) (overflowed u)" using good by (simp add: mutex_good_def counter_ok_def)
  note val = counted_value [OF this, unfolded n]
  have "mtx_state u = 0" using good idle by (auto simp: mutex_good_def lock_word_ok_def split: if_splits)
  with val idle show ?thesis by blast
qed

text \<open>C9: Every thread gets the mutex as often as it asks. On every run, from any state it has reached
  and whatever order the threads are then scheduled in, as long as no futex wait returns early the
  run ends after finitely many moves; and it can end only with all rounds of all threads done,
  the lock free and the counter equal to the number of rounds, if a 32-bit int can hold it; if not,
  the increments have overflowed.\<close>
theorem mutex_always_finishes:
  assumes "mutex_init threads s" and "(mutex_step rounds)\<^sup>*\<^sup>* s t"
  shows "(\<nexists>f. f 0 = t \<and> (\<forall>i. mutex_move rounds (f i) (f (Suc i)))) \<and>
    (\<forall>u. (mutex_move rounds)\<^sup>*\<^sup>* t u \<longrightarrow> (\<nexists>v. mutex_move rounds u v) \<longrightarrow>
      mthr u = replicate threads MIdle \<and> iters u = replicate threads rounds \<and> mtx_state u = 0 \<and>
      (if threads * rounds < 2 ^ 31 then sint (counter u) = int (threads * rounds) \<and> \<not> overflowed u else overflowed u))"
proof -
  have "(mutex_step rounds)\<^sup>*\<^sup>* s u" if "(mutex_move rounds)\<^sup>*\<^sup>* t u" for u
    using assms(2) moves_are_steps [OF that] by (meson rtranclp_trans)
  with no_endless_run [OF assms] ended_mutex [OF assms(1)] show ?thesis by blast
qed

theorem mutex_always_finishes_witness:
  "\<exists>t. (mutex_step 1)\<^sup>*\<^sup>* mutex_start t \<and> mthr t = [MHeld, LockAsleep] \<and>
    (\<nexists>f. f 0 = t \<and> (\<forall>i. mutex_move 1 (f i) (f (Suc i))))"
proof -
  obtain t where t: "(mutex_step 1)\<^sup>*\<^sup>* mutex_start t" "mthr t = [MHeld, LockAsleep]"
    using contended_run by blast
  from mutex_always_finishes [OF mutex_start_init t(1)] t show ?thesis by blast
qed

end
