(* ===== verification/Mutex_Benchmark.thy ===== *)
theory Mutex_Benchmark
  imports Mutex_Ends
begin

text \<open>
  The benchmark of the mutex (\<^verbatim>\<open>hw-4/benchmark.cpp\<close>): thread 0 sets the counter to 0 and puts a new
  mutex into the global pointer, every thread waits in \<open>KeepRunning\<close> for the others, and then all
  make their rounds. The benchmark library runs the function several times on the same globals, so a
  run starts from whatever the one before has left. The barrier of the library and the common number
  of rounds are what it documents for benchmarks with threads.
\<close>

record mutex_bench =
  at_barrier :: "bool list"
  globals :: mutex_sys

definition set_up :: "mutex_sys \<Rightarrow> mutex_sys" where
  "set_up g = g\<lparr>counter := 0, mtx_state := 0\<rparr>"

text \<open>\<open>step\<close> is how the threads run behind the barrier, with or without early returns of the futex.\<close>

inductive Run_step :: "(mutex_sys \<Rightarrow> mutex_sys \<Rightarrow> bool) \<Rightarrow> mutex_bench \<Rightarrow> mutex_bench \<Rightarrow> bool" for step where
  first_arrives:
    "at_barrier b = False # rest \<Longrightarrow>
     Run_step step b (b\<lparr>at_barrier := True # rest, globals := set_up (globals b)\<rparr>)"
| other_arrives:
    "i < length (at_barrier b) \<Longrightarrow> i \<noteq> 0 \<Longrightarrow> \<not> at_barrier b ! i \<Longrightarrow>
     Run_step step b (b\<lparr>at_barrier := (at_barrier b)[i := True]\<rparr>)"
| behind_barrier:
    "False \<notin> set (at_barrier b) \<Longrightarrow> step (globals b) g \<Longrightarrow> Run_step step b (b\<lparr>globals := g\<rparr>)"

text \<open>Before a run: the counter and the old mutex are arbitrary, the threads are fresh, and nothing has
  overflowed so far.\<close>

definition Run_init :: "nat \<Rightarrow> mutex_bench \<Rightarrow> bool" where
  "Run_init threads b \<longleftrightarrow> at_barrier b = replicate threads False \<and>
     mthr (globals b) = replicate threads MIdle \<and> iters (globals b) = replicate threads 0 \<and> \<not> overflowed (globals b)"

section \<open>Before and behind the barrier\<close>

text \<open>Once thread 0 is through, the globals are those of a fresh client; behind the barrier they are
  reachable from it.\<close>

definition Run_good :: "nat \<Rightarrow> nat \<Rightarrow> mutex_bench \<Rightarrow> bool" where
  "Run_good threads rounds b \<longleftrightarrow> length (at_barrier b) = threads \<and>
     (if False \<in> set (at_barrier b)
      then mthr (globals b) = replicate threads MIdle \<and> iters (globals b) = replicate threads 0 \<and> \<not> overflowed (globals b) \<and>
        (at_barrier b ! 0 \<longrightarrow> counter (globals b) = 0 \<and> mtx_state (globals b) = 0)
      else \<exists>s. mutex_init threads s \<and> (mutex_step rounds)\<^sup>*\<^sup>* s (globals b))"

lemma arriving:
  assumes "Run_good threads rounds b" and "False \<in> set (at_barrier b)" and "0 < threads"
    and "length bs = threads" and "g = globals b \<or> g = set_up (globals b)"
    and "bs ! 0 \<longrightarrow> counter g = 0 \<and> mtx_state g = 0"
  shows "Run_good threads rounds (b\<lparr>at_barrier := bs, globals := g\<rparr>)"
proof -
  have g: "mthr g = replicate threads MIdle" "iters g = replicate threads 0" "\<not> overflowed g"
    using assms(1,2,5) by (auto simp: Run_good_def set_up_def)
  show ?thesis
  proof (cases "False \<in> set bs")
    case False
    have "bs ! 0 \<in> set bs" using assms(3,4) by simp
    then have "bs ! 0" using False by metis
    then have "mutex_init threads g" using g assms(6) by (simp add: mutex_init_def)
    then show ?thesis using False assms(4) by (auto simp: Run_good_def)
  qed (use g assms(4,6) in \<open>simp add: Run_good_def\<close>)
qed

lemma Run_step_good:
  assumes "Run_step step b c" and "Run_good threads rounds b" and "0 < threads"
    and "\<And>s t. step s t \<Longrightarrow> mutex_step rounds s t"
  shows "Run_good threads rounds c"
  using assms(1)
proof cases
  case (first_arrives rest)
  then show ?thesis
    using arriving [OF assms(2) _ assms(3), of "True # rest" "set_up (globals b)"] assms(2)
    by (simp add: Run_good_def set_up_def)
next
  case (other_arrives i)
  then have f: "False \<in> set (at_barrier b)" using nth_mem by fastforce
  have "Run_good threads rounds (b\<lparr>at_barrier := (at_barrier b)[i := True], globals := globals b\<rparr>)"
    by (rule arriving [OF assms(2) f assms(3)]) (use f other_arrives assms(2) in \<open>auto simp: Run_good_def\<close>)
  then show ?thesis using other_arrives by simp
next
  case (behind_barrier g)
  then show ?thesis using assms(2,4) by (auto simp: Run_good_def intro: rtranclp.rtrancl_into_rtrancl)
qed

lemma Run_init_good: "Run_init threads b \<Longrightarrow> 0 < threads \<Longrightarrow> Run_good threads rounds b"
  by (auto simp: Run_init_def Run_good_def)

interpretation bench_run: invariant_system "\<lambda>b. Run_init (Suc n) b" "Run_step (mutex_step rounds)" "Run_good (Suc n) rounds"
  for n rounds
  by unfold_locales (use Run_init_good Run_step_good in blast)+

lemma Run_moves_are_steps: "Run_step (mutex_move rounds) b c \<Longrightarrow> Run_step (mutex_step rounds) b c"
  by (induction rule: Run_step.induct) (auto intro: Run_step.intros mutex_step.move)

lemma not_there: "i < length bs \<Longrightarrow> \<not> bs ! i \<Longrightarrow> False \<in> set bs"
  using nth_mem by fastforce

text \<open>Everybody gets to the barrier, and the barrier stays open.\<close>

lemma barrier_opens:
  assumes "\<forall>i. Run_step step (f i) (f (Suc i))"
  shows "\<exists>k. False \<notin> set (at_barrier (f k))"
proof (rule ccontr)
  let ?m = "\<lambda>i. count_list (at_barrier (f i)) False"
  assume never: "\<nexists>k. False \<notin> set (at_barrier (f k))"
  have "?m (Suc i) < ?m i" for i
    using assms [rule_format, of i]
  proof cases
    case (other_arrives j)
    have "count_list (xs[j := True]) False < count_list xs False" if "j < length xs" "\<not> xs ! j" for xs :: "bool list"
      using that by (induction xs arbitrary: j) (auto simp: nth_Cons split: nat.splits)
    from this [OF other_arrives(2,4)] other_arrives(1) show ?thesis by simp
  qed (use never in auto)
  then have "?m i + i \<le> ?m 0" for i
  proof (induction i)
    case (Suc i)
    from Suc.prems [of i] Suc.IH [OF Suc.prems] show ?case by simp
  qed simp
  from this [of "Suc (?m 0)"] show False by simp
qed

lemma open_step:
  assumes "Run_step step b c" and "False \<notin> set (at_barrier b)"
  shows "at_barrier c = at_barrier b \<and> step (globals b) (globals c)"
  using assms by cases (auto dest: not_there)

lemma barrier_stays_open:
  assumes "\<forall>i. Run_step step (f i) (f (Suc i))" and "False \<notin> set (at_barrier (f k))"
  shows "False \<notin> set (at_barrier (f (k + i))) \<and> step (globals (f (k + i))) (globals (f (Suc (k + i))))"
proof (induction i)
  case 0
  show ?case using open_step [OF spec [OF assms(1), of k] assms(2)] assms(2) by simp
next
  case (Suc i)
  then have "False \<notin> set (at_barrier (f (Suc (k + i))))"
    using open_step [OF spec [OF assms(1), of "k + i"]] by simp
  with open_step [OF spec [OF assms(1), of "Suc (k + i)"]] show ?case by simp
qed

section \<open>The result\<close>

text \<open>C29: The benchmark of the mutex counts every increment, whatever an earlier run left in the
  globals. No run goes on for ever (but for early returns of the futex), and when no
  thread can move any more, each has made all its rounds and the mutex is free; the counter, an int
  of 32 bits, is the number of all rounds when that is less than 2^31, and has overflowed when it
  is not.\<close>
theorem mutex_benchmark_counts:
  assumes "Run_init threads b" and "0 < threads" and "(Run_step (mutex_step rounds))\<^sup>*\<^sup>* b c"
  shows "(\<nexists>f. f 0 = c \<and> (\<forall>i. Run_step (mutex_move rounds) (f i) (f (Suc i)))) \<and>
    ((\<nexists>d. Run_step (mutex_move rounds) c d) \<longrightarrow>
      iters (globals c) = replicate threads rounds \<and> mtx_state (globals c) = 0 \<and>
      (if threads * rounds < 2 ^ 31 then sint (counter (globals c)) = int (threads * rounds) \<and> \<not> overflowed (globals c)
       else overflowed (globals c)))"
proof -
  obtain n where n: "threads = Suc n" using assms(2) by (cases threads) auto
  note good = bench_run.reachable_good [OF assms(1) [unfolded n] assms(3)]
  have "False" if f: "f 0 = c" "\<forall>i. Run_step (mutex_move rounds) (f i) (f (Suc i))" for f
  proof -
    obtain k where k: "False \<notin> set (at_barrier (f k))" using barrier_opens [OF f(2)] by blast
    have "Run_good threads rounds (f i)" for i
      using good f(1) f(2) [rule_format] n by (induction i) (auto intro: Run_step_good mutex_step.move)
    then obtain s where s: "mutex_init threads s" "(mutex_step rounds)\<^sup>*\<^sup>* s (globals (f k))"
      using k unfolding Run_good_def by meson
    show False
      by (rule no_endless_run [OF s, of "\<lambda>i. globals (f (k + i))"]) (use barrier_stays_open [OF f(2) k] in auto)
  qed
  moreover have "iters (globals c) = replicate threads rounds \<and> mtx_state (globals c) = 0 \<and>
      (if threads * rounds < 2 ^ 31 then sint (counter (globals c)) = int (threads * rounds) \<and> \<not> overflowed (globals c)
       else overflowed (globals c))" if stuck: "\<nexists>d. Run_step (mutex_move rounds) c d"
  proof -
    have open': "False \<notin> set (at_barrier c)"
    proof
      assume "False \<in> set (at_barrier c)"
      then obtain i where i: "i < length (at_barrier c)" "\<not> at_barrier c ! i" by (metis in_set_conv_nth)
      show False
      proof (cases i)
        case 0
        with i obtain rest where "at_barrier c = False # rest" by (cases "at_barrier c") auto
        with stuck show False by (blast intro: first_arrives)
      next
        case (Suc j)
        with i stuck show False by (blast intro: other_arrives)
      qed
    qed
    then obtain s where s: "mutex_init threads s" "(mutex_step rounds)\<^sup>*\<^sup>* s (globals c)"
      using good n by (auto simp: Run_good_def)
    have "\<nexists>g. mutex_move rounds (globals c) g" using stuck open' by (blast intro: behind_barrier)
    with ended_mutex [OF s] show ?thesis by blast
  qed
  ultimately show ?thesis by blast
qed

text \<open>Two threads with contention: thread 1 falls asleep while thread 0 holds the mutex, is woken, and makes its round.\<close>

definition leftovers :: mutex_bench where
  "leftovers = \<lparr>at_barrier = [False, False],
     globals = \<lparr>mtx_state = 2, mthr = [MIdle, MIdle], iters = [0, 0], counter = 41, overflowed = False\<rparr>\<rparr>"

lemma leftovers_arrive: "(Run_step step)\<^sup>*\<^sup>* leftovers \<lparr>at_barrier = [True, True], globals = mutex_start\<rparr>"
proof -
  let ?b = "leftovers\<lparr>at_barrier := (at_barrier leftovers)[1 := True]\<rparr>"
  have "Run_step step leftovers ?b" by (rule other_arrives) (auto simp: leftovers_def)
  moreover have "Run_step step ?b \<lparr>at_barrier = [True, True], globals = mutex_start\<rparr>"
    using first_arrives [of ?b "[True]" step] by (simp add: leftovers_def set_up_def mutex_start_def)
  ultimately show ?thesis by (meson r_into_rtranclp rtranclp_trans)
qed

lemma runs_behind_barrier:
  assumes "step\<^sup>*\<^sup>* g g'" and "False \<notin> set bs"
  shows "(Run_step step)\<^sup>*\<^sup>* \<lparr>at_barrier = bs, globals = g\<rparr> \<lparr>at_barrier = bs, globals = g'\<rparr>"
  using assms(1)
proof (induction rule: rtranclp_induct)
  case (step g1 g2)
  have "Run_step step \<lparr>at_barrier = bs, globals = g1\<rparr> \<lparr>at_barrier = bs, globals = g2\<rparr>"
    using behind_barrier [of "\<lparr>at_barrier = bs, globals = g1\<rparr>" step g2] step.hyps(2) assms(2) by simp
  with step.IH show ?case by (rule rtranclp.rtrancl_into_rtrancl)
qed simp

lemma contended_rounds:
  "(mutex_step 1)\<^sup>*\<^sup>* mutex_start \<lparr>mtx_state = 0, mthr = [MIdle, MIdle], iters = [1, 1], counter = 2, overflowed = False\<rparr>"
proof -
  let ?a = "\<lparr>mtx_state = 0, mthr = [UnlockWake, LockAsleep], iters = [0, 0], counter = 1, overflowed = False\<rparr>"
  let ?b = "\<lparr>mtx_state = 0, mthr = [UnlockDone, LockRetry], iters = [0, 0], counter = 1, overflowed = False\<rparr>"
  let ?c = "\<lparr>mtx_state = 0, mthr = [MIdle, UnlockWake], iters = [1, 0], counter = 2, overflowed = False\<rparr>"
  let ?d = "\<lparr>mtx_state = 0, mthr = [MIdle, UnlockDone], iters = [1, 0], counter = 2, overflowed = False\<rparr>"
  have "(mutex_step 1)\<^sup>*\<^sup>* mutex_start ?a"
    by (rule mutex_turns_run [where ms = "[0, 0, 1, 1, 1, 1, 1, 1, 0, 0, 0, 0]"]) (simp add: mutex_eval INT_MAX_def)
  also have "mutex_step 1 ?a ?b"
    using mutex_move.wake_one [of 0 ?a 1 1] by (auto intro: mutex_step.move)
  also have "(mutex_step 1)\<^sup>*\<^sup>* ?b ?c"
    by (rule mutex_turns_run [where ms = "[0, 1, 1, 1, 1, 1, 1]"]) (simp add: mutex_eval INT_MAX_def)
  also have "mutex_step 1 ?c ?d"
    using mutex_move.wake_none [of 1 ?c 1] by (auto intro: mutex_step.move)
  also have "(mutex_step 1)\<^sup>*\<^sup>* ?d \<lparr>mtx_state = 0, mthr = [MIdle, MIdle], iters = [1, 1], counter = 2, overflowed = False\<rparr>"
    by (rule mutex_turns_run [where ms = "[1]"]) (simp add: mutex_eval)
  finally show ?thesis .
qed

theorem mutex_benchmark_counts_witness:
  "\<exists>c. (Run_step (mutex_step 1))\<^sup>*\<^sup>* leftovers c \<and> (\<nexists>d. Run_step (mutex_move 1) c d) \<and>
    iters (globals c) = [1, 1] \<and> sint (counter (globals c)) = 2 \<and> \<not> overflowed (globals c) \<and> mtx_state (globals c) = 0"
proof -
  let ?e = "\<lparr>mtx_state = 0, mthr = [MIdle, MIdle], iters = [1, 1], counter = 2, overflowed = False\<rparr>"
  let ?c = "\<lparr>at_barrier = [True, True], globals = ?e\<rparr>"
  have run: "(Run_step (mutex_step 1))\<^sup>*\<^sup>* leftovers ?c"
    by (rule rtranclp_trans [OF leftovers_arrive runs_behind_barrier [OF contended_rounds]]) simp
  have "\<not> mutex_move 1 ?e g" for g
    by (auto simp: less_Suc_eq nth_Cons elim!: mutex_move.cases split: nat.splits)
  then have stuck: "\<nexists>d. Run_step (mutex_move 1) ?c d" by (auto elim!: Run_step.cases simp: nth_Cons split: nat.splits)
  have init: "Run_init 2 leftovers" by (simp add: Run_init_def leftovers_def numeral_2_eq_2)
  from mutex_benchmark_counts [OF init _ run] stuck run show ?thesis by (intro exI [of _ ?c]) (auto simp: numeral_2_eq_2)
qed

end
