(* ===== verification/Apply_Function.thy ===== *)
theory Apply_Function
  imports Prelude
begin

text \<open>
  \<open>ApplyFunction\<close> of \<^verbatim>\<open>hw-2/apply_function.hpp\<close>: the choice of the number of threads,
  the chunks, the sequential branch, and the parallel branch as a step relation in which
  the main thread spawns and joins while the workers already run. The caller's
  \<open>transform\<close> works on a reference: it returns the new value of the element and, when it
  throws, the exception. An exception that leaves a thread's function calls
  \<open>std::terminate\<close>. Creating a thread is taken to succeed.
\<close>

section \<open>Number of threads and chunks\<close>

definition actual_thread_count :: "nat \<Rightarrow> int \<Rightarrow> nat" where
  "actual_thread_count n threadCount =
     (let checkThreadCount = (if threadCount \<le> 0 then 1 else nat threadCount)
      in if checkThreadCount > n then n else checkThreadCount)"

definition chunk_size :: "nat \<Rightarrow> nat \<Rightarrow> nat \<Rightarrow> nat" where
  "chunk_size n k i = n div k + (if i < n mod k then 1 else 0)"

text \<open>The loop that fixes the ranges, from thread \<open>i\<close> and index \<open>start\<close> on.\<close>

function make_chunks :: "nat \<Rightarrow> nat \<Rightarrow> nat \<Rightarrow> nat \<Rightarrow> (nat \<times> nat) list" where
  "make_chunks n k i start =
     (if i < k
      then (start, start + chunk_size n k i)
             # make_chunks n k (Suc i) (start + chunk_size n k i)
      else [])"
  by pat_completeness auto
termination
  by (relation "measure (\<lambda>(n, k, i, start). k - i)") auto

declare make_chunks.simps [simp del]

text \<open>The closed form of the boundaries: \<open>bound n k i\<close> is where chunk \<open>i\<close> starts.\<close>

definition bound :: "nat \<Rightarrow> nat \<Rightarrow> nat \<Rightarrow> nat" where
  "bound n k i = i * (n div k) + min i (n mod k)"

lemma bound_0 [simp]: "bound n k 0 = 0"
  by (simp add: bound_def)

lemma bound_Suc: "bound n k (Suc i) = bound n k i + chunk_size n k i"
  by (simp add: bound_def chunk_size_def)

lemma bound_last: "0 < k \<Longrightarrow> bound n k k = n"
  using mod_less_divisor [of k n] by (simp add: bound_def min_absorb2)

lemma bound_mono: "i \<le> j \<Longrightarrow> bound n k i \<le> bound n k j"
  by (induction j) (auto simp: bound_Suc le_Suc_eq)

lemma make_chunks_bounds:
  "make_chunks n k i (bound n k i) = map (\<lambda>j. (bound n k j, bound n k (Suc j))) [i..<k]"
proof (induction "k - i" arbitrary: i)
  case 0
  then show ?case by (simp add: make_chunks.simps)
next
  case (Suc d)
  then have "i < k" by simp
  with Suc.hyps(1) [of "Suc i"] Suc.hyps(2) show ?case
    by (subst make_chunks.simps) (simp add: bound_Suc upt_conv_Cons)
qed

lemma make_chunks_all:
  "make_chunks n k 0 0 = map (\<lambda>j. (bound n k j, bound n k (Suc j))) [0..<k]"
  using make_chunks_bounds [of n k 0] by simp

text \<open>Every index below \<open>n\<close> lies in exactly one chunk.\<close>

lemma bound_cover:
  assumes "x < bound n k m"
  shows "\<exists>t < m. bound n k t \<le> x \<and> x < bound n k (Suc t)"
  using assms
proof (induction m)
  case 0
  then show ?case by simp
next
  case (Suc m)
  show ?case
  proof (cases "x < bound n k m")
    case True
    with Suc.IH show ?thesis by (auto intro: less_SucI)
  next
    case False
    with Suc.prems show ?thesis by (auto simp: not_less)
  qed
qed

lemma bound_disjoint:
  assumes "bound n k t \<le> x" "x < bound n k (Suc t)" "bound n k u \<le> x" "x < bound n k (Suc u)"
  shows "t = u"
proof (rule ccontr)
  assume "t \<noteq> u"
  then have "Suc t \<le> u \<or> Suc u \<le> t" by auto
  then show False
    using assms bound_mono [of "Suc t" u n k] bound_mono [of "Suc u" t n k] by auto
qed

section \<open>The sequential branch\<close>

text \<open>\<open>for (auto& item : data) transform(item)\<close>: the first exception leaves the loop.\<close>

fun apply_seq :: "('a \<Rightarrow> 'a \<times> 'e option) \<Rightarrow> 'a list \<Rightarrow> 'a list \<times> 'e option" where
  "apply_seq transform [] = ([], None)"
| "apply_seq transform (x # xs) =
     (case transform x of
        (y, Some e) \<Rightarrow> (y # xs, Some e)
      | (y, None) \<Rightarrow> (case apply_seq transform xs of (ys, r) \<Rightarrow> (y # ys, r)))"

section \<open>The parallel branch\<close>

datatype af_main = Spawning nat nat | Joining nat | AfDone | AfTerminate

text \<open>A worker is its next index and the end of its range.\<close>

record 'a af_sys =
  af_data :: "'a list"
  workers :: "(nat \<times> nat) list"
  af_main :: af_main

definition af_init :: "'a list \<Rightarrow> 'a af_sys \<Rightarrow> bool" where
  "af_init xs s \<longleftrightarrow> s = \<lparr>af_data = xs, workers = [], af_main = Spawning 0 0\<rparr>"

inductive af_step :: "('a \<Rightarrow> 'a \<times> 'e option) \<Rightarrow> nat \<Rightarrow> nat \<Rightarrow> 'a af_sys \<Rightarrow> 'a af_sys \<Rightarrow> bool"
  for transform n k where
  spawn:
    "af_main s = Spawning i start \<Longrightarrow> i < k \<Longrightarrow> e = start + chunk_size n k i \<Longrightarrow>
     af_step transform n k s
       (s\<lparr>workers := workers s @ [(start, e)], af_main := Spawning (Suc i) e\<rparr>)"
| spawn_end:
    "af_main s = Spawning i start \<Longrightarrow> \<not> i < k \<Longrightarrow>
     af_step transform n k s (s\<lparr>af_main := Joining 0\<rparr>)"
| work:
    "af_main s \<noteq> AfTerminate \<Longrightarrow> t < length (workers s) \<Longrightarrow> workers s ! t = (j, e) \<Longrightarrow> j < e \<Longrightarrow>
     transform (af_data s ! j) = (y, None) \<Longrightarrow>
     af_step transform n k s
       (s\<lparr>af_data := (af_data s)[j := y], workers := (workers s)[t := (Suc j, e)]\<rparr>)"
| work_throw:
    "af_main s \<noteq> AfTerminate \<Longrightarrow> t < length (workers s) \<Longrightarrow> workers s ! t = (j, e) \<Longrightarrow> j < e \<Longrightarrow>
     transform (af_data s ! j) = (y, Some ex) \<Longrightarrow>
     af_step transform n k s (s\<lparr>af_data := (af_data s)[j := y], af_main := AfTerminate\<rparr>)"
| join:
    "af_main s = Joining t \<Longrightarrow> t < length (workers s) \<Longrightarrow> workers s ! t = (j, e) \<Longrightarrow> \<not> j < e \<Longrightarrow>
     af_step transform n k s (s\<lparr>af_main := Joining (Suc t)\<rparr>)"
| join_end:
    "af_main s = Joining t \<Longrightarrow> t = length (workers s) \<Longrightarrow>
     af_step transform n k s (s\<lparr>af_main := AfDone\<rparr>)"

section \<open>The whole function\<close>

datatype ('e, 'a) af_result = AfReturned "'a list" | AfThrew 'e "'a list" | AfTerminated

inductive ApplyFunction ::
  "('a \<Rightarrow> 'a \<times> 'e option) \<Rightarrow> int \<Rightarrow> 'a list \<Rightarrow> ('e, 'a) af_result \<Rightarrow> bool"
  for transform threadCount data where
  af_empty: "data = [] \<Longrightarrow> ApplyFunction transform threadCount data (AfReturned data)"
| af_single:
    "data \<noteq> [] \<Longrightarrow> actual_thread_count (length data) threadCount = 1 \<Longrightarrow>
     apply_seq transform data = (ys, None) \<Longrightarrow>
     ApplyFunction transform threadCount data (AfReturned ys)"
| af_single_throw:
    "data \<noteq> [] \<Longrightarrow> actual_thread_count (length data) threadCount = 1 \<Longrightarrow>
     apply_seq transform data = (ys, Some e) \<Longrightarrow>
     ApplyFunction transform threadCount data (AfThrew e ys)"
| af_parallel:
    "data \<noteq> [] \<Longrightarrow> k = actual_thread_count (length data) threadCount \<Longrightarrow> k \<noteq> 1 \<Longrightarrow>
     af_init data s \<Longrightarrow> (af_step transform (length data) k)\<^sup>*\<^sup>* s t \<Longrightarrow> af_main t = AfDone \<Longrightarrow>
     ApplyFunction transform threadCount data (AfReturned (af_data t))"
| af_parallel_terminate:
    "data \<noteq> [] \<Longrightarrow> k = actual_thread_count (length data) threadCount \<Longrightarrow> k \<noteq> 1 \<Longrightarrow>
     af_init data s \<Longrightarrow> (af_step transform (length data) k)\<^sup>*\<^sup>* s t \<Longrightarrow> af_main t = AfTerminate \<Longrightarrow>
     ApplyFunction transform threadCount data AfTerminated"

section \<open>The invariant of the parallel branch\<close>

text \<open>
  Worker \<open>t\<close> has done the indices from the start of its chunk to its next index; the data
  are the original elements, transformed where done.
\<close>

definition done_by :: "nat \<Rightarrow> nat \<Rightarrow> (nat \<times> nat) list \<Rightarrow> nat \<Rightarrow> bool" where
  "done_by n k ws x \<longleftrightarrow> (\<exists>t < length ws. bound n k t \<le> x \<and> x < fst (ws ! t))"

definition af_workers_ok :: "nat \<Rightarrow> nat \<Rightarrow> (nat \<times> nat) list \<Rightarrow> bool" where
  "af_workers_ok n k ws \<longleftrightarrow> length ws \<le> k \<and>
     (\<forall>t < length ws. snd (ws ! t) = bound n k (Suc t) \<and>
        bound n k t \<le> fst (ws ! t) \<and> fst (ws ! t) \<le> bound n k (Suc t))"

fun af_main_ok :: "nat \<Rightarrow> nat \<Rightarrow> (nat \<times> nat) list \<Rightarrow> af_main \<Rightarrow> bool" where
  "af_main_ok n k ws (Spawning i start) \<longleftrightarrow> i = length ws \<and> start = bound n k i"
| "af_main_ok n k ws (Joining t) \<longleftrightarrow> length ws = k \<and> t \<le> k \<and>
     (\<forall>u < t. fst (ws ! u) = bound n k (Suc u))"
| "af_main_ok n k ws AfDone \<longleftrightarrow> length ws = k \<and> (\<forall>u < k. fst (ws ! u) = bound n k (Suc u))"
| "af_main_ok n k ws AfTerminate \<longleftrightarrow> True"

definition af_data_ok ::
  "('a \<Rightarrow> 'a \<times> 'e option) \<Rightarrow> 'a list \<Rightarrow> nat \<Rightarrow> (nat \<times> nat) list \<Rightarrow> 'a list \<Rightarrow> bool" where
  "af_data_ok transform xs k ws ys \<longleftrightarrow> length ys = length xs \<and>
     (\<forall>x < length xs.
        if done_by (length xs) k ws x
        then ys ! x = fst (transform (xs ! x)) \<and> snd (transform (xs ! x)) = None
        else ys ! x = xs ! x)"

definition af_good :: "('a \<Rightarrow> 'a \<times> 'e option) \<Rightarrow> 'a list \<Rightarrow> nat \<Rightarrow> 'a af_sys \<Rightarrow> bool" where
  "af_good transform xs k s \<longleftrightarrow> af_workers_ok (length xs) k (workers s) \<and>
     af_main_ok (length xs) k (workers s) (af_main s) \<and>
     (if af_main s = AfTerminate then \<exists>x \<in> set xs. snd (transform x) \<noteq> None
      else af_data_ok transform xs k (workers s) (af_data s))"

lemma af_init_good: "af_init xs s \<Longrightarrow> 0 < k \<Longrightarrow> af_good transform xs k s"
  by (auto simp: af_init_def af_good_def af_workers_ok_def af_data_ok_def done_by_def)

lemma done_by_spawn:
  "done_by n k (ws @ [(bound n k (length ws), e)]) x = done_by n k ws x"
  by (auto simp: done_by_def nth_append less_Suc_eq)

lemma done_by_work:
  assumes "t < length ws" and "ws ! t = (j, e)" and "bound n k t \<le> j"
  shows "done_by n k (ws[t := (Suc j, e)]) x \<longleftrightarrow> done_by n k ws x \<or> x = j"
proof -
  have "(bound n k u \<le> x \<and> x < fst (ws[t := (Suc j, e)] ! u)) \<longleftrightarrow>
      (bound n k u \<le> x \<and> x < fst (ws ! u)) \<or> (u = t \<and> x = j)" if "u < length ws" for u
    using assms that by (cases "u = t") (auto simp: less_Suc_eq)
  then show ?thesis using assms(1) unfolding done_by_def by (auto; blast)
qed

text \<open>The index a worker is about to transform is inside the data and not done by anyone.\<close>

lemma work_index:
  assumes "af_workers_ok n k ws" and "0 < k" and "t < length ws" and "ws ! t = (j, e)" and "j < e"
  shows "j < n" and "\<not> done_by n k ws j" and "bound n k t \<le> j" and "j < bound n k (Suc t)"
proof -
  from assms show jt: "bound n k t \<le> j" "j < bound n k (Suc t)"
    by (force simp: af_workers_ok_def)+
  have "Suc t \<le> k" using assms(1,3) by (simp add: af_workers_ok_def)
  with jt(2) bound_mono [of "Suc t" k n k] bound_last [OF assms(2), of n] show "j < n" by simp
  show "\<not> done_by n k ws j"
  proof
    assume "done_by n k ws j"
    then obtain u where u: "u < length ws" "bound n k u \<le> j" "j < fst (ws ! u)"
      by (auto simp: done_by_def)
    with assms(1) have "j < bound n k (Suc u)" by (force simp: af_workers_ok_def)
    with u(2) jt have "u = t" by (metis bound_disjoint)
    with u(3) assms(4) show False by simp
  qed
qed

lemma work_keeps_main:
  assumes "af_main_ok n k ws m" and "t < length ws" and "ws ! t = (j, e)" and "j < e"
    and "e = bound n k (Suc t)" and "af_workers_ok n k ws"
  shows "af_main_ok n k (ws[t := (Suc j, e)]) m"
  using assms by (cases m) (auto simp: nth_list_update af_workers_ok_def)

lemma af_data_ok_work:
  assumes "af_data_ok transform xs k ws ys" and "af_workers_ok (length xs) k ws" and "0 < k"
    and "t < length ws" and "ws ! t = (j, e)" and "j < e" and "transform (ys ! j) = (y, None)"
  shows "af_data_ok transform xs k (ws[t := (Suc j, e)]) (ys[j := y])"
proof -
  note j = work_index [OF assms(2-6)]
  have "ys ! j = xs ! j" using assms(1) j(1,2) by (simp add: af_data_ok_def)
  with assms(1,7) j(1,2) show ?thesis
    by (auto simp: af_data_ok_def done_by_work [OF assms(4,5) j(3)] nth_list_update)
qed

lemma af_workers_ok_work:
  assumes "af_workers_ok n k ws" and "t < length ws" and "ws ! t = (j, e)" and "j < e"
  shows "af_workers_ok n k (ws[t := (Suc j, e)])" and "e = bound n k (Suc t)"
  using assms by (auto simp: af_workers_ok_def nth_list_update)

lemma af_step_good:
  assumes "af_step transform (length xs) k s t" and "af_good transform xs k s" and "0 < k"
  shows "af_good transform xs k t"
  using assms(1)
proof (cases rule: af_step.cases)
  case (spawn i start e)
  with assms(2) have "i = length (workers s)" "start = bound (length xs) k (length (workers s))"
    by (auto simp: af_good_def)
  with spawn assms(2) show ?thesis
    by (auto simp: af_good_def af_workers_ok_def nth_append less_Suc_eq bound_Suc
        af_data_ok_def done_by_spawn)
next
  case (spawn_end i start)
  with assms(2) show ?thesis by (auto simp: af_good_def af_workers_ok_def)
next
  case (work u j e y)
  with assms(2) af_workers_ok_work [OF _ work(3-5)] have
    "af_workers_ok (length xs) k ((workers s)[u := (Suc j, e)])" "e = bound (length xs) k (Suc u)"
    by (auto simp: af_good_def)
  with work assms(2,3) show ?thesis
    by (auto simp: af_good_def work_keeps_main af_data_ok_work)
next
  case (work_throw u j e y ex)
  with assms(2) have ok: "af_workers_ok (length xs) k (workers s)"
    and "af_data_ok transform xs k (workers s) (af_data s)"
    by (auto simp: af_good_def)
  with work_index [OF ok assms(3) work_throw(3-5)] work_throw(6)
  have "\<exists>x \<in> set xs. snd (transform x) \<noteq> None"
    by (intro bexI [of _ "xs ! j"]) (auto simp: af_data_ok_def)
  with work_throw ok show ?thesis by (simp add: af_good_def)
next
  case (join u j e)
  with assms(2) have "e = bound (length xs) k (Suc u)" "j = e"
    by (auto simp: af_good_def af_workers_ok_def)
  with join assms(2) show ?thesis by (auto simp: af_good_def less_Suc_eq)
next
  case (join_end u)
  with assms(2) show ?thesis by (auto simp: af_good_def)
qed

text \<open>\<open>Suc k\<close>: the parallel branch always has at least one worker.\<close>

interpretation pool_of_threads: invariant_system "af_init xs" "af_step transform (length xs) (Suc k)"
  "af_good transform xs (Suc k)" for xs transform k
  by unfold_locales (auto intro: af_init_good af_step_good)

lemma af_run_good:
  assumes "(af_step transform (length xs) k)\<^sup>*\<^sup>* s t" and "af_init xs s" and "0 < k"
  shows "af_good transform xs k t"
  using assms pool_of_threads.reachable_good [of xs s transform "k - 1" t] by simp

section \<open>Every run ends\<close>

text \<open>
  The number of steps left: the elements not yet transformed, two for every thread not
  yet created, one for every thread not yet joined.
\<close>

fun main_work :: "nat \<Rightarrow> nat \<Rightarrow> af_main \<Rightarrow> nat" where
  "main_work n k (Spawning i start) = (n - start) + 2 * (k - i) + k + 2"
| "main_work n k (Joining t) = Suc k - t"
| "main_work n k AfDone = 0"
| "main_work n k AfTerminate = 0"

definition steps_left :: "nat \<Rightarrow> nat \<Rightarrow> 'a af_sys \<Rightarrow> nat" where
  "steps_left n k s = (if af_main s = AfTerminate then 0
     else sum_list (map (\<lambda>(j, e). e - j) (workers s)) + main_work n k (af_main s))"

lemma sum_list_worker_update:
  assumes "t < length ws" and "ws ! t = (j, e)" and "j < e"
  shows "sum_list (map (\<lambda>(j, e). e - j) (ws[t := (Suc j, e)]))
    < sum_list (map (\<lambda>(j, e). e - j) (ws :: (nat \<times> nat) list))"
  using assms
proof (induction ws arbitrary: t)
  case Nil
  then show ?case by simp
next
  case (Cons w ws)
  then show ?case by (cases t) auto
qed

lemma steps_left_decreases:
  assumes "af_step transform (length xs) k s t" and "af_good transform xs k s" and "0 < k"
  shows "steps_left (length xs) k t < steps_left (length xs) k s"
  using assms(1)
proof (cases rule: af_step.cases)
  case (spawn i start e)
  with assms(2) have "start = bound (length xs) k i" by (auto simp: af_good_def)
  with spawn bound_mono [of "Suc i" k "length xs" k] bound_last [OF assms(3), of "length xs"]
  have "e \<le> length xs" "start \<le> e" by (auto simp: bound_Suc)
  with spawn show ?thesis by (simp add: steps_left_def)
next
  case (spawn_end i start)
  then show ?thesis by (simp add: steps_left_def)
next
  case (work u j e y)
  with sum_list_worker_update [OF work(3-5)] show ?thesis by (simp add: steps_left_def)
next
  case (work_throw u j e y ex)
  then have "(j, e) \<in> set (workers s)" by (metis nth_mem)
  then have "e - j \<le> sum_list (map (\<lambda>(j, e). e - j) (workers s))"
    by (intro member_le_sum_list) force+
  with work_throw(5) have "0 < sum_list (map (\<lambda>(j, e). e - j) (workers s))" by simp
  with work_throw show ?thesis by (simp add: steps_left_def)
next
  case (join u j e)
  with assms(2) show ?thesis by (auto simp: steps_left_def af_good_def)
next
  case (join_end u)
  with assms(2) show ?thesis by (auto simp: steps_left_def af_good_def)
qed

lemma af_can_step:
  assumes "af_good transform xs k s" and "af_main s \<notin> {AfDone, AfTerminate}"
  shows "\<exists>t. af_step transform n k s t"
proof (cases "af_main s")
  case (Spawning i start)
  then show ?thesis by (cases "i < k") (blast intro: spawn spawn_end)+
next
  case (Joining u)
  show ?thesis
  proof (cases "u < length (workers s)")
    case True
    obtain j e where w: "workers s ! u = (j, e)" by (cases "workers s ! u")
    obtain y r where "transform (af_data s ! j) = (y, r)" by (cases "transform (af_data s ! j)")
    with True w Joining show ?thesis
      using work [of s u j e transform y n k] work_throw [of s u j e transform y _ n k]
        join [of s u j e transform n k]
      by (cases "j < e"; cases r) auto
  next
    case False
    with Joining assms(1) have "u = length (workers s)" by (auto simp: af_good_def)
    with Joining show ?thesis by (blast intro: join_end)
  qed
qed (use assms(2) in auto)

lemma af_run_ends:
  assumes "af_good transform xs k s" and "0 < k"
  shows "\<exists>t. (af_step transform (length xs) k)\<^sup>*\<^sup>* s t \<and> af_main t \<in> {AfDone, AfTerminate}"
  using assms(1)
proof (induction "steps_left (length xs) k s" arbitrary: s rule: less_induct)
  case less
  show ?case
  proof (cases "af_main s \<in> {AfDone, AfTerminate}")
    case True
    then show ?thesis by blast
  next
    case False
    then obtain u where u: "af_step transform (length xs) k s u"
      using af_can_step [OF less.prems, of "length xs"] by blast
    then obtain t where "(af_step transform (length xs) k)\<^sup>*\<^sup>* u t" "af_main t \<in> {AfDone, AfTerminate}"
      using less.hyps steps_left_decreases [OF u less.prems assms(2)]
        af_step_good [OF u less.prems assms(2)] by blast
    with u show ?thesis by (meson converse_rtranclp_into_rtranclp)
  qed
qed

section \<open>Results\<close>

lemma af_done_result:
  assumes "af_good transform xs k s" and "af_main s = AfDone" and "0 < k"
  shows "af_data s = map (fst \<circ> transform) xs" and "\<forall>x \<in> set xs. snd (transform x) = None"
proof -
  from assms have len: "length (workers s) = k"
    and fin: "\<And>u. u < k \<Longrightarrow> fst (workers s ! u) = bound (length xs) k (Suc u)"
    and dat: "af_data_ok transform xs k (workers s) (af_data s)"
    by (auto simp: af_good_def)
  have "done_by (length xs) k (workers s) x" if "x < length xs" for x
    using bound_cover [of x "length xs" k k] bound_last [OF assms(3), of "length xs"] that len fin
    by (auto simp: done_by_def)
  with dat show "af_data s = map (fst \<circ> transform) xs" "\<forall>x \<in> set xs. snd (transform x) = None"
    by (auto simp: af_data_ok_def in_set_conv_nth intro!: nth_equalityI)
qed

lemma apply_seq_ok:
  "\<forall>x \<in> set xs. snd (transform x) = None \<Longrightarrow> apply_seq transform xs = (map (fst \<circ> transform) xs, None)"
  by (induction xs) (auto split: prod.splits option.splits)

lemma apply_seq_first_throw:
  assumes "\<forall>x \<in> set before. snd (transform x) = None" and "transform x = (y, Some e)"
  shows "apply_seq transform (before @ x # behind) = (map (fst \<circ> transform) before @ y # behind, Some e)"
  using assms(1)
proof (induction before)
  case (Cons a as)
  then show ?case by (cases "transform a") simp
qed (simp add: assms(2))

lemma actual_thread_count_range:
  "0 < n \<Longrightarrow> 1 \<le> actual_thread_count n tc \<and> actual_thread_count n tc \<le> n"
  by (auto simp: actual_thread_count_def Let_def)

section \<open>Properties\<close>

lemma af_init_ex: "\<exists>s. af_init xs s"
  by (simp add: af_init_def)

lemma af_parallel_result:
  assumes "data \<noteq> []" and "k = actual_thread_count (length data) threadCount" and "af_init data s"
    and "(af_step transform (length data) k)\<^sup>*\<^sup>* s t" and "af_main t = AfDone"
  shows "af_data t = map (fst \<circ> transform) data" and "\<forall>x \<in> set data. snd (transform x) = None"
proof -
  have k: "0 < k" using assms(1,2) actual_thread_count_range [of "length data" threadCount] by simp
  from af_done_result [OF af_run_good [OF assms(4,3) k] assms(5) k]
  show "af_data t = map (fst \<circ> transform) data" "\<forall>x \<in> set data. snd (transform x) = None" .
qed

lemma af_parallel_throw:
  assumes "data \<noteq> []" and "k = actual_thread_count (length data) threadCount" and "af_init data s"
    and "(af_step transform (length data) k)\<^sup>*\<^sup>* s t" and "af_main t = AfTerminate"
  shows "\<exists>x \<in> set data. snd (transform x) \<noteq> None"
proof -
  have k: "0 < k" using assms(1,2) actual_thread_count_range [of "length data" threadCount] by simp
  from af_run_good [OF assms(4,3) k] assms(5) show ?thesis by (simp add: af_good_def)
qed

lemma af_parallel_ends:
  assumes "data \<noteq> []" and "k = actual_thread_count (length data) threadCount"
  shows "\<exists>s t. af_init data s \<and> (af_step transform (length data) k)\<^sup>*\<^sup>* s t \<and> af_main t \<in> {AfDone, AfTerminate}"
proof -
  obtain s where s: "af_init data s" using af_init_ex by blast
  have k: "0 < k" using assms actual_thread_count_range [of "length data" threadCount] by simp
  from af_run_ends [OF af_init_good [OF s k] k] s show ?thesis by blast
qed

lemma ApplyFunction_ok:
  assumes "\<forall>x \<in> set data. snd (transform x) = None"
  shows "ApplyFunction transform threadCount data r \<longleftrightarrow> r = AfReturned (map (fst \<circ> transform) data)"
proof
  assume "ApplyFunction transform threadCount data r"
  then show "r = AfReturned (map (fst \<circ> transform) data)"
  proof cases
    case (af_parallel k s t)
    with af_parallel_result(1) [OF af_parallel(2,3,5,6,7)] show ?thesis by simp
  next
    case (af_parallel_terminate k s t)
    with af_parallel_throw [OF af_parallel_terminate(2,3,5,6,7)] assms show ?thesis by auto
  qed (use assms apply_seq_ok [OF assms] in auto)
next
  assume r: "r = AfReturned (map (fst \<circ> transform) data)"
  consider "data = []" | "data \<noteq> []" "actual_thread_count (length data) threadCount = 1"
    | "data \<noteq> []" "actual_thread_count (length data) threadCount \<noteq> 1" by blast
  then show "ApplyFunction transform threadCount data r"
  proof cases
    case 1
    with r ApplyFunction.af_empty [of data transform threadCount] show ?thesis by simp
  next
    case 2
    with r ApplyFunction.af_single [OF 2] apply_seq_ok [OF assms] show ?thesis by simp
  next
    case 3
    obtain s t where st: "af_init data s"
      "(af_step transform (length data) (actual_thread_count (length data) threadCount))\<^sup>*\<^sup>* s t"
      "af_main t \<in> {AfDone, AfTerminate}"
      using af_parallel_ends [OF 3(1) refl, of transform threadCount] by blast
    have "af_main t \<noteq> AfTerminate"
      using af_parallel_throw [OF 3(1) refl st(1,2)] assms by auto
    with st have "af_main t = AfDone" by simp
    with ApplyFunction.af_parallel [OF 3(1) refl 3(2) st(1,2)] af_parallel_result(1) [OF 3(1) refl st(1,2)] r
    show ?thesis by simp
  qed
qed

text \<open>C11: When transform throws on no element, ApplyFunction returns, for every thread count (zero
  and negative ones included), every schedule and every size of the data, and what it returns is
  each element transformed exactly once, in place: the result of the sequential loop.\<close>
theorem apply_function_is_map:
  assumes "\<forall>x \<in> set data. snd (transform x) = None"
  shows "ApplyFunction transform threadCount data r \<longleftrightarrow> r = AfReturned (map (fst \<circ> transform) data)"
  by (rule ApplyFunction_ok [OF assms])

theorem apply_function_is_map_witness:
  "{r. ApplyFunction (\<lambda>x :: int. (x * x, None :: unit option)) 3 [1, 2, 3, 4] r} =
     {AfReturned [1, 4, 9, 16]}"
  using apply_function_is_map [of "[1, 2, 3, 4]" "\<lambda>x :: int. (x * x, None :: unit option)" 3] by auto

text \<open>C36: When transform throws on some element, what happens depends on the number of threads. With one,
  the caller gets the exception of the first element that throws; the elements before it are
  transformed, this one is as transform left it, and those behind it are untouched. With
  several, every run of the parallel branch ends in std::terminate; it never returns normally.\<close>
theorem apply_function_throwing:
  assumes "\<forall>x \<in> set before. snd (transform x) = None" and "transform x = (y, Some e)"
    and "data = before @ x # behind"
  shows "if actual_thread_count (length data) threadCount = 1
    then \<forall>r. ApplyFunction transform threadCount data r \<longleftrightarrow>
      r = AfThrew e (map (fst \<circ> transform) before @ y # behind)
    else \<forall>r. ApplyFunction transform threadCount data r \<longleftrightarrow> r = AfTerminated"
proof (cases "actual_thread_count (length data) threadCount = 1")
  case True
  have ne: "data \<noteq> []" using assms(3) by simp
  have seq: "apply_seq transform data = (map (fst \<circ> transform) before @ y # behind, Some e)" (is "_ = (?ys, _)")
    unfolding assms(3) by (rule apply_seq_first_throw [OF assms(1,2)])
  have "ApplyFunction transform threadCount data r \<longleftrightarrow> r = AfThrew e ?ys" for r
  proof
    assume "ApplyFunction transform threadCount data r"
    then show "r = AfThrew e ?ys" by cases (use ne True seq in auto)
  next
    assume "r = AfThrew e ?ys"
    with af_single_throw [OF ne True seq] show "ApplyFunction transform threadCount data r" by simp
  qed
  with True show ?thesis by auto
next
  case False
  have ne: "data \<noteq> []" using assms(3) by simp
  have throws: "x \<in> set data" "snd (transform x) \<noteq> None" using assms(2,3) by simp_all
  obtain s t where st: "af_init data s"
    "(af_step transform (length data) (actual_thread_count (length data) threadCount))\<^sup>*\<^sup>* s t"
    "af_main t \<in> {AfDone, AfTerminate}"
    using af_parallel_ends [OF ne refl, of transform threadCount] by blast
  have "af_main t \<noteq> AfDone"
    using af_parallel_result(2) [OF ne refl st(1,2)] throws by auto
  with st have "af_main t = AfTerminate" by simp
  from af_parallel_terminate [OF ne refl False st(1,2) this]
  have "ApplyFunction transform threadCount data AfTerminated" .
  moreover have "r = AfTerminated" if "ApplyFunction transform threadCount data r" for r
    using that
  proof cases
    case (af_parallel k s t)
    with af_parallel_result(2) [OF af_parallel(2,3,5,6,7)] throws show ?thesis by auto
  qed (use ne False in auto)
  ultimately show ?thesis using False by auto
qed

text \<open>One thread, and the second and the fourth of four elements throw; and the same data with two threads.\<close>

theorem apply_function_throwing_witness:
  "{r. ApplyFunction (\<lambda>x :: int. (x + 10, if even x then Some x else None)) 1 [1, 2, 3, 4] r} = {AfThrew 2 [11, 12, 3, 4]} \<and>
   {r. ApplyFunction (\<lambda>x :: int. (x + 10, if even x then Some x else None)) 2 [1, 2, 3, 4] r} = {AfTerminated}"
proof -
  have "\<forall>x \<in> set [1]. snd (x + 10, if even x then Some x else None) = None" by simp
  note run = apply_function_throwing [OF this, of 2 12 2 "[1, 2, 3, 4]" "[3, 4]"]
  from run [of 1] run [of 2] show ?thesis by (simp add: actual_thread_count_def set_eq_iff)
qed

lemma concat_chunks:
  "i \<le> k \<Longrightarrow> concat (map (\<lambda>j. [bound n k j..<bound n k (Suc j)]) [0..<i]) = [0..<bound n k i]"
proof (induction i)
  case 0
  then show ?case by simp
next
  case (Suc i)
  then show ?case using upt_add_eq_append [of 0 "bound n k i" "chunk_size n k i"]
    by (simp add: bound_Suc)
qed

text \<open>The chunks of the threads partition the indices of the data in order: every index lies in
  exactly one of them, and their sizes differ by at most one.\<close>
theorem chunks_partition:
  assumes "0 < k"
  shows "concat (map (\<lambda>(b, e). [b..<e]) (make_chunks n k 0 0)) = [0..<n] \<and>
    length (make_chunks n k 0 0) = k \<and>
    list_all (\<lambda>(b, e). e - b = n div k \<or> e - b = Suc (n div k)) (make_chunks n k 0 0)"
proof -
  have "concat (map (\<lambda>(b, e). [b..<e]) (make_chunks n k 0 0))
      = concat (map (\<lambda>j. [bound n k j..<bound n k (Suc j)]) [0..<k])"
    by (simp add: make_chunks_all o_def)
  also have "\<dots> = [0..<n]" using concat_chunks [of k k n] assms by (simp add: bound_last)
  finally show ?thesis by (auto simp: make_chunks_all bound_Suc chunk_size_def list_all_iff)
qed

theorem chunks_partition_witness:
  "concat (map (\<lambda>(b, e). [b..<e]) (make_chunks 10 4 0 0)) = [0..<10] \<and>
    length (make_chunks 10 4 0 0) = 4 \<and>
    list_all (\<lambda>(b, e). e - b = 10 div 4 \<or> e - b = Suc (10 div 4)) (make_chunks 10 4 0 0)"
  by (rule chunks_partition) simp

text \<open>The workers do not race: in every reachable state of the parallel branch, two workers that
  still have work are at different indices, and both indices lie inside the data.\<close>
theorem workers_do_not_race:
  assumes "af_init xs s" and "(af_step transform (length xs) k)\<^sup>*\<^sup>* s t" and "0 < k"
    and "u < length (workers t)" and "v < length (workers t)" and "u \<noteq> v"
    and "workers t ! u = (i, d)" and "i < d" and "workers t ! v = (j, e)" and "j < e"
  shows "i \<noteq> j \<and> i < length xs \<and> j < length xs"
proof -
  have ok: "af_workers_ok (length xs) k (workers t)"
    using af_run_good [OF assms(2,1,3)] by (simp add: af_good_def)
  note wi = work_index [OF ok assms(3,4,7,8)] and wj = work_index [OF ok assms(3,5,9,10)]
  have "i \<noteq> j" using bound_disjoint [OF wi(3,4), of v] wj(3,4) assms(6) by auto
  with wi(1) wj(1) show ?thesis by simp
qed

theorem workers_do_not_race_witness:
  "\<exists>t. (af_step (\<lambda>x :: nat. (Suc x, None :: unit option)) (length [7, 8 :: nat]) 2)\<^sup>*\<^sup>*
      \<lparr>af_data = [7, 8], workers = [], af_main = Spawning 0 0\<rparr> t \<and>
    workers t = [(0, 1), (1, 2)] \<and> (0 :: nat) \<noteq> 1 \<and> 0 < length [7, 8 :: nat] \<and> 1 < length [7, 8 :: nat]"
proof -
  let ?f = "\<lambda>x :: nat. (Suc x, None :: unit option)"
  let ?s = "\<lparr>af_data = [7, 8], workers = [], af_main = Spawning 0 0\<rparr> :: nat af_sys"
  let ?t = "\<lparr>af_data = [7, 8], workers = [(0, 1), (1, 2)], af_main = Spawning 2 2\<rparr> :: nat af_sys"
  have "af_step ?f 2 2 ?s (?s\<lparr>workers := [(0, 1)], af_main := Spawning 1 1\<rparr>)"
    using af_step.spawn [of ?s 0 0 2 1 2 ?f] by (simp add: chunk_size_def)
  moreover have "af_step ?f 2 2 (?s\<lparr>workers := [(0, 1)], af_main := Spawning 1 1\<rparr>) ?t"
    using af_step.spawn [of "?s\<lparr>workers := [(0, 1)], af_main := Spawning 1 1\<rparr>" 1 1 2 2 2 ?f]
    by (simp add: chunk_size_def numeral_2_eq_2)
  ultimately have "(af_step ?f 2 2)\<^sup>*\<^sup>* ?s ?t" by simp
  moreover have "length [7, 8 :: nat] = 2" by simp
  ultimately have run: "(af_step ?f (length [7, 8 :: nat]) 2)\<^sup>*\<^sup>* ?s ?t" by (simp only:)
  have "af_init [7, 8] ?s" by (simp add: af_init_def)
  from workers_do_not_race [OF this run, of 0 1 0 1 1 2] run show ?thesis by auto
qed

lemma af_run_bound:
  assumes "(af_step transform (length xs) k ^^ m) s t" and "af_good transform xs k s" and "0 < k"
  shows "m + steps_left (length xs) k t \<le> steps_left (length xs) k s"
  using assms(1,2)
proof (induction m arbitrary: s)
  case 0
  then show ?case by simp
next
  case (Suc m)
  from Suc.prems(1) obtain u where u: "af_step transform (length xs) k s u"
    and run: "(af_step transform (length xs) k ^^ m) u t" by (meson relpowp_Suc_D2)
  from Suc.IH [OF run af_step_good [OF u Suc.prems(2) assms(3)]]
    steps_left_decreases [OF u Suc.prems(2) assms(3)]
  show ?case by linarith
qed

text \<open>The parallel branch terminates under every schedule: a run has at most one step for each
  element and three for each thread, plus two.\<close>
theorem parallel_branch_terminates:
  assumes "af_init xs s" and "0 < k" and "(af_step transform (length xs) k ^^ m) s t"
  shows "m \<le> length xs + 3 * k + 2"
proof -
  have "steps_left (length xs) k s = length xs + 3 * k + 2"
    using assms(1) by (simp add: af_init_def steps_left_def)
  with af_run_bound [OF assms(3) af_init_good [OF assms(1,2)] assms(2)] show ?thesis by simp
qed

theorem parallel_branch_terminates_witness: "(0 :: nat) \<le> length [7 :: nat] + 3 * 1 + 2"
  by (rule parallel_branch_terminates [where s = "\<lparr>af_data = [7], workers = [], af_main = Spawning 0 0\<rparr>"
        and t = "\<lparr>af_data = [7], workers = [], af_main = Spawning 0 0\<rparr>"
        and transform = "\<lambda>x. (x, None :: unit option)"])
    (simp_all add: af_init_def)

end
