(* ===== verification/Apply_Programs.thy ===== *)
theory Apply_Programs
  imports Apply_Function
begin

text \<open>
  The benchmark of \<open>ApplyFunction\<close> (\<^verbatim>\<open>hw-2/apply_function_benchmark.cpp\<close>): a cheap transformation of
  64-bit numbers and an expensive one of floating-point numbers, each with one and with four
  threads. The floating-point numbers are those of the compiler: their type, their addition, the
  constant 2.0 and the functions of \<open>cmath\<close> are parameters of the model.
\<close>

section \<open>The two transformations\<close>

definition CheapTransform :: "u64 \<Rightarrow> u64" where
  "CheapTransform x = x + x"

text \<open>\<open>flit F 12345 4\<close> is the literal 1.2345: the digits and how many of them are after the point.\<close>

record 'd floating =
  fadd :: "'d \<Rightarrow> 'd \<Rightarrow> 'd"
  flit :: "nat \<Rightarrow> nat \<Rightarrow> 'd"
  fsin :: "'d \<Rightarrow> 'd"
  fcos :: "'d \<Rightarrow> 'd"
  fsqrt :: "'d \<Rightarrow> 'd"

definition heavy_pass :: "'d floating \<Rightarrow> 'd \<Rightarrow> 'd" where
  "heavy_pass F x = fadd F (fadd F (fsin F x) (fcos F x)) (fsqrt F (fadd F x (flit F 20 1)))"

function heavy_loop :: "'d floating \<Rightarrow> nat \<Rightarrow> 'd \<Rightarrow> 'd" where
  "heavy_loop F i x = (if i < 200 then heavy_loop F (i + 1) (heavy_pass F x) else x)"
  by pat_completeness auto
termination
  by (relation "measure (\<lambda>(F, i, x). 200 - i)") auto

declare heavy_loop.simps [simp del]

definition HeavyTransform :: "'d floating \<Rightarrow> 'd \<Rightarrow> 'd" where
  "HeavyTransform F x = heavy_loop F 0 x"

section \<open>The benchmarks\<close>

text \<open>
  One iteration of each: fill a vector, apply the transformation, with the outcomes of all
  schedules. Neither transformation throws.
\<close>

definition nothrow :: "('a \<Rightarrow> 'a) \<Rightarrow> 'a \<Rightarrow> 'a \<times> unit option" where
  "nothrow f x = (f x, None)"

definition BM_SingleThreadForCheapWorkSmallVector :: "nat \<Rightarrow> (unit, u64) af_result \<Rightarrow> bool" where
  "BM_SingleThreadForCheapWorkSmallVector n = ApplyFunction (nothrow CheapTransform) 1 (replicate n 1)"

definition BM_MultiThreadForCheapWorkSmallVector :: "nat \<Rightarrow> (unit, u64) af_result \<Rightarrow> bool" where
  "BM_MultiThreadForCheapWorkSmallVector n = ApplyFunction (nothrow CheapTransform) 4 (replicate n 1)"

definition BM_SingleThreadForCheapWorkLargeVector :: "nat \<Rightarrow> (unit, u64) af_result \<Rightarrow> bool" where
  "BM_SingleThreadForCheapWorkLargeVector n = ApplyFunction (nothrow CheapTransform) 1 (replicate n 1)"

definition BM_MultiThreadForCheapWorkLargeVector :: "nat \<Rightarrow> (unit, u64) af_result \<Rightarrow> bool" where
  "BM_MultiThreadForCheapWorkLargeVector n = ApplyFunction (nothrow CheapTransform) 4 (replicate n 1)"

definition BM_SingleThreadForHeavyWorkSmallVector :: "'d floating \<Rightarrow> nat \<Rightarrow> (unit, 'd) af_result \<Rightarrow> bool" where
  "BM_SingleThreadForHeavyWorkSmallVector F n =
     ApplyFunction (nothrow (HeavyTransform F)) 1 (replicate n (flit F 12345 4))"

definition BM_MultiThreadForHeavyWorkSmallVector :: "'d floating \<Rightarrow> nat \<Rightarrow> (unit, 'd) af_result \<Rightarrow> bool" where
  "BM_MultiThreadForHeavyWorkSmallVector F n =
     ApplyFunction (nothrow (HeavyTransform F)) 4 (replicate n (flit F 12345 4))"

definition BM_SingleThreadForHeavyWorkLargeVector :: "'d floating \<Rightarrow> nat \<Rightarrow> (unit, 'd) af_result \<Rightarrow> bool" where
  "BM_SingleThreadForHeavyWorkLargeVector F n =
     ApplyFunction (nothrow (HeavyTransform F)) 1 (replicate n (flit F 12345 4))"

definition BM_MultiThreadForHeavyWorkLargeVector :: "'d floating \<Rightarrow> nat \<Rightarrow> (unit, 'd) af_result \<Rightarrow> bool" where
  "BM_MultiThreadForHeavyWorkLargeVector F n =
     ApplyFunction (nothrow (HeavyTransform F)) 4 (replicate n (flit F 12345 4))"

section \<open>Properties\<close>

lemma heavy_loop_passes: "heavy_loop F i x = (heavy_pass F ^^ (200 - i)) x"
proof (induction F i x rule: heavy_loop.induct)
  case (1 F i x)
  show ?case
  proof (cases "i < 200")
    case True
    then have "200 - i = Suc (200 - (i + 1))" by simp
    then have "(heavy_pass F ^^ (200 - i)) x = (heavy_pass F ^^ (200 - (i + 1))) (heavy_pass F x)"
      by (simp only: funpow_Suc_right o_apply)
    with 1 True show ?thesis by (subst heavy_loop.simps) simp
  qed (subst heavy_loop.simps, simp)
qed

lemma nothrow_ApplyFunction:
  "ApplyFunction (nothrow f) threads (replicate n x) r \<longleftrightarrow> r = AfReturned (replicate n (f x))"
  using ApplyFunction_ok [of "replicate n x" "nothrow f" threads r] by (simp add: nothrow_def o_def)

text \<open>The benchmarks of ApplyFunction measure the same computation: with one and with four
  threads, on vectors of every size and under every schedule, a cheap iteration turns each 1 into
  2, and an expensive one turns each element into the result of 200 passes, for any behaviour of
  the floating-point functions; none of them throws or terminates the program.\<close>
theorem apply_benchmarks_agree:
  "BM_SingleThreadForCheapWorkSmallVector n = (\<lambda>r. r = AfReturned (replicate n 2)) \<and>
   BM_MultiThreadForCheapWorkSmallVector n = (\<lambda>r. r = AfReturned (replicate n 2)) \<and>
   BM_SingleThreadForCheapWorkLargeVector n = (\<lambda>r. r = AfReturned (replicate n 2)) \<and>
   BM_MultiThreadForCheapWorkLargeVector n = (\<lambda>r. r = AfReturned (replicate n 2)) \<and>
   BM_SingleThreadForHeavyWorkSmallVector F n =
     (\<lambda>r. r = AfReturned (replicate n ((heavy_pass F ^^ 200) (flit F 12345 4)))) \<and>
   BM_MultiThreadForHeavyWorkSmallVector F n =
     (\<lambda>r. r = AfReturned (replicate n ((heavy_pass F ^^ 200) (flit F 12345 4)))) \<and>
   BM_SingleThreadForHeavyWorkLargeVector F n =
     (\<lambda>r. r = AfReturned (replicate n ((heavy_pass F ^^ 200) (flit F 12345 4)))) \<and>
   BM_MultiThreadForHeavyWorkLargeVector F n =
     (\<lambda>r. r = AfReturned (replicate n ((heavy_pass F ^^ 200) (flit F 12345 4))))"
proof -
  have cheap: "ApplyFunction (nothrow CheapTransform) threads (replicate n 1) = (\<lambda>r. r = AfReturned (replicate n 2))"
    for threads by (simp add: fun_eq_iff nothrow_ApplyFunction CheapTransform_def)
  have heavy: "ApplyFunction (nothrow (HeavyTransform F)) threads (replicate n (flit F 12345 4)) =
      (\<lambda>r. r = AfReturned (replicate n ((heavy_pass F ^^ 200) (flit F 12345 4))))" for threads
    by (simp add: fun_eq_iff nothrow_ApplyFunction HeavyTransform_def heavy_loop_passes)
  show ?thesis
    unfolding BM_SingleThreadForCheapWorkSmallVector_def BM_MultiThreadForCheapWorkSmallVector_def
      BM_SingleThreadForCheapWorkLargeVector_def BM_MultiThreadForCheapWorkLargeVector_def
      BM_SingleThreadForHeavyWorkSmallVector_def BM_MultiThreadForHeavyWorkSmallVector_def
      BM_SingleThreadForHeavyWorkLargeVector_def BM_MultiThreadForHeavyWorkLargeVector_def
    using cheap heavy by blast
qed

end
