(* ===== verification/Dfs.thy ===== *)
theory Dfs
  imports Prelude "HOL-Library.While_Combinator"
begin

text \<open>
  The cooperative depth-first search of \<^verbatim>\<open>hw-1/dfs.cpp\<close>: coroutine frames on a heap,
  the scheduler with its ready queue, the body of \<open>DfsCoroutine\<close> cut at its suspension
  points, and \<open>CooperativeDFS\<close>. A frame that is resumed or destroyed when it is not
  alive is a fault of the model. A vector used as a stack is a list with its back first.
\<close>

section \<open>Data\<close>

type_synonym graph = "int list list"

datatype dfs_error = OutOfRange

datatype dfs_log = Enter int | Leave int | Inspect int int

text \<open>
  The suspension points: before the body, at a yield after which the loop head is next,
  at the yield between inspecting an edge and looking at \<open>visited[to]\<close>, and at the end.
\<close>

datatype co_point = CoStart | CoLoop | CoVisit int | CoDone

record co_frame =
  start_vertex :: int
  point :: co_point
  stack :: "(int \<times> nat) list"
  exception :: "dfs_error option"

datatype dfs_status = Running | Raised dfs_error | Fault

record dfs_sys =
  frames :: "nat \<Rightarrow> co_frame option"
  next_addr :: nat
  ready :: "nat list"
  visited :: "bool list"
  order :: "int list"
  dlog :: "dfs_log list"
  status :: dfs_status

text \<open>\<open>static_cast<int>\<close> of a size.\<close>

definition size_to_int :: "nat \<Rightarrow> int" where
  "size_to_int n = sint (word_of_nat n :: 32 word)"

lemma size_to_int_small: "n < 2 ^ 31 \<Longrightarrow> size_to_int n = int n"
  by (simp add: size_to_int_def sint_uint uint_nat unat_of_nat take_bit_nat_eq_self
      signed_take_bit_int_eq_self)

section \<open>The coroutine\<close>

definition write_log :: "bool \<Rightarrow> dfs_log \<Rightarrow> dfs_sys \<Rightarrow> dfs_sys" where
  "write_log logging e s = (if logging then s\<lparr>dlog := dlog s @ [e]\<rparr> else s)"

text \<open>Marking, recording and logging a vertex: what happens on every push.\<close>

definition enter_vertex :: "bool \<Rightarrow> int \<Rightarrow> dfs_sys \<Rightarrow> dfs_sys" where
  "enter_vertex logging v s =
     write_log logging (Enter v)
       (s\<lparr>visited := (visited s)[nat v := True], order := order s @ [v]\<rparr>)"

text \<open>One pass through the loop, from its head to a yield, to the end or to the throw.\<close>

definition loop_pass :: "bool \<Rightarrow> graph \<Rightarrow> dfs_sys \<Rightarrow> co_frame \<Rightarrow> dfs_sys \<times> co_frame" where
  "loop_pass logging g s f =
     (case stack f of
        [] \<Rightarrow> (s, f\<lparr>point := CoDone\<rparr>)
      | (vertex, next_edge_index) # rest \<Rightarrow>
          (if next_edge_index \<ge> length (g ! nat vertex)
           then (write_log logging (Leave vertex) s, f\<lparr>stack := rest, point := CoLoop\<rparr>)
           else (let to = g ! nat vertex ! next_edge_index;
                     f' = f\<lparr>stack := (vertex, Suc next_edge_index) # rest\<rparr>
                 in if to < 0 \<or> to \<ge> size_to_int (length g)
                    then (s, f'\<lparr>exception := Some OutOfRange, point := CoDone\<rparr>)
                    else (write_log logging (Inspect vertex to) s, f'\<lparr>point := CoVisit to\<rparr>))))"

text \<open>\<open>handle.resume()\<close>: run from the suspension point to the next one.\<close>

fun resume_at :: "co_point \<Rightarrow> bool \<Rightarrow> graph \<Rightarrow> dfs_sys \<Rightarrow> co_frame \<Rightarrow> dfs_sys \<times> co_frame" where
  "resume_at CoStart logging g s f =
     (enter_vertex logging (start_vertex f) s,
      f\<lparr>stack := [(start_vertex f, 0)], point := CoLoop\<rparr>)"
| "resume_at CoLoop logging g s f = loop_pass logging g s f"
| "resume_at (CoVisit to) logging g s f =
     (if \<not> visited s ! nat to
      then (enter_vertex logging to s, f\<lparr>stack := (to, 0) # stack f, point := CoLoop\<rparr>)
      else loop_pass logging g s f)"
| "resume_at CoDone logging g s f = (s, f)"

section \<open>The scheduler\<close>

text \<open>
  \<open>Spawn(DfsCoroutine(..., i, ...))\<close>: the call creates the frame, suspended before its
  body; \<open>Release\<close> hands the frame to the ready queue.
\<close>

definition Spawn :: "int \<Rightarrow> dfs_sys \<Rightarrow> dfs_sys" where
  "Spawn v s =
     s\<lparr>frames := (frames s)(next_addr s \<mapsto>
          \<lparr>start_vertex = v, point = CoStart, stack = [], exception = None\<rparr>),
       next_addr := Suc (next_addr s),
       ready := ready s @ [next_addr s]\<rparr>"

definition destroy :: "nat \<Rightarrow> dfs_sys \<Rightarrow> dfs_sys" where
  "destroy h s = (case frames s h of
      None \<Rightarrow> s\<lparr>status := Fault\<rparr>
    | Some _ \<Rightarrow> s\<lparr>frames := (frames s)(h := None)\<rparr>)"

text \<open>
  The body of the loop of \<open>Run\<close>. A coroutine that yields has put its handle back into the
  queue (\<open>YieldAwaiter::await_suspend\<close>) when \<open>resume\<close> returns.
\<close>

definition run_once :: "bool \<Rightarrow> graph \<Rightarrow> dfs_sys \<Rightarrow> dfs_sys" where
  "run_once logging g s =
     (let h = hd (ready s); s1 = s\<lparr>ready := tl (ready s)\<rparr>
      in case frames s1 h of
           None \<Rightarrow> s1\<lparr>status := Fault\<rparr>
         | Some f \<Rightarrow>
             (case resume_at (point f) logging g s1 f of
                (s2, f') \<Rightarrow>
                  (let s3 = s2\<lparr>frames := (frames s2)(h \<mapsto> f'),
                       ready := (if point f' \<noteq> CoDone then ready s2 @ [h] else ready s2)\<rparr>
                   in case exception f' of
                        Some ex \<Rightarrow> (destroy h s3)\<lparr>status := Raised ex\<rparr>
                      | None \<Rightarrow> if point f' = CoDone then destroy h s3 else s3)))"

text \<open>\<open>Run\<close>: \<open>None\<close> would be a loop that never ends.\<close>

definition Run :: "bool \<Rightarrow> graph \<Rightarrow> dfs_sys \<Rightarrow> dfs_sys option" where
  "Run logging g = while_option (\<lambda>s. ready s \<noteq> [] \<and> status s = Running) (run_once logging g)"

text \<open>\<open>~Scheduler\<close> destroys what is left in the queue.\<close>

fun destroy_all :: "nat list \<Rightarrow> dfs_sys \<Rightarrow> dfs_sys" where
  "destroy_all [] s = s"
| "destroy_all (h # hs) s = destroy_all hs (destroy h s)"

definition destroy_scheduler :: "dfs_sys \<Rightarrow> dfs_sys" where
  "destroy_scheduler s = destroy_all (ready s) (s\<lparr>ready := []\<rparr>)"

section \<open>CooperativeDFS\<close>

text \<open>The loop that spawns a coroutine for every vertex that is not visited.\<close>

fun spawn_loop :: "nat list \<Rightarrow> dfs_sys \<Rightarrow> dfs_sys" where
  "spawn_loop [] s = s"
| "spawn_loop (i # is) s =
     spawn_loop is (if \<not> visited s ! i then Spawn (int i) s else s)"

definition dfs_start :: "graph \<Rightarrow> dfs_sys" where
  "dfs_start g =
     spawn_loop [0..<nat (size_to_int (length g))]
       \<lparr>frames = Map.empty, next_addr = 0, ready = [], visited = replicate (length g) False,
        order = [], dlog = [], status = Running\<rparr>"

text \<open>
  The result is the traversal order, or the exception that left \<open>Run\<close>; with it comes the
  state after the scheduler is destroyed.
\<close>

definition CooperativeDFS :: "bool \<Rightarrow> graph \<Rightarrow> ((dfs_error + int list) \<times> dfs_sys) option" where
  "CooperativeDFS logging g =
     (case Run logging g (dfs_start g) of
        None \<Rightarrow> None
      | Some s \<Rightarrow>
          Some (case status s of Raised e \<Rightarrow> Inl e | _ \<Rightarrow> Inr (order s), destroy_scheduler s))"

end
