(* ===== verification/Dfs_Correct.thy ===== *)
theory Dfs_Correct
  imports Dfs
begin

text \<open>
  What \<open>CooperativeDFS\<close> returns. The coroutines are spawned for every vertex before any of
  them runs, and the queue is first-in first-out: each coroutine enters its own start
  vertex before the first of them looks at an edge. The invariant of \<open>Run\<close> follows the
  queue through that first round and through the rest of the run, with the frames on the
  heap and the log.
\<close>

section \<open>The start state\<close>

definition new_frame :: "nat \<Rightarrow> co_frame" where
  "new_frame i = \<lparr>start_vertex = int i, point = CoStart, stack = [], exception = None\<rparr>"

lemma spawn_loop_append: "spawn_loop (xs @ ys) s = spawn_loop ys (spawn_loop xs s)"
  by (induction xs arbitrary: s) auto

lemma spawn_loop_all:
  assumes "m \<le> n"
  shows "spawn_loop [0..<m]
      \<lparr>frames = Map.empty, next_addr = 0, ready = [], visited = replicate n False,
       order = [], dlog = [], status = Running\<rparr> =
    \<lparr>frames = (\<lambda>h. if h < m then Some (new_frame h) else None), next_addr = m, ready = [0..<m],
     visited = replicate n False, order = [], dlog = [], status = Running\<rparr>"
  using assms
proof (induction m)
  case 0
  then show ?case by simp
next
  case (Suc m)
  then show ?case
    by (auto simp: spawn_loop_append Spawn_def new_frame_def fun_eq_iff)
qed

lemma dfs_start_eq:
  assumes "length g < 2 ^ 31"
  shows "dfs_start g =
    \<lparr>frames = (\<lambda>h. if h < length g then Some (new_frame h) else None), next_addr = length g,
     ready = [0..<length g], visited = replicate (length g) False, order = [], dlog = [],
     status = Running\<rparr>"
  using assms spawn_loop_all [of "length g" "length g"]
  by (simp add: dfs_start_def size_to_int_small)

section \<open>The invariant of the run\<close>

definition valid_to :: "graph \<Rightarrow> int \<Rightarrow> bool" where
  "valid_to g to \<longleftrightarrow> 0 \<le> to \<and> to < int (length g)"

definition valid_graph :: "graph \<Rightarrow> bool" where
  "valid_graph g \<longleftrightarrow> (\<forall>row \<in> set g. \<forall>to \<in> set row. valid_to g to)"

text \<open>
  The frame of vertex \<open>i\<close> once it has started: it is at edge \<open>e\<close> of its own start vertex
  and has found the edges before \<open>e\<close> valid, or it has left the vertex.
\<close>

definition frame_ok :: "graph \<Rightarrow> nat \<Rightarrow> co_frame \<Rightarrow> bool" where
  "frame_ok g i f \<longleftrightarrow> exception f = None \<and>
     ((\<exists>e. stack f = [(int i, e)] \<and> e \<le> length (g ! i) \<and>
         (point f = CoLoop \<or> (\<exists>to. point f = CoVisit to \<and> valid_to g to)) \<and>
         (\<forall>to \<in> set (take e (g ! i)). valid_to g to)) \<or>
      (stack f = [] \<and> point f = CoLoop \<and> (\<forall>to \<in> set (g ! i). valid_to g to)))"

text \<open>The log of one coroutine, from its frame (none: the coroutine has ended).\<close>

fun log_vertex :: "dfs_log \<Rightarrow> int" where
  "log_vertex (Enter v) = v"
| "log_vertex (Leave v) = v"
| "log_vertex (Inspect v _) = v"

definition full_trace :: "graph \<Rightarrow> nat \<Rightarrow> dfs_log list" where
  "full_trace g i = Enter (int i) # map (Inspect (int i)) (g ! i) @ [Leave (int i)]"

definition trace_of :: "graph \<Rightarrow> nat \<Rightarrow> co_frame option \<Rightarrow> dfs_log list" where
  "trace_of g i fo =
     (case fo of
        None \<Rightarrow> full_trace g i
      | Some f \<Rightarrow>
          (case stack f of
             [] \<Rightarrow> full_trace g i
           | (v, e) # _ \<Rightarrow> Enter (int i) # map (Inspect (int i)) (take e (g ! i))))"

definition log_ok :: "bool \<Rightarrow> graph \<Rightarrow> nat \<Rightarrow> dfs_sys \<Rightarrow> bool" where
  "log_ok logging g m s \<longleftrightarrow>
     (if logging
      then (\<forall>i < m. filter (\<lambda>e. log_vertex e = int i) (dlog s) = trace_of g i (frames s i)) \<and>
           (\<forall>e \<in> set (dlog s). 0 \<le> log_vertex e \<and> log_vertex e < int m)
      else dlog s = [])"

definition heap_ok :: "dfs_sys \<Rightarrow> bool" where
  "heap_ok s \<longleftrightarrow> distinct (ready s) \<and> (\<forall>h. frames s h \<noteq> None \<longleftrightarrow> h \<in> set (ready s))"

definition running_ok :: "bool \<Rightarrow> graph \<Rightarrow> nat \<Rightarrow> nat list \<Rightarrow> dfs_sys \<Rightarrow> bool" where
  "running_ok logging g m rest s \<longleftrightarrow> m \<le> length g \<and> status s = Running \<and>
     order s = map int [0..<m] \<and> visited s = map (\<lambda>i. i < m) [0..<length g] \<and>
     ready s = [m..<length g] @ rest \<and> set rest \<subseteq> {..<m} \<and> heap_ok s \<and>
     (\<forall>h \<in> set rest. \<forall>f. frames s h = Some f \<longrightarrow> frame_ok g h f) \<and>
     (\<forall>h. m \<le> h \<and> h < length g \<longrightarrow> frames s h = Some (new_frame h)) \<and>
     (\<forall>h < m. h \<notin> set rest \<longrightarrow> (\<forall>to \<in> set (g ! h). valid_to g to)) \<and>
     log_ok logging g m s"

definition dfs_good :: "bool \<Rightarrow> graph \<Rightarrow> dfs_sys \<Rightarrow> bool" where
  "dfs_good logging g s \<longleftrightarrow>
     (\<exists>m rest. running_ok logging g m rest s) \<or>
     (status s = Raised OutOfRange \<and> \<not> valid_graph g \<and> heap_ok s)"

lemma dfs_start_good:
  assumes "length g < 2 ^ 31"
  shows "dfs_good logging g (dfs_start g)"
proof -
  have "running_ok logging g 0 [] (dfs_start g)"
    unfolding dfs_start_eq [OF assms]
    by (auto simp: running_ok_def heap_ok_def log_ok_def map_replicate_const)
  then show ?thesis by (auto simp: dfs_good_def)
qed

section \<open>One pass of the scheduler\<close>

text \<open>The first round: the coroutine of vertex \<open>m\<close> starts.\<close>

lemma run_once_start:
  assumes "running_ok logging g m rest s" and "m < length g"
  shows "running_ok logging g (Suc m) (rest @ [m]) (run_once logging g s)"
proof -
  from assms have rdy: "ready s = m # [Suc m..<length g] @ rest"
    and fm: "frames s m = Some (new_frame m)" and m: "m \<notin> set rest"
    by (auto simp: running_ok_def upt_conv_Cons)
  let ?f = "\<lparr>start_vertex = int m, point = CoLoop, stack = [(int m, 0)], exception = None\<rparr>"
  let ?t = "s\<lparr>ready := [Suc m..<length g] @ rest @ [m], frames := (frames s)(m \<mapsto> ?f),
    visited := (visited s)[m := True], order := order s @ [int m],
    dlog := (if logging then dlog s @ [Enter (int m)] else dlog s)\<rparr>"
  have run: "run_once logging g s = ?t"
    using rdy fm
    by (simp add: run_once_def Let_def new_frame_def enter_vertex_def write_log_def)
  have vis: "(map (\<lambda>i. i < m) [0..<length g])[m := True] = map (\<lambda>i. i < Suc m) [0..<length g]"
    using assms(2) by (auto intro!: nth_equalityI simp: nth_list_update split: if_splits)
  have log: "log_ok logging g (Suc m) ?t"
  proof (cases logging)
    case True
    with assms(1) have old: "\<And>i. i < m \<Longrightarrow>
        filter (\<lambda>e. log_vertex e = int i) (dlog s) = trace_of g i (frames s i)"
      and rng: "\<forall>e \<in> set (dlog s). 0 \<le> log_vertex e \<and> log_vertex e < int m"
      by (auto simp: running_ok_def log_ok_def)
    from rng have "filter (\<lambda>e. log_vertex e = int m) (dlog s) = []"
      by (auto simp: filter_empty_conv)
    with True old rng show ?thesis
      by (auto simp: log_ok_def less_Suc_eq trace_of_def)
  next
    case False
    with assms(1) show ?thesis by (simp add: running_ok_def log_ok_def)
  qed
  have "heap_ok ?t"
    using assms m rdy by (auto simp: running_ok_def heap_ok_def)
  then show ?thesis
    using assms m vis log unfolding run
    by (auto simp: running_ok_def frame_ok_def less_Suc_eq)
qed

text \<open>
  The later rounds: everything is visited, so a resumed coroutine makes one pass through
  its loop whatever its suspension point is.
\<close>

lemma resume_is_pass:
  assumes "frame_ok g h f" and "visited s = map (\<lambda>i. i < length g) [0..<length g]"
  shows "resume_at (point f) logging g s f = loop_pass logging g s f"
  using assms by (auto simp: frame_ok_def valid_to_def)

lemma all_running_frame:
  assumes "running_ok logging g (length g) (h # hs) s"
  obtains f where "frames s h = Some f" "frame_ok g h f" "h < length g" "h \<notin> set hs"
proof -
  from assms have "frames s h \<noteq> None" "h < length g" "h \<notin> set hs"
    by (auto simp: running_ok_def heap_ok_def)
  with assms that show thesis by (auto simp: running_ok_def)
qed

text \<open>A coroutine that yields again: its frame changes, its handle goes to the back.\<close>

lemma requeue_ok:
  assumes "running_ok logging g (length g) (h # hs) s" and "frame_ok g h f'"
    and "frames s h = Some f" and "log_vertex e = int h"
    and "trace_of g h (Some f') = trace_of g h (Some f) @ [e]"
  shows "running_ok logging g (length g) (hs @ [h])
    (s\<lparr>ready := hs @ [h], frames := (frames s)(h \<mapsto> f'),
       dlog := (if logging then dlog s @ [e] else dlog s)\<rparr>)" (is "running_ok _ _ _ _ ?t")
proof -
  have h: "h < length g" "h \<notin> set hs" using assms(1) by (auto simp: running_ok_def heap_ok_def)
  have "log_ok logging g (length g) ?t"
  proof (cases logging)
    case True
    with assms(1) have "filter (\<lambda>e. log_vertex e = int i) (dlog s) = trace_of g i (frames s i)"
      if "i < length g" for i
      using that by (auto simp: running_ok_def log_ok_def)
    with True assms(1,3,4,5) h(1) show ?thesis by (auto simp: log_ok_def running_ok_def)
  next
    case False
    with assms(1) show ?thesis by (simp add: running_ok_def log_ok_def)
  qed
  moreover have "heap_ok ?t"
    using assms(1) by (auto simp: running_ok_def heap_ok_def)
  ultimately show ?thesis
    using assms(1,2) h by (auto simp: running_ok_def)
qed

text \<open>A coroutine that has left its vertex ends and is destroyed.\<close>

lemma retire_ok:
  assumes "running_ok logging g (length g) (h # hs) s" and "frames s h = Some f" and "stack f = []"
  shows "running_ok logging g (length g) hs
    (s\<lparr>ready := hs, frames := (frames s)(h := None)\<rparr>)" (is "running_ok _ _ _ _ ?t")
proof -
  have h: "h < length g" "h \<notin> set hs" using assms(1) by (auto simp: running_ok_def heap_ok_def)
  have "frame_ok g h f" using assms(1,2) by (auto simp: running_ok_def)
  with assms(3) have fin: "\<forall>to \<in> set (g ! h). valid_to g to" by (auto simp: frame_ok_def)
  have "log_ok logging g (length g) ?t"
    using assms h(1) by (auto simp: running_ok_def log_ok_def trace_of_def)
  moreover have "heap_ok ?t"
    using assms(1) by (auto simp: running_ok_def heap_ok_def)
  ultimately show ?thesis
    using assms(1) h fin by (auto simp: running_ok_def)
qed

lemma run_once_later:
  assumes "running_ok logging g (length g) (h # hs) s" and "length g < 2 ^ 31"
  shows "(\<exists>rest. running_ok logging g (length g) rest (run_once logging g s)) \<or>
    (status (run_once logging g s) = Raised OutOfRange \<and> \<not> valid_graph g \<and>
     heap_ok (run_once logging g s))"
proof -
  from assms(1) obtain f where f: "frames s h = Some f" "frame_ok g h f"
    and h: "h < length g" "h \<notin> set hs"
    by (rule all_running_frame)
  from assms(1) have rdy: "ready s = h # hs" and run: "status s = Running"
    and vis: "visited s = map (\<lambda>i. i < length g) [0..<length g]"
    by (auto simp: running_ok_def)
  note pass = resume_is_pass [OF f(2), of "s\<lparr>ready := hs\<rparr>" logging] vis
  show ?thesis
  proof (cases "stack f")
    case Nil
    then have "run_once logging g s = s\<lparr>ready := hs, frames := (frames s)(h := None)\<rparr>"
      using f pass rdy
      by (simp add: run_once_def Let_def loop_pass_def destroy_def frame_ok_def)
    with retire_ok [OF assms(1) f(1) Nil] show ?thesis by metis
  next
    case (Cons a st)
    with f(2) obtain e where st: "stack f = [(int h, e)]" and e: "e \<le> length (g ! h)"
      and seen: "\<forall>to \<in> set (take e (g ! h)). valid_to g to" and noex: "exception f = None"
      by (auto simp: frame_ok_def)
    show ?thesis
    proof (cases "e < length (g ! h)")
      case False
      let ?f' = "f\<lparr>stack := [], point := CoLoop\<rparr>"
      have "run_once logging g s = s\<lparr>ready := hs @ [h], frames := (frames s)(h \<mapsto> ?f'),
          dlog := (if logging then dlog s @ [Leave (int h)] else dlog s)\<rparr>"
        using f pass rdy st False noex
        by (simp add: run_once_def Let_def loop_pass_def write_log_def)
      moreover have "frame_ok g h ?f'" "trace_of g h (Some ?f') = trace_of g h (Some f) @ [Leave (int h)]"
        using False seen noex st e by (auto simp: frame_ok_def trace_of_def full_trace_def)
      ultimately show ?thesis
        using requeue_ok [OF assms(1) _ f(1), of ?f' "Leave (int h)"] by auto
    next
      case True
      let ?to = "g ! h ! e"
      let ?f' = "f\<lparr>stack := [(int h, Suc e)], point := CoVisit ?to\<rparr>"
      show ?thesis
      proof (cases "valid_to g ?to")
        case True': True
        have "run_once logging g s = s\<lparr>ready := hs @ [h], frames := (frames s)(h \<mapsto> ?f'),
            dlog := (if logging then dlog s @ [Inspect (int h) ?to] else dlog s)\<rparr>"
          using f pass rdy st True True' noex size_to_int_small [OF assms(2)]
          by (simp add: run_once_def Let_def loop_pass_def write_log_def valid_to_def)
        moreover have "frame_ok g h ?f'"
          "trace_of g h (Some ?f') = trace_of g h (Some f) @ [Inspect (int h) ?to]"
          using True True' seen noex st
          by (auto simp: frame_ok_def trace_of_def take_Suc_conv_app_nth)
        ultimately show ?thesis
          using requeue_ok [OF assms(1) _ f(1), of ?f' "Inspect (int h) ?to"] by auto
      next
        case bad: False
        have "run_once logging g s = s\<lparr>ready := hs, frames := (frames s)(h := None),
            status := Raised OutOfRange\<rparr>"
          using f pass rdy st True bad size_to_int_small [OF assms(2)]
          by (auto simp: run_once_def Let_def loop_pass_def valid_to_def destroy_def)
        moreover have "\<not> valid_graph g"
          using bad True h(1) nth_mem by (fastforce simp: valid_graph_def)
        moreover have "heap_ok (s\<lparr>ready := hs, frames := (frames s)(h := None),
            status := Raised OutOfRange\<rparr>)"
          using assms(1) by (auto simp: running_ok_def heap_ok_def)
        ultimately show ?thesis by simp
      qed
    qed
  qed
qed

section \<open>The whole run\<close>

lemma run_once_good:
  assumes "dfs_good logging g s" and "ready s \<noteq> []" and "status s = Running"
    and "length g < 2 ^ 31"
  shows "dfs_good logging g (run_once logging g s)"
proof -
  from assms(1,3) obtain m rest where ok: "running_ok logging g m rest s"
    by (auto simp: dfs_good_def)
  show ?thesis
  proof (cases "m < length g")
    case True
    with run_once_start [OF ok] show ?thesis by (auto simp: dfs_good_def)
  next
    case False
    with ok have m: "m = length g" by (simp add: running_ok_def)
    with ok assms(2) obtain h hs where "rest = h # hs"
      by (cases rest) (auto simp: running_ok_def)
    with ok m run_once_later [of logging g h hs s] assms(4) show ?thesis
      by (auto simp: dfs_good_def)
  qed
qed

text \<open>The passes a frame still needs: the queue's total goes down with every pass.\<close>

fun passes :: "graph \<Rightarrow> co_frame option \<Rightarrow> nat" where
  "passes g None = 0"
| "passes g (Some f) =
     (if point f = CoStart then length (g ! nat (start_vertex f)) + 3
      else (case stack f of [] \<Rightarrow> 1 | (v, e) # _ \<Rightarrow> length (g ! nat v) - e + 2))"

definition passes_left :: "graph \<Rightarrow> dfs_sys \<Rightarrow> nat" where
  "passes_left g s = sum_list (map (\<lambda>h. passes g (frames s h)) (ready s))"

lemma sum_passes_other [simp]:
  "h \<notin> set hs \<Longrightarrow>
   (\<Sum>k\<leftarrow>hs. passes g (if k = h then fo else fr k)) = (\<Sum>k\<leftarrow>hs. passes g (fr k))"
  by (rule arg_cong [where f = sum_list]) auto

lemma run_once_passes:
  assumes "dfs_good logging g s" and "ready s \<noteq> []" and "status s = Running"
    and "length g < 2 ^ 31"
  shows "passes_left g (run_once logging g s) < passes_left g s"
proof -
  from assms(1,3) obtain m rest where ok: "running_ok logging g m rest s"
    by (auto simp: dfs_good_def)
  show ?thesis
  proof (cases "m < length g")
    case True
    with ok have "ready s = m # [Suc m..<length g] @ rest" "frames s m = Some (new_frame m)"
      "m \<notin> set rest"
      by (auto simp: running_ok_def upt_conv_Cons)
    then show ?thesis
      by (cases logging) (simp_all add: run_once_def Let_def new_frame_def enter_vertex_def
          write_log_def passes_left_def)
  next
    case False
    with ok have m: "m = length g" by (simp add: running_ok_def)
    with ok assms(2) obtain h hs where hs: "rest = h # hs"
      by (cases rest) (auto simp: running_ok_def)
    with ok m obtain f where f: "frames s h = Some f" "frame_ok g h f" "h \<notin> set hs"
      by (metis all_running_frame)
    from ok hs m have rdy: "ready s = h # hs"
      and vis: "visited s = map (\<lambda>i. i < length g) [0..<length g]"
      by (auto simp: running_ok_def)
    note pass = resume_is_pass [OF f(2), of "s\<lparr>ready := hs\<rparr>" logging] vis
    have "point f \<noteq> CoStart" using f(2) by (auto simp: frame_ok_def)
    with f pass rdy show ?thesis
      by (cases logging) (auto simp: run_once_def Let_def loop_pass_def write_log_def destroy_def passes_left_def
          frame_ok_def split: if_splits)
  qed
qed

lemma Run_good:
  assumes "length g < 2 ^ 31"
  obtains s where "Run logging g (dfs_start g) = Some s" "dfs_good logging g s"
    "ready s = [] \<or> status s \<noteq> Running"
proof -
  let ?b = "\<lambda>s. ready s \<noteq> [] \<and> status s = Running"
  have "\<exists>s. while_option ?b (run_once logging g) (dfs_start g) = Some s"
    by (rule measure_while_option_Some [where P = "dfs_good logging g" and f = "passes_left g"])
      (use run_once_good run_once_passes dfs_start_good assms in blast)+
  then obtain s where s: "while_option ?b (run_once logging g) (dfs_start g) = Some s" by blast
  moreover have "dfs_good logging g s"
    by (rule while_option_rule [OF _ s]) (use run_once_good dfs_start_good assms in blast)+
  ultimately show thesis
    using that while_option_stop [OF s] by (auto simp: Run_def)
qed

section \<open>The scheduler's destructor\<close>

lemma destroy_all_live:
  assumes "distinct hs" and "\<And>h. h \<in> set hs \<Longrightarrow> frames s h \<noteq> None"
  shows "destroy_all hs s = s\<lparr>frames := (\<lambda>h. if h \<in> set hs then None else frames s h)\<rparr>"
  using assms
proof (induction hs arbitrary: s)
  case Nil
  then show ?case by simp
next
  case (Cons a hs)
  let ?t = "s\<lparr>frames := (frames s)(a := None)\<rparr>"
  from Cons.prems(2) [of a] have "destroy a s = ?t" by (auto simp: destroy_def)
  moreover from Cons.prems have "frames ?t h \<noteq> None" if "h \<in> set hs" for h using that by auto
  ultimately have "destroy_all (a # hs) s =
      ?t\<lparr>frames := (\<lambda>h. if h \<in> set hs then None else frames ?t h)\<rparr>"
    using Cons.IH [of ?t] Cons.prems(1) by simp
  moreover have "(\<lambda>h. if h \<in> set hs then None else frames ?t h) =
      (\<lambda>h. if h \<in> set (a # hs) then None else frames s h)"
    by (auto simp: fun_eq_iff)
  ultimately show ?case by simp
qed

lemma destroy_scheduler_ok:
  assumes "heap_ok s"
  shows "destroy_scheduler s = s\<lparr>ready := [], frames := Map.empty\<rparr>"
proof -
  have "(\<lambda>h. if h \<in> set (ready s) then None else frames s h) = Map.empty"
    using assms by (metis (lifting) heap_ok_def)
  moreover have "frames (s\<lparr>ready := []\<rparr>) h \<noteq> None" if "h \<in> set (ready s)" for h
    using assms that by (simp add: heap_ok_def)
  ultimately show ?thesis
    using assms destroy_all_live [of "ready s" "s\<lparr>ready := []\<rparr>"]
    by (simp add: destroy_scheduler_def heap_ok_def cong: if_cong)
qed

lemma CooperativeDFS_cases:
  assumes "length g < 2 ^ 31"
  obtains
    (ok) s where "valid_graph g" "CooperativeDFS logging g = Some (Inr (map int [0..<length g]), s)"
      "frames s = Map.empty" "status s = Running" "log_ok logging g (length g) s"
  | (bad) s where "\<not> valid_graph g" "CooperativeDFS logging g = Some (Inl OutOfRange, s)"
      "frames s = Map.empty" "status s = Raised OutOfRange"
proof -
  obtain s where s: "Run logging g (dfs_start g) = Some s" "dfs_good logging g s"
    "ready s = [] \<or> status s \<noteq> Running"
    using Run_good [OF assms] by blast
  show thesis
  proof (cases "status s = Running")
    case True
    with s obtain m where "running_ok logging g m [] s" and m: "m = length g"
      by (auto simp: dfs_good_def running_ok_def)
    then have "heap_ok s" "order s = map int [0..<length g]" "log_ok logging g (length g) s"
      and "\<And>h. h < length g \<Longrightarrow> \<forall>to \<in> set (g ! h). valid_to g to"
      by (auto simp: running_ok_def)
    moreover from this(4) have "valid_graph g"
      unfolding valid_graph_def by (metis in_set_conv_nth)
    ultimately show thesis
      using s True ok [of "s\<lparr>ready := [], frames := Map.empty\<rparr>"]
      by (auto simp: CooperativeDFS_def destroy_scheduler_ok log_ok_def heap_ok_def)
  next
    case False
    with s have "status s = Raised OutOfRange" "\<not> valid_graph g" "heap_ok s"
      by (auto simp: dfs_good_def running_ok_def)
    with s bad [of "s\<lparr>ready := [], frames := Map.empty\<rparr>"] show thesis
      by (auto simp: CooperativeDFS_def destroy_scheduler_ok)
  qed
qed

section \<open>Properties\<close>

text \<open>C12: On a graph whose edges are all valid, CooperativeDFS returns (it never loops, resumes no
  dead frame and does not throw) the vertices 0, ..., n-1 in this order, each exactly once, and
  every coroutine frame has been destroyed.\<close>
theorem dfs_valid_graph:
  assumes "length g < 2 ^ 31" and "valid_graph g"
  shows "\<exists>s. CooperativeDFS logging g = Some (Inr (map int [0..<length g]), s) \<and>
    frames s = Map.empty \<and> status s = Running"
  using assms by (cases rule: CooperativeDFS_cases [of g logging]) auto

theorem dfs_valid_graph_witness:
  "\<exists>s. CooperativeDFS True [[1], [0, 2], []] = Some (Inr (map int [0..<length [[1], [0, 2], [] :: int list]]), s) \<and>
    frames s = Map.empty \<and> status s = Running"
  by (rule dfs_valid_graph) (simp_all add: valid_graph_def valid_to_def)

text \<open>C35: On a graph with an edge to a vertex that does not exist, CooperativeDFS throws
  out_of_range, whatever vertex the edge starts from, and every coroutine frame, suspended ones
  included, has been destroyed.\<close>
theorem dfs_invalid_graph:
  assumes "length g < 2 ^ 31" and "\<not> valid_graph g"
  shows "\<exists>s. CooperativeDFS logging g = Some (Inl OutOfRange, s) \<and>
    frames s = Map.empty \<and> status s = Raised OutOfRange"
  using assms by (cases rule: CooperativeDFS_cases [of g logging]) auto

theorem dfs_invalid_graph_witness:
  "\<exists>s. CooperativeDFS True [[1], [0, -3]] = Some (Inl OutOfRange, s) \<and>
    frames s = Map.empty \<and> status s = Raised OutOfRange"
  by (rule dfs_invalid_graph) (simp_all add: valid_graph_def valid_to_def)

text \<open>With a log stream, the log of a run on a valid graph consists, for each vertex, of its
  entry, the inspection of each of its edges in the order of the adjacency list, and its exit,
  however the coroutines interleave; without one nothing is logged.\<close>
theorem dfs_log_per_vertex:
  assumes "length g < 2 ^ 31" and "valid_graph g"
  shows "\<exists>s. CooperativeDFS logging g = Some (Inr (map int [0..<length g]), s) \<and>
    (if logging
     then \<forall>i < length g. filter (\<lambda>e. log_vertex e = int i) (dlog s) = full_trace g i
     else dlog s = [])"
  using assms
proof (cases rule: CooperativeDFS_cases [of g logging])
  case (ok s)
  then show ?thesis by (auto simp: log_ok_def trace_of_def)
qed (use assms in auto)

theorem dfs_log_per_vertex_witness:
  "\<exists>s. CooperativeDFS True [[1], [0]] = Some (Inr (map int [0..<length [[1], [0 :: int]]]), s) \<and>
    (if True then \<forall>i < length [[1], [0 :: int]]. filter (\<lambda>e. log_vertex e = int i) (dlog s) = full_trace [[1], [0]] i
     else dlog s = [])"
  by (rule dfs_log_per_vertex) (simp_all add: valid_graph_def valid_to_def)

text \<open>A depth-first order, for comparison: a stack of vertices still to look at.\<close>

fun depth_first :: "nat \<Rightarrow> graph \<Rightarrow> int list \<Rightarrow> int list \<Rightarrow> int list" where
  "depth_first 0 g todo seen = seen"
| "depth_first (Suc n) g [] seen = seen"
| "depth_first (Suc n) g (v # todo) seen =
     (if v \<in> set seen then depth_first n g todo seen
      else depth_first n g (g ! nat v @ todo) (seen @ [v]))"

text \<open>The order CooperativeDFS returns is not a depth-first order: every vertex gets a coroutine
  before any of them runs, and each enters its start vertex unconditionally, so that the edges
  have no influence on the order. On the graph 0 -> 2 -> 1 the result is 0, 1, 2.\<close>
theorem dfs_order_ignores_edges:
  assumes "length g < 2 ^ 31" and "valid_graph g" and "valid_graph g'" and "length g' = length g"
  shows "map_option fst (CooperativeDFS logging g) = map_option fst (CooperativeDFS logging' g')"
proof -
  have one: "map_option fst (CooperativeDFS l h) = Some (Inr (map int [0..<length g]))"
    if "valid_graph h" "length h = length g" for l h
  proof -
    have "length h < 2 ^ 31" using that(2) assms(1) by simp
    then show ?thesis by (cases rule: CooperativeDFS_cases [of h l]) (use that in auto)
  qed
  show ?thesis using one [OF assms(2) refl, of logging] one [OF assms(3,4), of logging'] by (metis (no_types))
qed

theorem dfs_order_ignores_edges_witness:
  "map_option fst (CooperativeDFS False [[2], [], [1]]) = map_option fst (CooperativeDFS False [[], [], []]) \<and>
   depth_first 10 [[2], [], [1]] [0, 1, 2] [] = [0, 2, 1] \<and>
   depth_first 10 [[], [], []] [0, 1, 2] [] = [0, 1, 2]"
proof -
  have "map_option fst (CooperativeDFS False [[2], [], [1]]) = map_option fst (CooperativeDFS False [[], [], []])"
    by (rule dfs_order_ignores_edges) (simp_all add: valid_graph_def valid_to_def)
  then show ?thesis by (simp add: eval_nat_numeral)
qed

end
