(* ===== verification/Dfs_Programs.thy ===== *)
theory Dfs_Programs
  imports Dfs_Correct
begin

text \<open>
  The benchmark of the cooperative traversal (\<^verbatim>\<open>hw-1/benchmark.cpp\<close>): the three families of
  graphs it builds, edge by edge with \<open>push_back\<close>, and the loop that traverses them. The adjacency
  lists the loops leave behind are given in closed form.
\<close>

section \<open>Building a graph\<close>

text \<open>\<open>graph.adj[from].push_back(to)\<close>. A loop is a fold over the values of its variable. The
  sizes are those the benchmarks register, which are not negative.\<close>

definition push_edge :: "nat \<Rightarrow> nat \<Rightarrow> graph \<Rightarrow> graph" where
  "push_edge from to g = g[from := g ! from @ [int to]]"

definition MakeLineGraph :: "nat \<Rightarrow> graph" where
  "MakeLineGraph n =
     fold (\<lambda>i g. push_edge (i + 1) i (push_edge i (i + 1) g)) [0..<n - 1] (replicate n [])"

text \<open>\<open>levels\<close> is at most 30, where none of the computations on \<open>int\<close> overflows (see below).\<close>

definition tree_pass :: "nat \<Rightarrow> nat \<Rightarrow> graph \<Rightarrow> graph" where
  "tree_pass n parent g =
     (let left = parent * 2 + 1;
          right = parent * 2 + 2;
          g1 = (if left < n then push_edge left parent (push_edge parent left g) else g)
      in if right < n then push_edge right parent (push_edge parent right g1) else g1)"

definition MakeBinaryTreeGraph :: "nat \<Rightarrow> graph" where
  "MakeBinaryTreeGraph levels =
     (let n = push_bit levels 1 - 1 in fold (tree_pass n) [0..<n] (replicate n []))"

definition MakeDenseGraph :: "nat \<Rightarrow> graph" where
  "MakeDenseGraph n =
     fold (\<lambda>i g. fold (\<lambda>j g. if i \<noteq> j then push_edge i j g else g) [0..<n] g) [0..<n] (replicate n [])"

section \<open>The benchmark loops\<close>

text \<open>The orders computed by the iterations; \<open>None\<close>: a call does not return, or throws.\<close>

primrec traversals :: "nat \<Rightarrow> graph \<Rightarrow> int list list option" where
  "traversals 0 g = Some []"
| "traversals (Suc k) g =
     (case CooperativeDFS False g of
        Some (Inr ord, s) \<Rightarrow> map_option (Cons ord) (traversals k g)
      | _ \<Rightarrow> None)"

text \<open>Each benchmark with the number it passes to \<open>SetItemsProcessed\<close>.\<close>

definition BM_CooperativeDFS_LineGraph :: "nat \<Rightarrow> nat \<Rightarrow> (int list list \<times> nat) option" where
  "BM_CooperativeDFS_LineGraph n iterations =
     map_option (\<lambda>orders. (orders, iterations * n)) (traversals iterations (MakeLineGraph n))"

definition BM_CooperativeDFS_BinaryTree :: "nat \<Rightarrow> nat \<Rightarrow> (int list list \<times> nat) option" where
  "BM_CooperativeDFS_BinaryTree levels iterations =
     (let g = MakeBinaryTreeGraph levels
      in map_option (\<lambda>orders. (orders, iterations * length g)) (traversals iterations g))"

definition BM_CooperativeDFS_DenseGraph :: "nat \<Rightarrow> nat \<Rightarrow> (int list list \<times> nat) option" where
  "BM_CooperativeDFS_DenseGraph n iterations =
     map_option (\<lambda>orders. (orders, iterations * n)) (traversals iterations (MakeDenseGraph n))"

section \<open>Graphs from lists of edges\<close>

text \<open>Every loop above pushes a list of edges; each row of the result is what was pushed onto it.\<close>

definition push_all :: "(nat \<times> nat) list \<Rightarrow> graph \<Rightarrow> graph" where
  "push_all es g = fold (\<lambda>(from, to). push_edge from to) es g"

lemma push_all_simps [simp]:
  "push_all [] g = g" "push_all ((a, b) # es) g = push_all es (push_edge a b g)"
  "push_all (es @ es') g = push_all es' (push_all es g)"
  by (simp_all add: push_all_def)

lemma length_push_edge [simp]: "length (push_edge a b g) = length g"
  by (simp add: push_edge_def)

lemma length_push_all [simp]: "length (push_all es g) = length g"
  by (induction es arbitrary: g) auto

lemma push_all_row:
  "v < length g \<Longrightarrow> push_all es g ! v = g ! v @ map (int \<circ> snd) (filter (\<lambda>e. fst e = v) es)"
  by (induction es arbitrary: g) (auto simp: push_edge_def nth_list_update)

lemma fold_push_all:
  assumes "\<And>i g. i \<in> set is \<Longrightarrow> f i g = push_all (es i) g"
  shows "fold f is g = push_all (concat (map es is)) g"
  using assms by (induction "is" arbitrary: g) auto

text \<open>A row, when for each pass the edges that it pushes onto the row are known.\<close>

lemma built_row:
  assumes "v < n"
  shows "push_all (concat (map es is)) (replicate n []) ! v =
    concat (map (\<lambda>i. map (int \<circ> snd) (filter (\<lambda>e. fst e = v) (es i))) is)"
  using assms by (simp add: push_all_row filter_concat map_concat o_def)

lemma valid_built:
  assumes "g = map (\<lambda>v. map int (row v)) [0..<n]" and "\<And>v. v < n \<Longrightarrow> set (row v) \<subseteq> {..<n}"
  shows "valid_graph g"
  using assms(2) by (fastforce simp: assms(1) valid_graph_def valid_to_def)

section \<open>The three families\<close>

definition line_edges :: "nat \<Rightarrow> (nat \<times> nat) list" where
  "line_edges i = [(i, i + 1), (i + 1, i)]"

definition tree_edges :: "nat \<Rightarrow> nat \<Rightarrow> (nat \<times> nat) list" where
  "tree_edges n p =
     (if 2 * p + 1 < n then [(p, 2 * p + 1), (2 * p + 1, p)] else []) @
     (if 2 * p + 2 < n then [(p, 2 * p + 2), (2 * p + 2, p)] else [])"

definition dense_edges :: "nat \<Rightarrow> nat \<Rightarrow> (nat \<times> nat) list" where
  "dense_edges n i = map (Pair i) (filter (\<lambda>j. i \<noteq> j) [0..<n])"

lemma line_built: "MakeLineGraph n = push_all (concat (map line_edges [0..<n - 1])) (replicate n [])"
  unfolding MakeLineGraph_def by (rule fold_push_all) (simp add: line_edges_def)

lemma tree_built:
  "MakeBinaryTreeGraph levels =
     push_all (concat (map (tree_edges (2 ^ levels - 1)) [0..<2 ^ levels - 1])) (replicate (2 ^ levels - 1) [])"
proof -
  have "fold (tree_pass n) [0..<n] g = push_all (concat (map (tree_edges n) [0..<n])) g" for n g
    by (rule fold_push_all) (simp add: tree_pass_def tree_edges_def mult.commute Let_def)
  then show ?thesis by (simp add: MakeBinaryTreeGraph_def push_bit_eq_mult Let_def)
qed

lemma dense_built: "MakeDenseGraph n = push_all (concat (map (dense_edges n) [0..<n])) (replicate n [])"
proof -
  have "fold (\<lambda>j g. if i \<noteq> j then push_edge i j g else g) js g = push_all (map (Pair i) (filter (\<lambda>j. i \<noteq> j) js)) g"
    for i js g
    by (induction js arbitrary: g) auto
  then show ?thesis unfolding MakeDenseGraph_def by (intro fold_push_all) (simp add: dense_edges_def)
qed

text \<open>What the passes before \<open>m\<close> have pushed onto row \<open>v\<close>.\<close>

lemma line_passes:
  "concat (map (\<lambda>i. map (int \<circ> snd) (filter (\<lambda>e. fst e = v) (line_edges i))) [0..<m]) =
     map int ((if 0 < v \<and> v \<le> m then [v - 1] else []) @ (if v < m then [v + 1] else []))"
  by (induction m) (auto simp: line_edges_def)

lemma tree_passes:
  "v < n \<Longrightarrow> concat (map (\<lambda>p. map (int \<circ> snd) (filter (\<lambda>e. fst e = v) (tree_edges n p))) [0..<m]) =
     map int ((if 0 < v \<and> (v - 1) div 2 < m then [(v - 1) div 2] else []) @
       (if v < m then filter (\<lambda>c. c < n) [2 * v + 1, 2 * v + 2] else []))"
proof (induction m)
  case (Suc m)
  consider "v = m" | "v = 2 * m + 1" "v \<noteq> m" | "v = 2 * m + 2" "v \<noteq> m"
    | "v \<noteq> m" "v \<noteq> 2 * m + 1" "v \<noteq> 2 * m + 2" by blast
  then show ?case
  proof cases
    case 4
    have "(v - 1) div 2 \<noteq> m" if "0 < v" using 4 that by arith
    with 4 Suc show ?thesis by (auto simp: tree_edges_def less_Suc_eq)
  qed (use Suc in \<open>auto simp: tree_edges_def\<close>)
qed simp

lemma dense_passes:
  "concat (map (\<lambda>i. map (int \<circ> snd) (filter (\<lambda>e. fst e = v) (dense_edges n i))) [0..<m]) =
     (if v < m then map int (filter (\<lambda>j. j \<noteq> v) [0..<n]) else [])"
proof (induction m)
  case (Suc m)
  have "filter (\<lambda>e. fst e = v) (dense_edges n m) = (if v = m then dense_edges n m else [])"
    by (auto simp: dense_edges_def filter_map o_def)
  moreover have "filter ((\<noteq>) v) [0..<n] = filter (\<lambda>j. j \<noteq> v) [0..<n]" by (rule filter_cong) auto
  ultimately show ?case using Suc by (cases "v = m") (simp_all add: dense_edges_def o_def less_Suc_eq)
qed simp

text \<open>The graphs, row by row: the path, the complete binary tree numbered level by level, the complete graph.\<close>

definition path_row :: "nat \<Rightarrow> nat \<Rightarrow> nat list" where
  "path_row n v = (if 0 < v then [v - 1] else []) @ (if v + 1 < n then [v + 1] else [])"

definition tree_row :: "nat \<Rightarrow> nat \<Rightarrow> nat list" where
  "tree_row n v = (if 0 < v then [(v - 1) div 2] else []) @ filter (\<lambda>c. c < n) [2 * v + 1, 2 * v + 2]"

definition complete_row :: "nat \<Rightarrow> nat \<Rightarrow> nat list" where
  "complete_row n v = filter (\<lambda>j. j \<noteq> v) [0..<n]"

lemma graph_sizes [simp]:
  "length (MakeLineGraph n) = n" "length (MakeDenseGraph n) = n"
  "length (MakeBinaryTreeGraph levels) = 2 ^ levels - 1"
  by (simp_all add: line_built dense_built tree_built)

lemma graph_rows:
  "MakeLineGraph n = map (\<lambda>v. map int (path_row n v)) [0..<n]"
  "MakeDenseGraph n = map (\<lambda>v. map int (complete_row n v)) [0..<n]"
  "MakeBinaryTreeGraph levels = map (\<lambda>v. map int (tree_row (2 ^ levels - 1) v)) [0..<2 ^ levels - 1]"
proof -
  show "MakeLineGraph n = map (\<lambda>v. map int (path_row n v)) [0..<n]"
    by (rule nth_equalityI, simp) (auto simp: line_built built_row line_passes path_row_def)
  show "MakeDenseGraph n = map (\<lambda>v. map int (complete_row n v)) [0..<n]"
    by (rule nth_equalityI, simp) (simp add: dense_built built_row dense_passes complete_row_def)
  have half: "(v - 1) div 2 < 2 ^ levels - 1" if "v < 2 ^ levels - 1" for v :: nat using that by linarith
  show "MakeBinaryTreeGraph levels = map (\<lambda>v. map int (tree_row (2 ^ levels - 1) v)) [0..<2 ^ levels - 1]"
    by (rule nth_equalityI, simp) (use half in \<open>simp add: tree_built built_row tree_passes tree_row_def\<close>)
qed

lemma graphs_valid:
  "valid_graph (MakeLineGraph n)" "valid_graph (MakeDenseGraph n)" "valid_graph (MakeBinaryTreeGraph levels)"
  by (rule valid_built [OF graph_rows(1)], auto simp: path_row_def)
    (rule valid_built [OF graph_rows(2)], auto simp: complete_row_def,
     rule valid_built [OF graph_rows(3)], auto simp: tree_row_def)

lemma traversals_valid:
  assumes "valid_graph g" and "length g < 2 ^ 31"
  shows "traversals k g = Some (replicate k (map int [0..<length g]))"
proof -
  obtain s where "CooperativeDFS False g = Some (Inr (map int [0..<length g]), s)"
    using assms(1) by (cases rule: CooperativeDFS_cases [OF assms(2), of False]) auto
  then show ?thesis by (induction k) auto
qed

section \<open>Properties\<close>

text \<open>The benchmark graphs: the loops of the three functions build, row by row and in this order,
  the path, the complete binary tree numbered level by level and the complete graph. On each of
  them every iteration of the benchmark returns all vertices, and the number of processed items
  is the number of vertices returned. For the tree, \<open>levels\<close> up to 30 keeps every index a pass
  computes within \<open>int\<close>.\<close>
theorem benchmark_graphs:
  assumes "n < 2 ^ 31" and "levels \<le> 30"
  shows "MakeLineGraph n = map (\<lambda>v. map int (path_row n v)) [0..<n] \<and>
    MakeDenseGraph n = map (\<lambda>v. map int (complete_row n v)) [0..<n] \<and>
    MakeBinaryTreeGraph levels = map (\<lambda>v. map int (tree_row (2 ^ levels - 1) v)) [0..<2 ^ levels - 1] \<and>
    (\<forall>parent < length (MakeBinaryTreeGraph levels). parent * 2 + 2 < 2 ^ 31) \<and>
    BM_CooperativeDFS_LineGraph n k = Some (replicate k (map int [0..<n]), k * n) \<and>
    BM_CooperativeDFS_DenseGraph n k = Some (replicate k (map int [0..<n]), k * n) \<and>
    BM_CooperativeDFS_BinaryTree levels k =
      Some (replicate k (map int [0..<2 ^ levels - 1]), k * (2 ^ levels - 1))"
proof -
  have "(2 :: nat) ^ levels \<le> 2 ^ 30" using assms(2) by (intro power_increasing) simp_all
  then have small: "(2 :: nat) ^ levels \<le> 1073741824" by simp
  have "BM_CooperativeDFS_LineGraph n k = Some (replicate k (map int [0..<n]), k * n)"
    "BM_CooperativeDFS_DenseGraph n k = Some (replicate k (map int [0..<n]), k * n)"
    using assms(1) traversals_valid [OF graphs_valid(1)] traversals_valid [OF graphs_valid(2)]
    by (simp_all add: BM_CooperativeDFS_LineGraph_def BM_CooperativeDFS_DenseGraph_def)
  moreover have "BM_CooperativeDFS_BinaryTree levels k =
      Some (replicate k (map int [0..<2 ^ levels - 1]), k * (2 ^ levels - 1))"
    using small traversals_valid [OF graphs_valid(3), of levels k]
    by (simp add: BM_CooperativeDFS_BinaryTree_def Let_def)
  moreover have "\<forall>parent < length (MakeBinaryTreeGraph levels). parent * 2 + 2 < 2 ^ 31" using small by auto
  ultimately show ?thesis using graph_rows by blast
qed

theorem benchmark_graphs_witness:
  "MakeBinaryTreeGraph 2 = [[1, 2], [0], [0]] \<and> MakeLineGraph 3 = [[1], [0, 2], [1]] \<and>
   MakeDenseGraph 3 = [[1, 2], [0, 2], [0, 1]] \<and>
   BM_CooperativeDFS_BinaryTree 12 5 = Some (replicate 5 (map int [0..<4095]), 20475)"
proof -
  have n: "(3 :: nat) < 2 ^ 31" "(2 :: nat) \<le> 30" "(12 :: nat) \<le> 30" by simp_all
  have "BM_CooperativeDFS_BinaryTree 12 5 = Some (replicate 5 (map int [0..<4095]), 20475)"
    using benchmark_graphs [OF n(1,3), of 5] by simp
  moreover have "MakeBinaryTreeGraph 2 = [[1, 2], [0], [0]] \<and> MakeLineGraph 3 = [[1], [0, 2], [1]] \<and>
      MakeDenseGraph 3 = [[1, 2], [0, 2], [0, 1]]"
    using benchmark_graphs [OF n(1,2)] by (simp add: path_row_def complete_row_def tree_row_def upt_rec)
  ultimately show ?thesis by blast
qed

end
