(* ===== verification/Owners.thy ===== *)
theory Owners
  imports Main "HOL-Library.Multiset"
begin

text \<open>
  Objects that own something through a handle that may be empty, in the order of their creation:
  \<open>None\<close> is an object whose life has ended, \<open>Some None\<close> one without a handle. The multiset of the
  handles is what an ownership argument counts. Used for the coroutine \<open>Task\<close>s and for the \<open>Future\<close>s.
\<close>

fun handles :: "'a option option list \<Rightarrow> 'a list" where
  "handles [] = []"
| "handles (Some (Some h) # xs) = h # handles xs"
| "handles (x # xs) = handles xs"

lemma handles_append [simp]: "handles (xs @ ys) = handles xs @ handles ys"
  by (induction xs rule: handles.induct) simp_all

lemma handles_update:
  assumes "i < length xs"
  shows "mset (handles (xs[i := x])) + mset (handles [xs ! i]) = mset (handles xs) + mset (handles [x])"
proof -
  have "xs = take i xs @ [xs ! i] @ drop (Suc i) xs" using assms by (simp add: id_take_nth_drop)
  then have "mset (handles xs) = mset (handles (take i xs)) + mset (handles [xs ! i]) + mset (handles (drop (Suc i) xs))"
    by (metis handles_append mset_append union_assoc)
  moreover have "xs[i := x] = take i xs @ [x] @ drop (Suc i) xs" using assms by (simp add: upd_conv_take_nth_drop)
  then have "mset (handles (xs[i := x])) = mset (handles (take i xs)) + mset (handles [x]) + mset (handles (drop (Suc i) xs))"
    by (metis handles_append mset_append union_assoc)
  ultimately show ?thesis by simp
qed

abbreviation opt :: "'a option \<Rightarrow> 'a list" where
  "opt h \<equiv> handles [Some h]"

lemma mset_set_distinct:
  assumes "mset xs = mset_set A" and "finite A"
  shows "distinct xs \<and> set xs = A"
proof
  show set: "set xs = A" using assms by (metis finite_set_mset_mset_set set_mset_mset)
  show "distinct xs" using assms set by (simp add: distinct_count_atmost_1 count_mset_set')
qed

end
