(* ===== verification/Dfs_Tasks.thy ===== *)
theory Dfs_Tasks
  imports Dfs Owners
begin

text \<open>
  Who owns a coroutine frame in \<^verbatim>\<open>hw-1/dfs.cpp\<close>: the \<open>Task\<close> objects with their moves, and the
  thread-local \<open>current_\<close> through which a yielding coroutine finds its scheduler. \<open>Task\<close> has a
  defaulted destructor: a \<open>Task\<close> that still has its handle gives the frame up.
\<close>

section \<open>Task objects\<close>

text \<open>
  The objects, in the order of their creation: \<open>None\<close> is an object whose life has ended, \<open>Some h\<close>
  one with \<open>handle_\<close> \<open>h\<close>. The ghost \<open>given_up\<close> has the frames nobody owns any more.
\<close>

record task_sys =
  sys :: dfs_sys
  objects :: "nat option option list"
  given_up :: "nat list"

definition handle_of :: "nat \<Rightarrow> task_sys \<Rightarrow> nat option" where
  "handle_of i t = (case objects t ! i of None \<Rightarrow> None | Some h \<Rightarrow> h)"

definition set_handle :: "nat \<Rightarrow> nat option \<Rightarrow> task_sys \<Rightarrow> task_sys" where
  "set_handle i h t = t\<lparr>objects := (objects t)[i := Some h]\<rparr>"

text \<open>The constructor from a handle, which is also the default constructor.\<close>

definition Task_new :: "nat option \<Rightarrow> task_sys \<Rightarrow> task_sys" where
  "Task_new h t = t\<lparr>objects := objects t @ [Some h]\<rparr>"

text \<open>
  Calling \<open>DfsCoroutine\<close>: the frame is made, \<open>get_return_object\<close> wraps its handle, and
  \<open>initial_suspend\<close> stops before the body.
\<close>

definition make_frame :: "int \<Rightarrow> dfs_sys \<Rightarrow> dfs_sys" where
  "make_frame v s =
     s\<lparr>frames := (frames s)(next_addr s \<mapsto>
          \<lparr>start_vertex = v, point = CoStart, stack = [], exception = None\<rparr>),
       next_addr := Suc (next_addr s)\<rparr>"

definition get_return_object :: "int \<Rightarrow> task_sys \<Rightarrow> task_sys" where
  "get_return_object v t = Task_new (Some (next_addr (sys t))) (t\<lparr>sys := make_frame v (sys t)\<rparr>)"

definition Task_move :: "nat \<Rightarrow> task_sys \<Rightarrow> task_sys" where
  "Task_move i t = set_handle i None (Task_new (handle_of i t) t)"

definition Task_assign :: "nat \<Rightarrow> nat \<Rightarrow> task_sys \<Rightarrow> task_sys" where
  "Task_assign i other t =
     (if i = other then t
      else (let t1 = (case handle_of i t of None \<Rightarrow> t | Some h \<Rightarrow> t\<lparr>sys := destroy h (sys t)\<rparr>)
            in set_handle other None (set_handle i (handle_of other t1) t1)))"

definition Release :: "nat \<Rightarrow> task_sys \<Rightarrow> nat option \<times> task_sys" where
  "Release i t = (handle_of i t, set_handle i None t)"

definition Task_end :: "nat \<Rightarrow> task_sys \<Rightarrow> task_sys" where
  "Task_end i t = t\<lparr>objects := (objects t)[i := None],
     given_up := given_up t @ (case handle_of i t of None \<Rightarrow> [] | Some h \<Rightarrow> [h])\<rparr>"

text \<open>The body of \<open>Spawn\<close>, whose parameter is the object \<open>k\<close>, and the end of the parameter's life.\<close>

definition Spawn_param :: "nat \<Rightarrow> task_sys \<Rightarrow> task_sys" where
  "Spawn_param k t =
     (case Release k t of (handle, t1) \<Rightarrow>
        Task_end k (case handle of
            None \<Rightarrow> t1
          | Some h \<Rightarrow> t1\<lparr>sys := (sys t1)\<lparr>ready := ready (sys t1) @ [h]\<rparr>\<rparr>))"

text \<open>\<open>Spawn(std::move(task))\<close>, where the parameter is made by a move; \<open>Spawn(DfsCoroutine(...))\<close>, where it is the result.\<close>

definition Spawn_task :: "nat \<Rightarrow> task_sys \<Rightarrow> task_sys" where
  "Spawn_task i t = Spawn_param (length (objects t)) (Task_move i t)"

definition Spawn_call :: "int \<Rightarrow> task_sys \<Rightarrow> task_sys" where
  "Spawn_call v t = Spawn_param (length (objects t)) (get_return_object v t)"

section \<open>A program that uses them\<close>

definition is_object :: "nat \<Rightarrow> task_sys \<Rightarrow> bool" where
  "is_object i t \<longleftrightarrow> i < length (objects t) \<and> objects t ! i \<noteq> None"

inductive task_step :: "bool \<Rightarrow> graph \<Rightarrow> task_sys \<Rightarrow> task_sys \<Rightarrow> bool" for logging g where
  call_coroutine: "0 \<le> v \<Longrightarrow> v < int (length g) \<Longrightarrow> task_step logging g t (get_return_object v t)"
| empty_task: "task_step logging g t (Task_new None t)"
| move_task: "is_object i t \<Longrightarrow> task_step logging g t (Task_move i t)"
| assign_task: "is_object i t \<Longrightarrow> is_object j t \<Longrightarrow> task_step logging g t (Task_assign i j t)"
| end_task: "is_object i t \<Longrightarrow> task_step logging g t (Task_end i t)"
| spawn_task: "is_object i t \<Longrightarrow> task_step logging g t (Spawn_task i t)"
| spawn_call: "0 \<le> v \<Longrightarrow> v < int (length g) \<Longrightarrow> task_step logging g t (Spawn_call v t)"
| run_scheduler:
    "ready (sys t) \<noteq> [] \<Longrightarrow> status (sys t) = Running \<Longrightarrow>
     task_step logging g t (t\<lparr>sys := run_once logging g (sys t)\<rparr>)"
| end_scheduler: "task_step logging g t (t\<lparr>sys := destroy_scheduler (sys t)\<rparr>)"

definition task_init :: "nat \<Rightarrow> task_sys \<Rightarrow> bool" where
  "task_init n t \<longleftrightarrow> t = \<lparr>sys = \<lparr>frames = Map.empty, next_addr = 0, ready = [], visited = replicate n False,
     order = [], dlog = [], status = Running\<rparr>, objects = [], given_up = []\<rparr>"

section \<open>Spawning as the traversal does it\<close>

lemma Spawn_call_frames:
  "Spawn_call v t = t\<lparr>sys := Spawn v (sys t), objects := objects t @ [None]\<rparr>"
  by (simp add: Spawn_call_def Spawn_param_def get_return_object_def Task_new_def make_frame_def Release_def
      handle_of_def set_handle_def Task_end_def Spawn_def nth_append)

section \<open>One owner for every frame\<close>

definition owned :: "task_sys \<Rightarrow> nat list" where
  "owned t = handles (objects t) @ ready (sys t) @ given_up t"

definition frames_ok :: "dfs_sys \<Rightarrow> bool" where
  "frames_ok s \<longleftrightarrow> status s \<noteq> Fault \<and> finite (dom (frames s)) \<and> (\<forall>h \<in> dom (frames s). h < next_addr s) \<and>
     (\<forall>f \<in> ran (frames s). exception f = None)"

text \<open>Every frame has one owner, except for those in \<open>hs\<close>, which the code has in hand.\<close>

definition holds :: "nat list \<Rightarrow> task_sys \<Rightarrow> bool" where
  "holds hs t \<longleftrightarrow> frames_ok (sys t) \<and> mset (owned t) + mset hs = mset_set (dom (frames (sys t)))"

lemma handles_at: "is_object i t \<Longrightarrow> handles [objects t ! i] = opt (handle_of i t)"
  by (auto simp: is_object_def handle_of_def)

lemma holds_new: "holds (opt h @ hs) t \<Longrightarrow> holds hs (Task_new h t)"
  by (cases h) (simp_all add: holds_def owned_def Task_new_def)

lemma holds_set:
  assumes "is_object i t" and "holds (opt h @ hs) t"
  shows "holds (opt (handle_of i t) @ hs) (set_handle i h t)"
  using handles_update [of i "objects t" "Some h"] handles_at [OF assms(1)] assms
  by (auto simp: holds_def owned_def set_handle_def is_object_def ac_simps)

lemma holds_frame:
  assumes "holds hs t"
  shows "holds (next_addr (sys t) # hs) (t\<lparr>sys := make_frame v (sys t)\<rparr>)"
proof -
  let ?n = "next_addr (sys t)"
  have fr: "frames_ok (sys t)" using assms by (simp add: holds_def)
  then have new: "?n \<notin> dom (frames (sys t))" by (auto simp: frames_ok_def)
  then have "frames_ok (make_frame v (sys t))"
    using fr by (auto simp: frames_ok_def make_frame_def less_Suc_eq ran_def)
  with new fr assms show ?thesis by (simp add: holds_def owned_def make_frame_def frames_ok_def)
qed

lemma frames_ok_destroy:
  assumes "frames_ok s" and "h \<in> dom (frames s)"
  shows "destroy h s = s\<lparr>frames := (frames s)(h := None)\<rparr>" "frames_ok (destroy h s)"
proof -
  show eq: "destroy h s = s\<lparr>frames := (frames s)(h := None)\<rparr>" using assms(2) by (auto simp: destroy_def)
  have "ran ((frames s)(h := None)) \<subseteq> ran (frames s)" by (auto simp: ran_def split: if_splits)
  with assms(1) eq show "frames_ok (destroy h s)" by (auto simp: frames_ok_def)
qed

lemma holds_member: "holds (h # hs) t \<Longrightarrow> h \<in> dom (frames (sys t))"
proof -
  assume a: "holds (h # hs) t"
  then have "add_mset h (mset (owned t) + mset hs) = mset_set (dom (frames (sys t)))" by (simp add: holds_def)
  then have "h \<in># mset_set (dom (frames (sys t)))" by (metis union_single_eq_member)
  with a show ?thesis by (auto simp: holds_def frames_ok_def)
qed

lemma holds_destroy:
  assumes "holds (h # hs) t"
  shows "holds hs (t\<lparr>sys := destroy h (sys t)\<rparr>)"
proof -
  have fr: "frames_ok (sys t)" and "add_mset h (mset (owned t) + mset hs) = mset_set (dom (frames (sys t)))"
    using assms by (simp_all add: holds_def)
  then have eq: "mset (owned t) + mset hs = mset_set (dom (frames (sys t))) - {#h#}"
    by (metis add_mset_remove_trivial)
  note d = frames_ok_destroy [OF fr holds_member [OF assms]]
  have fin: "finite (dom (frames (sys t)))" using fr by (simp add: frames_ok_def)
  have "dom (frames (destroy h (sys t))) = dom (frames (sys t)) - {h}" using d(1) by auto
  then have "mset_set (dom (frames (destroy h (sys t)))) = mset_set (dom (frames (sys t))) - {#h#}"
    using fin holds_member [OF assms] by (simp add: mset_set_Diff)
  moreover have "ready (destroy h (sys t)) = ready (sys t)" using d(1) by simp
  ultimately show ?thesis using d(2) eq by (simp add: holds_def owned_def)
qed

lemma holds_push: "holds (h # hs) t \<Longrightarrow> holds hs (t\<lparr>sys := (sys t)\<lparr>ready := ready (sys t) @ [h]\<rparr>\<rparr>)"
  by (auto simp: holds_def owned_def frames_ok_def ac_simps)

lemma holds_end:
  assumes "is_object i t" and "holds hs t"
  shows "holds hs (Task_end i t)"
proof -
  have "mset (handles ((objects t)[i := None])) + mset (opt (handle_of i t)) = mset (handles (objects t))"
    using handles_update [of i "objects t" None] handles_at [OF assms(1)] assms(1) by (simp add: is_object_def)
  moreover have "(case handle_of i t of None \<Rightarrow> [] | Some h \<Rightarrow> [h]) = opt (handle_of i t)" by (cases "handle_of i t") simp_all
  ultimately show ?thesis using assms(2) by (auto simp: holds_def owned_def Task_end_def ac_simps)
qed

section \<open>The operations keep it\<close>

lemma Release_holds:
  assumes "is_object i t" and "holds hs t" and "Release i t = (h, t')"
  shows "holds (opt h @ hs) t'"
  using holds_set [OF assms(1), of None hs] assms(2,3) by (simp add: Release_def)

lemma get_return_object_holds: "holds hs t \<Longrightarrow> holds hs (get_return_object v t)"
  by (simp add: get_return_object_def holds_new holds_frame)

lemma Task_move_holds:
  assumes "is_object i t" and "holds hs t"
  shows "holds hs (Task_move i t)"
proof -
  have "Task_move i t = Task_new (handle_of i t) (set_handle i None t)"
    using assms(1) by (simp add: Task_move_def Task_new_def set_handle_def is_object_def list_update_append)
  then show ?thesis using holds_set [OF assms(1), of None hs] assms(2) by (simp add: holds_new)
qed

lemma Task_assign_holds:
  assumes "is_object i t" and "is_object j t" and "holds hs t"
  shows "holds hs (Task_assign i j t)"
proof (cases "i = j")
  case True
  with assms(3) show ?thesis by (simp add: Task_assign_def)
next
  case False
  define t1 where "t1 = set_handle i None t"
  define t2 where "t2 = (case handle_of i t of None \<Rightarrow> t1 | Some h \<Rightarrow> t1\<lparr>sys := destroy h (sys t1)\<rparr>)"
  have "holds (opt (handle_of i t) @ hs) t1" using holds_set [OF assms(1), of None hs] assms(3) by (simp add: t1_def)
  then have t2: "holds hs t2" by (cases "handle_of i t") (simp_all add: t2_def holds_destroy)
  have obj: "objects t2 = (objects t)[i := Some None]"
    by (simp add: t2_def t1_def set_handle_def split: option.split)
  then have h: "handle_of j t2 = handle_of j t" "handle_of i (set_handle j None t2) = None"
      "is_object j t2" "is_object i (set_handle j None t2)"
    using False assms(1,2) by (simp_all add: handle_of_def is_object_def set_handle_def)
  have "holds (opt (handle_of j t) @ hs) (set_handle j None t2)" using holds_set [OF h(3), of None hs] t2 h(1) by simp
  from holds_set [OF h(4) this] have "holds hs (set_handle i (handle_of j t) (set_handle j None t2))" using h(2) by simp
  moreover have "(objects t)[i := a, j := b] = (objects t)[i := c, j := b, i := a]" for a b c
    using False by (simp add: list_update_swap)
  then have "Task_assign i j t = set_handle i (handle_of j t) (set_handle j None t2)"
    using False by (cases "handle_of i t") (simp_all add: Task_assign_def t2_def t1_def set_handle_def handle_of_def)
  ultimately show ?thesis by simp
qed

lemma Spawn_param_holds:
  assumes "is_object k t" and "holds hs t"
  shows "holds hs (Spawn_param k t)"
proof -
  obtain h t1 where r: "Release k t = (h, t1)" by (cases "Release k t")
  then have k: "is_object k t1" using assms(1) by (auto simp: Release_def set_handle_def is_object_def)
  note held = Release_holds [OF assms r]
  show ?thesis
  proof (cases h)
    case None
    with held r k show ?thesis by (simp add: Spawn_param_def holds_end)
  next
    case (Some a)
    with held have "holds hs (t1\<lparr>sys := (sys t1)\<lparr>ready := ready (sys t1) @ [a]\<rparr>\<rparr>)" by (simp add: holds_push)
    with Some r k show ?thesis by (simp add: Spawn_param_def holds_end is_object_def)
  qed
qed

lemma Spawn_call_holds: "holds hs t \<Longrightarrow> holds hs (Spawn_call v t)"
  unfolding Spawn_call_def
  by (rule Spawn_param_holds [OF _ get_return_object_holds]) (simp_all add: is_object_def get_return_object_def Task_new_def)

lemma Spawn_task_holds:
  assumes "is_object i t" and "holds hs t"
  shows "holds hs (Spawn_task i t)"
proof -
  have "is_object (length (objects t)) (Task_move i t)"
    using assms(1) by (simp add: is_object_def Task_move_def Task_new_def set_handle_def nth_list_update)
  then show ?thesis using assms by (simp add: Spawn_task_def Spawn_param_holds Task_move_holds)
qed

text \<open>A resumption leaves the heap and the queue alone; only a throw leaves an exception behind.\<close>

lemma resume_at_frame:
  assumes "resume_at p logging g s f = (s', f')" and "exception f = None"
  shows "frames s' = frames s \<and> ready s' = ready s \<and> next_addr s' = next_addr s \<and> status s' = status s \<and>
    (exception f' \<noteq> None \<longrightarrow> point f' = CoDone)"
  using assms
  by (cases p) (auto simp: loop_pass_def enter_vertex_def write_log_def Let_def split: if_splits list.splits)

lemma take_front:
  assumes "holds hs t" and "ready (sys t) = h # rest"
  shows "holds (h # hs) (t\<lparr>sys := (sys t)\<lparr>ready := rest\<rparr>\<rparr>)"
  using assms by (auto simp: holds_def owned_def frames_ok_def ac_simps)

lemma run_once_holds:
  assumes ok: "holds hs t" and rdy: "ready (sys t) \<noteq> []"
  shows "holds hs (t\<lparr>sys := run_once logging g (sys t)\<rparr>)"
proof -
  obtain h rest where q: "ready (sys t) = h # rest" using rdy by (cases "ready (sys t)") auto
  define s1 where "s1 = (sys t)\<lparr>ready := rest\<rparr>"
  note held = take_front [OF ok q, folded s1_def]
  obtain f where f: "frames s1 h = Some f" using holds_member [OF held] by auto
  have ex: "exception f = None" using held f by (auto simp: holds_def frames_ok_def ran_def)
  obtain s2 f' where r: "resume_at (point f) logging g s1 f = (s2, f')" by (cases "resume_at (point f) logging g s1 f")
  note same = resume_at_frame [OF r ex]
  define s3 where "s3 = s2\<lparr>frames := (frames s2)(h \<mapsto> f'), ready := (if point f' \<noteq> CoDone then ready s2 @ [h] else ready s2)\<rparr>"
  have once: "run_once logging g (sys t) = (case exception f' of
      Some ex \<Rightarrow> (destroy h s3)\<lparr>status := Raised ex\<rparr>
    | None \<Rightarrow> if point f' = CoDone then destroy h s3 else s3)"
    using f r by (cases "point f' = CoDone"; cases "exception f'"; simp add: run_once_def q s1_def [symmetric] s3_def Let_def)
  have dom: "dom (frames s3) = dom (frames s1)" using same f by (auto simp: s3_def)
  have parts: "frames_ok s1" "mset (owned (t\<lparr>sys := s1\<rparr>)) + mset (h # hs) = mset_set (dom (frames s1))"
    using held by (simp_all add: holds_def)
  show ?thesis
  proof (cases "point f' = CoDone")
    case True
    define s3' where "s3' = s3\<lparr>frames := (frames s3)(h \<mapsto> f)\<rparr>"
    have "frames_ok s3'" using parts(1) same f by (auto simp: frames_ok_def s3'_def s3_def ran_def)
    moreover have "owned (t\<lparr>sys := s3'\<rparr>) = owned (t\<lparr>sys := s1\<rparr>)" using True same by (simp add: owned_def s3'_def s3_def)
    ultimately have "holds (h # hs) (t\<lparr>sys := s3'\<rparr>)" using parts(2) dom insert_absorb [OF domI [of "frames s1", OF f]]
      by (simp add: holds_def s3'_def)
    from holds_destroy [OF this] have "holds hs (t\<lparr>sys := destroy h s3'\<rparr>)" by simp
    moreover have "destroy h s3' = destroy h s3" by (simp add: destroy_def s3'_def s3_def)
    ultimately have d: "holds hs (t\<lparr>sys := destroy h s3\<rparr>)" by simp
    then have "holds hs (t\<lparr>sys := (destroy h s3)\<lparr>status := Raised e\<rparr>\<rparr>)" for e by (simp add: holds_def owned_def frames_ok_def)
    with d once True show ?thesis by (simp split: option.split)
  next
    case False
    then have none: "exception f' = None" using same by auto
    have "frames_ok s3" using parts(1) same f none by (auto simp: frames_ok_def s3_def ran_def)
    moreover have "mset (owned (t\<lparr>sys := s3\<rparr>)) = mset (owned (t\<lparr>sys := s1\<rparr>)) + {#h#}"
      using False same by (simp add: owned_def s3_def)
    ultimately have "holds hs (t\<lparr>sys := s3\<rparr>)" using parts(2) dom by (simp add: holds_def)
    with once False none show ?thesis by simp
  qed
qed

lemma destroy_all_holds:
  assumes "holds (hs @ hs') t"
  shows "holds hs' (t\<lparr>sys := destroy_all hs (sys t)\<rparr>)"
  using assms
proof (induction hs arbitrary: t)
  case (Cons h hs)
  from Cons.IH [of "t\<lparr>sys := destroy h (sys t)\<rparr>"] holds_destroy [of h "hs @ hs'" t] Cons.prems show ?case by simp
qed simp

lemma destroy_scheduler_holds:
  assumes "holds hs t"
  shows "holds hs (t\<lparr>sys := destroy_scheduler (sys t)\<rparr>)"
proof -
  have "holds (ready (sys t) @ hs) (t\<lparr>sys := (sys t)\<lparr>ready := []\<rparr>\<rparr>)"
    using assms by (auto simp: holds_def owned_def frames_ok_def ac_simps)
  from destroy_all_holds [OF this] show ?thesis by (simp add: destroy_scheduler_def)
qed

interpretation coroutine_tasks: invariant_system "task_init n" "task_step logging g" "holds []" for n logging g
proof (unfold_locales, goal_cases)
  case (1 t)
  then show ?case by (simp add: task_init_def holds_def owned_def frames_ok_def)
next
  case (2 t u)
  from 2(1) show ?case
    by cases (use 2(2) in \<open>simp_all add: get_return_object_holds holds_new Task_move_holds Task_assign_holds holds_end
      Spawn_task_holds Spawn_call_holds run_once_holds destroy_scheduler_holds\<close>)
qed

section \<open>The current scheduler\<close>

text \<open>The schedulers of a thread, in the order of their construction (\<open>None\<close>: destroyed), and \<open>current_\<close>.\<close>

record sched_sys =
  queues :: "nat list option list"
  current :: "nat option"

definition Scheduler_new :: "sched_sys \<Rightarrow> sched_sys" where
  "Scheduler_new e = e\<lparr>queues := queues e @ [Some []], current := Some (length (queues e))\<rparr>"

definition Scheduler_end :: "nat \<Rightarrow> sched_sys \<Rightarrow> sched_sys" where
  "Scheduler_end k e = e\<lparr>queues := (queues e)[k := None], current := None\<rparr>"

definition Current :: "sched_sys \<Rightarrow> string + nat" where
  "Current e = (case current e of None \<Rightarrow> Inl ''Scheduler is not initialized'' | Some k \<Rightarrow> Inr k)"

text \<open>\<open>None\<close> is a call on a scheduler that has been destroyed.\<close>

definition Schedule :: "nat \<Rightarrow> nat \<Rightarrow> sched_sys \<Rightarrow> sched_sys option" where
  "Schedule k h e = (case queues e ! k of None \<Rightarrow> None | Some q \<Rightarrow> Some (e\<lparr>queues := (queues e)[k := Some (q @ [h])]\<rparr>))"

definition await_suspend :: "nat \<Rightarrow> sched_sys \<Rightarrow> string + sched_sys option" where
  "await_suspend h e = (case Current e of Inl text \<Rightarrow> Inl text | Inr k \<Rightarrow> Inr (Schedule k h e))"

text \<open>What a thread does: a yield that throws leaves everything as it is.\<close>

datatype sched_op = NewScheduler | EndScheduler nat | YieldAwaiter nat

fun sched_run :: "sched_op list \<Rightarrow> sched_sys \<Rightarrow> sched_sys option" where
  "sched_run [] e = Some e"
| "sched_run (NewScheduler # ops) e = sched_run ops (Scheduler_new e)"
| "sched_run (EndScheduler k # ops) e =
     (if k < length (queues e) \<and> queues e ! k \<noteq> None then sched_run ops (Scheduler_end k e) else None)"
| "sched_run (YieldAwaiter h # ops) e =
     (case await_suspend h e of
        Inl text \<Rightarrow> sched_run ops e
      | Inr None \<Rightarrow> None
      | Inr (Some e') \<Rightarrow> sched_run ops e')"

lemma sched_run_append: "sched_run (xs @ ys) e = (case sched_run xs e of None \<Rightarrow> None | Some e' \<Rightarrow> sched_run ys e')"
  by (induction xs e rule: sched_run.induct) (auto split: sum.splits option.splits)

text \<open>\<open>current_\<close> never refers to a destroyed scheduler.\<close>

definition current_ok :: "sched_sys \<Rightarrow> bool" where
  "current_ok e \<longleftrightarrow> (\<forall>k. current e = Some k \<longrightarrow> k < length (queues e) \<and> queues e ! k \<noteq> None)"

text \<open>Yields go to the end of the queue of the current scheduler, in their order; without one they throw.\<close>

abbreviation yields :: "nat list \<Rightarrow> sched_op list" where
  "yields hs \<equiv> map YieldAwaiter hs"

lemma yields_scheduled:
  assumes "current e = Some k" and "k < length (queues e)" and "queues e ! k = Some q"
  shows "sched_run (yields hs) e = Some (e\<lparr>queues := (queues e)[k := Some (q @ hs)]\<rparr>)"
  using assms
proof (induction hs arbitrary: e q)
  case Nil
  then have "(queues e)[k := Some q] = queues e" by (metis list_update_id)
  then show ?case by simp
next
  case (Cons h hs)
  from Cons.IH [of "e\<lparr>queues := (queues e)[k := Some (q @ [h])]\<rparr>" "q @ [h]"] Cons.prems show ?case
    by (simp add: await_suspend_def Current_def Schedule_def)
qed

lemma yields_throw: "current e = None \<Longrightarrow> sched_run (yields hs) e = Some e"
  by (induction hs) (simp_all add: await_suspend_def Current_def)

lemma yield_ok:
  assumes "current_ok e"
  shows "\<exists>e'. sched_run (YieldAwaiter h # ops) e = sched_run ops e' \<and> current_ok e'"
proof (cases "current e")
  case None
  then show ?thesis using assms by (auto simp: await_suspend_def Current_def intro!: exI [of _ e])
next
  case (Some k)
  then obtain q where q: "k < length (queues e)" "queues e ! k = Some q" using assms by (auto simp: current_ok_def)
  with Some assms show ?thesis
    by (intro exI [of _ "e\<lparr>queues := (queues e)[k := Some (q @ [h])]\<rparr>"])
      (auto simp: await_suspend_def Current_def Schedule_def current_ok_def)
qed

lemma sched_run_ok:
  assumes "current_ok e" and "sched_run ops e = Some e'"
  shows "current_ok e'"
  using assms
proof (induction ops arbitrary: e)
  case (Cons op ops)
  show ?case
  proof (cases op)
    case NewScheduler
    then have "sched_run ops (Scheduler_new e) = Some e'" using Cons.prems by simp
    then show ?thesis using Cons.IH [of "Scheduler_new e"] by (simp add: current_ok_def Scheduler_new_def)
  next
    case (EndScheduler k)
    then have "sched_run ops (Scheduler_end k e) = Some e'" using Cons.prems by (simp split: if_splits)
    then show ?thesis using Cons.IH [of "Scheduler_end k e"] by (simp add: current_ok_def Scheduler_end_def)
  next
    case (YieldAwaiter h)
    with yield_ok [OF Cons.prems(1), of h ops] Cons show ?thesis by metis
  qed
qed simp

definition no_schedulers :: sched_sys where
  "no_schedulers = \<lparr>queues = [], current = None\<rparr>"

section \<open>Properties\<close>

text \<open>C37: Every coroutine frame has exactly one owner. Whatever a program does with Task objects (calls of
  the coroutine, moves, assignments also to itself, Spawn, the end of their lives) and with the
  scheduler (passes of Run, its destructor), no frame is resumed or destroyed after it was destroyed,
  each live frame belongs to one Task, to one place in the queue, or to nobody, and to nobody only
  if a Task was destroyed that still had its handle.\<close>
theorem frames_have_one_owner:
  assumes "task_init n t" and "(task_step logging g)\<^sup>*\<^sup>* t u"
  shows "status (sys u) \<noteq> Fault \<and> distinct (handles (objects u) @ ready (sys u) @ given_up u) \<and>
    dom (frames (sys u)) = set (handles (objects u)) \<union> set (ready (sys u)) \<union> set (given_up u)"
proof -
  have held: "holds [] u" by (rule coroutine_tasks.reachable_good [OF assms])
  then have m: "mset (owned u) = mset_set (dom (frames (sys u)))" and fin: "finite (dom (frames (sys u)))"
    by (simp_all add: holds_def frames_ok_def)
  then have "distinct (owned u) \<and> set (owned u) = dom (frames (sys u))" by (rule mset_set_distinct)
  with held show ?thesis by (auto simp: owned_def holds_def frames_ok_def)
qed

text \<open>Two vertices: a task is moved, assigned over another, dropped with its frame; the last is spawned and run.\<close>

definition two_vertices :: graph where
  "two_vertices = [[1], []]"

definition no_tasks :: task_sys where
  "no_tasks = \<lparr>sys = \<lparr>frames = Map.empty, next_addr = 0, ready = [], visited = replicate 2 False,
     order = [], dlog = [], status = Running\<rparr>, objects = [], given_up = []\<rparr>"

definition moved_tasks :: task_sys where
  "moved_tasks = Spawn_call 1 (Task_end 0 (Task_assign 0 1 (get_return_object 1 (get_return_object 0 no_tasks))))"

lemma moved_tasks_run: "(task_step False two_vertices)\<^sup>*\<^sup>* no_tasks moved_tasks"
proof -
  let ?a = "get_return_object 0 no_tasks"
  let ?b = "get_return_object 1 ?a"
  let ?c = "Task_assign 0 1 ?b"
  have len: "int (length two_vertices) = 2" by (simp add: two_vertices_def)
  have "is_object 0 ?b" "is_object 1 ?b" "is_object 0 ?c"
    by (simp_all add: is_object_def get_return_object_def Task_new_def no_tasks_def make_frame_def Task_assign_def
        handle_of_def destroy_def set_handle_def)
  then have "task_step False two_vertices no_tasks ?a" "task_step False two_vertices ?a ?b"
    "task_step False two_vertices ?b ?c" "task_step False two_vertices ?c (Task_end 0 ?c)"
    "task_step False two_vertices (Task_end 0 ?c) moved_tasks"
    using len by (auto simp: moved_tasks_def intro: call_coroutine assign_task end_task spawn_call)
  then show ?thesis by (meson rtranclp.rtrancl_into_rtrancl rtranclp.rtrancl_refl)
qed

theorem frames_have_one_owner_witness:
  "given_up moved_tasks = [1] \<and> ready (sys moved_tasks) = [2] \<and> dom (frames (sys moved_tasks)) = {1, 2} \<and>
    status (sys moved_tasks) \<noteq> Fault"
proof -
  have init: "task_init 2 no_tasks" by (simp add: task_init_def no_tasks_def)
  have "objects moved_tasks = [None, Some None, None]" "given_up moved_tasks = [1]" "ready (sys moved_tasks) = [2]"
    by (simp_all add: moved_tasks_def Spawn_call_frames Spawn_def get_return_object_def Task_new_def no_tasks_def
        make_frame_def Task_assign_def handle_of_def destroy_def set_handle_def Task_end_def)
  with frames_have_one_owner [OF init moved_tasks_run] show ?thesis by auto
qed

text \<open>C38: Only the innermost scheduler is served. A coroutine that yields goes to the end of the queue of
  the scheduler that was constructed last, in the order of the yields, and to no other; this scheduler
  is never a destroyed one. After the construction of a scheduler that is the new one, until the
  life of any scheduler of the thread ends: from then on every yield throws and is in no queue,
  even if an outer scheduler is still running, until another one is constructed.\<close>
theorem yields_after_nested_scheduler:
  assumes "sched_run ops no_schedulers = Some e"
  shows "sched_run (NewScheduler # yields hs) e = Some \<lparr>queues = queues e @ [Some hs], current = Some (length (queues e))\<rparr> \<and>
    (\<forall>k. k < length (queues e) \<and> queues e ! k \<noteq> None \<longrightarrow>
      (\<exists>e'. sched_run (EndScheduler k # yields hs) e = Some e' \<and> queues e' = (queues e)[k := None] \<and>
        (\<forall>h. await_suspend h e' = Inl ''Scheduler is not initialized''))) \<and>
    (\<forall>k. Current e = Inr k \<longrightarrow> (\<exists>q. k < length (queues e) \<and> queues e ! k = Some q \<and>
      sched_run (yields hs) e = Some (e\<lparr>queues := (queues e)[k := Some (q @ hs)]\<rparr>)))"
proof -
  have ok: "current_ok e" by (rule sched_run_ok [OF _ assms]) (simp add: current_ok_def no_schedulers_def)
  have "sched_run (NewScheduler # yields hs) e = Some \<lparr>queues = queues e @ [Some hs], current = Some (length (queues e))\<rparr>"
    using yields_scheduled [of "Scheduler_new e" "length (queues e)" "[]" hs] by (simp add: Scheduler_new_def)
  moreover have "\<exists>e'. sched_run (EndScheduler k # yields hs) e = Some e' \<and> queues e' = (queues e)[k := None] \<and>
      (\<forall>h. await_suspend h e' = Inl ''Scheduler is not initialized'')" if "k < length (queues e)" "queues e ! k \<noteq> None" for k
    using yields_throw [of "Scheduler_end k e" hs] that
    by (intro exI [of _ "Scheduler_end k e"]) (simp add: Scheduler_end_def await_suspend_def Current_def)
  moreover have "\<exists>q. k < length (queues e) \<and> queues e ! k = Some q \<and>
      sched_run (yields hs) e = Some (e\<lparr>queues := (queues e)[k := Some (q @ hs)]\<rparr>)" if "Current e = Inr k" for k
  proof -
    have k: "current e = Some k" using that by (auto simp: Current_def split: option.splits)
    then obtain q where q: "k < length (queues e)" "queues e ! k = Some q" using ok by (auto simp: current_ok_def)
    from yields_scheduled [OF k q] q show ?thesis by blast
  qed
  ultimately show ?thesis by blast
qed

theorem yields_after_nested_scheduler_witness:
  "\<exists>e e'. sched_run (NewScheduler # yields [7, 8]) no_schedulers = Some e \<and> queues e = [Some [7, 8]] \<and>
    sched_run (NewScheduler # yields [9]) e = Some \<lparr>queues = [Some [7, 8], Some [9]], current = Some 1\<rparr> \<and>
    sched_run (EndScheduler 1 # yields [7]) \<lparr>queues = [Some [7, 8], Some [9]], current = Some 1\<rparr> = Some e' \<and>
    queues e' = [Some [7, 8], None] \<and> await_suspend 7 e' = Inl ''Scheduler is not initialized''"
proof -
  have "sched_run [] no_schedulers = Some no_schedulers" by simp
  from yields_after_nested_scheduler [OF this, of "[7, 8]"]
  have one: "sched_run (NewScheduler # yields [7, 8]) no_schedulers = Some \<lparr>queues = [Some [7, 8]], current = Some 0\<rparr>"
    (is "_ = Some ?one") by (simp add: no_schedulers_def)
  from yields_after_nested_scheduler [OF one, of "[9]"]
  have two: "sched_run (NewScheduler # yields [9]) ?one = Some \<lparr>queues = [Some [7, 8], Some [9]], current = Some 1\<rparr>"
    (is "_ = Some ?two") by simp
  with one have "sched_run ((NewScheduler # yields [7, 8]) @ NewScheduler # yields [9]) no_schedulers = Some ?two"
    by (simp only: sched_run_append option.case)
  from yields_after_nested_scheduler [OF this, of "[7]"] have
    "\<exists>e'. sched_run (EndScheduler 1 # yields [7]) ?two = Some e' \<and> queues e' = [Some [7, 8], None] \<and>
      await_suspend 7 e' = Inl ''Scheduler is not initialized''" by auto
  with one two show ?thesis by auto
qed

end
