(* ===== verification/Bytes.thy ===== *)
theory Bytes
  imports Prelude
begin

unbundle bit_operations_syntax

text \<open>
  Objects as bytes. \<open>memcpy\<close> of a trivially copyable object reads and writes its object
  representation; on the little-endian targets of the code an unsigned integer is its
  bytes, lowest first. The interface \<open>byte_codec\<close> is what both users of raw bytes
  (the records of the shared-memory queue, the messages of the process pool) rely on.
\<close>

section \<open>Little-endian integers\<close>

primrec le_bytes :: "nat \<Rightarrow> 'a::len word \<Rightarrow> u8 list" where
  "le_bytes 0 w = []"
| "le_bytes (Suc n) w = ucast w # le_bytes n (drop_bit 8 w)"

primrec le_word :: "u8 list \<Rightarrow> 'a::len word" where
  "le_word [] = 0"
| "le_word (b # bs) = ucast b OR push_bit 8 (le_word bs)"

lemma length_le_bytes [simp]: "length (le_bytes n w) = n"
  by (induction n arbitrary: w) auto

lemma le_word_le_bytes: "le_word (le_bytes n w) = take_bit (8 * n) w"
proof (induction n arbitrary: w)
  case 0
  then show ?case by simp
next
  case (Suc n)
  have "ucast (ucast w :: u8) OR push_bit 8 (take_bit (8 * n) (drop_bit 8 w)) = take_bit (8 * Suc n) w"
    by (rule bit_word_eqI) (auto simp: bit_simps)
  with Suc show ?case by simp
qed

lemma take_bit_word_id: "LENGTH('a::len) \<le> n \<Longrightarrow> take_bit n (w :: 'a word) = w"
  by (simp add: take_bit_word_eq_self)

section \<open>Memory\<close>

text \<open>
  \<open>memcpy\<close> and \<open>memset\<close> into a region: \<open>None\<close> is a write past its end.
\<close>

definition mem_write :: "nat \<Rightarrow> u8 list \<Rightarrow> u8 list \<Rightarrow> u8 list option" where
  "mem_write off bs mem =
     (if off + length bs \<le> length mem
      then Some (take off mem @ bs @ drop (off + length bs) mem) else None)"

text \<open>\<open>memcpy\<close> out of a region: \<open>None\<close> is a read past its end.\<close>

definition mem_read :: "nat \<Rightarrow> nat \<Rightarrow> u8 list \<Rightarrow> u8 list option" where
  "mem_read off n mem = (if off + n \<le> length mem then Some (take n (drop off mem)) else None)"

lemma mem_write_length: "mem_write off bs mem = Some mem' \<Longrightarrow> length mem' = length mem"
  by (auto simp: mem_write_def split: if_splits)

lemma mem_write_Some: "off + length bs \<le> length mem \<Longrightarrow> \<exists>mem'. mem_write off bs mem = Some mem'"
  by (simp add: mem_write_def)

lemma mem_read_written:
  assumes "mem_write off bs mem = Some mem'"
  shows "mem_read off (length bs) mem' = Some bs"
  using assms by (auto simp: mem_write_def mem_read_def split: if_splits)

lemma mem_read_other:
  assumes "mem_write off bs mem = Some mem'" and "o2 + n \<le> off \<or> off + length bs \<le> o2"
  shows "mem_read o2 n mem' = mem_read o2 n mem"
proof -
  from assms(1) have le: "off + length bs \<le> length mem"
    and m: "mem' = take off mem @ bs @ drop (off + length bs) mem"
    by (auto simp: mem_write_def split: if_splits)
  from assms(2) show ?thesis
  proof
    assume "o2 + n \<le> off"
    with le show ?thesis by (simp add: m mem_read_def drop_take)
  next
    assume "off + length bs \<le> o2"
    then obtain d where "o2 = off + length bs + d" using le_Suc_ex by blast
    with le show ?thesis by (simp add: m mem_read_def add.commute)
  qed
qed

text \<open>A range read in two parts.\<close>

lemma mem_read_append:
  assumes "mem_read off m mem = Some a" and "mem_read (off + m) n mem = Some b"
  shows "mem_read off (m + n) mem = Some (a @ b)"
  using assms by (auto simp: mem_read_def take_add add.commute split: if_splits)

lemma mem_read_prefix:
  assumes "mem_read off (m + n) mem = Some bs"
  shows "mem_read off m mem = Some (take m bs)" and "mem_read (off + m) n mem = Some (drop m bs)"
  using assms by (auto simp: mem_read_def min_def ac_simps take_drop split: if_splits)

section \<open>Codecs\<close>

locale byte_codec =
  fixes enc :: "'a \<Rightarrow> u8 list"
    and dec :: "u8 list \<Rightarrow> 'a"
    and width :: nat
  assumes length_enc: "length (enc x) = width"
    and dec_enc: "dec (enc x) = x"
begin

lemma dec_read_written:
  assumes "mem_write off (enc x) mem = Some mem'"
  shows "map_option dec (mem_read off width mem') = Some x"
  using mem_read_written [OF assms] by (simp add: length_enc dec_enc)

lemma dec_stream:
  "dec (take width (enc x @ rest)) = x" "drop width (enc x @ rest) = rest"
  by (simp_all add: length_enc dec_enc)

lemma enc_inj: "enc x = enc y \<Longrightarrow> x = y"
  by (metis dec_enc)

end

interpretation u32_le: byte_codec "le_bytes 4 :: u32 \<Rightarrow> u8 list" le_word 4
  by unfold_locales (simp_all add: le_word_le_bytes take_bit_word_id)

interpretation u64_le: byte_codec "le_bytes 8 :: u64 \<Rightarrow> u8 list" le_word 8
  by unfold_locales (simp_all add: le_word_le_bytes take_bit_word_id)

end
