(* ===== verification/Mpsc_Layout.thy ===== *)
theory Mpsc_Layout
  imports Bytes
begin

text \<open>
  The data of the shared-memory queue of \<^verbatim>\<open>hw-5\<close>: the constants, the two headers at the
  start of the region, the message header inside the ring, sizes and alignment, and the
  two writers of records. Sizes follow the x86-64 layout: \<open>ProtocolHeader\<close> takes 40 bytes,
  \<open>QueueHeader\<close> is aligned to 64, so that the ring starts 128 bytes into the region.
\<close>

section \<open>Constants and enumerations\<close>

definition ProtocolMagic :: u32 where "ProtocolMagic = 0x4D505343"
definition ProtocolVersion :: u32 where "ProtocolVersion = 1"
definition Alignment :: u32 where "Alignment = 8"

datatype init_state = Uninitialized | Initializing | Ready

fun init_code :: "init_state \<Rightarrow> u32" where
  "init_code Uninitialized = 0"
| "init_code Initializing = 1"
| "init_code Ready = 2"

datatype message_type = Padding | Text | Number | Stop | All

fun type_code :: "message_type \<Rightarrow> u32" where
  "type_code Padding = 0"
| "type_code Text = 1"
| "type_code Number = 2"
| "type_code Stop = 3"
| "type_code All = 4"

lemma type_code_inj [simp]: "type_code a = type_code b \<longleftrightarrow> a = b"
  by (cases a; cases b; simp)

text \<open>The order of the initialisation states is the order of their codes.\<close>

instantiation init_state :: linorder
begin

definition less_eq_init_state :: "init_state \<Rightarrow> init_state \<Rightarrow> bool" where
  "less_eq_init_state a b \<longleftrightarrow> init_code a \<le> init_code b"

definition less_init_state :: "init_state \<Rightarrow> init_state \<Rightarrow> bool" where
  "less_init_state a b \<longleftrightarrow> init_code a < init_code b"

instance
proof
  fix x y z :: init_state
  show "x < y \<longleftrightarrow> x \<le> y \<and> \<not> y \<le> x"
    by (auto simp: less_init_state_def less_eq_init_state_def)
  show "x \<le> x" by (simp add: less_eq_init_state_def)
  show "x \<le> y \<Longrightarrow> y \<le> z \<Longrightarrow> x \<le> z" by (simp add: less_eq_init_state_def)
  show "x \<le> y \<Longrightarrow> y \<le> x \<Longrightarrow> x = y"
    by (cases x; cases y; simp add: less_eq_init_state_def word_le_nat_alt)
  show "x \<le> y \<or> y \<le> x" by (auto simp: less_eq_init_state_def)
qed

end

section \<open>Headers\<close>

record protocol_header =
  magic :: u32
  version :: u32
  shmSize :: u64
  bufferSize :: u64
  initState :: u32
  producerCount :: u32
  consumerCount :: u32
  refCount :: u32

record queue_header =
  reservePos :: u64
  commitPos :: u64
  readPos :: u64

text \<open>The default member initializers: \<open>new (memory) SharedMemoryLayout{}\<close>.\<close>

definition fresh_protocol :: protocol_header where
  "fresh_protocol = \<lparr>magic = ProtocolMagic, version = ProtocolVersion, shmSize = 0, bufferSize = 0,
     initState = init_code Uninitialized, producerCount = 0, consumerCount = 0, refCount = 0\<rparr>"

definition fresh_queue :: queue_header where
  "fresh_queue = \<lparr>reservePos = 0, commitPos = 0, readPos = 0\<rparr>"

text \<open>\<open>sizeof(SharedMemoryLayout)\<close> and \<open>sizeof(MessageHeader)\<close>.\<close>

definition HeaderSize :: u64 where "HeaderSize = 128"
definition MessageHeaderSize :: u32 where "MessageHeaderSize = 8"

datatype mpsc_error =
    ShmTooSmall
  | MmapFailed
  | InvalidMagic
  | UnsupportedVersion
  | ShmSizeMismatch
  | BufferSizeMismatch
  | NotReady
  | MessageTooLarge
  | InvalidInt64Payload
  | SystemExit

definition GetBufferSizeFromShmSize :: "u64 \<Rightarrow> mpsc_error + u64" where
  "GetBufferSizeFromShmSize shm_size =
     (if shm_size \<le> HeaderSize then Inl ShmTooSmall else Inr (shm_size - HeaderSize))"

section \<open>Alignment\<close>

definition AlignUp :: "u32 \<Rightarrow> u32 \<Rightarrow> u32" where
  "AlignUp value alignment = (value + alignment - 1) div alignment * alignment"

lemma AlignUp_unat:
  assumes "unat v + 7 < 2 ^ 32"
  shows "unat (AlignUp v 8) = (unat v + 7) div 8 * 8"
proof -
  have a: "unat (v + 8 - 1) = unat v + 7"
  proof -
    have "v + 8 - 1 = v + 7" by simp
    with assms show ?thesis by (simp add: unat_word_ariths)
  qed
  have "(unat v + 7) div 8 * 8 < 2 ^ 32" using assms by (simp add: less_mult_imp_div_less)
  then show ?thesis
    by (simp add: AlignUp_def unat_word_ariths unat_div_distrib a)
qed

section \<open>Records in the ring\<close>

text \<open>\<open>MessageHeader\<close>: two 32-bit fields.\<close>

record message_header =
  mtype :: u32
  payloadSize :: u32

definition header_bytes :: "message_header \<Rightarrow> u8 list" where
  "header_bytes h = le_bytes 4 (mtype h) @ le_bytes 4 (payloadSize h)"

definition bytes_header :: "u8 list \<Rightarrow> message_header" where
  "bytes_header bs = \<lparr>mtype = le_word (take 4 bs), payloadSize = le_word (take 4 (drop 4 bs))\<rparr>"

interpretation header_codec: byte_codec header_bytes bytes_header 8
  by unfold_locales
    (simp_all add: header_bytes_def bytes_header_def le_word_le_bytes take_bit_word_id)

text \<open>The size a message takes in the ring: the argument of \<open>AlignUp\<close> is reduced to 32 bits.\<close>

definition message_size :: "u8 list \<Rightarrow> u32" where
  "message_size payload =
     (let payloadSize = word_of_nat (length payload) in AlignUp (MessageHeaderSize + payloadSize) Alignment)"

definition padded :: "nat \<Rightarrow> nat" where
  "padded n = (n + 7) div 8 * 8"

lemma padded_props: "n \<le> padded n" "padded n < n + 8" "8 dvd padded n"
  by (auto simp: padded_def)

lemma message_size_unat:
  assumes "length payload + 15 < 2 ^ 32"
  shows "unat (message_size payload) = padded (8 + length payload)"
proof -
  have "unat (MessageHeaderSize + word_of_nat (length payload)) = 8 + length payload"
    using assms by (simp add: MessageHeaderSize_def unat_word_ariths unat_of_nat)
  then show ?thesis
    using AlignUp_unat [of "MessageHeaderSize + word_of_nat (length payload)"] assms
    by (simp add: message_size_def Alignment_def padded_def Let_def)
qed

text \<open>\<open>WritePaddingRecord\<close>, on the bytes of the ring.\<close>

definition WritePaddingRecord :: "nat \<Rightarrow> u32 \<Rightarrow> u8 list \<Rightarrow> u8 list option" where
  "WritePaddingRecord offset paddingSize buf =
     (case mem_write offset
             (header_bytes \<lparr>mtype = type_code Padding, payloadSize = paddingSize - MessageHeaderSize\<rparr>) buf of
        None \<Rightarrow> None
      | Some buf1 \<Rightarrow>
          (if paddingSize > MessageHeaderSize
           then mem_write (offset + 8) (replicate (unat (paddingSize - MessageHeaderSize)) 0) buf1
           else Some buf1))"

text \<open>
  \<open>WriteMessageRecord\<close>: the header has the size reduced to 32 bits, the copy takes the
  whole payload, the tail up to the alignment is zeroed.
\<close>

definition WriteMessageRecord :: "nat \<Rightarrow> message_type \<Rightarrow> u8 list \<Rightarrow> u8 list \<Rightarrow> u8 list option" where
  "WriteMessageRecord offset type payload buf =
     (let header = \<lparr>mtype = type_code type, payloadSize = word_of_nat (length payload)\<rparr>
      in case mem_write offset (header_bytes header) buf of
           None \<Rightarrow> None
         | Some buf1 \<Rightarrow>
             (case (if payload \<noteq> [] then mem_write (offset + 8) payload buf1 else Some buf1) of
                None \<Rightarrow> None
              | Some buf2 \<Rightarrow>
                  (let totalSize = AlignUp (MessageHeaderSize + payloadSize header) Alignment;
                       paddingBytes = totalSize - MessageHeaderSize - payloadSize header
                   in if paddingBytes \<noteq> 0
                      then mem_write (offset + 8 + unat (payloadSize header))
                             (replicate (unat paddingBytes) 0) buf2
                      else Some buf2)))"

end
