(* ===== verification/Mpsc_Queue.thy ===== *)
theory Mpsc_Queue
  imports Mpsc_Layout
begin

text \<open>
  \<open>TrySend\<close>, \<open>Send\<close>, \<open>TryReceive\<close> and \<open>Receive\<close> of \<^verbatim>\<open>hw-5/mpsc_queue.cpp\<close> as one caller
  sees them: the reservation arithmetic in 64-bit words, the record writers, one pass of
  the receive loop. The concurrent model is built from the same pieces.
\<close>

record shm =
  protocol :: protocol_header
  queue :: queue_header
  ring :: "u8 list"

section \<open>Sending\<close>

text \<open>
  Lines 182 to 198: how much padding a message needs in front of it and where the
  reservation would end. \<open>None\<close>: there is not enough room. All the arithmetic wraps.
\<close>

definition reserve_plan :: "u64 \<Rightarrow> u64 \<Rightarrow> u64 \<Rightarrow> u32 \<Rightarrow> (u32 \<times> u64) option" where
  "reserve_plan bsize read_pos reserve_pos messageSize =
     (let used = reserve_pos - read_pos;
          freeSpace = bsize - used;
          offset = reserve_pos mod bsize;
          tailSpace = bsize - offset;
          paddingSize = (if tailSpace < ucast messageSize then ucast tailSpace else 0) :: u32;
          required = ucast paddingSize + ucast messageSize
      in if freeSpace < required then None else Some (paddingSize, reserve_pos + required))"

datatype send_result =
    SendThrew mpsc_error
  | SendFull
  | SendDone shm
  | SendFault

text \<open>
  The writes after a successful reservation, lines 209 to 215.
\<close>

definition write_reserved ::
  "u64 \<Rightarrow> u64 \<Rightarrow> u32 \<Rightarrow> message_type \<Rightarrow> u8 list \<Rightarrow> u8 list \<Rightarrow> u8 list option" where
  "write_reserved bsize reserve_pos paddingSize type payload buf =
     (case (if paddingSize \<ge> MessageHeaderSize
            then WritePaddingRecord (unat (reserve_pos mod bsize)) paddingSize buf
            else Some buf) of
        None \<Rightarrow> None
      | Some buf1 \<Rightarrow>
          WriteMessageRecord (unat ((reserve_pos + ucast paddingSize) mod bsize)) type payload buf1)"

text \<open>
  \<open>TrySend\<close> without interference: the compare-and-swaps on \<open>reservePos\<close> and \<open>commitPos\<close>
  succeed.
\<close>

definition TrySend :: "u64 \<Rightarrow> message_type \<Rightarrow> u8 list \<Rightarrow> shm \<Rightarrow> send_result" where
  "TrySend bsize type payload s =
     (if ucast (message_size payload) > bsize then SendThrew MessageTooLarge
      else
        (case reserve_plan bsize (readPos (queue s)) (reservePos (queue s)) (message_size payload) of
           None \<Rightarrow> SendFull
         | Some (paddingSize, newReservePos) \<Rightarrow>
             (case write_reserved bsize (reservePos (queue s)) paddingSize type payload (ring s) of
                None \<Rightarrow> SendFault
              | Some buf \<Rightarrow>
                  SendDone (s\<lparr>queue := (queue s)\<lparr>reservePos := newReservePos,
                                               commitPos := newReservePos\<rparr>, ring := buf\<rparr>))))"

text \<open>
  \<open>Send\<close> retries until there is room; nobody else moves here, so a full ring is a loop
  without end (\<open>None\<close>).
\<close>

partial_function (option) Send ::
  "u64 \<Rightarrow> message_type \<Rightarrow> u8 list \<Rightarrow> shm \<Rightarrow> send_result option" where
  "Send bsize type payload s =
     (case TrySend bsize type payload s of
        SendFull \<Rightarrow> Send bsize type payload s
      | r \<Rightarrow> Some r)"

text \<open>The three typed senders. A number is the eight bytes of an \<open>int64_t\<close>.\<close>

definition SendText :: "u64 \<Rightarrow> u8 list \<Rightarrow> shm \<Rightarrow> send_result option" where
  "SendText bsize text s = Send bsize Text text s"

definition SendNumber :: "u64 \<Rightarrow> u64 \<Rightarrow> shm \<Rightarrow> send_result option" where
  "SendNumber bsize value s = Send bsize Number (le_bytes 8 value) s"

definition SendStop :: "u64 \<Rightarrow> shm \<Rightarrow> send_result option" where
  "SendStop bsize s = Send bsize Stop [] s"

section \<open>Receiving\<close>

datatype recv_pass =
    NothingYet
  | SkipTo u64
  | Took "(u32 \<times> u8 list) option" u64

definition wanted_code :: "message_type \<Rightarrow> u32 \<Rightarrow> bool" where
  "wanted_code interested code \<longleftrightarrow>
     interested = All \<or> code = type_code interested \<or> code = type_code Stop"

text \<open>
  One pass of the loop of \<open>TryReceive\<close> on the two positions it has loaded: nothing to
  read, padding to step over, or a record with the position after it. The outer \<open>None\<close>
  is a read past the end of the ring.
\<close>

definition receive_pass ::
  "u64 \<Rightarrow> message_type \<Rightarrow> u8 list \<Rightarrow> u64 \<Rightarrow> u64 \<Rightarrow> recv_pass option" where
  "receive_pass bsize interested buf read_pos commit_pos =
     (if read_pos = commit_pos then Some NothingYet
      else
        (let offset = read_pos mod bsize; tailSpace = bsize - offset
         in if tailSpace < 8 then Some (SkipTo (read_pos + tailSpace))
            else
              (case mem_read (unat offset) 8 buf of
                 None \<Rightarrow> None
               | Some hb \<Rightarrow>
                   (let header = bytes_header hb;
                        totalSize = AlignUp (MessageHeaderSize + payloadSize header) Alignment;
                        nextReadPos = read_pos + ucast totalSize
                    in if nextReadPos > commit_pos then Some NothingYet
                       else if mtype header = type_code Padding then Some (SkipTo nextReadPos)
                       else if wanted_code interested (mtype header)
                       then (case (if payloadSize header \<noteq> 0
                                   then mem_read (unat offset + 8) (unat (payloadSize header)) buf
                                   else Some []) of
                               None \<Rightarrow> None
                             | Some payload \<Rightarrow> Some (Took (Some (mtype header, payload)) nextReadPos))
                       else Some (Took None nextReadPos)))))"

datatype recv_result = RecvNone | RecvSome u32 "u8 list" | RecvFault

definition store_read_pos :: "u64 \<Rightarrow> shm \<Rightarrow> shm" where
  "store_read_pos p s = s\<lparr>queue := (queue s)\<lparr>readPos := p\<rparr>\<rparr>"

partial_function (option) TryReceive ::
  "u64 \<Rightarrow> message_type \<Rightarrow> shm \<Rightarrow> (recv_result \<times> shm) option" where
  "TryReceive bsize interested s =
     (case receive_pass bsize interested (ring s) (readPos (queue s)) (commitPos (queue s)) of
        None \<Rightarrow> Some (RecvFault, s)
      | Some NothingYet \<Rightarrow> Some (RecvNone, s)
      | Some (SkipTo p) \<Rightarrow> TryReceive bsize interested (store_read_pos p s)
      | Some (Took m p) \<Rightarrow>
          Some (case m of None \<Rightarrow> RecvNone | Some (t, payload) \<Rightarrow> RecvSome t payload,
                store_read_pos p s))"

partial_function (option) Receive ::
  "u64 \<Rightarrow> message_type \<Rightarrow> shm \<Rightarrow> (recv_result \<times> shm) option" where
  "Receive bsize interested s =
     (case TryReceive bsize interested s of
        None \<Rightarrow> None
      | Some (RecvNone, s') \<Rightarrow> Receive bsize interested s'
      | Some r \<Rightarrow> Some r)"

text \<open>The two decoders of payloads.\<close>

definition BytesToString :: "u8 list \<Rightarrow> u8 list" where
  "BytesToString bytes = bytes"

definition BytesToInt64 :: "u8 list \<Rightarrow> mpsc_error + u64" where
  "BytesToInt64 bytes =
     (if length bytes \<noteq> 8 then Inl InvalidInt64Payload else Inr (le_word bytes))"

section \<open>Records in the ring\<close>

text \<open>
  The abstract contents of the ring between two positions: padding up to the end of the
  ring and messages. Positions are natural numbers here; a record never crosses the end.
\<close>

datatype ring_rec = RPad nat | RMsg message_type "u8 list"

fun rec_size :: "ring_rec \<Rightarrow> nat" where
  "rec_size (RPad n) = n"
| "rec_size (RMsg t p) = padded (8 + length p)"

fun rec_header :: "ring_rec \<Rightarrow> message_header" where
  "rec_header (RPad n) = \<lparr>mtype = type_code Padding, payloadSize = word_of_nat (n - 8)\<rparr>"
| "rec_header (RMsg t p) = \<lparr>mtype = type_code t, payloadSize = word_of_nat (length p)\<rparr>"

fun rec_payload :: "ring_rec \<Rightarrow> u8 list" where
  "rec_payload (RPad n) = []"
| "rec_payload (RMsg t p) = p"

fun rec_fits :: "nat \<Rightarrow> nat \<Rightarrow> ring_rec \<Rightarrow> bool" where
  "rec_fits b pos (RPad n) \<longleftrightarrow> 8 \<le> n \<and> 8 dvd n \<and> n < 2 ^ 32 \<and> pos mod b + n = b"
| "rec_fits b pos (RMsg t p) \<longleftrightarrow>
     t \<noteq> Padding \<and> length p + 15 < 2 ^ 32 \<and> pos mod b + padded (8 + length p) \<le> b"

definition rec_at :: "u8 list \<Rightarrow> nat \<Rightarrow> nat \<Rightarrow> ring_rec \<Rightarrow> bool" where
  "rec_at buf b pos r \<longleftrightarrow> rec_fits b pos r \<and>
     mem_read (pos mod b) (8 + length (rec_payload r)) buf
       = Some (header_bytes (rec_header r) @ rec_payload r)"

fun laid :: "u8 list \<Rightarrow> nat \<Rightarrow> nat \<Rightarrow> ring_rec list \<Rightarrow> bool" where
  "laid buf b pos [] \<longleftrightarrow> True"
| "laid buf b pos (r # rs) \<longleftrightarrow> rec_at buf b pos r \<and> laid buf b (pos + rec_size r) rs"

abbreviation recs_size :: "ring_rec list \<Rightarrow> nat" where
  "recs_size rs \<equiv> sum_list (map rec_size rs)"

lemma laid_append:
  "laid buf b pos (rs @ rs') \<longleftrightarrow> laid buf b pos rs \<and> laid buf b (pos + recs_size rs) rs'"
  by (induction rs arbitrary: pos) (auto simp: add.assoc)

lemma rec_size_ge: "rec_fits b pos r \<Longrightarrow> 8 + length (rec_payload r) \<le> rec_size r"
  using padded_props(1) by (cases r) auto

lemma rec_size_end: "rec_fits b pos r \<Longrightarrow> pos mod b + rec_size r \<le> b"
  by (cases r) auto

lemma rec_size_dvd: "rec_fits b pos r \<Longrightarrow> 8 dvd rec_size r"
  using padded_props(3) by (cases r) auto

text \<open>A write that leaves the bytes outside an interval alone.\<close>

definition same_outside :: "nat \<Rightarrow> nat \<Rightarrow> u8 list \<Rightarrow> u8 list \<Rightarrow> bool" where
  "same_outside a e buf buf' \<longleftrightarrow> length buf' = length buf \<and>
     (\<forall>off n. off + n \<le> a \<or> e \<le> off \<longrightarrow> mem_read off n buf' = mem_read off n buf)"

lemma same_outside_write:
  "mem_write off bs buf = Some buf' \<Longrightarrow> a \<le> off \<Longrightarrow> off + length bs \<le> e \<Longrightarrow> same_outside a e buf buf'"
  by (auto simp: same_outside_def mem_write_length intro!: mem_read_other)

lemma same_outside_refl: "same_outside a e buf buf"
  by (simp add: same_outside_def)

lemma same_outside_trans:
  "same_outside a e b1 b2 \<Longrightarrow> same_outside a e b2 b3 \<Longrightarrow> same_outside a e b1 b3"
  by (simp add: same_outside_def)

lemma rec_at_same:
  assumes "rec_at buf b pos r" and "same_outside a e buf buf'"
    and "pos mod b + rec_size r \<le> a \<or> e \<le> pos mod b"
  shows "rec_at buf' b pos r"
  using assms rec_size_ge [of b pos r] by (auto simp: rec_at_def same_outside_def)

section \<open>What the writers write\<close>

lemma length_header_bytes [simp]: "length (header_bytes h) = 8"
  by (simp add: header_bytes_def)

lemma WritePaddingRecord_ok:
  assumes "unat ps = n" and "8 \<le> n" and "off + n \<le> length buf"
  obtains buf' where "WritePaddingRecord off ps buf = Some buf'" "same_outside off (off + n) buf buf'"
    "mem_read off 8 buf' = Some (header_bytes (rec_header (RPad n)))"
proof -
  have sub: "unat (ps - MessageHeaderSize) = n - 8"
    using assms(1,2) by (simp add: MessageHeaderSize_def unat_sub word_le_nat_alt)
  have psz: "ps - MessageHeaderSize = word_of_nat (n - 8)"
    by (rule word_unat_eq_iff [THEN iffD2]) (use sub assms(1) unat_u32_less [of ps] in \<open>simp add: unat_of_nat\<close>)
  have gt: "ps > MessageHeaderSize \<longleftrightarrow> 8 < n"
    using assms(1) by (simp add: MessageHeaderSize_def word_less_nat_alt)
  let ?h = "header_bytes (rec_header (RPad n))"
  obtain b1 where b1: "mem_write off ?h buf = Some b1"
    using mem_write_Some [of off ?h buf] assms(2,3) by auto
  note len1 = mem_write_length [OF b1]
  have so1: "same_outside off (off + n) buf b1"
    by (rule same_outside_write [OF b1]) (use assms(2) in auto)
  show thesis
  proof (cases "8 < n")
    case False
    with that [of b1] so1 b1 gt psz mem_read_written [OF b1] show thesis
      by (simp add: WritePaddingRecord_def)
  next
    case True
    obtain b2 where b2: "mem_write (off + 8) (replicate (n - 8) 0) b1 = Some b2"
      using mem_write_Some [of "off + 8" "replicate (n - 8) 0" b1] assms(3) len1 True by auto
    have "same_outside off (off + n) b1 b2"
      by (rule same_outside_write [OF b2]) (use True in auto)
    moreover have "mem_read off 8 b2 = Some ?h"
      using mem_read_other [OF b2, of off 8] mem_read_written [OF b1] by simp
    ultimately show thesis
      using that [of b2] so1 b1 b2 gt psz sub True
      by (auto simp: WritePaddingRecord_def intro: same_outside_trans)
  qed
qed

text \<open>The number of zero bytes after a payload.\<close>

lemma padding_bytes:
  fixes p :: "u8 list"
  assumes "length p + 15 < 2 ^ 32"
  shows "unat (AlignUp (MessageHeaderSize + word_of_nat (length p)) Alignment - MessageHeaderSize
    - word_of_nat (length p)) = padded (8 + length p) - (8 + length p)"
proof -
  let ?t = "AlignUp (MessageHeaderSize + word_of_nat (length p)) Alignment"
  have t: "unat ?t = padded (8 + length p)"
    using message_size_unat [OF assms] by (simp add: message_size_def Let_def)
  have l: "unat (word_of_nat (length p) :: u32) = length p" using assms by (simp add: unat_of_nat)
  have eight: "unat MessageHeaderSize = 8" by (simp add: MessageHeaderSize_def)
  have "unat (?t - MessageHeaderSize) = padded (8 + length p) - 8"
    using t eight padded_props(1) [of "8 + length p"] by (simp add: unat_sub word_le_nat_alt)
  moreover have "length p \<le> padded (8 + length p) - 8"
    using padded_props(1) [of "8 + length p"] by simp
  ultimately show ?thesis
    using l by (simp add: unat_sub word_le_nat_alt)
qed

lemma WriteMessageRecord_ok:
  assumes "length p + 15 < 2 ^ 32" and "off + padded (8 + length p) \<le> length buf"
  obtains buf' where "WriteMessageRecord off t p buf = Some buf'"
    "same_outside off (off + padded (8 + length p)) buf buf'"
    "mem_read off (8 + length p) buf' = Some (header_bytes (rec_header (RMsg t p)) @ p)"
proof -
  let ?h = "header_bytes (rec_header (RMsg t p))" and ?e = "off + padded (8 + length p)"
  let ?pad = "padded (8 + length p) - (8 + length p)"
  have le: "8 + length p \<le> padded (8 + length p)" by (rule padded_props)
  have l: "unat (word_of_nat (length p) :: u32) = length p" using assms(1) by (simp add: unat_of_nat)
  obtain b1 where b1: "mem_write off ?h buf = Some b1"
    using mem_write_Some [of off ?h buf] assms(2) le by auto
  obtain b2 where b2: "mem_write (off + 8) p b1 = Some b2"
    using mem_write_Some [of "off + 8" p b1] assms(2) le mem_write_length [OF b1] by auto
  have b2': "(if p \<noteq> [] then mem_write (off + 8) p b1 else Some b1) = Some b2"
    using b2 by (auto simp: mem_write_def split: if_splits)
  have h2: "mem_read off 8 b2 = Some ?h"
    using mem_read_other [OF b2, of off 8] mem_read_written [OF b1] by simp
  have r2: "mem_read off (8 + length p) b2 = Some (?h @ p)"
    using mem_read_append [OF h2 mem_read_written [OF b2]] by simp
  have so2: "same_outside off ?e buf b2"
    by (rule same_outside_trans [OF same_outside_write [OF b1] same_outside_write [OF b2]])
      (use le in auto)
  obtain b3 where b3: "mem_write (off + 8 + length p) (replicate ?pad 0) b2 = Some b3"
    using mem_write_Some [of "off + 8 + length p" "replicate ?pad 0" b2] assms(2) le
      mem_write_length [OF b1] mem_write_length [OF b2] by auto
  have r3: "mem_read off (8 + length p) b3 = Some (?h @ p)"
    using mem_read_other [OF b3, of off "8 + length p"] r2 by simp
  have so3: "same_outside off ?e buf b3"
    by (rule same_outside_trans [OF so2 same_outside_write [OF b3]]) (use le in auto)
  note pb = padding_bytes [OF assms(1)]
  have "?pad = 0 \<Longrightarrow> b3 = b2" using b3 by (auto simp: mem_write_def split: if_splits)
  then have "WriteMessageRecord off t p buf = Some b3"
    using b1 b2' b3 pb l
    by (auto simp: WriteMessageRecord_def Let_def unat_eq_0 [symmetric])
  with that so3 r3 show thesis by blast
qed

section \<open>What a reservation is\<close>

lemma reserve_plan_Some:
  assumes "reserve_plan bsize rd rs ms = Some (pad, new)" and "0 < unat bsize"
    and "unat (rs - rd) \<le> unat bsize" and "unat rs + unat pad + unat ms < 2 ^ 64"
  shows "unat new = unat rs + unat pad + unat ms"
    and "unat (rs - rd) + unat pad + unat ms \<le> unat bsize"
    and "pad \<noteq> 0 \<Longrightarrow> unat rs mod unat bsize + unat pad = unat bsize"
    and "unat (rs + ucast pad) = unat rs + unat pad"
    and "unat ((rs + ucast pad) mod bsize) + unat ms \<le> unat bsize"
proof -
  let ?b = "unat bsize" and ?m = "unat ms"
  let ?tail = "bsize - rs mod bsize"
  have off: "unat (rs mod bsize) = unat rs mod ?b" by (simp add: unat_mod_distrib)
  have off_lt: "unat rs mod ?b < ?b" using assms(2) by simp
  have tail: "unat ?tail = ?b - unat rs mod ?b"
    using off off_lt by (simp add: unat_minus_simple64)
  have req: "unat (ucast pad + ucast ms :: u64) = unat pad + ?m"
    using unat_u32_less [of pad] unat_u32_less [of ms] by (simp add: unat_plus_simple64)
  have free: "unat (bsize - (rs - rd)) = ?b - unat (rs - rd)"
    using assms(3) by (simp add: unat_minus_simple64)
  have pad: "pad = (if ?tail < ucast ms then ucast ?tail else 0)"
    and new: "new = rs + (ucast pad + ucast ms)"
    and room: "\<not> bsize - (rs - rd) < ucast pad + ucast ms"
    using assms(1) by (auto simp: reserve_plan_def Let_def split: if_splits)
  from new req assms(4) show "unat new = unat rs + unat pad + unat ms"
    by (simp add: unat_plus_simple64)
  from room free req assms(3) show fits: "unat (rs - rd) + unat pad + ?m \<le> ?b"
    by (simp add: word_less_nat_alt)
  have short: "unat (ucast ?tail :: u32) = ?b - unat rs mod ?b" if "?tail < ucast ms"
  proof -
    have "unat ?tail < 2 ^ 32"
      using that unat_u32_less [of ms] by (simp add: word_less_nat_alt)
    then show ?thesis using tail by (simp add: unsigned_ucast_eq take_bit_nat_eq_self)
  qed
  show padded: "pad \<noteq> 0 \<Longrightarrow> unat rs mod ?b + unat pad = ?b"
    using pad short off_lt by (auto split: if_splits)
  show sum: "unat (rs + ucast pad) = unat rs + unat pad"
    using assms(4) by (simp add: unat_plus_simple64)
  show "unat ((rs + ucast pad) mod bsize) + ?m \<le> ?b"
  proof (cases "pad = 0")
    case False
    with padded have "(unat rs + unat pad) mod ?b = 0"
      by (metis mod_add_left_eq mod_self)
    with sum fits show ?thesis by (simp add: unat_mod_distrib)
  next
    case True
    have "\<not> ?tail < ucast ms"
    proof
      assume "?tail < ucast ms"
      with pad short have "unat pad = ?b - unat rs mod ?b" by simp
      with True off_lt show False by simp
    qed
    then have "?m \<le> unat ?tail" by (simp add: word_less_nat_alt)
    with tail off off_lt True show ?thesis by simp
  qed
qed

lemma reserve_plan_aligned:
  assumes "reserve_plan bsize rd rs ms = Some (pad, new)" and "0 < unat bsize"
    and "unat (rs - rd) \<le> unat bsize" and "unat rs + unat pad + unat ms < 2 ^ 64"
    and "8 dvd unat bsize" and "8 dvd unat rs"
  shows "8 dvd unat pad"
proof (cases "pad = 0")
  case False
  have "8 dvd unat rs mod unat bsize" using assms(5,6) by (simp add: dvd_mod)
  with reserve_plan_Some(3) [OF assms(1-4) False] assms(5) show ?thesis
    by (metis dvd_add_right_iff)
qed simp

section \<open>What one pass of the receive loop does\<close>

fun pass_of :: "message_type \<Rightarrow> ring_rec \<Rightarrow> u64 \<Rightarrow> recv_pass" where
  "pass_of interested (RPad n) next = SkipTo next"
| "pass_of interested (RMsg t p) next =
     Took (if wanted_code interested (type_code t) then Some (type_code t, p) else None) next"

lemma rec_total_size:
  assumes "rec_fits b pos r"
  shows "unat (AlignUp (MessageHeaderSize + payloadSize (rec_header r)) Alignment) = rec_size r"
proof (cases r)
  case (RPad n)
  with assms obtain k where k: "n = 8 * k" "8 \<le> n" "n < 2 ^ 32" by (auto elim: dvdE)
  then have "unat (MessageHeaderSize + word_of_nat (n - 8) :: u32) = n"
    by (simp add: MessageHeaderSize_def unat_word_ariths unat_of_nat)
  moreover from k have "k < 2 ^ 29" by simp
  then have "n + 7 < 2 ^ 32" using k(1) by simp
  ultimately show ?thesis using RPad k by (simp add: Alignment_def AlignUp_unat)
next
  case (RMsg t p)
  with assms show ?thesis
    using message_size_unat [of p] by (simp add: message_size_def Let_def)
qed

lemma receive_pass_rec:
  assumes "rec_at buf (unat bsize) (unat rp) r" and "rp \<noteq> cp"
    and "unat rp + rec_size r < 2 ^ 64" and "unat bsize - unat rp mod unat bsize \<ge> 8"
  shows "receive_pass bsize interested buf rp cp =
    Some (if unat rp + rec_size r > unat cp then NothingYet
          else pass_of interested r (rp + word_of_nat (rec_size r)))"
proof -
  let ?b = "unat bsize"
  let ?total = "AlignUp (MessageHeaderSize + payloadSize (rec_header r)) Alignment"
  have fits: "rec_fits ?b (unat rp) r"
    and rd: "mem_read (unat rp mod ?b) (8 + length (rec_payload r)) buf
      = Some (header_bytes (rec_header r) @ rec_payload r)"
    using assms(1) by (auto simp: rec_at_def)
  have off: "unat (rp mod bsize) = unat rp mod ?b" by (simp add: unat_mod_distrib)
  then have "unat (bsize - rp mod bsize) = ?b - unat rp mod ?b"
    using assms(4) by (simp add: unat_minus_simple64)
  with assms(4) have tail: "\<not> bsize - rp mod bsize < 8"
    by (simp add: word_less_nat_alt)
  have hd8: "mem_read (unat rp mod ?b) 8 buf = Some (header_bytes (rec_header r))"
    and tl8: "mem_read (unat rp mod ?b + 8) (length (rec_payload r)) buf = Some (rec_payload r)"
    using mem_read_prefix [OF rd] by simp_all
  have total: "ucast ?total = (word_of_nat (rec_size r) :: u64)"
    by (rule word_unat_eq_iff [THEN iffD2])
      (use rec_total_size [OF fits] unat_u32_less [of ?total] in \<open>simp add: unat_of_nat\<close>)
  have next_pos: "unat (rp + word_of_nat (rec_size r)) = unat rp + rec_size r"
    using assms(3) by (simp add: unat_plus_simple64 unat_of_nat)
  have pl: "payloadSize (rec_header r) = 0 \<longleftrightarrow> rec_payload r = []"
    "unat (payloadSize (rec_header r)) = length (rec_payload r)" if "\<exists>t p. r = RMsg t p"
    using that fits by (auto simp: unat_eq_0 [symmetric] unat_of_nat)
  have gt: "rp + word_of_nat (rec_size r) > cp \<longleftrightarrow> unat rp + rec_size r > unat cp"
    using next_pos by (simp add: word_less_nat_alt)
  show ?thesis
  proof (cases r)
    case (RPad n)
    with assms(2) tail hd8 total gt off show ?thesis
      by (simp add: receive_pass_def Let_def header_codec.dec_enc)
  next
    case (RMsg t p)
    with fits have "t \<noteq> Padding" by simp
    then have "type_code t \<noteq> 0" by (cases t) auto
    with assms(2) tail hd8 tl8 total gt off RMsg pl \<open>t \<noteq> Padding\<close> show ?thesis
      by (cases "p = []") (simp_all add: receive_pass_def Let_def header_codec.dec_enc)
  qed
qed

end
