(* ===== verification/Mpsc_Concurrent.thy ===== *)
theory Mpsc_Concurrent
  imports Mpsc_Queue
begin

text \<open>
  Producers and the consumer of \<^verbatim>\<open>hw-5/mpsc_queue.cpp\<close> running at the same time. A step
  is one atomic load, store or compare-and-swap on the queue header, or one record copied
  into or out of the ring; the producers and the consumer interleave freely. Memory is
  sequentially consistent here; the code's acquire and release orders are those its
  accesses to the three positions need.
\<close>

section \<open>Program points\<close>

text \<open>
  The local variables of \<open>TrySend\<close> that are still needed: type and payload, the loaded
  \<open>readPos\<close> and \<open>reservePos\<close>, the padding and the new position.
\<close>

datatype prod_pc =
    PIdle
  | PLoadRead message_type "u8 list"
  | PLoadReserve message_type "u8 list" u64
  | PCas message_type "u8 list" u64 u64 u32 u64
  | PWritePad message_type "u8 list" u64 u32 u64
  | PWriteMsg message_type "u8 list" u64 u32 u64
  | PPublish message_type "u8 list" u64 u32 u64
  | PRetry message_type "u8 list"

datatype cons_pc =
    CIdle
  | CLoadRead
  | CLoadCommit u64
  | CPass u64 u64
  | CSkip u64
  | CTake "(u32 \<times> u8 list) option" u64

text \<open>
  The ghost fields: the messages in the order of their reservations, how many the consumer
  has taken, what it has handed out, the producers between reservation and publication,
  the bytes reserved since the start, and three flags: a reservation was made on a
  free-space value that had wrapped below zero (\<open>stale\<close>), a caller sent a message of type
  \<open>Padding\<close> or one whose size does not fit 32 bits (\<open>misused\<close>), a copy left the ring
  (\<open>faulted\<close>).
\<close>

record mpsc_sys =
  shared :: shm
  prods :: "prod_pc list"
  cons :: cons_pc
  reserved :: "(nat \<times> message_type \<times> u8 list) list"
  taken :: nat
  delivered :: "(u32 \<times> u8 list) list"
  flight :: "nat list"
  total :: nat
  stale :: bool
  misused :: bool
  faulted :: bool

abbreviation rd_pos :: "mpsc_sys \<Rightarrow> u64" where "rd_pos s \<equiv> readPos (queue (shared s))"
abbreviation cm_pos :: "mpsc_sys \<Rightarrow> u64" where "cm_pos s \<equiv> commitPos (queue (shared s))"
abbreviation rs_pos :: "mpsc_sys \<Rightarrow> u64" where "rs_pos s \<equiv> reservePos (queue (shared s))"

definition set_prod :: "nat \<Rightarrow> prod_pc \<Rightarrow> mpsc_sys \<Rightarrow> mpsc_sys" where
  "set_prod i p s = s\<lparr>prods := (prods s)[i := p]\<rparr>"

definition store_reserve :: "u64 \<Rightarrow> mpsc_sys \<Rightarrow> mpsc_sys" where
  "store_reserve p s = s\<lparr>shared := (shared s)\<lparr>queue := (queue (shared s))\<lparr>reservePos := p\<rparr>\<rparr>\<rparr>"

definition store_commit :: "u64 \<Rightarrow> mpsc_sys \<Rightarrow> mpsc_sys" where
  "store_commit p s = s\<lparr>shared := (shared s)\<lparr>queue := (queue (shared s))\<lparr>commitPos := p\<rparr>\<rparr>\<rparr>"

definition store_read :: "u64 \<Rightarrow> mpsc_sys \<Rightarrow> mpsc_sys" where
  "store_read p s = s\<lparr>shared := store_read_pos p (shared s)\<rparr>"

definition store_ring :: "u8 list option \<Rightarrow> mpsc_sys \<Rightarrow> mpsc_sys" where
  "store_ring r s = (case r of
      None \<Rightarrow> s\<lparr>faulted := True\<rparr>
    | Some buf \<Rightarrow> s\<lparr>shared := (shared s)\<lparr>ring := buf\<rparr>\<rparr>)"

definition mpsc_init :: "u64 \<Rightarrow> nat \<Rightarrow> mpsc_sys \<Rightarrow> bool" where
  "mpsc_init bsize n s \<longleftrightarrow> (\<exists>ph buf. length buf = unat bsize \<and>
     s = \<lparr>shared = \<lparr>protocol = ph, queue = fresh_queue, ring = buf\<rparr>,
          prods = replicate n PIdle, cons = CIdle, reserved = [], taken = 0, delivered = [],
          flight = [], total = 0, stale = False, misused = False, faulted = False\<rparr>)"

section \<open>Steps\<close>

inductive mpsc_step :: "u64 \<Rightarrow> message_type \<Rightarrow> mpsc_sys \<Rightarrow> mpsc_sys \<Rightarrow> bool"
  for bsize interested where
  call_send:
    "i < length (prods s) \<Longrightarrow> prods s ! i = PIdle \<Longrightarrow> \<not> ucast (message_size p) > bsize \<Longrightarrow>
     mpsc_step bsize interested s
       ((set_prod i (PLoadRead t p) s)
          \<lparr>misused := misused s \<or> t = Padding \<or> length p + 15 \<ge> 2 ^ 32\<rparr>)"
| load_read:
    "i < length (prods s) \<Longrightarrow> prods s ! i = PLoadRead t p \<Longrightarrow>
     mpsc_step bsize interested s (set_prod i (PLoadReserve t p (rd_pos s)) s)"
| reserve_full:
    "i < length (prods s) \<Longrightarrow> prods s ! i = PLoadReserve t p rd \<Longrightarrow>
     reserve_plan bsize rd (rs_pos s) (message_size p) = None \<Longrightarrow>
     mpsc_step bsize interested s (set_prod i (PRetry t p) s)"
| reserve_go:
    "i < length (prods s) \<Longrightarrow> prods s ! i = PLoadReserve t p rd \<Longrightarrow>
     reserve_plan bsize rd (rs_pos s) (message_size p) = Some (pad, new) \<Longrightarrow>
     mpsc_step bsize interested s (set_prod i (PCas t p rd (rs_pos s) pad new) s)"
| cas_ok:
    "i < length (prods s) \<Longrightarrow> prods s ! i = PCas t p rd rs pad new \<Longrightarrow> rs_pos s = rs \<Longrightarrow>
     q = (if pad \<ge> MessageHeaderSize then PWritePad t p rs pad new else PWriteMsg t p rs pad new) \<Longrightarrow>
     mpsc_step bsize interested s
       ((store_reserve new (set_prod i q s))
          \<lparr>reserved := reserved s @ [(i, t, p)], flight := flight s @ [i],
           total := total s + unat pad + unat (message_size p),
           stale := stale s \<or> unat (rs - rd) > unat bsize\<rparr>)"
| cas_fail:
    "i < length (prods s) \<Longrightarrow> prods s ! i = PCas t p rd rs pad new \<Longrightarrow>
     mpsc_step bsize interested s (set_prod i (PLoadRead t p) s)"
| write_pad:
    "i < length (prods s) \<Longrightarrow> prods s ! i = PWritePad t p rs pad new \<Longrightarrow>
     mpsc_step bsize interested s
       (store_ring (WritePaddingRecord (unat (rs mod bsize)) pad (ring (shared s)))
          (set_prod i (PWriteMsg t p rs pad new) s))"
| write_msg:
    "i < length (prods s) \<Longrightarrow> prods s ! i = PWriteMsg t p rs pad new \<Longrightarrow>
     mpsc_step bsize interested s
       (store_ring (WriteMessageRecord (unat ((rs + ucast pad) mod bsize)) t p (ring (shared s)))
          (set_prod i (PPublish t p rs pad new) s))"
| publish:
    "i < length (prods s) \<Longrightarrow> prods s ! i = PPublish t p rs pad new \<Longrightarrow> cm_pos s = rs \<Longrightarrow>
     mpsc_step bsize interested s
       ((store_commit new (set_prod i PIdle s))\<lparr>flight := remove1 i (flight s)\<rparr>)"
| send_again:
    "i < length (prods s) \<Longrightarrow> prods s ! i = PRetry t p \<Longrightarrow>
     mpsc_step bsize interested s (set_prod i (PLoadRead t p) s)"
| give_up:
    "i < length (prods s) \<Longrightarrow> prods s ! i = PRetry t p \<Longrightarrow>
     mpsc_step bsize interested s (set_prod i PIdle s)"
| call_receive:
    "cons s = CIdle \<Longrightarrow> mpsc_step bsize interested s (s\<lparr>cons := CLoadRead\<rparr>)"
| load_own_read:
    "cons s = CLoadRead \<Longrightarrow> mpsc_step bsize interested s (s\<lparr>cons := CLoadCommit (rd_pos s)\<rparr>)"
| load_commit:
    "cons s = CLoadCommit rd \<Longrightarrow> mpsc_step bsize interested s (s\<lparr>cons := CPass rd (cm_pos s)\<rparr>)"
| pass_fault:
    "cons s = CPass rd cm \<Longrightarrow> receive_pass bsize interested (ring (shared s)) rd cm = None \<Longrightarrow>
     mpsc_step bsize interested s (s\<lparr>cons := CIdle, faulted := True\<rparr>)"
| pass_nothing:
    "cons s = CPass rd cm \<Longrightarrow>
     receive_pass bsize interested (ring (shared s)) rd cm = Some NothingYet \<Longrightarrow>
     mpsc_step bsize interested s (s\<lparr>cons := CIdle\<rparr>)"
| pass_skip:
    "cons s = CPass rd cm \<Longrightarrow>
     receive_pass bsize interested (ring (shared s)) rd cm = Some (SkipTo p) \<Longrightarrow>
     mpsc_step bsize interested s (s\<lparr>cons := CSkip p\<rparr>)"
| pass_take:
    "cons s = CPass rd cm \<Longrightarrow>
     receive_pass bsize interested (ring (shared s)) rd cm = Some (Took m p) \<Longrightarrow>
     mpsc_step bsize interested s (s\<lparr>cons := CTake m p\<rparr>)"
| store_skip:
    "cons s = CSkip p \<Longrightarrow> mpsc_step bsize interested s ((store_read p s)\<lparr>cons := CLoadRead\<rparr>)"
| store_take:
    "cons s = CTake m p \<Longrightarrow>
     mpsc_step bsize interested s
       ((store_read p s)\<lparr>cons := CIdle, taken := Suc (taken s),
          delivered := delivered s @ (case m of None \<Rightarrow> [] | Some x \<Rightarrow> [x])\<rparr>)"

lemmas mpsc_updates [simp] =
  set_prod_def store_reserve_def store_commit_def store_read_def store_read_pos_def

section \<open>The invariant\<close>

text \<open>A producer between its reservation and its publication, and its reservation.\<close>

fun reservation :: "prod_pc \<Rightarrow> (message_type \<times> u8 list \<times> u64 \<times> u32 \<times> u64) option" where
  "reservation (PWritePad t p rs pad new) = Some (t, p, rs, pad, new)"
| "reservation (PWriteMsg t p rs pad new) = Some (t, p, rs, pad, new)"
| "reservation (PPublish t p rs pad new) = Some (t, p, rs, pad, new)"
| "reservation _ = None"

definition reserving :: "prod_pc \<Rightarrow> bool" where
  "reserving p \<longleftrightarrow> reservation p \<noteq> None"

text \<open>The records a reservation stands for: its padding, if any, and its message.\<close>

definition pad_recs :: "u32 \<Rightarrow> ring_rec list" where
  "pad_recs pad = (if pad = 0 then [] else [RPad (unat pad)])"

fun plan_recs :: "message_type \<times> u8 list \<times> u64 \<times> u32 \<times> u64 \<Rightarrow> ring_rec list" where
  "plan_recs (t, p, rs, pad, new) = pad_recs pad @ [RMsg t p]"

text \<open>The records fit at their place, and the new position is their end.\<close>

fun fits_all :: "nat \<Rightarrow> nat \<Rightarrow> ring_rec list \<Rightarrow> bool" where
  "fits_all b pos [] \<longleftrightarrow> True"
| "fits_all b pos (r # rs) \<longleftrightarrow> rec_fits b pos r \<and> fits_all b (pos + rec_size r) rs"

fun plan_ok :: "nat \<Rightarrow> message_type \<times> u8 list \<times> u64 \<times> u32 \<times> u64 \<Rightarrow> bool" where
  "plan_ok b (t, p, rs, pad, new) \<longleftrightarrow>
     fits_all b (unat rs) (pad_recs pad @ [RMsg t p]) \<and>
     unat (rs + ucast pad) = unat rs + unat pad \<and>
     unat new = unat rs + unat pad + padded (8 + length p)"

fun plan_begin :: "message_type \<times> u8 list \<times> u64 \<times> u32 \<times> u64 \<Rightarrow> nat" where
  "plan_begin (t, p, rs, pad, new) = unat rs"

fun plan_end :: "message_type \<times> u8 list \<times> u64 \<times> u32 \<times> u64 \<Rightarrow> nat" where
  "plan_end (t, p, rs, pad, new) = unat new"

text \<open>What a producer in flight has written so far.\<close>

fun written_ok :: "u8 list \<Rightarrow> nat \<Rightarrow> prod_pc \<Rightarrow> bool" where
  "written_ok buf b (PWritePad t p rs pad new) \<longleftrightarrow> pad \<noteq> 0"
| "written_ok buf b (PWriteMsg t p rs pad new) \<longleftrightarrow> laid buf b (unat rs) (pad_recs pad)"
| "written_ok buf b (PPublish t p rs pad new) \<longleftrightarrow>
     laid buf b (unat rs) (pad_recs pad @ [RMsg t p])"
| "written_ok buf b _ \<longleftrightarrow> True"

text \<open>The reservations in flight follow each other from the committed to the reserved position.\<close>

fun chain :: "nat \<Rightarrow> prod_pc list \<Rightarrow> nat \<Rightarrow> nat list \<Rightarrow> nat \<Rightarrow> bool" where
  "chain b ps pos [] e \<longleftrightarrow> pos = e"
| "chain b ps pos (i # is) e \<longleftrightarrow> i < length ps \<and>
     (case reservation (ps ! i) of
        None \<Rightarrow> False
      | Some pl \<Rightarrow> plan_begin pl = pos \<and> plan_ok b pl \<and> chain b ps (plan_end pl) is e)"

fun flight_msg :: "prod_pc \<Rightarrow> message_type \<times> u8 list" where
  "flight_msg (PWritePad t p rs pad new) = (t, p)"
| "flight_msg (PWriteMsg t p rs pad new) = (t, p)"
| "flight_msg (PPublish t p rs pad new) = (t, p)"
| "flight_msg _ = (Padding, [])"

fun rec_msgs :: "ring_rec list \<Rightarrow> (message_type \<times> u8 list) list" where
  "rec_msgs [] = []"
| "rec_msgs (RPad n # rs) = rec_msgs rs"
| "rec_msgs (RMsg t p # rs) = (t, p) # rec_msgs rs"

definition msg_ok :: "message_type \<Rightarrow> u8 list \<Rightarrow> bool" where
  "msg_ok t p \<longleftrightarrow> t \<noteq> Padding \<and> length p + 15 < 2 ^ 32"

fun prod_ok :: "u64 \<Rightarrow> queue_header \<Rightarrow> prod_pc \<Rightarrow> bool" where
  "prod_ok bsize q (PLoadRead t p) \<longleftrightarrow> msg_ok t p"
| "prod_ok bsize q (PLoadReserve t p rd) \<longleftrightarrow> msg_ok t p \<and> unat rd \<le> unat (readPos q)"
| "prod_ok bsize q (PCas t p rd rs pad new) \<longleftrightarrow> msg_ok t p \<and> unat rd \<le> unat (readPos q) \<and>
     reserve_plan bsize rd rs (message_size p) = Some (pad, new)"
| "prod_ok bsize q (PRetry t p) \<longleftrightarrow> msg_ok t p"
| "prod_ok bsize q _ \<longleftrightarrow> True"

text \<open>
  The consumer's loaded positions are current or old, and a position it is about to store
  is the end of the first record.
\<close>

fun cons_ok :: "message_type \<Rightarrow> queue_header \<Rightarrow> ring_rec list \<Rightarrow> cons_pc \<Rightarrow> bool" where
  "cons_ok interested q recs (CLoadCommit rd) \<longleftrightarrow> rd = readPos q"
| "cons_ok interested q recs (CPass rd cm) \<longleftrightarrow> rd = readPos q \<and>
     unat rd \<le> unat cm \<and> unat cm \<le> unat (commitPos q)"
| "cons_ok interested q recs (CSkip p) \<longleftrightarrow> (\<exists>n rs. recs = RPad n # rs \<and>
     unat p = unat (readPos q) + n)"
| "cons_ok interested q recs (CTake m p) \<longleftrightarrow> (\<exists>t pl rs. recs = RMsg t pl # rs \<and>
     m = (if wanted_code interested (type_code t) then Some (type_code t, pl) else None) \<and>
     unat p = unat (readPos q) + padded (8 + length pl))"
| "cons_ok interested q recs _ \<longleftrightarrow> True"

definition encode_msg :: "message_type \<times> u8 list \<Rightarrow> u32 \<times> u8 list" where
  "encode_msg m = (type_code (fst m), snd m)"

definition ring_inv :: "u64 \<Rightarrow> message_type \<Rightarrow> ring_rec list \<Rightarrow> mpsc_sys \<Rightarrow> bool" where
  "ring_inv bsize interested recs s \<longleftrightarrow>
     length (ring (shared s)) = unat bsize \<and>
     8 dvd unat (rd_pos s) \<and> 8 dvd unat (rs_pos s) \<and>
     laid (ring (shared s)) (unat bsize) (unat (rd_pos s)) recs \<and>
     unat (rd_pos s) + recs_size recs = unat (cm_pos s) \<and>
     chain (unat bsize) (prods s) (unat (cm_pos s)) (flight s) (unat (rs_pos s)) \<and>
     unat (rs_pos s) \<le> unat (rd_pos s) + unat bsize \<and>
     total s = unat (rs_pos s) \<and>
     distinct (flight s) \<and>
     (\<forall>i < length (prods s). i \<in> set (flight s) \<longleftrightarrow> reserving (prods s ! i)) \<and>
     (\<forall>i < length (prods s). written_ok (ring (shared s)) (unat bsize) (prods s ! i)) \<and>
     (\<forall>i < length (prods s). prod_ok bsize (queue (shared s)) (prods s ! i)) \<and>
     cons_ok interested (queue (shared s)) recs (cons s) \<and>
     taken s \<le> length (reserved s) \<and>
     map snd (drop (taken s) (reserved s)) =
       rec_msgs recs @ map (\<lambda>i. flight_msg (prods s ! i)) (flight s) \<and>
     delivered s = map encode_msg
       (filter (\<lambda>m. wanted_code interested (type_code (fst m)))
          (map snd (take (taken s) (reserved s)))) \<and>
     \<not> faulted s"

text \<open>The conditions under which the invariant is kept: see the flags of the state.\<close>

definition clean :: "mpsc_sys \<Rightarrow> bool" where
  "clean s \<longleftrightarrow> total s < 2 ^ 64 \<and> \<not> stale s \<and> \<not> misused s"

definition mpsc_good :: "u64 \<Rightarrow> message_type \<Rightarrow> mpsc_sys \<Rightarrow> bool" where
  "mpsc_good bsize interested s \<longleftrightarrow> (clean s \<longrightarrow> (\<exists>recs. ring_inv bsize interested recs s))"

end
