(* ===== verification/Mpsc_Safe.thy ===== *)
theory Mpsc_Safe
  imports Mpsc_Concurrent
begin

text \<open>
  The invariant of the concurrent queue is kept by every step while the run is clean: the
  geometry of intervals in the ring, the chain of reservations in flight, and then the
  steps one by one.
\<close>

section \<open>Intervals of the ring\<close>

text \<open>
  Two intervals of absolute positions that do not cross the end of the ring, do not
  overlap and lie in a window of one ring length, do not overlap in the ring.
\<close>

lemma ring_disjoint:
  assumes "p + m \<le> q" and "q + n \<le> p + b" and "p mod b + m \<le> b" and "q mod b + n \<le> b" and "0 < (b :: nat)"
  shows "p mod b + m \<le> q mod b \<or> q mod b + n \<le> p mod b"
proof -
  have p: "p = p div b * b + p mod b" and q: "q = q div b * b + q mod b" by simp_all
  have "p div b \<le> q div b" using assms(1) by (intro div_le_mono) simp
  moreover have "q div b \<le> p div b + 1"
  proof (rule ccontr)
    assume "\<not> q div b \<le> p div b + 1"
    then have "(p div b + 2) * b \<le> q div b * b" by (intro mult_le_mono1) simp
    then have "p div b * b + b + b \<le> q div b * b" by (simp add: algebra_simps)
    with p q assms(2) mod_less_divisor [OF assms(5), of p] show False by linarith
  qed
  ultimately consider "q div b = p div b" | "q div b = p div b + 1" by linarith
  then show ?thesis
  proof cases
    case 1
    with p q assms(1) show ?thesis by (metis add.assoc add_le_cancel_left)
  next
    case 2
    then have "q div b * b = p div b * b + b" by simp
    with p q assms(2) show ?thesis by linarith
  qed
qed

lemma laid_fits: "laid buf b pos rs \<Longrightarrow> fits_all b pos rs"
  by (induction rs arbitrary: pos) (auto simp: rec_at_def)

lemma laid_frame:
  assumes "laid buf b p2 rs" and "rec_fits b pos r" and "0 < b"
    and "same_outside (pos mod b) (pos mod b + rec_size r) buf buf'"
    and "p2 + recs_size rs \<le> pos \<and> pos + rec_size r \<le> p2 + b
       \<or> pos + rec_size r \<le> p2 \<and> p2 + recs_size rs \<le> pos + b"
  shows "laid buf' b p2 rs"
  using assms(1,5)
proof (induction rs arbitrary: p2)
  case Nil
  then show ?case by simp
next
  case (Cons x rs)
  from Cons.prems(1) have x: "rec_at buf b p2 x" and rest: "laid buf b (p2 + rec_size x) rs" by auto
  then have fx: "rec_fits b p2 x" by (simp add: rec_at_def)
  have "p2 mod b + rec_size x \<le> pos mod b \<or> pos mod b + rec_size r \<le> p2 mod b"
    using ring_disjoint [of p2 "rec_size x" pos "rec_size r" b]
      ring_disjoint [of pos "rec_size r" p2 "rec_size x" b]
      Cons.prems(2) rec_size_end [OF fx] rec_size_end [OF assms(2)] assms(3) by auto
  with x assms(4) have "rec_at buf' b p2 x" by (auto intro: rec_at_same)
  moreover have "laid buf' b (p2 + rec_size x) rs"
    by (rule Cons.IH [OF rest]) (use Cons.prems(2) in auto)
  ultimately show ?case by simp
qed

section \<open>The chain of reservations\<close>

lemma plan_size:
  assumes "plan_ok b pl"
  shows "plan_end pl = plan_begin pl + recs_size (plan_recs pl)" and "plan_begin pl < plan_end pl"
proof -
  obtain t p rs pad new where pl: "pl = (t, p, rs, pad, new)" by (cases pl)
  then show "plan_end pl = plan_begin pl + recs_size (plan_recs pl)"
    using assms by (cases "pad = 0") (simp_all add: pad_recs_def)
  then show "plan_begin pl < plan_end pl"
    using padded_props(1) [of "8 + length p"] by (simp add: pl)
qed

lemma chain_Cons:
  assumes "chain b ps pos (i # is) e"
  obtains pl where "i < length ps" "reservation (ps ! i) = Some pl" "plan_begin pl = pos" "plan_ok b pl"
    "chain b ps (plan_end pl) is e"
  using assms by (auto split: option.splits)

lemma chain_le: "chain b ps pos is e \<Longrightarrow> pos \<le> e"
proof (induction "is" arbitrary: pos)
  case (Cons i "is")
  from Cons.prems obtain pl where pl: "plan_begin pl = pos" "plan_ok b pl" "chain b ps (plan_end pl) is e"
    by (rule chain_Cons)
  from Cons.IH [OF pl(3)] plan_size(2) [OF pl(2)] pl(1) show ?case by simp
qed simp

lemma chain_member:
  assumes "chain b ps pos is e" and "i \<in> set is"
  shows "\<exists>pl. reservation (ps ! i) = Some pl \<and> plan_ok b pl \<and> pos \<le> plan_begin pl \<and> plan_end pl \<le> e"
  using assms
proof (induction "is" arbitrary: pos)
  case (Cons k "is")
  from Cons.prems(1) obtain pl where k: "reservation (ps ! k) = Some pl" "plan_begin pl = pos"
    "plan_ok b pl" "chain b ps (plan_end pl) is e"
    by (rule chain_Cons)
  show ?case
  proof (cases "i = k")
    case True
    with k chain_le [OF k(4)] show ?thesis by auto
  next
    case False
    with Cons.prems(2) have "i \<in> set is" by simp
    from Cons.IH [OF k(4) this] k(2) plan_size(2) [OF k(3)] show ?thesis
      by (meson le_trans less_imp_le order_refl)
  qed
qed simp

lemma chain_disjoint:
  assumes "chain b ps pos is e" and "i \<in> set is" and "j \<in> set is" and "i \<noteq> j"
    and "reservation (ps ! i) = Some pl" and "reservation (ps ! j) = Some pl'"
  shows "plan_end pl \<le> plan_begin pl' \<or> plan_end pl' \<le> plan_begin pl"
  using assms
proof (induction "is" arbitrary: pos)
  case (Cons k "is")
  from Cons.prems(1) obtain pl0 where k: "reservation (ps ! k) = Some pl0" "chain b ps (plan_end pl0) is e"
    by (rule chain_Cons)
  consider "i = k" "j \<in> set is" | "j = k" "i \<in> set is" | "i \<in> set is" "j \<in> set is"
    using Cons.prems(2,3,4) by auto
  then show ?case
  proof cases
    case 1
    then show ?thesis using k Cons.prems(5,6) chain_member [OF k(2) 1(2)] by simp
  next
    case 2
    then show ?thesis using k Cons.prems(5,6) chain_member [OF k(2) 2(2)] by simp
  next
    case 3
    from Cons.IH [OF k(2) 3] Cons.prems(4-6) show ?thesis by blast
  qed
qed simp

lemma chain_cong:
  assumes "length qs = length ps" and "\<And>k. k \<in> set is \<Longrightarrow> reservation (qs ! k) = reservation (ps ! k)"
  shows "chain b qs pos is e = chain b ps pos is e"
  using assms by (induction "is" arbitrary: pos) (simp_all split: option.splits)

lemma chain_snoc:
  assumes "chain b ps pos is e" and "i < length ps"
    and "reservation (ps ! i) = Some pl" and "plan_begin pl = e" and "plan_ok b pl"
  shows "chain b ps pos (is @ [i]) (plan_end pl)"
  using assms by (induction "is" arbitrary: pos) (auto split: option.splits)

lemma chain_head:
  assumes "chain b ps pos is e" and "i \<in> set is"
    and "reservation (ps ! i) = Some pl" and "plan_begin pl = pos"
  obtains is' where "is = i # is'" "chain b ps (plan_end pl) is' e" "plan_ok b pl"
proof (cases "is")
  case Nil
  with assms(2) show thesis by simp
next
  case (Cons k is')
  from assms(1) [unfolded Cons] obtain pl0 where
    k: "reservation (ps ! k) = Some pl0" "plan_begin pl0 = pos" "plan_ok b pl0" "chain b ps (plan_end pl0) is' e"
    by (rule chain_Cons)
  have "i = k"
  proof (rule ccontr)
    assume "i \<noteq> k"
    with assms(2) Cons have "i \<in> set is'" by simp
    from chain_member [OF k(4) this] assms(3,4) plan_size(2) [OF k(3)] k(2) show False by simp
  qed
  with that Cons k assms(3) show thesis by auto
qed

section \<open>Steps that leave the ring alone\<close>

lemma no_reservation [simp]:
  "\<not> reserving p \<Longrightarrow> written_ok buf b p"
  by (cases p) (auto simp: reserving_def)

lemma reserving_Some: "reservation p = Some pl \<Longrightarrow> reserving p"
  by (simp add: reserving_def)

lemma ring_inv_flags [simp]:
  "ring_inv bsize I recs (s\<lparr>misused := m\<rparr>) = ring_inv bsize I recs s"
  "ring_inv bsize I recs (s\<lparr>stale := m\<rparr>) = ring_inv bsize I recs s"
  by (simp_all add: ring_inv_def)

lemma ring_inv_quiet_prod:
  assumes "ring_inv bsize I recs s" and "i < length (prods s)"
    and "\<not> reserving (prods s ! i)" and "\<not> reserving q"
    and "prod_ok bsize (queue (shared s)) q"
  shows "ring_inv bsize I recs (s\<lparr>prods := (prods s)[i := q]\<rparr>)"
proof -
  have out: "i \<notin> set (flight s)" using assms(1-3) by (auto simp: ring_inv_def)
  then have same: "(prods s)[i := q] ! k = prods s ! k" if "k \<in> set (flight s)" for k
    using that by (metis nth_list_update_neq)
  then have "chain b ((prods s)[i := q]) pos (flight s) e = chain b (prods s) pos (flight s) e" for b pos e
    by (intro chain_cong) auto
  moreover have "map (\<lambda>k. flight_msg ((prods s)[i := q] ! k)) (flight s)
      = map (\<lambda>k. flight_msg (prods s ! k)) (flight s)"
    using same by auto
  ultimately show ?thesis
    using assms out by (simp add: ring_inv_def nth_list_update)
qed

lemma ring_inv_quiet_cons:
  assumes "ring_inv bsize I recs s" and "cons_ok I (queue (shared s)) recs c"
  shows "ring_inv bsize I recs (s\<lparr>cons := c\<rparr>)"
  using assms by (simp add: ring_inv_def)

lemma prod_msg_ok:
  assumes "ring_inv bsize I recs s" and "i < length (prods s)"
  shows "prod_ok bsize (queue (shared s)) (prods s ! i)"
  using assms by (simp add: ring_inv_def)

section \<open>Writing into the reserved range\<close>

lemma pad_recs_laid_frame:
  assumes "plan_ok b (t, p, rs, pad, new)"
  shows "unat rs + recs_size (pad_recs pad) \<le> unat new"
  using assms by (auto simp: pad_recs_def)

lemma written_range:
  assumes "reservation pc = Some pl" and "plan_ok b pl" and "written_ok buf b pc"
    and "\<And>recs. laid buf b (plan_begin pl) recs \<Longrightarrow> plan_begin pl + recs_size recs \<le> plan_end pl \<Longrightarrow>
      laid buf' b (plan_begin pl) recs"
  shows "written_ok buf' b pc"
proof (cases pc)
  case (PWriteMsg t p rs pad new)
  with assms pad_recs_laid_frame [of b t p rs pad new] show ?thesis by auto
next
  case (PPublish t p rs pad new)
  with assms plan_size(1) [OF assms(2)] show ?thesis by auto
qed (use assms in auto)

lemma ring_inv_write:
  assumes inv: "ring_inv bsize I recs s" and i: "i < length (prods s)"
    and old: "reservation (prods s ! i) = Some pl" and new: "reservation q = Some pl"
    and msg: "flight_msg q = flight_msg (prods s ! i)"
    and pos: "plan_begin pl \<le> pos" "pos + rec_size r \<le> plan_end pl"
    and fits: "rec_fits (unat bsize) pos r" and b: "0 < unat bsize"
    and so: "same_outside (pos mod unat bsize) (pos mod unat bsize + rec_size r) (ring (shared s)) buf"
    and written: "written_ok buf (unat bsize) q"
  shows "ring_inv bsize I recs (s\<lparr>prods := (prods s)[i := q], shared := (shared s)\<lparr>ring := buf\<rparr>\<rparr>)"
proof -
  let ?b = "unat bsize" and ?ps = "prods s" and ?qs = "(prods s)[i := q]"
  have fl: "i \<in> set (flight s)" using inv i reserving_Some [OF old] by (simp add: ring_inv_def)
  have ch: "chain ?b ?ps (unat (cm_pos s)) (flight s) (unat (rs_pos s))"
    and rd: "unat (rd_pos s) + recs_size recs = unat (cm_pos s)"
    and win: "unat (rs_pos s) \<le> unat (rd_pos s) + ?b"
    using inv by (auto simp: ring_inv_def)
  from chain_member [OF ch fl] old have
    own: "plan_ok ?b pl" "unat (cm_pos s) \<le> plan_begin pl" "plan_end pl \<le> unat (rs_pos s)" by auto
  have recs_laid: "laid buf ?b (unat (rd_pos s)) recs"
    by (rule laid_frame [OF _ fits b so])
      (use inv rd win own pos in \<open>auto simp: ring_inv_def\<close>)
  have others: "written_ok buf ?b (?ps ! k)" if k: "k < length ?ps" "k \<noteq> i" for k
  proof (cases "reservation (?ps ! k)")
    case None
    then show ?thesis by (simp add: reserving_def)
  next
    case (Some pl')
    with inv k(1) have kf: "k \<in> set (flight s)" by (simp add: ring_inv_def reserving_Some)
    from chain_member [OF ch kf] Some have
      r: "plan_ok ?b pl'" "unat (cm_pos s) \<le> plan_begin pl'" "plan_end pl' \<le> unat (rs_pos s)" by auto
    from chain_disjoint [OF ch kf fl k(2) Some old]
    have sep: "plan_end pl' \<le> plan_begin pl \<or> plan_end pl \<le> plan_begin pl'" .
    show ?thesis
    proof (rule written_range [OF Some r(1)])
      show "written_ok (ring (shared s)) ?b (?ps ! k)" using inv k(1) by (simp add: ring_inv_def)
      show "laid buf ?b (plan_begin pl') rs"
        if "laid (ring (shared s)) ?b (plan_begin pl') rs"
          "plan_begin pl' + recs_size rs \<le> plan_end pl'" for rs
        by (rule laid_frame [OF that(1) fits b so])
          (use that(2) sep pos r own win rd in linarith)
    qed
  qed
  have "chain ?b ?qs (unat (cm_pos s)) (flight s) (unat (rs_pos s))"
  proof -
    have "reservation (?qs ! k) = reservation (?ps ! k)" for k
      using old new i by (cases "k = i") simp_all
    with ch show ?thesis using chain_cong [of ?qs ?ps "flight s"] by simp
  qed
  moreover have "map (\<lambda>k. flight_msg (?qs ! k)) (flight s) = map (\<lambda>k. flight_msg (?ps ! k)) (flight s)"
    using msg i by (auto simp: nth_list_update)
  moreover have "prod_ok bsize (queue (shared s)) q" using new by (cases q) auto
  moreover have "length buf = ?b" using inv so by (simp add: ring_inv_def same_outside_def)
  moreover have "k \<in> set (flight s) \<longleftrightarrow> reserving (?qs ! k)" if "k < length ?ps" for k
    using inv fl new that by (cases "k = i") (simp_all add: ring_inv_def reserving_Some)
  ultimately show ?thesis
    using inv recs_laid others written i
    by (simp add: ring_inv_def nth_list_update)
qed

end
