(* ===== verification/Mpsc_Steps.thy ===== *)
theory Mpsc_Steps
  imports Mpsc_Safe
begin

text \<open>
  Every step of the concurrent queue keeps the invariant: the reservation, the two writes,
  the publication, and the passes of the consumer. The ring is taken to have a positive
  size divisible by 8; the root theory shows what happens otherwise.
\<close>

definition ring_size_ok :: "u64 \<Rightarrow> bool" where
  "ring_size_ok bsize \<longleftrightarrow> 0 < unat bsize \<and> 8 dvd unat bsize"

lemma prod_ok_queue [simp]:
  "prod_ok bsize (q\<lparr>reservePos := x\<rparr>) p = prod_ok bsize q p"
  "prod_ok bsize (q\<lparr>commitPos := x\<rparr>) p = prod_ok bsize q p"
  by (cases p; simp)+

lemma prod_ok_read_mono:
  "prod_ok bsize q p \<Longrightarrow> unat (readPos q) \<le> unat x \<Longrightarrow> prod_ok bsize (q\<lparr>readPos := x\<rparr>) p"
  by (cases p) auto

lemma cons_ok_reserve [simp]:
  "cons_ok I (q\<lparr>reservePos := x\<rparr>) recs c = cons_ok I q recs c"
  by (cases c) auto

lemma cons_ok_commit:
  "cons_ok I q recs c \<Longrightarrow> unat (commitPos q) \<le> unat x \<Longrightarrow>
   cons_ok I (q\<lparr>commitPos := x\<rparr>) (recs @ recs2) c"
  by (cases c) auto

section \<open>Reservation\<close>

lemma cas_plan:
  assumes inv: "ring_inv bsize I recs s" and sz: "ring_size_ok bsize"
    and i: "i < length (prods s)" and pc: "prods s ! i = PCas t p rd (rs_pos s) pad new"
    and fresh: "unat (rs_pos s - rd) \<le> unat bsize"
    and small: "total s + unat pad + unat (message_size p) < 2 ^ 64"
  shows "plan_ok (unat bsize) (t, p, rs_pos s, pad, new)" and "msg_ok t p"
    and "unat new \<le> unat (rd_pos s) + unat bsize" and "8 dvd unat new"
    and "pad = 0 \<or> pad \<ge> MessageHeaderSize"
    and "unat new = total s + unat pad + unat (message_size p)"
proof -
  let ?b = "unat bsize" and ?rs = "rs_pos s" and ?ms = "message_size p"
  have ok: "prod_ok bsize (queue (shared s)) (prods s ! i)" using prod_msg_ok [OF inv i] .
  then show msg: "msg_ok t p" using pc by simp
  have plan: "reserve_plan bsize rd ?rs ?ms = Some (pad, new)"
    and rd: "unat rd \<le> unat (rd_pos s)" using ok pc by simp_all
  have tot: "total s = unat ?rs" and al: "8 dvd unat ?rs" using inv by (simp_all add: ring_inv_def)
  have b: "0 < ?b" "8 dvd ?b" using sz by (auto simp: ring_size_ok_def)
  have small': "unat ?rs + unat pad + unat ?ms < 2 ^ 64" using small tot by simp
  note r = reserve_plan_Some [OF plan b(1) fresh small']
  have ms: "unat ?ms = padded (8 + length p)" using msg by (simp add: msg_ok_def message_size_unat)
  have pad8: "8 dvd unat pad" by (rule reserve_plan_aligned [OF plan b(1) fresh small' b(2) al])
  have pad_ge: "8 \<le> unat pad" if "pad \<noteq> 0"
  proof -
    have "unat pad \<noteq> 0" using that by (simp add: unat_eq_0)
    with pad8 show ?thesis by (auto dest: dvd_imp_le)
  qed
  then show "pad = 0 \<or> pad \<ge> MessageHeaderSize"
    by (auto simp: MessageHeaderSize_def word_le_nat_alt)
  have fit1: "rec_fits ?b (unat ?rs) (RPad (unat pad))" if "pad \<noteq> 0"
    using r(3) [OF that] pad_ge [OF that] pad8 unat_u32_less [of pad] by simp
  have "unat ((?rs + ucast pad) mod bsize) = (unat ?rs + unat pad) mod ?b"
    using r(4) by (simp add: unat_mod_distrib)
  then have fit2: "rec_fits ?b (unat ?rs + unat pad) (RMsg t p)"
    using r(5) ms msg by (simp add: msg_ok_def)
  show "plan_ok ?b (t, p, ?rs, pad, new)"
    using fit1 fit2 r(1,4) ms by (cases "pad = 0") (simp_all add: pad_recs_def)
  show "unat new = total s + unat pad + unat ?ms" using r(1) tot by simp
  show "8 dvd unat new" using r(1) al pad8 ms padded_props(3) [of "8 + length p"] by simp
  have "unat (?rs - rd) + unat rd \<ge> unat ?rs"
  proof (cases "unat rd \<le> unat ?rs")
    case True
    then show ?thesis by (simp add: unat_minus_simple64)
  qed simp
  with r(1,2) rd show "unat new \<le> unat (rd_pos s) + ?b" by linarith
qed

lemma cas_inv:
  assumes inv: "ring_inv bsize I recs s" and sz: "ring_size_ok bsize"
    and i: "i < length (prods s)" and pc: "prods s ! i = PCas t p rd (rs_pos s) pad new"
    and fresh: "unat (rs_pos s - rd) \<le> unat bsize"
    and small: "total s + unat pad + unat (message_size p) < 2 ^ 64"
    and q: "q = (if pad \<ge> MessageHeaderSize then PWritePad t p (rs_pos s) pad new
                 else PWriteMsg t p (rs_pos s) pad new)"
  shows "ring_inv bsize I recs
    ((store_reserve new (set_prod i q s))\<lparr>reserved := reserved s @ [(i, t, p)], flight := flight s @ [i],
       total := total s + unat pad + unat (message_size p), stale := z\<rparr>)"
proof -
  let ?b = "unat bsize" and ?ps = "prods s" and ?qs = "(prods s)[i := q]"
  note c = cas_plan [OF inv sz i pc fresh small]
  have res: "reservation q = Some (t, p, rs_pos s, pad, new)" and fm: "flight_msg q = (t, p)"
    using q by simp_all
  have out: "i \<notin> set (flight s)" using inv i pc by (auto simp: ring_inv_def reserving_def)
  then have same: "?qs ! k = ?ps ! k" if "k \<in> set (flight s)" for k
    using that by (metis nth_list_update_neq)
  have "chain ?b ?ps (unat (cm_pos s)) (flight s) (unat (rs_pos s))"
    using inv by (simp add: ring_inv_def)
  then have "chain ?b ?qs (unat (cm_pos s)) (flight s) (unat (rs_pos s))"
    using chain_cong [of ?qs ?ps "flight s"] same by simp
  from chain_snoc [OF this, of i "(t, p, rs_pos s, pad, new)"] res c(1) i
  have ch: "chain ?b ?qs (unat (cm_pos s)) (flight s @ [i]) (unat new)" by simp
  have fl: "map (\<lambda>k. flight_msg (?qs ! k)) (flight s) = map (\<lambda>k. flight_msg (?ps ! k)) (flight s)"
    using same by auto
  have mem: "k \<in> set (flight s @ [i]) \<longleftrightarrow> reserving (?qs ! k)" if "k < length ?ps" for k
    using inv that res by (cases "k = i") (simp_all add: ring_inv_def reserving_Some)
  have w: "written_ok (ring (shared s)) ?b q"
    using q c(5) by (auto simp: pad_recs_def MessageHeaderSize_def)
  have "prod_ok bsize qh q" for qh using q by simp
  moreover have "distinct (flight s @ [i])" using inv out by (simp add: ring_inv_def)
  ultimately show ?thesis
    using inv ch fl fm mem w c(3,4,6) i
    by (simp add: ring_inv_def nth_list_update)
qed

section \<open>The two writes\<close>

text \<open>A producer in flight: its reservation lies in the window, and its plan is in order.\<close>

lemma flight_plan:
  assumes "ring_inv bsize I recs s" and "i < length (prods s)" and "reservation (prods s ! i) = Some pl"
  shows "plan_ok (unat bsize) pl" and "i \<in> set (flight s)"
    and "written_ok (ring (shared s)) (unat bsize) (prods s ! i)"
    and "length (ring (shared s)) = unat bsize"
    and "plan_end pl \<le> plan_begin pl + unat bsize"
proof -
  show fl: "i \<in> set (flight s)" using assms reserving_Some by (simp add: ring_inv_def)
  have "chain (unat bsize) (prods s) (unat (cm_pos s)) (flight s) (unat (rs_pos s))"
    using assms(1) by (simp add: ring_inv_def)
  from chain_member [OF this fl] assms(3) have "plan_ok (unat bsize) pl"
    "unat (cm_pos s) \<le> plan_begin pl" "plan_end pl \<le> unat (rs_pos s)" by simp_all
  then show "plan_ok (unat bsize) pl" "plan_end pl \<le> plan_begin pl + unat bsize"
    using assms(1) by (auto simp: ring_inv_def)
qed (use assms in \<open>simp_all add: ring_inv_def\<close>)

lemma write_pad_inv:
  assumes inv: "ring_inv bsize I recs s" and sz: "ring_size_ok bsize"
    and i: "i < length (prods s)" and pc: "prods s ! i = PWritePad t p rs pad new"
  shows "ring_inv bsize I recs
    (store_ring (WritePaddingRecord (unat (rs mod bsize)) pad (ring (shared s)))
       (set_prod i (PWriteMsg t p rs pad new) s))"
proof -
  let ?b = "unat bsize" and ?r = "RPad (unat pad)"
  have b: "0 < ?b" using sz by (simp add: ring_size_ok_def)
  have res: "reservation (prods s ! i) = Some (t, p, rs, pad, new)" using pc by simp
  note f = flight_plan [OF inv i res]
  have pad: "pad \<noteq> 0" using f(3) pc by simp
  with f(1) have fits: "rec_fits ?b (unat rs) ?r"
    and end_pos: "unat rs + unat pad \<le> unat new" by (simp_all add: pad_recs_def)
  have off: "unat (rs mod bsize) = unat rs mod ?b" by (simp add: unat_mod_distrib)
  obtain buf where wr: "WritePaddingRecord (unat rs mod ?b) pad (ring (shared s)) = Some buf"
    and so: "same_outside (unat rs mod ?b) (unat rs mod ?b + unat pad) (ring (shared s)) buf"
    and rd: "mem_read (unat rs mod ?b) 8 buf = Some (header_bytes (rec_header ?r))"
    by (rule WritePaddingRecord_ok [of pad "unat pad" "unat rs mod ?b" "ring (shared s)"])
      (use fits f(4) in auto)
  have "rec_at buf ?b (unat rs) ?r" using fits rd by (simp add: rec_at_def)
  then have "written_ok buf ?b (PWriteMsg t p rs pad new)" using pad by (simp add: pad_recs_def)
  from ring_inv_write [OF inv i res _ _ _ _ fits b _ this] so end_pos pc wr off
  show ?thesis by (simp add: store_ring_def)
qed

lemma write_msg_inv:
  assumes inv: "ring_inv bsize I recs s" and sz: "ring_size_ok bsize"
    and i: "i < length (prods s)" and pc: "prods s ! i = PWriteMsg t p rs pad new"
  shows "ring_inv bsize I recs
    (store_ring (WriteMessageRecord (unat ((rs + ucast pad) mod bsize)) t p (ring (shared s)))
       (set_prod i (PPublish t p rs pad new) s))"
proof -
  let ?b = "unat bsize" and ?r = "RMsg t p" and ?pos = "unat rs + unat pad"
  have b: "0 < ?b" using sz by (simp add: ring_size_ok_def)
  have res: "reservation (prods s ! i) = Some (t, p, rs, pad, new)" using pc by simp
  note f = flight_plan [OF inv i res]
  have fits: "rec_fits ?b ?pos ?r" and fitp: "pad \<noteq> 0 \<Longrightarrow> rec_fits ?b (unat rs) (RPad (unat pad))"
    and end_pos: "?pos + rec_size ?r = unat new" and sum: "unat (rs + ucast pad) = ?pos"
    using f(1) by (cases "pad = 0"; simp add: pad_recs_def)+
  have off: "unat ((rs + ucast pad) mod bsize) = ?pos mod ?b" using sum by (simp add: unat_mod_distrib)
  obtain buf where wr: "WriteMessageRecord (?pos mod ?b) t p (ring (shared s)) = Some buf"
    and so: "same_outside (?pos mod ?b) (?pos mod ?b + padded (8 + length p)) (ring (shared s)) buf"
    and rd: "mem_read (?pos mod ?b) (8 + length p) buf = Some (header_bytes (rec_header ?r) @ p)"
    by (rule WriteMessageRecord_ok [of p "?pos mod ?b" "ring (shared s)" t]) (use fits f(4) in auto)
  have m: "rec_at buf ?b ?pos ?r" using fits rd by (simp add: rec_at_def)
  have "laid buf ?b (unat rs) (pad_recs pad)"
  proof (rule laid_frame [OF _ fits b])
    show "laid (ring (shared s)) ?b (unat rs) (pad_recs pad)" using f(3) pc by simp
    have "unat rs + recs_size (pad_recs pad) = ?pos" by (simp add: pad_recs_def)
    moreover have "?pos + rec_size ?r \<le> unat rs + ?b" using f(5) end_pos by simp
    ultimately show "unat rs + recs_size (pad_recs pad) \<le> ?pos \<and> ?pos + rec_size ?r \<le> unat rs + ?b
      \<or> ?pos + rec_size ?r \<le> unat rs \<and> unat rs + recs_size (pad_recs pad) \<le> ?pos + ?b" by simp
    show "same_outside (?pos mod ?b) (?pos mod ?b + rec_size ?r) (ring (shared s)) buf" using so by simp
  qed
  with m have "written_ok buf ?b (PPublish t p rs pad new)"
    by (simp add: laid_append pad_recs_def split: if_splits)
  from ring_inv_write [OF inv i res _ _ _ _ fits b _ this] so end_pos pc wr off
  show ?thesis by (simp add: store_ring_def)
qed

section \<open>Publication\<close>

lemma publish_inv:
  assumes inv: "ring_inv bsize I recs s"
    and i: "i < length (prods s)" and pc: "prods s ! i = PPublish t p (cm_pos s) pad new"
  shows "ring_inv bsize I (recs @ plan_recs (t, p, cm_pos s, pad, new))
    ((store_commit new (set_prod i PIdle s))\<lparr>flight := remove1 i (flight s)\<rparr>)"
proof -
  let ?b = "unat bsize" and ?ps = "prods s" and ?qs = "(prods s)[i := PIdle]"
  let ?pl = "(t, p, cm_pos s, pad, new)"
  have res: "reservation (?ps ! i) = Some ?pl" using pc by simp
  note f = flight_plan [OF inv i res]
  have ch0: "chain ?b ?ps (unat (cm_pos s)) (flight s) (unat (rs_pos s))"
    using inv by (simp add: ring_inv_def)
  obtain is' where fl: "flight s = i # is'" and ch: "chain ?b ?ps (plan_end ?pl) is' (unat (rs_pos s))"
    by (rule chain_head [OF ch0 f(2) res]) simp
  have out: "i \<notin> set is'" and dis: "distinct is'" using inv fl by (auto simp: ring_inv_def)
  then have same: "?qs ! k = ?ps ! k" if "k \<in> set is'" for k
    using that by (metis nth_list_update_neq)
  with ch have ch': "chain ?b ?qs (unat new) is' (unat (rs_pos s))"
    using chain_cong [of ?qs ?ps is'] by simp
  have msgs: "map (\<lambda>k. flight_msg (?qs ! k)) is' = map (\<lambda>k. flight_msg (?ps ! k)) is'"
    using same by auto
  have size: "unat new = unat (cm_pos s) + recs_size (plan_recs ?pl)" using plan_size(1) [OF f(1)] by simp
  have mem: "k \<in> set is' \<longleftrightarrow> reserving (?qs ! k)" if "k < length ?ps" for k
    using inv that fl out by (cases "k = i") (auto simp: ring_inv_def reserving_def)
  have laid: "laid (ring (shared s)) ?b (unat (cm_pos s)) (plan_recs ?pl)" using f(3) pc by simp
  have "rec_msgs (recs @ plan_recs ?pl) = rec_msgs recs @ [(t, p)]" for recs
    by (induction recs rule: rec_msgs.induct) (auto simp: pad_recs_def)
  moreover have "laid (ring (shared s)) ?b (unat (rd_pos s)) (recs @ plan_recs ?pl)"
    using inv laid by (simp add: ring_inv_def laid_append del: plan_recs.simps)
  moreover have "cons_ok I ((queue (shared s))\<lparr>commitPos := new\<rparr>) (recs @ plan_recs ?pl) (cons s)"
    by (rule cons_ok_commit) (use inv size in \<open>auto simp: ring_inv_def\<close>)
  ultimately show ?thesis
    using inv ch' msgs size mem fl dis i pc
    by (simp add: ring_inv_def nth_list_update del: plan_recs.simps)
qed

section \<open>The consumer\<close>

text \<open>A pass of the receive loop on a laid-out ring, with any commit position it may have loaded.\<close>

lemma consumer_pass:
  assumes inv: "ring_inv bsize I recs s" and sz: "ring_size_ok bsize" and pc: "cons s = CPass rd cm"
  shows "\<exists>r. receive_pass bsize I (ring (shared s)) rd cm = Some r \<and>
    (case r of NothingYet \<Rightarrow> True
     | SkipTo p \<Rightarrow> cons_ok I (queue (shared s)) recs (CSkip p)
     | Took m p \<Rightarrow> cons_ok I (queue (shared s)) recs (CTake m p))"
proof (cases "rd = cm")
  case True
  then show ?thesis by (simp add: receive_pass_def)
next
  case False
  let ?b = "unat bsize" and ?buf = "ring (shared s)"
  have "cons_ok I (queue (shared s)) recs (CPass rd cm)" using inv unfolding ring_inv_def pc by blast
  then have rd: "rd = rd_pos s" "unat rd \<le> unat cm" "unat cm \<le> unat (cm_pos s)" by auto
  have tot: "unat (rd_pos s) + recs_size recs = unat (cm_pos s)"
    and laid: "laid ?buf ?b (unat (rd_pos s)) recs" and al: "8 dvd unat (rd_pos s)"
    using inv by (simp_all add: ring_inv_def)
  have "unat rd < unat cm" using False rd(2) by (metis le_neq_implies_less word_unat_eq_iff)
  with rd tot obtain r rs where recs: "recs = r # rs" by (cases recs) auto
  then have at: "rec_at ?buf ?b (unat rd) r" and le: "unat rd + rec_size r \<le> unat (cm_pos s)"
    using laid rd tot by auto
  then have lt: "unat rd + rec_size r < 2 ^ 64" using unat_u64_less [of "cm_pos s"] by simp
  have "8 dvd ?b - unat rd mod ?b" using sz al rd(1) by (simp add: ring_size_ok_def dvd_mod)
  moreover have "0 < ?b - unat rd mod ?b" using sz by (simp add: ring_size_ok_def)
  ultimately have "8 \<le> ?b - unat rd mod ?b" by (auto dest: dvd_imp_le)
  note pass = receive_pass_rec [OF at False lt this, of I]
  have next_pos: "unat (rd + word_of_nat (rec_size r)) = unat rd + rec_size r"
    using lt by (simp add: unat_plus_simple64 unat_of_nat)
  show ?thesis
    using pass recs rd(1) next_pos by (cases r) simp_all
qed

lemma store_skip_inv:
  assumes inv: "ring_inv bsize I recs s" and pc: "cons s = CSkip p"
  shows "\<exists>recs'. ring_inv bsize I recs' ((store_read p s)\<lparr>cons := CLoadRead\<rparr>)"
proof -
  obtain n rs where recs: "recs = RPad n # rs" and p: "unat p = unat (rd_pos s) + n"
    using inv pc by (auto simp: ring_inv_def)
  have "rec_fits (unat bsize) (unat (rd_pos s)) (RPad n)"
    using inv recs by (simp add: ring_inv_def rec_at_def)
  then have "8 dvd n" by simp
  moreover have "\<forall>i < length (prods s). prod_ok bsize ((queue (shared s))\<lparr>readPos := p\<rparr>) (prods s ! i)"
    using inv p by (auto simp: ring_inv_def intro: prod_ok_read_mono)
  ultimately have "ring_inv bsize I rs ((store_read p s)\<lparr>cons := CLoadRead\<rparr>)"
    using inv recs p by (simp add: ring_inv_def)
  then show ?thesis by blast
qed

lemma store_take_inv:
  assumes inv: "ring_inv bsize I recs s" and pc: "cons s = CTake m p"
  shows "\<exists>recs'. ring_inv bsize I recs' ((store_read p s)\<lparr>cons := CIdle, taken := Suc (taken s),
    delivered := delivered s @ (case m of None \<Rightarrow> [] | Some x \<Rightarrow> [x])\<rparr>)"
proof -
  obtain t pl rs where recs: "recs = RMsg t pl # rs"
    and m: "m = (if wanted_code I (type_code t) then Some (type_code t, pl) else None)"
    and p: "unat p = unat (rd_pos s) + padded (8 + length pl)"
    using inv pc by (auto simp: ring_inv_def)
  let ?msgs = "map snd (reserved s)"
  have "drop (taken s) ?msgs = (t, pl) # rec_msgs rs @ map (\<lambda>i. flight_msg (prods s ! i)) (flight s)"
    using inv recs by (simp add: ring_inv_def drop_map)
  then have lt: "taken s < length (reserved s)"
    and hd: "?msgs ! taken s = (t, pl)"
    and tl: "drop (Suc (taken s)) ?msgs = rec_msgs rs @ map (\<lambda>i. flight_msg (prods s ! i)) (flight s)"
    by (metis drop_all length_map list.distinct(1) not_less, metis nth_via_drop,
        metis drop_Suc list.sel(3) tl_drop)
  have "take (Suc (taken s)) ?msgs = take (taken s) ?msgs @ [(t, pl)]"
    using lt hd by (simp add: take_Suc_conv_app_nth del: nth_map)
  then have "map encode_msg (filter (\<lambda>m. wanted_code I (type_code (fst m))) (take (Suc (taken s)) ?msgs))
    = delivered s @ (case m of None \<Rightarrow> [] | Some x \<Rightarrow> [x])"
    using inv m by (simp add: ring_inv_def take_map encode_msg_def)
  moreover have "\<forall>i < length (prods s). prod_ok bsize ((queue (shared s))\<lparr>readPos := p\<rparr>) (prods s ! i)"
    using inv p by (auto simp: ring_inv_def intro: prod_ok_read_mono)
  ultimately have "ring_inv bsize I rs ((store_read p s)\<lparr>cons := CIdle, taken := Suc (taken s),
    delivered := delivered s @ (case m of None \<Rightarrow> [] | Some x \<Rightarrow> [x])\<rparr>)"
    using inv recs p lt tl padded_props(3) [of "8 + length pl"]
    by (simp add: ring_inv_def take_map drop_map)
  then show ?thesis by blast
qed

section \<open>All steps\<close>

lemma clean_back: "mpsc_step bsize I s t \<Longrightarrow> clean t \<Longrightarrow> clean s"
  by (erule mpsc_step.cases) (auto simp: clean_def store_ring_def split: option.splits)

lemma mpsc_step_inv:
  assumes "mpsc_step bsize I s t" and "clean t" and inv: "ring_inv bsize I recs s" and sz: "ring_size_ok bsize"
  shows "\<exists>recs'. ring_inv bsize I recs' t"
  using assms(1)
proof (cases rule: mpsc_step.cases)
  case (call_send i p ty)
  with assms(2) have "msg_ok ty p" by (simp add: clean_def msg_ok_def)
  with call_send ring_inv_quiet_prod [OF inv call_send(2), of "PLoadRead ty p"]
  show ?thesis by (auto simp: reserving_def)
next
  case (load_read i ty p)
  with ring_inv_quiet_prod [OF inv load_read(2), of "PLoadReserve ty p (rd_pos s)"] prod_msg_ok [OF inv load_read(2)]
  show ?thesis by (auto simp: reserving_def)
next
  case (reserve_full i ty p rd)
  with ring_inv_quiet_prod [OF inv reserve_full(2), of "PRetry ty p"] prod_msg_ok [OF inv reserve_full(2)]
  show ?thesis by (auto simp: reserving_def)
next
  case (reserve_go i ty p rd pad new)
  with ring_inv_quiet_prod [OF inv reserve_go(2), of "PCas ty p rd (rs_pos s) pad new"]
    prod_msg_ok [OF inv reserve_go(2)]
  show ?thesis by (auto simp: reserving_def)
next
  case (cas_ok i ty p rd rs pad new q)
  with assms(2) have "unat (rs_pos s - rd) \<le> unat bsize"
    "total s + unat pad + unat (message_size p) < 2 ^ 64"
    by (auto simp: clean_def)
  with cas_inv [OF inv sz cas_ok(2), of ty p rd pad new q] cas_ok show ?thesis by blast
next
  case (cas_fail i ty p rd rs pad new)
  with ring_inv_quiet_prod [OF inv cas_fail(2), of "PLoadRead ty p"] prod_msg_ok [OF inv cas_fail(2)]
  show ?thesis by (auto simp: reserving_def)
next
  case (write_pad i ty p rs pad new)
  with write_pad_inv [OF inv sz] show ?thesis by blast
next
  case (write_msg i ty p rs pad new)
  with write_msg_inv [OF inv sz] show ?thesis by blast
next
  case (publish i ty p rs pad new)
  with publish_inv [OF inv publish(2), of ty p pad new] show ?thesis by blast
next
  case (send_again i ty p)
  with ring_inv_quiet_prod [OF inv send_again(2), of "PLoadRead ty p"] prod_msg_ok [OF inv send_again(2)]
  show ?thesis by (auto simp: reserving_def)
next
  case (give_up i ty p)
  with ring_inv_quiet_prod [OF inv give_up(2), of PIdle] show ?thesis by (auto simp: reserving_def)
next
  case call_receive
  with ring_inv_quiet_cons [OF inv, of CLoadRead] show ?thesis by auto
next
  case load_own_read
  with ring_inv_quiet_cons [OF inv, of "CLoadCommit (rd_pos s)"] show ?thesis by auto
next
  case (load_commit rd)
  with inv have "rd = rd_pos s" "unat rd \<le> unat (cm_pos s)" by (auto simp: ring_inv_def)
  with load_commit ring_inv_quiet_cons [OF inv, of "CPass rd (cm_pos s)"] show ?thesis by auto
next
  case (pass_fault rd cm)
  with consumer_pass [OF inv sz pass_fault(2)] show ?thesis by auto
next
  case (pass_nothing rd cm)
  with ring_inv_quiet_cons [OF inv, of CIdle] show ?thesis by auto
next
  case (pass_skip rd cm p)
  with consumer_pass [OF inv sz pass_skip(2)] ring_inv_quiet_cons [OF inv, of "CSkip p"]
  show ?thesis by auto
next
  case (pass_take rd cm m p)
  with consumer_pass [OF inv sz pass_take(2)] ring_inv_quiet_cons [OF inv, of "CTake m p"]
  show ?thesis by auto
next
  case (store_skip p)
  with store_skip_inv [OF inv] show ?thesis by blast
next
  case (store_take m p)
  with store_take_inv [OF inv] show ?thesis by blast
qed

lemma mpsc_init_inv:
  assumes "mpsc_init bsize n s" and "ring_size_ok bsize"
  shows "ring_inv bsize I [] s"
  using assms by (auto simp: mpsc_init_def ring_inv_def fresh_queue_def reserving_def)

text \<open>The size of the ring is a parameter of the system: the laws hold for a ring size that is in order.\<close>

interpretation shared_ring: invariant_system "\<lambda>s. mpsc_init bsize n s \<and> ring_size_ok bsize"
  "\<lambda>s t. mpsc_step bsize I s t \<and> ring_size_ok bsize" "mpsc_good bsize I" for bsize n I
proof (unfold_locales, goal_cases)
  case (1 s)
  then show ?case by (auto simp: mpsc_good_def intro: mpsc_init_inv)
next
  case (2 s t)
  then show ?case by (auto simp: mpsc_good_def dest: clean_back mpsc_step_inv)
qed

lemma mpsc_reachable_inv:
  assumes "mpsc_init bsize n s" and "(mpsc_step bsize I)\<^sup>*\<^sup>* s t" and "ring_size_ok bsize" and "clean t"
  shows "\<exists>recs. ring_inv bsize I recs t"
proof -
  have "(\<lambda>s t. mpsc_step bsize I s t \<and> ring_size_ok bsize) = mpsc_step bsize I"
    using assms(3) by simp
  with assms shared_ring.reachable_good [of bsize n s I t] show ?thesis
    by (simp add: mpsc_good_def)
qed

end
