(* ===== verification/Mpsc_Runs.thy ===== *)
theory Mpsc_Runs
  imports Mpsc_Steps
begin

text \<open>
  Runs of the concurrent queue: one producer alone never works on a stale free-space
  value; a scheduler that picks the thread to move makes runs executable; and the
  properties of the queue under concurrency.
\<close>

section \<open>A single producer\<close>

text \<open>
  What the only producer knows about the free space: the \<open>readPos\<close> it has loaded is old
  at worst, while nobody else moves \<open>reservePos\<close>.
\<close>

fun spsc_pc_ok :: "u64 \<Rightarrow> u64 \<Rightarrow> prod_pc \<Rightarrow> bool" where
  "spsc_pc_ok bsize rs (PLoadReserve t p rd) \<longleftrightarrow> unat rd \<le> unat rs \<and> unat rs \<le> unat rd + unat bsize"
| "spsc_pc_ok bsize rs (PCas t p rd rs' pad new) \<longleftrightarrow>
     unat rd \<le> unat rs' \<and> unat rs' \<le> unat rd + unat bsize"
| "spsc_pc_ok bsize rs _ \<longleftrightarrow> True"

definition spsc_good :: "u64 \<Rightarrow> message_type \<Rightarrow> mpsc_sys \<Rightarrow> bool" where
  "spsc_good bsize I s \<longleftrightarrow> length (prods s) = 1 \<and>
     (total s < 2 ^ 64 \<and> \<not> misused s \<longrightarrow>
        \<not> stale s \<and> (\<exists>recs. ring_inv bsize I recs s) \<and> spsc_pc_ok bsize (rs_pos s) (prods s ! 0))"

lemma store_ring_simps [simp]:
  "prods (store_ring r s) = prods s" "total (store_ring r s) = total s"
  "misused (store_ring r s) = misused s" "stale (store_ring r s) = stale s"
  "rs_pos (store_ring r s) = rs_pos s"
  by (simp_all add: store_ring_def split: option.splits)

lemma ring_inv_window:
  assumes "ring_inv bsize I recs s"
  shows "unat (rd_pos s) \<le> unat (rs_pos s)" and "unat (rs_pos s) \<le> unat (rd_pos s) + unat bsize"
proof -
  have "chain (unat bsize) (prods s) (unat (cm_pos s)) (flight s) (unat (rs_pos s))"
    and "unat (rd_pos s) + recs_size recs = unat (cm_pos s)"
    using assms by (simp_all add: ring_inv_def)
  with chain_le show "unat (rd_pos s) \<le> unat (rs_pos s)" by fastforce
qed (use assms in \<open>simp add: ring_inv_def\<close>)

lemma spsc_pc_step:
  assumes "mpsc_step bsize I s t" and "length (prods s) = 1" and "spsc_pc_ok bsize (rs_pos s) (prods s ! 0)"
    and "ring_inv bsize I recs s"
  shows "spsc_pc_ok bsize (rs_pos t) (prods t ! 0) \<and> length (prods t) = 1 \<and>
    (stale t \<longrightarrow> stale s)"
  using assms(1)
proof (cases rule: mpsc_step.cases)
  case (cas_ok i ty p rd rs pad new q)
  with assms(2,3) have "unat (rs - rd) \<le> unat bsize" by (auto simp: unat_minus_simple64)
  with cas_ok assms(2) show ?thesis by auto
qed (use assms(2,3) ring_inv_window [OF assms(4)] in auto)

lemma spsc_step_good:
  assumes "mpsc_step bsize I s t" and "ring_size_ok bsize" and "spsc_good bsize I s"
  shows "spsc_good bsize I t"
proof -
  have len: "length (prods t) = 1"
    using assms(1,3) by (cases rule: mpsc_step.cases) (auto simp: spsc_good_def)
  {
    assume c: "total t < 2 ^ 64" "\<not> misused t"
    have "total s < 2 ^ 64" "\<not> misused s"
      using assms(1) c by (cases rule: mpsc_step.cases; auto)+
    with assms(3) obtain recs where s: "\<not> stale s" "ring_inv bsize I recs s"
      "spsc_pc_ok bsize (rs_pos s) (prods s ! 0)" "length (prods s) = 1"
      by (auto simp: spsc_good_def)
    from spsc_pc_step [OF assms(1) s(4,3,2)] s(1) have
      t: "spsc_pc_ok bsize (rs_pos t) (prods t ! 0)" "\<not> stale t" by auto
    with c have "clean t" by (simp add: clean_def)
    from mpsc_step_inv [OF assms(1) this s(2) assms(2)] t
    have "\<not> stale t \<and> (\<exists>recs. ring_inv bsize I recs t) \<and> spsc_pc_ok bsize (rs_pos t) (prods t ! 0)"
      by blast
  }
  with len show ?thesis by (simp add: spsc_good_def)
qed

interpretation single_producer: invariant_system "\<lambda>s. mpsc_init bsize 1 s \<and> ring_size_ok bsize"
  "\<lambda>s t. mpsc_step bsize I s t \<and> ring_size_ok bsize" "spsc_good bsize I" for bsize I
proof (unfold_locales, goal_cases)
  case (1 s)
  then show ?case
    using mpsc_init_inv [of bsize 1 s I] by (auto simp: spsc_good_def mpsc_init_def)
next
  case (2 s t)
  then show ?case by (auto intro: spsc_step_good)
qed

lemma spsc_reachable_good:
  assumes "mpsc_init bsize 1 s" and "(mpsc_step bsize I)\<^sup>*\<^sup>* s t" and "ring_size_ok bsize"
  shows "spsc_good bsize I t"
proof -
  have "(\<lambda>s t. mpsc_step bsize I s t \<and> ring_size_ok bsize) = mpsc_step bsize I"
    using assms(3) by simp
  with assms single_producer.reachable_good [of bsize s I t] show ?thesis by simp
qed

section \<open>An executable scheduler\<close>

text \<open>
  A turn names the thread that moves: a producer (with the message when it starts a call)
  or the consumer. A compare-and-swap succeeds when it can; a refused sender tries again.
\<close>

datatype turn = TurnCall nat message_type "u8 list" | TurnProd nat | TurnCons

definition prod_turn :: "u64 \<Rightarrow> nat \<Rightarrow> mpsc_sys \<Rightarrow> mpsc_sys option" where
  "prod_turn bsize i s =
     (case prods s ! i of
        PLoadRead t p \<Rightarrow> Some (set_prod i (PLoadReserve t p (rd_pos s)) s)
      | PLoadReserve t p rd \<Rightarrow>
          (case reserve_plan bsize rd (rs_pos s) (message_size p) of
             None \<Rightarrow> Some (set_prod i (PRetry t p) s)
           | Some (pad, new) \<Rightarrow> Some (set_prod i (PCas t p rd (rs_pos s) pad new) s))
      | PCas t p rd rs pad new \<Rightarrow>
          (if rs_pos s = rs
           then Some ((store_reserve new (set_prod i (if pad \<ge> MessageHeaderSize
                         then PWritePad t p rs pad new else PWriteMsg t p rs pad new) s))
                   \<lparr>reserved := reserved s @ [(i, t, p)], flight := flight s @ [i],
                    total := total s + unat pad + unat (message_size p),
                    stale := stale s \<or> unat (rs - rd) > unat bsize\<rparr>)
           else Some (set_prod i (PLoadRead t p) s))
      | PWritePad t p rs pad new \<Rightarrow>
          Some (store_ring (WritePaddingRecord (unat (rs mod bsize)) pad (ring (shared s)))
                  (set_prod i (PWriteMsg t p rs pad new) s))
      | PWriteMsg t p rs pad new \<Rightarrow>
          Some (store_ring (WriteMessageRecord (unat ((rs + ucast pad) mod bsize)) t p (ring (shared s)))
                  (set_prod i (PPublish t p rs pad new) s))
      | PPublish t p rs pad new \<Rightarrow>
          (if cm_pos s = rs
           then Some ((store_commit new (set_prod i PIdle s))\<lparr>flight := remove1 i (flight s)\<rparr>)
           else None)
      | PRetry t p \<Rightarrow> Some (set_prod i (PLoadRead t p) s)
      | PIdle \<Rightarrow> None)"

definition cons_turn :: "u64 \<Rightarrow> message_type \<Rightarrow> mpsc_sys \<Rightarrow> mpsc_sys" where
  "cons_turn bsize interested s =
     (case cons s of
        CIdle \<Rightarrow> s\<lparr>cons := CLoadRead\<rparr>
      | CLoadRead \<Rightarrow> s\<lparr>cons := CLoadCommit (rd_pos s)\<rparr>
      | CLoadCommit rd \<Rightarrow> s\<lparr>cons := CPass rd (cm_pos s)\<rparr>
      | CPass rd cm \<Rightarrow>
          (case receive_pass bsize interested (ring (shared s)) rd cm of
             None \<Rightarrow> s\<lparr>cons := CIdle, faulted := True\<rparr>
           | Some NothingYet \<Rightarrow> s\<lparr>cons := CIdle\<rparr>
           | Some (SkipTo p) \<Rightarrow> s\<lparr>cons := CSkip p\<rparr>
           | Some (Took m p) \<Rightarrow> s\<lparr>cons := CTake m p\<rparr>)
      | CSkip p \<Rightarrow> (store_read p s)\<lparr>cons := CLoadRead\<rparr>
      | CTake m p \<Rightarrow> (store_read p s)\<lparr>cons := CIdle, taken := Suc (taken s),
          delivered := delivered s @ (case m of None \<Rightarrow> [] | Some x \<Rightarrow> [x])\<rparr>)"

fun take_turn :: "u64 \<Rightarrow> message_type \<Rightarrow> turn \<Rightarrow> mpsc_sys \<Rightarrow> mpsc_sys option" where
  "take_turn bsize interested (TurnCall i t p) s =
     (if i < length (prods s) \<and> prods s ! i = PIdle \<and> \<not> ucast (message_size p) > bsize
      then Some ((set_prod i (PLoadRead t p) s)
                   \<lparr>misused := misused s \<or> t = Padding \<or> length p + 15 \<ge> 2 ^ 32\<rparr>)
      else None)"
| "take_turn bsize interested (TurnProd i) s =
     (if i < length (prods s) then prod_turn bsize i s else None)"
| "take_turn bsize interested TurnCons s = Some (cons_turn bsize interested s)"

abbreviation take_turns :: "u64 \<Rightarrow> message_type \<Rightarrow> turn list \<Rightarrow> mpsc_sys \<Rightarrow> mpsc_sys option" where
  "take_turns bsize interested \<equiv> run_turns (take_turn bsize interested)"

lemma prod_turn_step:
  assumes "prod_turn bsize i s = Some t" and "i < length (prods s)"
  shows "mpsc_step bsize I s t"
proof (cases "prods s ! i")
  case PIdle
  with assms show ?thesis by (simp add: prod_turn_def)
next
  case (PLoadRead ty p)
  with assms mpsc_step.load_read [of i s ty p bsize I] show ?thesis by (auto simp: prod_turn_def)
next
  case (PLoadReserve ty p rd)
  with assms mpsc_step.reserve_full [of i s ty p rd bsize I]
    mpsc_step.reserve_go [of i s ty p rd bsize _ _ I]
  show ?thesis by (auto simp: prod_turn_def split: option.splits)
next
  case (PCas ty p rd rs pad new)
  with assms mpsc_step.cas_ok [of i s ty p rd rs pad new _ bsize I]
    mpsc_step.cas_fail [of i s ty p rd rs pad new bsize I]
  show ?thesis by (auto simp: prod_turn_def split: if_splits)
next
  case (PWritePad ty p rs pad new)
  with assms mpsc_step.write_pad [of i s ty p rs pad new bsize I] show ?thesis by (auto simp: prod_turn_def)
next
  case (PWriteMsg ty p rs pad new)
  with assms mpsc_step.write_msg [of i s ty p rs pad new bsize I] show ?thesis by (auto simp: prod_turn_def)
next
  case (PPublish ty p rs pad new)
  with assms mpsc_step.publish [of i s ty p rs pad new bsize I] show ?thesis
    by (auto simp: prod_turn_def split: if_splits)
next
  case (PRetry ty p)
  with assms mpsc_step.send_again [of i s ty p bsize I] show ?thesis by (auto simp: prod_turn_def)
qed

lemma cons_turn_step: "mpsc_step bsize I s (cons_turn bsize I s)"
proof (cases "cons s")
  case CIdle
  with mpsc_step.call_receive [of s bsize I] show ?thesis by (simp add: cons_turn_def)
next
  case CLoadRead
  with mpsc_step.load_own_read [of s bsize I] show ?thesis by (simp add: cons_turn_def)
next
  case (CLoadCommit rd)
  with mpsc_step.load_commit [of s rd bsize I] show ?thesis by (simp add: cons_turn_def)
next
  case (CPass rd cm)
  with mpsc_step.pass_fault [of s rd cm bsize I] mpsc_step.pass_nothing [of s rd cm bsize I]
    mpsc_step.pass_skip [of s rd cm bsize I] mpsc_step.pass_take [of s rd cm bsize I]
  show ?thesis by (auto simp: cons_turn_def split: option.splits recv_pass.splits)
next
  case (CSkip p)
  with mpsc_step.store_skip [of s p bsize I] show ?thesis by (simp add: cons_turn_def)
next
  case (CTake m p)
  with mpsc_step.store_take [of s m p bsize I] show ?thesis by (simp add: cons_turn_def)
qed

lemma take_turn_step:
  assumes "take_turn bsize I x s = Some t"
  shows "mpsc_step bsize I s t"
proof (cases x)
  case (TurnCall i ty p)
  with assms mpsc_step.call_send [where i = i and s = s and p = p and bsize = bsize and t = ty and interested = I] show ?thesis by (simp split: if_splits)
next
  case (TurnProd i)
  with assms show ?thesis by (auto intro: prod_turn_step split: if_splits)
next
  case TurnCons
  with assms cons_turn_step show ?thesis by auto
qed

interpretation mpsc_schedule: scheduled_system "mpsc_step bsize I" "take_turn bsize I" for bsize I
  by unfold_locales (rule take_turn_step)

lemmas take_turns_run = mpsc_schedule.turns_run

section \<open>Properties\<close>

text \<open>Concrete runs: a ring of 16 bytes and two producers.\<close>

definition race_start :: mpsc_sys where
  "race_start = \<lparr>shared = \<lparr>protocol = fresh_protocol, queue = fresh_queue,
       ring = [0, 0, 0, 0, 0, 0, 0, 0, 0, 0, 0, 0, 0, 0, 0, 0]\<rparr>,
     prods = [PIdle, PIdle], cons = CIdle, reserved = [], taken = 0, delivered = [],
     flight = [], total = 0, stale = False, misused = False, faulted = False\<rparr>"

text \<open>
  Producer 0 loads \<open>readPos\<close> and is delayed; producer 1 sends, the consumer receives,
  producer 1 sends again and fills the ring; then producer 0 goes on.
\<close>

definition race_turns :: "turn list" where
  "race_turns =
     [TurnCall 0 Text [3], TurnProd 0,
      TurnCall 1 Text [1], TurnProd 1, TurnProd 1, TurnProd 1, TurnProd 1, TurnProd 1,
      TurnCons, TurnCons, TurnCons, TurnCons, TurnCons,
      TurnCall 1 Text [2], TurnProd 1, TurnProd 1, TurnProd 1, TurnProd 1, TurnProd 1,
      TurnProd 0, TurnProd 0, TurnProd 0, TurnProd 0,
      TurnCons, TurnCons, TurnCons, TurnCons, TurnCons,
      TurnCons, TurnCons, TurnCons, TurnCons, TurnCons]"

text \<open>One producer sends a message and the consumer takes it.\<close>

definition calm_turns :: "turn list" where
  "calm_turns =
     [TurnCall 1 Text [1], TurnProd 1, TurnProd 1, TurnProd 1, TurnProd 1, TurnProd 1,
      TurnCons, TurnCons, TurnCons, TurnCons, TurnCons]"

lemma le_bytes_4:
  "le_bytes 4 w = [ucast w, ucast (drop_bit 8 w), ucast (drop_bit 16 w), ucast (drop_bit 24 w)]"
  by (simp add: eval_nat_numeral drop_bit_drop_bit)

lemmas mpsc_eval = race_start_def race_turns_def calm_turns_def fresh_queue_def prod_turn_def cons_turn_def
  reserve_plan_def Let_def message_size_def AlignUp_def MessageHeaderSize_def Alignment_def
  WriteMessageRecord_def WritePaddingRecord_def mem_write_def mem_read_def header_bytes_def
  bytes_header_def receive_pass_def wanted_code_def store_ring_def le_bytes_4

lemma replicate_2: "replicate 2 x = [x, x]"
  by (simp add: eval_nat_numeral)

lemma race_start_init: "mpsc_init 16 2 race_start"
  by (simp add: mpsc_init_def race_start_def replicate_2)

lemma ring_16_ok [simp]: "ring_size_ok 16"
  by (simp add: ring_size_ok_def)

lemma calm_run:
  "\<exists>t. (mpsc_step 16 All)\<^sup>*\<^sup>* race_start t \<and> clean t \<and> taken t = 1 \<and>
    reserved t = [(1, Text, [1])] \<and> delivered t = [(1, [1])]"
proof -
  have "\<exists>t. take_turns 16 All calm_turns race_start = Some t \<and> clean t \<and> taken t = 1 \<and>
    reserved t = [(1, Text, [1])] \<and> delivered t = [(1, [1])]"
    by (simp add: mpsc_eval clean_def)
  then show ?thesis using take_turns_run by blast
qed

text \<open>C1: On every run of any number of producers and the consumer that stays clean, what the
  consumer has handed out is exactly the messages of its type (and stops) among the messages it
  has taken, in the order of their reservations: none is lost, repeated, reordered or torn, and
  no copy leaves the ring.\<close>
theorem mpsc_delivers_in_order:
  assumes "mpsc_init bsize n s" and "(mpsc_step bsize I)\<^sup>*\<^sup>* s t" and "ring_size_ok bsize" and "clean t"
  shows "delivered t = map encode_msg
      (filter (\<lambda>m. wanted_code I (type_code (fst m))) (map snd (take (taken t) (reserved t))))
    \<and> taken t \<le> length (reserved t) \<and> \<not> faulted t"
proof -
  obtain recs where "ring_inv bsize I recs t" using mpsc_reachable_inv [OF assms] by blast
  then show ?thesis by (simp add: ring_inv_def)
qed

theorem mpsc_delivers_in_order_witness:
  "\<exists>t. (mpsc_step 16 All)\<^sup>*\<^sup>* race_start t \<and> delivered t = [(1, [1])] \<and> delivered t = map encode_msg
      (filter (\<lambda>m. wanted_code All (type_code (fst m))) (map snd (take (taken t) (reserved t))))
    \<and> taken t \<le> length (reserved t) \<and> \<not> faulted t"
  using calm_run mpsc_delivers_in_order [OF race_start_init] ring_16_ok by blast

text \<open>C7: With a single producer no assumption on the interleaving is needed: as long as fewer
  than 2^64 bytes are sent and the callers keep to messages of at most 2^32 - 16 bytes that are
  not of type Padding, the free space is never computed from a stale readPos and delivery is
  in order.\<close>
theorem mpsc_single_producer_safe:
  assumes "mpsc_init bsize 1 s" and "(mpsc_step bsize I)\<^sup>*\<^sup>* s t" and "ring_size_ok bsize"
    and "total t < 2 ^ 64" and "\<not> misused t"
  shows "\<not> stale t \<and> \<not> faulted t \<and> delivered t = map encode_msg
      (filter (\<lambda>m. wanted_code I (type_code (fst m))) (map snd (take (taken t) (reserved t))))"
proof -
  from spsc_reachable_good [OF assms(1-3)] assms(4,5) obtain recs where
    "\<not> stale t" "ring_inv bsize I recs t" by (auto simp: spsc_good_def)
  then show ?thesis by (simp add: ring_inv_def)
qed

theorem mpsc_single_producer_safe_witness:
  "\<exists>t. (mpsc_step 16 All)\<^sup>*\<^sup>* (race_start\<lparr>prods := [PIdle]\<rparr>) t \<and> total t = 16 \<and>
    \<not> stale t \<and> \<not> faulted t \<and> delivered t = map encode_msg
      (filter (\<lambda>m. wanted_code All (type_code (fst m))) (map snd (take (taken t) (reserved t))))"
proof -
  have "\<exists>t. take_turns 16 All [TurnCall 0 Text [1], TurnProd 0, TurnProd 0, TurnProd 0, TurnProd 0, TurnProd 0,
      TurnCons, TurnCons, TurnCons, TurnCons, TurnCons] (race_start\<lparr>prods := [PIdle]\<rparr>) = Some t \<and>
    total t = 16 \<and> \<not> misused t"
    by (simp add: mpsc_eval)
  moreover have "mpsc_init 16 1 (race_start\<lparr>prods := [PIdle]\<rparr>)"
    by (simp add: mpsc_init_def race_start_def)
  ultimately obtain t where "(mpsc_step 16 All)\<^sup>*\<^sup>* (race_start\<lparr>prods := [PIdle]\<rparr>) t" "total t = 16" "\<not> misused t"
    and i: "mpsc_init 16 1 (race_start\<lparr>prods := [PIdle]\<rparr>)"
    using take_turns_run by blast
  then show ?thesis using mpsc_single_producer_safe [OF i, of All t] by auto
qed

text \<open>C2: With two producers the queue can lose a message: TrySend loads readPos before
  reservePos, and when the other side has moved on in between the subtraction bufferSize - used
  wraps, the check for free space passes and an unread message is overwritten. In this run of the
  model three messages are reserved, the second is never delivered and the third is delivered
  twice.\<close>
theorem mpsc_two_producers_lose_message:
  "\<exists>t. mpsc_init 16 2 race_start \<and> (mpsc_step 16 All)\<^sup>*\<^sup>* race_start t \<and> total t = 48 \<and> \<not> misused t \<and>
     reserved t = [(1, Text, [1]), (1, Text, [2]), (0, Text, [3])] \<and>
     delivered t = [(1, [1]), (1, [3]), (1, [3])]"
proof -
  have "\<exists>t. take_turns 16 All race_turns race_start = Some t \<and> total t = 48 \<and> \<not> misused t \<and>
     reserved t = [(1, Text, [1]), (1, Text, [2]), (0, Text, [3])] \<and>
     delivered t = [(1, [1]), (1, [3]), (1, [3])]"
    by (simp add: mpsc_eval)
  then show ?thesis using take_turns_run race_start_init by blast
qed

text \<open>On every clean run the three positions are ordered and at most one ring apart, and they
  count the bytes reserved so far without wrapping: readPos <= commitPos <= reservePos <=
  readPos + bufferSize; positions are multiples of the alignment.\<close>
theorem mpsc_positions_ordered:
  assumes "mpsc_init bsize n s" and "(mpsc_step bsize I)\<^sup>*\<^sup>* s t" and "ring_size_ok bsize" and "clean t"
  shows "rd_pos t \<le> cm_pos t \<and> cm_pos t \<le> rs_pos t \<and> unat (rs_pos t) \<le> unat (rd_pos t) + unat bsize \<and>
    unat (rs_pos t) = total t \<and> 8 dvd unat (rs_pos t) \<and> 8 dvd unat (rd_pos t)"
proof -
  obtain recs where inv: "ring_inv bsize I recs t" using mpsc_reachable_inv [OF assms] by blast
  then have "unat (rd_pos t) + recs_size recs = unat (cm_pos t)"
    and "unat (cm_pos t) \<le> unat (rs_pos t)" by (auto simp: ring_inv_def dest: chain_le)
  then have "rd_pos t \<le> cm_pos t" "cm_pos t \<le> rs_pos t" by (simp_all add: word_le_nat_alt)
  then show ?thesis using inv by (simp add: ring_inv_def)
qed

theorem mpsc_positions_ordered_witness:
  "\<exists>t. (mpsc_step 16 All)\<^sup>*\<^sup>* race_start t \<and> taken t = 1 \<and> rd_pos t \<le> cm_pos t \<and> cm_pos t \<le> rs_pos t \<and>
    unat (rs_pos t) \<le> unat (rd_pos t) + unat (16 :: u64) \<and>
    unat (rs_pos t) = total t \<and> 8 dvd unat (rs_pos t) \<and> 8 dvd unat (rd_pos t)"
  using calm_run mpsc_positions_ordered [OF race_start_init, where I = All] ring_16_ok by blast

text \<open>On every clean run the writes of the producers do not race: two producers between
  their reservation and their publication own disjoint ranges of positions, and both ranges lie
  between commitPos and readPos + bufferSize, apart from what the consumer reads.\<close>
theorem mpsc_writers_disjoint:
  assumes "mpsc_init bsize n s" and "(mpsc_step bsize I)\<^sup>*\<^sup>* s t" and "ring_size_ok bsize" and "clean t"
    and "i < length (prods t)" and "j < length (prods t)" and "i \<noteq> j"
    and "reservation (prods t ! i) = Some pl" and "reservation (prods t ! j) = Some pl'"
  shows "(plan_end pl \<le> plan_begin pl' \<or> plan_end pl' \<le> plan_begin pl) \<and>
    unat (cm_pos t) \<le> plan_begin pl \<and> plan_end pl \<le> unat (rd_pos t) + unat bsize"
proof -
  obtain recs where inv: "ring_inv bsize I recs t" using mpsc_reachable_inv [OF assms(1-4)] by blast
  then have ch: "chain (unat bsize) (prods t) (unat (cm_pos t)) (flight t) (unat (rs_pos t))"
    and win: "unat (rs_pos t) \<le> unat (rd_pos t) + unat bsize" by (simp_all add: ring_inv_def)
  note fi = flight_plan(2) [OF inv assms(5,8)] and fj = flight_plan(2) [OF inv assms(6,9)]
  from chain_disjoint [OF ch fi fj assms(7-9)] chain_member [OF ch fi] assms(8) win
  show ?thesis by auto
qed

theorem mpsc_writers_disjoint_witness:
  "\<exists>t. (mpsc_step 32 All)\<^sup>*\<^sup>* (race_start\<lparr>shared := (shared race_start)\<lparr>ring := replicate 32 0\<rparr>\<rparr>) t \<and>
    reservation (prods t ! 0) = Some (Text, [1], 0, 0, 16) \<and>
    reservation (prods t ! 1) = Some (Text, [2], 16, 0, 32) \<and>
    (plan_end (Text, [1], 0, 0, 16) \<le> plan_begin (Text, [2], 16, 0, 32) \<or>
     plan_end (Text, [2], 16, 0, 32) \<le> plan_begin (Text, [1], 0, 0, 16)) \<and>
    unat (cm_pos t) \<le> plan_begin (Text, [1], 0, 0, 16) \<and>
    plan_end (Text, [1], 0, 0, 16) \<le> unat (rd_pos t) + unat (32 :: u64)"
proof -
  let ?s = "race_start\<lparr>shared := (shared race_start)\<lparr>ring := replicate 32 0\<rparr>\<rparr>"
  have "\<exists>t. take_turns 32 All [TurnCall 0 Text [1], TurnCall 1 Text [2], TurnProd 0, TurnProd 0, TurnProd 0,
      TurnProd 1, TurnProd 1, TurnProd 1] ?s = Some t \<and>
    clean t \<and> length (prods t) = 2 \<and>
    reservation (prods t ! 0) = Some (Text, [1], 0, 0, 16) \<and>
    reservation (prods t ! 1) = Some (Text, [2], 16, 0, 32)"
    by (simp add: mpsc_eval clean_def)
  then obtain t where t: "(mpsc_step 32 All)\<^sup>*\<^sup>* ?s t" "clean t" "length (prods t) = 2"
    "reservation (prods t ! 0) = Some (Text, [1], 0, 0, 16)"
    "reservation (prods t ! 1) = Some (Text, [2], 16, 0, 32)"
    using take_turns_run by blast
  have "mpsc_init 32 2 ?s" by (simp add: mpsc_init_def race_start_def replicate_2)
  from mpsc_writers_disjoint [OF this t(1) _ t(2) _ _ _ t(4,5)] t show ?thesis
    by (auto simp: ring_size_ok_def)
qed

end
