(* ===== verification/Mpsc_Seq.thy ===== *)
theory Mpsc_Seq
  imports Mpsc_Runs
begin

text \<open>
  \<open>TrySend\<close>, \<open>Send\<close> and \<open>TryReceive\<close> of \<^verbatim>\<open>hw-5/mpsc_queue.cpp\<close> without interference, as a
  refinement of a plain list of messages; and the three inputs on which the code is not
  such a queue: a ring size that is not a multiple of 8, a message that needs more room
  than the ring has at its position, and a payload whose size does not fit 32 bits.
\<close>

section \<open>Abstraction\<close>

text \<open>The shared memory holds the records \<open>recs\<close> and no call is on its way.\<close>

definition shm_holds :: "u64 \<Rightarrow> ring_rec list \<Rightarrow> shm \<Rightarrow> bool" where
  "shm_holds bsize recs s \<longleftrightarrow> length (ring s) = unat bsize \<and> 8 dvd unat (readPos (queue s)) \<and>
     laid (ring s) (unat bsize) (unat (readPos (queue s))) recs \<and>
     unat (readPos (queue s)) + recs_size recs = unat (commitPos (queue s)) \<and>
     reservePos (queue s) = commitPos (queue s) \<and> recs_size recs \<le> unat bsize"

text \<open>The padding in front of a message of a given size at a position.\<close>

definition pad_for :: "nat \<Rightarrow> nat \<Rightarrow> nat \<Rightarrow> nat" where
  "pad_for b pos msz = (if b - pos mod b < msz then b - pos mod b else 0)"

section \<open>Sending\<close>

lemma reserve_plan_room:
  assumes "unat rd + used = unat rs" and "used \<le> unat bsize" and "0 < unat bsize"
    and "pad = pad_for (unat bsize) (unat rs) (unat ms)"
  shows "reserve_plan bsize rd rs ms = None \<longleftrightarrow> unat bsize < used + pad + unat ms"
    and "reserve_plan bsize rd rs ms = Some (w, new) \<Longrightarrow> unat w = pad"
proof -
  let ?tail = "bsize - rs mod bsize"
  let ?w = "if ?tail < ucast ms then ucast ?tail else 0 :: u32"
  have off: "unat (rs mod bsize) = unat rs mod unat bsize" by (simp add: unat_mod_distrib)
  have off_lt: "unat rs mod unat bsize < unat bsize" using assms(3) by simp
  have tail: "unat ?tail = unat bsize - unat rs mod unat bsize"
    using off off_lt by (simp add: unat_minus_simple64)
  have lt: "?tail < ucast ms \<longleftrightarrow> unat bsize - unat rs mod unat bsize < unat ms"
    using tail by (simp add: word_less_nat_alt)
  have w: "unat ?w = pad"
  proof (cases "?tail < ucast ms")
    case True
    then have "unat ?tail < 2 ^ 32" using unat_u32_less [of ms] by (simp add: word_less_nat_alt)
    then show ?thesis using True lt tail assms(4)
      by (simp add: unsigned_ucast_eq take_bit_nat_eq_self pad_for_def)
  next
    case False
    then show ?thesis using lt assms(4) by (simp add: pad_for_def)
  qed
  have "unat (rs - rd) = used" using assms(1) by (simp add: unat_minus_simple64)
  then have free: "unat (bsize - (rs - rd)) = unat bsize - used"
    using assms(2) by (simp add: unat_minus_simple64)
  have req: "unat (ucast ?w + ucast ms :: u64) = pad + unat ms"
  proof -
    have "unat (ucast ?w :: u64) + unat (ucast ms :: u64) < 2 ^ 64"
      using unat_u32_less [of ?w] unat_u32_less [of ms] by simp
    then show ?thesis using w by (simp add: unat_plus_simple64)
  qed
  have "reserve_plan bsize rd rs ms = None \<longleftrightarrow> bsize - (rs - rd) < ucast ?w + ucast ms"
    by (simp add: reserve_plan_def Let_def)
  also have "\<dots> \<longleftrightarrow> unat bsize < used + pad + unat ms"
    using free req assms(2) by (auto simp: word_less_nat_alt)
  finally show "reserve_plan bsize rd rs ms = None \<longleftrightarrow> unat bsize < used + pad + unat ms" .
  show "reserve_plan bsize rd rs ms = Some (w, new) \<Longrightarrow> unat w = pad"
    using w by (auto simp: reserve_plan_def Let_def split: if_splits)
qed

text \<open>The writes after a reservation lay out its records and keep what lies in the same window.\<close>

lemma write_reserved_ok:
  assumes "plan_ok (unat bsize) (t, p, rs, pad, new)" and "pad = 0 \<or> pad \<ge> MessageHeaderSize"
    and "length buf = unat bsize" and "0 < unat bsize" and "unat new \<le> unat rd + unat bsize"
    and "laid buf (unat bsize) (unat rd) recs" and "unat rd + recs_size recs = unat rs"
  shows "\<exists>buf'. write_reserved bsize rs pad t p buf = Some buf' \<and> length buf' = length buf \<and>
    laid buf' (unat bsize) (unat rd) (recs @ plan_recs (t, p, rs, pad, new))"
proof -
  let ?b = "unat bsize" and ?pos = "unat rs + unat pad" and ?m = "RMsg t p"
  have fits: "rec_fits ?b ?pos ?m" and fitp: "pad \<noteq> 0 \<Longrightarrow> rec_fits ?b (unat rs) (RPad (unat pad))"
    and end_pos: "?pos + rec_size ?m = unat new" and sum: "unat (rs + ucast pad) = ?pos"
    using assms(1) by (cases "pad = 0"; simp add: pad_recs_def)+
  have off: "unat (rs mod bsize) = unat rs mod ?b" "unat ((rs + ucast pad) mod bsize) = ?pos mod ?b"
    using sum by (simp_all add: unat_mod_distrib)
  have eight: "unat MessageHeaderSize = 8" by (simp add: MessageHeaderSize_def)
  obtain buf1 where b1: "(if pad \<ge> MessageHeaderSize then WritePaddingRecord (unat rs mod ?b) pad buf else Some buf)
      = Some buf1" and len1: "length buf1 = ?b"
    and laid1: "laid buf1 ?b (unat rd) (recs @ pad_recs pad)"
  proof (cases "pad = 0")
    case True
    then have "\<not> MessageHeaderSize \<le> pad" by (simp add: MessageHeaderSize_def word_le_nat_alt)
    with that [of buf] True assms(3,6) show thesis by (simp add: pad_recs_def)
  next
    case False
    note fitp = fitp [OF False]
    obtain buf1 where wr: "WritePaddingRecord (unat rs mod ?b) pad buf = Some buf1"
      and so: "same_outside (unat rs mod ?b) (unat rs mod ?b + unat pad) buf buf1"
      and rd: "mem_read (unat rs mod ?b) 8 buf1 = Some (header_bytes (rec_header (RPad (unat pad))))"
      by (rule WritePaddingRecord_ok [of pad "unat pad" "unat rs mod ?b" buf]) (use fitp assms(3) in auto)
    have "laid buf1 ?b (unat rd) recs"
      by (rule laid_frame [OF assms(6) fitp assms(4)]) (use so assms(5,7) end_pos in auto)
    moreover have "rec_at buf1 ?b (unat rs) (RPad (unat pad))" using fitp rd by (simp add: rec_at_def)
    moreover have "length buf1 = ?b" using so assms(3) by (simp add: same_outside_def)
    ultimately show thesis
      using that [of buf1] wr assms(2,7) False by (simp add: laid_append pad_recs_def)
  qed
  obtain buf2 where wr: "WriteMessageRecord (?pos mod ?b) t p buf1 = Some buf2"
    and so: "same_outside (?pos mod ?b) (?pos mod ?b + padded (8 + length p)) buf1 buf2"
    and rd: "mem_read (?pos mod ?b) (8 + length p) buf2 = Some (header_bytes (rec_header ?m) @ p)"
    by (rule WriteMessageRecord_ok [of p "?pos mod ?b" buf1 t]) (use fits len1 in auto)
  have msz: "recs_size (pad_recs pad) = unat pad" by (simp add: pad_recs_def)
  have "laid buf2 ?b (unat rd) (recs @ pad_recs pad)"
    by (rule laid_frame [OF laid1 fits assms(4)]) (use so assms(5,7) end_pos msz in auto)
  moreover have "rec_at buf2 ?b ?pos ?m" using fits rd by (simp add: rec_at_def)
  ultimately have "laid buf2 ?b (unat rd) (recs @ plan_recs (t, p, rs, pad, new))"
    using assms(7) msz by (simp add: laid_append add.assoc [symmetric])
  moreover have "length buf2 = length buf" using so len1 assms(3) by (simp add: same_outside_def)
  moreover have "write_reserved bsize rs pad t p buf = Some buf2"
    using b1 wr off by (cases "pad \<ge> MessageHeaderSize") (simp_all add: write_reserved_def)
  ultimately show ?thesis by blast
qed

lemma laid_dvd: "laid buf b pos recs \<Longrightarrow> 8 dvd recs_size recs"
  by (induction recs arbitrary: pos) (auto simp: rec_at_def dest: rec_size_dvd)

lemma TrySend_full:
  assumes "shm_holds bsize recs s" and "ring_size_ok bsize" and "msg_ok t p"
    and "msz = padded (8 + length p)" and "msz \<le> unat bsize"
    and "pad = pad_for (unat bsize) (unat (commitPos (queue s))) msz"
  shows "TrySend bsize t p s = SendFull \<longleftrightarrow> unat bsize < recs_size recs + pad + msz"
    and "\<not> ucast (message_size p) > bsize"
proof -
  have ms: "unat (message_size p) = msz" using assms(3,4) by (simp add: msg_ok_def message_size_unat)
  then show big: "\<not> ucast (message_size p) > bsize"
    using assms(5) by (simp add: word_less_nat_alt)
  have r: "reserve_plan bsize (readPos (queue s)) (reservePos (queue s)) (message_size p) = None \<longleftrightarrow>
      unat bsize < recs_size recs + pad + msz"
    using reserve_plan_room(1) [of "readPos (queue s)" "recs_size recs" "reservePos (queue s)" bsize pad
        "message_size p"] assms(1,2,6) ms
    by (simp add: shm_holds_def ring_size_ok_def)
  show "TrySend bsize t p s = SendFull \<longleftrightarrow> unat bsize < recs_size recs + pad + msz"
    using big r by (auto simp: TrySend_def split: option.splits)
qed

lemma TrySend_done:
  assumes "shm_holds bsize recs s" and "ring_size_ok bsize" and "msg_ok t p"
    and "msz = padded (8 + length p)"
    and "pad = pad_for (unat bsize) (unat (commitPos (queue s))) msz"
    and "recs_size recs + pad + msz \<le> unat bsize"
    and "unat (commitPos (queue s)) + pad + msz < 2 ^ 64"
  shows "\<exists>s'. TrySend bsize t p s = SendDone s' \<and> protocol s' = protocol s \<and>
    shm_holds bsize (recs @ (if pad = 0 then [] else [RPad pad]) @ [RMsg t p]) s'"
proof -
  let ?rd = "readPos (queue s)" and ?rs = "reservePos (queue s)" and ?ms = "message_size p"
  have ms: "unat ?ms = msz" using assms(3,4) by (simp add: msg_ok_def message_size_unat)
  have b: "0 < unat bsize" "8 dvd unat bsize" using assms(2) by (auto simp: ring_size_ok_def)
  have pos: "unat ?rd + recs_size recs = unat ?rs" "recs_size recs \<le> unat bsize" "?rs = commitPos (queue s)"
    and al: "8 dvd unat ?rd" and len: "length (ring s) = unat bsize"
    and laid: "laid (ring s) (unat bsize) (unat ?rd) recs"
    using assms(1) by (simp_all add: shm_holds_def)
  have "8 dvd recs_size recs" by (rule laid_dvd [OF laid])
  then have al': "8 dvd unat ?rs" using al pos(1) by (metis dvd_add)
  have padr: "pad = pad_for (unat bsize) (unat ?rs) (unat ?ms)" using assms(5) ms pos(3) by simp
  note room = reserve_plan_room [OF pos(1,2) b(1) padr]
  from room(1) assms(6) ms obtain w new where plan: "reserve_plan bsize ?rd ?rs ?ms = Some (w, new)"
    by fastforce
  note w = room(2) [OF plan]
  have used: "unat (?rs - ?rd) \<le> unat bsize" using pos by (simp add: unat_minus_simple64)
  have small: "unat ?rs + unat w + unat ?ms < 2 ^ 64" using assms(7) w ms pos(3) by simp
  note r = reserve_plan_Some [OF plan b(1) used small]
  have w8: "8 dvd unat w" by (rule reserve_plan_aligned [OF plan b(1) used small b(2) al'])
  then have wge: "w = 0 \<or> 8 \<le> unat w" by (metis dvd_imp_le gr0I unat_eq_0)
  then have wge': "w = 0 \<or> w \<ge> MessageHeaderSize" by (simp add: MessageHeaderSize_def word_le_nat_alt)
  have "rec_fits (unat bsize) (unat ?rs) (RPad (unat w))" if "w \<noteq> 0"
    using r(3) [OF that] wge that w8 unat_u32_less [of w] by simp
  moreover have "unat ((?rs + ucast w) mod bsize) = (unat ?rs + unat w) mod unat bsize"
    using r(4) by (simp add: unat_mod_distrib)
  then have "rec_fits (unat bsize) (unat ?rs + unat w) (RMsg t p)"
    using r(5) ms assms(3,4) by (simp add: msg_ok_def)
  ultimately have ok: "plan_ok (unat bsize) (t, p, ?rs, w, new)"
    using r(1,4) ms assms(4) by (cases "w = 0") (simp_all add: pad_recs_def)
  have new: "unat new = unat ?rs + pad + msz" using r(1) w ms by simp
  have "unat new \<le> unat ?rd + unat bsize" using new pos(1) assms(6) by simp
  from write_reserved_ok [OF ok wge' len b(1) this laid pos(1)] obtain buf where
    buf: "write_reserved bsize ?rs w t p (ring s) = Some buf" "length buf = unat bsize"
    "laid buf (unat bsize) (unat ?rd) (recs @ plan_recs (t, p, ?rs, w, new))" using len by auto
  have w0: "w = 0 \<longleftrightarrow> pad = 0" using w by (auto simp: unat_eq_0)
  then have recs: "plan_recs (t, p, ?rs, w, new) = (if pad = 0 then [] else [RPad pad]) @ [RMsg t p]"
    using w by (simp add: pad_recs_def)
  have big: "\<not> ucast ?ms > bsize" using assms(6) ms by (simp add: word_less_nat_alt)
  show ?thesis
    using big plan buf recs al new pos assms(4,6)
    by (auto simp: TrySend_def shm_holds_def)
qed

section \<open>Receiving\<close>

lemma pass_on_holds:
  assumes "shm_holds bsize (r # rs) s" and "ring_size_ok bsize"
  shows "receive_pass bsize I (ring s) (readPos (queue s)) (commitPos (queue s)) =
      Some (pass_of I r (readPos (queue s) + word_of_nat (rec_size r)))"
    and "shm_holds bsize rs (store_read_pos (readPos (queue s) + word_of_nat (rec_size r)) s)"
proof -
  let ?rd = "readPos (queue s)" and ?cm = "commitPos (queue s)"
  have at: "rec_at (ring s) (unat bsize) (unat ?rd) r" and al: "8 dvd unat ?rd"
    and rest: "laid (ring s) (unat bsize) (unat ?rd + rec_size r) rs"
    and pos: "unat ?rd + rec_size r + recs_size rs = unat ?cm"
    using assms(1) by (auto simp: shm_holds_def)
  have fits: "rec_fits (unat bsize) (unat ?rd) r" using at by (simp add: rec_at_def)
  have lt: "unat ?rd + rec_size r < 2 ^ 64" using pos unat_u64_less [of ?cm] by simp
  have "?rd \<noteq> ?cm" using pos rec_size_ge [OF fits] by auto
  moreover have "8 dvd unat bsize - unat ?rd mod unat bsize"
    using assms(2) al by (simp add: ring_size_ok_def dvd_mod)
  then have "unat bsize - unat ?rd mod unat bsize \<ge> 8"
    using assms(2) by (auto simp: ring_size_ok_def dest!: dvd_imp_le)
  ultimately show "receive_pass bsize I (ring s) ?rd ?cm = Some (pass_of I r (?rd + word_of_nat (rec_size r)))"
    using receive_pass_rec [OF at _ lt, of ?cm I] pos by simp
  have "unat (?rd + word_of_nat (rec_size r)) = unat ?rd + rec_size r"
    using lt by (simp add: unat_plus_simple64 unat_of_nat)
  then show "shm_holds bsize rs (store_read_pos (?rd + word_of_nat (rec_size r)) s)"
    using assms(1) rest pos al rec_size_dvd [OF fits] by (simp add: shm_holds_def)
qed

lemma TryReceive_holds:
  assumes "shm_holds bsize recs s" and "ring_size_ok bsize"
  shows "\<exists>r s' recs'. TryReceive bsize I s = Some (r, s') \<and> shm_holds bsize recs' s' \<and>
    (case rec_msgs recs of
       [] \<Rightarrow> r = RecvNone \<and> rec_msgs recs' = []
     | (t, p) # ms \<Rightarrow> r = (if wanted_code I (type_code t) then RecvSome (type_code t) p else RecvNone) \<and>
         rec_msgs recs' = ms)"
  using assms(1)
proof (induction recs arbitrary: s)
  case Nil
  then have "readPos (queue s) = commitPos (queue s)"
    by (simp add: shm_holds_def word_unat_eq_iff)
  with Nil show ?case
    by (subst TryReceive.simps) (auto simp: receive_pass_def)
next
  case (Cons r rs)
  note pass = pass_on_holds(1) [OF Cons.prems assms(2), of I] pass_on_holds(2) [OF Cons.prems assms(2)]
  show ?case
  proof (cases r)
    case (RPad n)
    with Cons.IH [OF pass(2)] pass(1) show ?thesis
      by (subst TryReceive.simps) simp
  next
    case (RMsg t p)
    with pass show ?thesis
      by (subst TryReceive.simps) (auto simp del: store_read_pos_def)
  qed
qed

text \<open>\<open>Receive\<close> returns the first message it is interested in, when there is one.\<close>

lemma Receive_holds:
  assumes "shm_holds bsize recs s" and "ring_size_ok bsize"
    and "rec_msgs recs = skipped @ (t, p) # ms"
    and "\<forall>m \<in> set skipped. \<not> wanted_code I (type_code (fst m))" and "wanted_code I (type_code t)"
  shows "\<exists>s' recs'. Receive bsize I s = Some (RecvSome (type_code t) p, s') \<and>
    shm_holds bsize recs' s' \<and> rec_msgs recs' = ms"
  using assms(1,3,4)
proof (induction skipped arbitrary: s recs)
  case Nil
  from TryReceive_holds [OF Nil(1) assms(2), of I] Nil(2) assms(5) show ?case
    by (subst Receive.simps) (fastforce split: recv_result.splits)
next
  case (Cons m skipped)
  from TryReceive_holds [OF Cons.prems(1) assms(2), of I] Cons.prems(2,3) obtain s1 recs1 where
    "TryReceive bsize I s = Some (RecvNone, s1)" "shm_holds bsize recs1 s1"
    "rec_msgs recs1 = skipped @ (t, p) # ms" by (cases m) auto
  with Cons.IH [of recs1 s1] Cons.prems(3) show ?case by (subst Receive.simps) simp
qed

lemma Send_done: "TrySend bsize t p s = SendDone s' \<Longrightarrow> Send bsize t p s = Some (SendDone s')"
  by (subst Send.simps) simp

lemma Send_returns:
  assumes "Send bsize t p s = Some r"
  shows "TrySend bsize t p s = r \<and> r \<noteq> SendFull"
proof (rule Send.raw_induct [where P = "\<lambda>bsize t p s r. TrySend bsize t p s = r \<and> r \<noteq> SendFull", OF _ assms],
    goal_cases)
  case (1 snd bsize t p s r)
  then show ?case by (cases "TrySend bsize t p s") auto
qed

lemma Send_full_diverges: "TrySend bsize t p s = SendFull \<Longrightarrow> Send bsize t p s = None"
  using Send_returns [of bsize t p s] by (cases "Send bsize t p s") auto

section \<open>Properties\<close>

text \<open>A fresh region with a ring of \<open>n\<close> bytes.\<close>

definition fresh_shm :: "nat \<Rightarrow> shm" where
  "fresh_shm n = \<lparr>protocol = fresh_protocol, queue = fresh_queue, ring = replicate n 0\<rparr>"

lemma fresh_holds: "unat bsize = n \<Longrightarrow> shm_holds bsize [] (fresh_shm n)"
  by (simp add: shm_holds_def fresh_shm_def fresh_queue_def)

lemma fresh_commit [simp]: "commitPos (queue (fresh_shm n)) = 0"
  by (simp add: fresh_shm_def fresh_queue_def)

lemma ring_64_ok: "ring_size_ok 64"
  by (simp add: ring_size_ok_def)

lemma rec_msgs_append [simp]: "rec_msgs (rs @ rs') = rec_msgs rs @ rec_msgs rs'"
  by (induction rs rule: rec_msgs.induct) auto

lemma TrySend_refined:
  assumes "shm_holds bsize recs s" and "ring_size_ok bsize" and "msg_ok t p"
    and "unat (commitPos (queue s)) + 2 * unat bsize < 2 ^ 64"
  shows "case TrySend bsize t p s of
      SendThrew e \<Rightarrow> e = MessageTooLarge \<and> unat bsize < padded (8 + length p)
    | SendFull \<Rightarrow> padded (8 + length p) \<le> unat bsize \<and> unat bsize < recs_size recs +
        pad_for (unat bsize) (unat (commitPos (queue s))) (padded (8 + length p)) + padded (8 + length p)
    | SendDone s' \<Rightarrow> \<exists>recs'. shm_holds bsize recs' s' \<and> rec_msgs recs' = rec_msgs recs @ [(t, p)]
    | SendFault \<Rightarrow> False"
proof -
  let ?n = "padded (8 + length p)"
  let ?pad = "pad_for (unat bsize) (unat (commitPos (queue s))) ?n"
  have ms: "unat (message_size p) = ?n" using assms(3) by (simp add: msg_ok_def message_size_unat)
  consider "unat bsize < ?n" | "?n \<le> unat bsize" "unat bsize < recs_size recs + ?pad + ?n"
    | "?n \<le> unat bsize" "recs_size recs + ?pad + ?n \<le> unat bsize" by linarith
  then show ?thesis
  proof cases
    case 1
    with ms have "ucast (message_size p) > bsize" by (simp add: word_less_nat_alt)
    with 1 show ?thesis by (simp add: TrySend_def)
  next
    case 2
    with TrySend_full(1) [OF assms(1-3) refl 2(1) refl] show ?thesis by simp
  next
    case 3
    from 3 assms(4) have "unat (commitPos (queue s)) + ?pad + ?n < 2 ^ 64" by linarith
    from TrySend_done [OF assms(1-3) refl refl 3(2) this] obtain s' where
      "TrySend bsize t p s = SendDone s'"
      "shm_holds bsize (recs @ (if ?pad = 0 then [] else [RPad ?pad]) @ [RMsg t p]) s'" by blast
    then show ?thesis by (auto intro!: exI [of _ "recs @ (if ?pad = 0 then [] else [RPad ?pad]) @ [RMsg t p]"])
  qed
qed

text \<open>C18: TrySend without interference refines the enqueue of a list of messages: it throws
  exactly when the message is larger than the ring, returns false exactly when the bytes in
  use, the padding to the end of the ring and the message do not fit, and otherwise appends the
  message to the contents; no write leaves the ring.\<close>
theorem try_send_refines_enqueue:
  assumes "shm_holds bsize recs s" and "ring_size_ok bsize" and "msg_ok t p"
    and "unat (commitPos (queue s)) + 2 * unat bsize < 2 ^ 64"
  shows "case TrySend bsize t p s of
      SendThrew e \<Rightarrow> e = MessageTooLarge \<and> unat bsize < padded (8 + length p)
    | SendFull \<Rightarrow> padded (8 + length p) \<le> unat bsize \<and> unat bsize < recs_size recs +
        pad_for (unat bsize) (unat (commitPos (queue s))) (padded (8 + length p)) + padded (8 + length p)
    | SendDone s' \<Rightarrow> \<exists>recs'. shm_holds bsize recs' s' \<and> rec_msgs recs' = rec_msgs recs @ [(t, p)]
    | SendFault \<Rightarrow> False"
  by (rule TrySend_refined [OF assms])

theorem try_send_refines_enqueue_witness:
  "case TrySend 64 Text [7, 8] (fresh_shm 64) of
      SendThrew e \<Rightarrow> e = MessageTooLarge \<and> unat (64 :: u64) < padded (8 + length [7, 8 :: u8])
    | SendFull \<Rightarrow> padded (8 + length [7, 8 :: u8]) \<le> unat (64 :: u64) \<and> unat (64 :: u64) < recs_size [] +
        pad_for (unat (64 :: u64)) (unat (commitPos (queue (fresh_shm 64)))) (padded (8 + length [7, 8 :: u8]))
          + padded (8 + length [7, 8 :: u8])
    | SendDone s' \<Rightarrow> \<exists>recs'. shm_holds 64 recs' s' \<and> rec_msgs recs' = rec_msgs [] @ [(Text, [7, 8])]
    | SendFault \<Rightarrow> False"
  by (rule try_send_refines_enqueue [OF fresh_holds ring_64_ok]) (simp_all add: msg_ok_def)

text \<open>C19: TryReceive without interference refines the dequeue of that list: on an empty list it
  returns nullopt, otherwise it removes the oldest message and returns it when the consumer is
  interested in it (or it is a stop) and nullopt when not; it steps over padding and always
  returns.\<close>
theorem try_receive_refines_dequeue:
  assumes "shm_holds bsize recs s" and "ring_size_ok bsize"
  shows "\<exists>r s' recs'. TryReceive bsize I s = Some (r, s') \<and> shm_holds bsize recs' s' \<and>
    (case rec_msgs recs of
       [] \<Rightarrow> r = RecvNone \<and> rec_msgs recs' = []
     | (t, p) # ms \<Rightarrow> r = (if wanted_code I (type_code t) then RecvSome (type_code t) p else RecvNone) \<and>
         rec_msgs recs' = ms)"
  by (rule TryReceive_holds [OF assms])

lemma one_message_shm:
  "\<exists>s recs. shm_holds 64 recs s \<and> rec_msgs recs = [(Text, [7, 8])]"
proof -
  have "case TrySend 64 Text [7, 8] (fresh_shm 64) of
      SendThrew e \<Rightarrow> e = MessageTooLarge \<and> unat (64 :: u64) < padded (8 + length [7, 8 :: u8])
    | SendFull \<Rightarrow> padded (8 + length [7, 8 :: u8]) \<le> unat (64 :: u64) \<and> unat (64 :: u64) < recs_size [] +
        pad_for (unat (64 :: u64)) (unat (commitPos (queue (fresh_shm 64)))) (padded (8 + length [7, 8 :: u8]))
          + padded (8 + length [7, 8 :: u8])
    | SendDone s' \<Rightarrow> \<exists>recs'. shm_holds 64 recs' s' \<and> rec_msgs recs' = rec_msgs [] @ [(Text, [7, 8])]
    | SendFault \<Rightarrow> False"
    by (rule TrySend_refined [OF fresh_holds ring_64_ok]) (simp_all add: msg_ok_def)
  then show ?thesis by (auto simp: padded_def pad_for_def split: send_result.splits)
qed

theorem try_receive_refines_dequeue_witness:
  "\<exists>s r s' recs'. TryReceive 64 Text s = Some (r, s') \<and> shm_holds 64 recs' s' \<and>
     r = RecvSome 1 [7, 8] \<and> rec_msgs recs' = []"
proof -
  obtain s recs where s: "shm_holds 64 recs s" "rec_msgs recs = [(Text, [7, 8])]"
    using one_message_shm by blast
  from try_receive_refines_dequeue [OF s(1) ring_64_ok, of Text] s(2) show ?thesis
    by (auto simp: wanted_code_def)
qed

text \<open>Receive skips what the consumer is not interested in and returns the first message
  that is of its type or a stop, leaving exactly the later messages.\<close>
theorem receive_first_interesting:
  assumes "shm_holds bsize recs s" and "ring_size_ok bsize"
    and "rec_msgs recs = skipped @ (t, p) # ms"
    and "\<forall>m \<in> set skipped. \<not> wanted_code I (type_code (fst m))" and "wanted_code I (type_code t)"
  shows "\<exists>s' recs'. Receive bsize I s = Some (RecvSome (type_code t) p, s') \<and>
    shm_holds bsize recs' s' \<and> rec_msgs recs' = ms"
  by (rule Receive_holds [OF assms])

theorem receive_first_interesting_witness:
  "\<exists>s s' recs'. Receive 64 All s = Some (RecvSome (type_code Text) [7, 8], s') \<and>
    shm_holds 64 recs' s' \<and> rec_msgs recs' = []"
proof -
  obtain s recs where s: "shm_holds 64 recs s" "rec_msgs recs = [] @ (Text, [7, 8]) # []"
    using one_message_shm by auto
  from receive_first_interesting [OF s(1) ring_64_ok s(2), of All] show ?thesis
    by (auto simp: wanted_code_def)
qed

text \<open>A number sent into an empty queue with room comes back: Receive returns a message of
  type Number whose payload BytesToInt64 turns into the number, bit for bit, and the queue is
  empty again.\<close>
theorem number_roundtrip:
  assumes "shm_holds bsize [] s" and "ring_size_ok bsize" and "32 \<le> unat bsize"
    and "unat (commitPos (queue s)) + 32 < 2 ^ 64"
  shows "\<exists>s1 s2 payload recs. SendNumber bsize v s = Some (SendDone s1) \<and>
    Receive bsize Number s1 = Some (RecvSome (type_code Number) payload, s2) \<and>
    BytesToInt64 payload = Inr v \<and> shm_holds bsize recs s2 \<and> rec_msgs recs = []"
proof -
  have msg: "msg_ok Number (le_bytes 8 v)" by (simp add: msg_ok_def)
  let ?n = "padded (8 + length (le_bytes 8 v))"
  let ?pad = "pad_for (unat bsize) (unat (commitPos (queue s))) ?n"
  have n: "?n = 16" by (simp add: padded_def)
  have pad: "?pad \<le> 16" using n by (simp add: pad_for_def)
  have "recs_size [] + ?pad + ?n \<le> unat bsize" "unat (commitPos (queue s)) + ?pad + ?n < 2 ^ 64"
    using n pad assms(3,4) by simp_all
  from TrySend_done [OF assms(1,2) msg refl refl this] obtain s1 where
    s1: "TrySend bsize Number (le_bytes 8 v) s = SendDone s1"
    "shm_holds bsize ([] @ (if ?pad = 0 then [] else [RPad ?pad]) @ [RMsg Number (le_bytes 8 v)]) s1" by blast
  have msgs: "rec_msgs ([] @ (if ?pad = 0 then [] else [RPad ?pad]) @ [RMsg Number (le_bytes 8 v)])
    = [] @ (Number, le_bytes 8 v) # []" by simp
  have w: "wanted_code Number (type_code Number)" by (simp add: wanted_code_def)
  from Receive_holds [OF s1(2) assms(2) msgs _ w] obtain s2 recs where
    "Receive bsize Number s1 = Some (RecvSome (type_code Number) (le_bytes 8 v), s2)"
    "shm_holds bsize recs s2" "rec_msgs recs = []" by auto
  moreover have "BytesToInt64 (le_bytes 8 v) = Inr v"
    by (simp add: BytesToInt64_def le_word_le_bytes take_bit_word_id)
  ultimately show ?thesis using Send_done [OF s1(1)] by (auto simp: SendNumber_def)
qed

theorem number_roundtrip_witness:
  "\<exists>s1 s2 payload recs. SendNumber 64 42 (fresh_shm 64) = Some (SendDone s1) \<and>
    Receive 64 Number s1 = Some (RecvSome (type_code Number) payload, s2) \<and>
    BytesToInt64 payload = Inr 42 \<and> shm_holds 64 recs s2 \<and> rec_msgs recs = []"
  by (rule number_roundtrip [OF fresh_holds ring_64_ok]) simp_all

text \<open>On an empty queue a message that takes at most half of the ring is always sent at once;
  no position of the ring makes Send wait.\<close>
theorem half_ring_message_is_sent:
  assumes "shm_holds bsize [] s" and "ring_size_ok bsize" and "msg_ok t p"
    and "2 * padded (8 + length p) \<le> unat bsize" and "unat (commitPos (queue s)) + unat bsize < 2 ^ 64"
  shows "\<exists>s' recs. Send bsize t p s = Some (SendDone s') \<and> shm_holds bsize recs s' \<and>
    rec_msgs recs = [(t, p)]"
proof -
  let ?n = "padded (8 + length p)"
  let ?pad = "pad_for (unat bsize) (unat (commitPos (queue s))) ?n"
  have "?pad \<le> ?n" by (simp add: pad_for_def)
  then have "recs_size [] + ?pad + ?n \<le> unat bsize" "unat (commitPos (queue s)) + ?pad + ?n < 2 ^ 64"
    using assms(4,5) by simp_all
  from TrySend_done [OF assms(1-3) refl refl this] obtain s' where
    "TrySend bsize t p s = SendDone s'"
    "shm_holds bsize ([] @ (if ?pad = 0 then [] else [RPad ?pad]) @ [RMsg t p]) s'" by blast
  then show ?thesis using Send_done
    by (auto intro!: exI [of _ "[] @ (if ?pad = 0 then [] else [RPad ?pad]) @ [RMsg t p]"])
qed

theorem half_ring_message_is_sent_witness:
  "\<exists>s' recs. Send 64 Text [7, 8] (fresh_shm 64) = Some (SendDone s') \<and> shm_holds 64 recs s' \<and>
    rec_msgs recs = [(Text, [7, 8])]"
  by (rule half_ring_message_is_sent [OF fresh_holds ring_64_ok]) (simp_all add: msg_ok_def padded_def)

text \<open>A larger message can block for ever: when the queue is empty, the message fits the ring
  (so that the size check passes) but not together with the padding its position asks for,
  TrySend returns false although nobody holds any byte, and Send never returns, since only a
  sender moves reservePos.\<close>
theorem send_never_returns_on_empty_queue:
  assumes "shm_holds bsize [] s" and "ring_size_ok bsize" and "msg_ok t p"
    and "padded (8 + length p) \<le> unat bsize"
    and "unat bsize < pad_for (unat bsize) (unat (commitPos (queue s))) (padded (8 + length p))
           + padded (8 + length p)"
  shows "TrySend bsize t p s = SendFull \<and> Send bsize t p s = None"
  using TrySend_full(1) [OF assms(1-3) refl assms(4) refl] assms(5) Send_full_diverges by simp

text \<open>The region after a stop was sent into a ring of 24 bytes and received.\<close>

definition used_shm :: shm where
  "used_shm = \<lparr>protocol = fresh_protocol, queue = \<lparr>reservePos = 8, commitPos = 8, readPos = 8\<rparr>,
     ring = 3 # replicate 23 0\<rparr>"

theorem send_never_returns_on_empty_queue_witness:
  "TrySend 24 Text (replicate 16 1) used_shm = SendFull \<and> Send 24 Text (replicate 16 1) used_shm = None"
  by (rule send_never_returns_on_empty_queue)
    (simp_all add: shm_holds_def used_shm_def ring_size_ok_def msg_ok_def padded_def pad_for_def)

text \<open>A ring of 28 bytes: the region was opened with \<open>shmSize = 156\<close>.\<close>

definition unaligned_shm :: shm where
  "unaligned_shm = \<lparr>protocol = fresh_protocol, queue = fresh_queue,
     ring = [0, 0, 0, 0, 0, 0, 0, 0, 0, 0, 0, 0, 0, 0, 0, 0, 0, 0, 0, 0, 0, 0, 0, 0, 0, 0, 0, 0]\<rparr>"

lemma replicate_small: "replicate 4 x = [x, x, x, x]" "replicate 7 x = [x, x, x, x, x, x, x]"
  by (simp_all add: eval_nat_numeral)

lemmas send_eval = replicate_small mpsc_eval TrySend_def write_reserved_def

text \<open>The ring size is shmSize - 128 and is never checked: with a ring that is not a multiple
  of 8 a message can be lost for ever. In a ring of 28 bytes two texts are sent and the first is
  received; the second is written behind 12 bytes of padding, which the reader takes for 16: it
  reads a garbage header and TryReceive reports an empty queue.\<close>
theorem unaligned_ring_loses_message:
  "\<exists>s1 s2 s3 s4. TrySend 28 Text [1] unaligned_shm = SendDone s1 \<and>
     TryReceive 28 All s1 = Some (RecvSome 1 [1], s2) \<and>
     TrySend 28 Text [2] s2 = SendDone s3 \<and> readPos (queue s4) \<noteq> commitPos (queue s4) \<and>
     TryReceive 28 All s3 = Some (RecvNone, s4)"
proof -
  let ?q = "\<lambda>w r. \<lparr>reservePos = w, commitPos = w, readPos = r\<rparr> :: queue_header"
  let ?r1 = "[1, 0, 0, 0, 1, 0, 0, 0, 1, 0, 0, 0, 0, 0, 0, 0, 0, 0, 0, 0, 0, 0, 0, 0, 0, 0, 0, 0] :: u8 list"
  let ?r2 = "[1, 0, 0, 0, 1, 0, 0, 0, 2, 0, 0, 0, 0, 0, 0, 0, 0, 0, 0, 0, 4, 0, 0, 0, 0, 0, 0, 0] :: u8 list"
  let ?s = "\<lambda>w r m. \<lparr>protocol = fresh_protocol, queue = ?q w r, ring = m\<rparr> :: shm"
  have "TrySend 28 Text [1] unaligned_shm = SendDone (?s 16 0 ?r1)"
    by (simp add: send_eval unaligned_shm_def)
  moreover have "TryReceive 28 All (?s 16 0 ?r1) = Some (RecvSome 1 [1], ?s 16 16 ?r1)"
    by (subst TryReceive.simps) (simp add: mpsc_eval)
  moreover have "TrySend 28 Text [2] (?s 16 16 ?r1) = SendDone (?s 44 16 ?r2)"
    by (simp add: send_eval)
  moreover have "TryReceive 28 All (?s 44 32 ?r2) = Some (RecvNone, ?s 44 32 ?r2)"
    by (subst TryReceive.simps) (simp add: mpsc_eval)
  then have "TryReceive 28 All (?s 44 16 ?r2) = Some (RecvNone, ?s 44 32 ?r2)"
    by (subst TryReceive.simps) (simp add: mpsc_eval)
  moreover have "readPos (queue (?s 44 32 ?r2)) \<noteq> commitPos (queue (?s 44 32 ?r2))" by simp
  ultimately show ?thesis by blast
qed

text \<open>The size check sees the size of the payload reduced to 32 bits: a payload of 2^32 bytes
  counts as a message of 8 bytes, passes the check and is copied past the end of the ring.\<close>
theorem payload_size_truncated:
  assumes "length p = 2 ^ 32" and "ring_size_ok bsize" and "unat bsize < 2 ^ 32"
    and "length (ring s) = unat bsize" and "readPos (queue s) = 0" and "reservePos (queue s) = 0"
  shows "message_size p = 8 \<and> TrySend bsize t p s = SendFault"
proof -
  have p0: "(word_of_nat (length p) :: u32) = 0" using assms(1) by simp
  have "8 \<le> unat bsize" using assms(2) by (auto simp: ring_size_ok_def dest: dvd_imp_le)
  then have b: "\<not> bsize < 8" by (simp add: word_less_nat_alt)
  have ms: "message_size p = 8"
    using p0 by (simp add: message_size_def AlignUp_def MessageHeaderSize_def Alignment_def)
  have plan: "reserve_plan bsize 0 0 8 = Some (0, 8)" using b by (simp add: reserve_plan_def Let_def)
  have "WriteMessageRecord 0 t p (ring s) = None"
  proof (cases "mem_write 0 (header_bytes \<lparr>mtype = type_code t, payloadSize = 0\<rparr>) (ring s)")
    case None
    then show ?thesis using p0 by (simp add: WriteMessageRecord_def)
  next
    case (Some buf)
    then have "length buf = unat bsize" using mem_write_length assms(4) by metis
    then have "mem_write 8 p buf = None" using assms(1,3) by (simp add: mem_write_def)
    moreover have "p \<noteq> []" using assms(1) by auto
    ultimately show ?thesis using Some p0 by (simp add: WriteMessageRecord_def)
  qed
  then have "write_reserved bsize 0 0 t p (ring s) = None"
    by (simp add: write_reserved_def MessageHeaderSize_def)
  with ms plan b assms(5,6) show ?thesis by (simp add: TrySend_def)
qed

theorem payload_size_truncated_witness:
  "message_size (replicate (2 ^ 32) 0) = 8 \<and>
   TrySend 64 Text (replicate (2 ^ 32) 0) (fresh_shm 64) = SendFault"
  by (rule payload_size_truncated)
    (simp_all add: ring_64_ok fresh_shm_def fresh_queue_def)

end
