(* ===== verification/Texts.thy ===== *)
theory Texts
  imports Prelude
begin

text \<open>
  Texts: string literals as bytes, decimal numbers written by \<open>operator<<\<close> and read by
  \<open>std::stoull\<close>, as far as the programs use them.
\<close>

section \<open>Characters and bytes\<close>

text \<open>The bytes of a string literal.\<close>

definition bytes_of :: "string \<Rightarrow> u8 list" where
  "bytes_of s = map of_char s"

text \<open>Bytes written to an output stream.\<close>

definition chars_of :: "u8 list \<Rightarrow> string" where
  "chars_of bs = map (\<lambda>b. char_of (unat b)) bs"

lemma chars_of_bytes_of [simp]: "chars_of (bytes_of s) = s"
proof -
  have "char_of (unat (of_char c :: u8)) = c" for c
  proof -
    have "unat (of_char c :: u8) = unat (of_nat (of_char c) :: u8)" by (simp only: of_nat_of_char)
    also have "\<dots> = of_char c" by (simp add: unat_of_nat take_bit_nat_eq_self)
    finally show ?thesis by simp
  qed
  then show ?thesis by (simp add: chars_of_def bytes_of_def map_idI)
qed

section \<open>Decimal numbers\<close>

fun digits :: "nat \<Rightarrow> string" where
  "digits n = (if n < 10 then [char_of (48 + n)] else digits (n div 10) @ [char_of (48 + n mod 10)])"

declare digits.simps [simp del]

definition show_int :: "int \<Rightarrow> string" where
  "show_int x = (if x < 0 then ''-'' @ digits (nat (- x)) else digits (nat x))"

definition is_digit :: "char \<Rightarrow> bool" where
  "is_digit c \<longleftrightarrow> (48 :: nat) \<le> of_char c \<and> of_char c \<le> (57 :: nat)"

definition digits_value :: "string \<Rightarrow> nat" where
  "digits_value ds = foldl (\<lambda>v c. 10 * v + (of_char c - 48)) 0 ds"

text \<open>
  \<open>std::stoull\<close> in base 10: it skips white space, takes a sign and then as many digits as there
  are, and ignores the rest. Without a digit it throws \<open>invalid_argument\<close>, for a value of
  more than 64 bits \<open>out_of_range\<close>; a minus sign negates modulo 2^64.
\<close>

datatype stoull_error = StoullInvalid | StoullRange

definition is_space :: "char \<Rightarrow> bool" where
  "is_space c \<longleftrightarrow> c = CHR '' '' \<or> (9 :: nat) \<le> of_char c \<and> of_char c \<le> (13 :: nat)"

definition stoull :: "string \<Rightarrow> stoull_error + u64" where
  "stoull s =
     (let t = dropWhile is_space s;
          (neg, u) = (case t of
             [] \<Rightarrow> (False, t)
           | c # t' \<Rightarrow> if c = CHR ''-'' then (True, t') else if c = CHR ''+'' then (False, t') else (False, t));
          ds = takeWhile is_digit u
      in if ds = [] then Inl StoullInvalid
         else if digits_value ds \<ge> 2 ^ 64 then Inl StoullRange
         else Inr (if neg then - word_of_nat (digits_value ds) else word_of_nat (digits_value ds)))"

text \<open>What is printed is read back.\<close>

lemma digits_are_digits: "\<forall>c \<in> set (digits n). is_digit c"
proof (induction n rule: digits.induct)
  case (1 n)
  have "is_digit (char_of (48 + m))" if "m < (10 :: nat)" for m
    using that by (simp add: is_digit_def take_bit_nat_eq_self)
  with 1 show ?case by (cases "n < 10") (auto simp: digits.simps [of n])
qed

lemma digits_value_snoc [simp]: "digits_value (ds @ [c]) = 10 * digits_value ds + (of_char c - 48)"
  by (simp add: digits_value_def)

lemma digits_value_digits: "digits_value (digits n) = n"
proof (induction n rule: digits.induct)
  case (1 n)
  have one: "digits_value [char_of (48 + m)] = m" if "m < (10 :: nat)" for m
    using that by (simp add: digits_value_def take_bit_nat_eq_self)
  show ?case
  proof (cases "n < 10")
    case True
    then show ?thesis using one by (simp add: digits.simps [of n])
  next
    case False
    have "digits_value (digits n) = 10 * (n div 10) + n mod 10"
      using 1 False by (simp add: digits.simps [of n] take_bit_nat_eq_self)
    then show ?thesis by simp
  qed
qed

lemma digits_not_Nil: "digits n \<noteq> []"
  by (simp add: digits.simps [of n])

lemma stoull_digits:
  assumes "n < 2 ^ 64" and "\<forall>c \<in> set rest. \<not> is_digit c"
  shows "stoull (digits n @ rest) = Inr (word_of_nat n)"
proof -
  obtain c ds where ds: "digits n = c # ds" using digits_not_Nil [of n] by (cases "digits n") auto
  then have c: "is_digit c" using digits_are_digits [of n] by simp
  then have "\<not> is_space c" "c \<noteq> CHR ''-''" "c \<noteq> CHR ''+''" by (auto simp: is_digit_def is_space_def)
  moreover have "takeWhile is_digit (digits n @ rest) = digits n"
  proof -
    have "takeWhile is_digit rest = []" using assms(2) by (cases rest) auto
    then show ?thesis using digits_are_digits [of n] by (simp add: takeWhile_append2)
  qed
  ultimately show ?thesis
    using assms(1) ds digits_value_digits [of n] by (auto simp: stoull_def Let_def)
qed

end
