(* ===== verification/Mpsc_Programs.thy ===== *)
theory Mpsc_Programs
  imports Mpsc_Seq Texts
begin

text \<open>
  The programs around the shared-memory queue (\<^verbatim>\<open>hw-5/consumer.cpp\<close>, \<^verbatim>\<open>hw-5/producer_first.cpp\<close>,
  \<^verbatim>\<open>hw-5/producer_second.cpp\<close>, \<^verbatim>\<open>hw-5/producer_stop.cpp\<close>): their command lines, the messages the
  producers send, what the consumer prints, and all of them running at the same time the way
  \<^verbatim>\<open>hw-5/run-demo.sh\<close> starts them: the program that sends the stop runs when the two producers have
  ended. Each step is a step of the queue of theory \<open>Mpsc_Concurrent\<close>. \<^verbatim>\<open>hw-5/benchmark.cpp\<close>,
  which sends and receives in turn, is at the end.
\<close>

section \<open>Command lines\<close>

datatype arg_error = Usage | BadSize stoull_error | UnknownType

definition ParseMessageType :: "string \<Rightarrow> arg_error + message_type" where
  "ParseMessageType value =
     (if value = ''text'' then Inr Text
      else if value = ''number'' then Inr Number
      else if value = ''stop'' then Inr Stop
      else if value = ''all'' then Inr All
      else Inl UnknownType)"

definition consumer_args :: "string list \<Rightarrow> arg_error + (string \<times> u64 \<times> message_type)" where
  "consumer_args argv =
     (if length argv \<noteq> 4 then Inl Usage
      else (case stoull (argv ! 2) of
              Inl e \<Rightarrow> Inl (BadSize e)
            | Inr shm_size \<Rightarrow>
                (case ParseMessageType (argv ! 3) of
                   Inl e \<Rightarrow> Inl e
                 | Inr interested \<Rightarrow> Inr (argv ! 1, shm_size, interested))))"

definition producer_args :: "string list \<Rightarrow> arg_error + (string \<times> u64)" where
  "producer_args argv =
     (if length argv \<noteq> 3 then Inl Usage
      else (case stoull (argv ! 2) of Inl e \<Rightarrow> Inl (BadSize e) | Inr shm_size \<Rightarrow> Inr (argv ! 1, shm_size)))"

section \<open>What the programs send and print\<close>

type_synonym message = "message_type \<times> u8 list"

definition producer_first :: "message list" where
  "producer_first =
     [(Text, bytes_of ''hello from producer 1''), (Number, le_bytes 8 (111 :: u64)),
      (Text, bytes_of ''another message from producer 1'')]"

definition producer_second :: "message list" where
  "producer_second =
     [(Text, bytes_of ''hello from producer 2''), (Number, le_bytes 8 (222 :: u64)),
      (Text, bytes_of ''another message from producer 2'')]"

definition producer_stop :: "message list" where
  "producer_stop = [(Stop, [])]"

text \<open>
  The body of the consumer's loop, for what \<open>Receive\<close> has returned: it prints and goes on,
  prints and leaves the loop, goes on without printing, or dies of an exception of
  \<open>BytesToInt64\<close>.
\<close>

datatype reaction = Prints string | PrintsAndExits string | GoesOn | Dies

definition react :: "u32 \<times> u8 list \<Rightarrow> reaction" where
  "react m =
     (case m of (code, payload) \<Rightarrow>
      if code = type_code Stop then PrintsAndExits ''[CONSUMER]: received Stop, exiting''
      else if code = type_code Text
        then Prints (''[CONSUMER]: Text('' @ [CHR 0x22] @ chars_of (BytesToString payload) @ [CHR 0x22] @ '')'')
      else if code = type_code Number
        then (case BytesToInt64 payload of
                Inl e \<Rightarrow> Dies
              | Inr v \<Rightarrow> Prints (''[CONSUMER]: Number('' @ show_int (sint v) @ '')''))
      else GoesOn)"

fun lines_of :: "reaction \<Rightarrow> string list" where
  "lines_of (Prints l) = [l]"
| "lines_of (PrintsAndExits l) = [l]"
| "lines_of _ = []"

fun ends_loop :: "reaction \<Rightarrow> bool" where
  "ends_loop (PrintsAndExits l) = True"
| "ends_loop Dies = True"
| "ends_loop _ = False"

section \<open>All programs together\<close>

text \<open>
  Producer 0 and 1 are the two producers, 2 is the program that sends the stop. \<open>left\<close> are the
  messages each has still to send.
\<close>

record demo =
  dsys :: mpsc_sys
  left :: "message list list"
  printed :: "string list"
  loop_ended :: bool

definition may_send :: "nat \<Rightarrow> demo \<Rightarrow> bool" where
  "may_send i d \<longleftrightarrow> (i = 2 \<longrightarrow> left d ! 0 = [] \<and> left d ! 1 = [] \<and>
     prods (dsys d) ! 0 = PIdle \<and> prods (dsys d) ! 1 = PIdle)"

text \<open>A step of the queue that starts no call of a producer and ends no \<open>Send\<close> that has not sent.\<close>

definition inner :: "mpsc_sys \<Rightarrow> mpsc_sys \<Rightarrow> bool" where
  "inner s s' \<longleftrightarrow> list_all (\<lambda>i. (prods s ! i = PIdle \<longrightarrow> prods s' ! i = PIdle) \<and>
     (case prods s ! i of PRetry t p \<Rightarrow> prods s' ! i \<noteq> PIdle | _ \<Rightarrow> True)) [0..<length (prods s)]"

definition demo_start :: "mpsc_sys \<Rightarrow> message list \<Rightarrow> message list \<Rightarrow> demo" where
  "demo_start s first second =
     \<lparr>dsys = s, left = [first, second, producer_stop], printed = [''[CONSUMER]: opened queue''],
      loop_ended = False\<rparr>"

inductive demo_step :: "u64 \<Rightarrow> message_type \<Rightarrow> demo \<Rightarrow> demo \<Rightarrow> bool" for bsize interested where
  sends:
    "i < length (prods (dsys d)) \<Longrightarrow> prods (dsys d) ! i = PIdle \<Longrightarrow> left d ! i = (t, p) # ms \<Longrightarrow>
     may_send i d \<Longrightarrow> \<not> ucast (message_size p) > bsize \<Longrightarrow>
     demo_step bsize interested d
       (d\<lparr>dsys := (set_prod i (PLoadRead t p) (dsys d))
            \<lparr>misused := misused (dsys d) \<or> t = Padding \<or> length p + 15 \<ge> 2 ^ 32\<rparr>,
          left := (left d)[i := ms]\<rparr>)"
| moves:
    "mpsc_step bsize interested (dsys d) s' \<Longrightarrow> inner (dsys d) s' \<Longrightarrow>
     (loop_ended d \<longrightarrow> cons s' = cons (dsys d)) \<Longrightarrow>
     new = drop (length (delivered (dsys d))) (delivered s') \<Longrightarrow>
     demo_step bsize interested d
       (d\<lparr>dsys := s', printed := printed d @ concat (map (lines_of \<circ> react) new),
          loop_ended := loop_ended d \<or> list_ex (ends_loop \<circ> react) new\<rparr>)"

section \<open>What a step of the queue means for the programs\<close>

text \<open>The message a producer is about to reserve room for.\<close>

fun pending_msg :: "prod_pc \<Rightarrow> message list" where
  "pending_msg (PLoadRead t p) = [(t, p)]"
| "pending_msg (PLoadReserve t p rd) = [(t, p)]"
| "pending_msg (PCas t p rd rs pad new) = [(t, p)]"
| "pending_msg (PRetry t p) = [(t, p)]"
| "pending_msg _ = []"

definition sent_by :: "nat \<Rightarrow> (nat \<times> message) list \<Rightarrow> message list" where
  "sent_by i rs = map snd (filter (\<lambda>x. fst x = i) rs)"

lemma sent_by_simps [simp]:
  "sent_by i [] = []"
  "sent_by i (rs @ [(j, m)]) = sent_by i rs @ (if j = i then [m] else [])"
  by (simp_all add: sent_by_def)

definition msgs_size :: "message list \<Rightarrow> nat" where
  "msgs_size ms = sum_list (map (\<lambda>m. padded (8 + length (snd m))) ms)"

lemma msgs_size_simps [simp]:
  "msgs_size [] = 0" "msgs_size (m # ms) = padded (8 + length (snd m)) + msgs_size ms"
  "msgs_size (ms @ ms') = msgs_size ms + msgs_size ms'"
  by (simp_all add: msgs_size_def)

lemma innerD:
  assumes "inner s s'" and "i < length (prods s)"
  shows "prods s ! i = PIdle \<Longrightarrow> prods s' ! i = PIdle" "prods s ! i = PRetry t p \<Longrightarrow> prods s' ! i \<noteq> PIdle"
  using assms by (auto simp: inner_def list_all_iff dest!: bspec [of _ _ i])

text \<open>Either nothing is reserved, or one producer's pending message is.\<close>

lemma inner_step:
  assumes "mpsc_step bsize I s s'" and "inner s s'"
  shows "length (prods s') = length (prods s) \<and>
    (reserved s' = reserved s \<and> total s' = total s \<and> stale s' = stale s \<and> misused s' = misused s \<and>
       (\<forall>i < length (prods s). pending_msg (prods s' ! i) = pending_msg (prods s ! i)) \<or>
     (\<exists>i t p rd rs pad new. i < length (prods s) \<and> prods s ! i = PCas t p rd rs pad new \<and> rs_pos s = rs \<and>
       reserved s' = reserved s @ [(i, t, p)] \<and> total s' = total s + unat pad + unat (message_size p) \<and>
       stale s' = (stale s \<or> unat (rs - rd) > unat bsize) \<and> misused s' = misused s \<and>
       pending_msg (prods s' ! i) = [] \<and>
       (\<forall>j < length (prods s). j \<noteq> i \<longrightarrow> prods s' ! j = prods s ! j)))"
  using assms(1)
proof (cases rule: mpsc_step.cases)
  case (call_send i p t)
  with innerD(1) [OF assms(2) call_send(2,3)] show ?thesis by simp
next
  case (give_up i t p)
  with innerD(2) [OF assms(2) give_up(2,3)] show ?thesis by simp
next
  case (cas_ok i t p rd rs pad new q)
  then have "pending_msg q = []" by simp
  with cas_ok show ?thesis
    by (intro conjI disjI2 exI [of _ i] exI [of _ t] exI [of _ p] exI [of _ rd] exI [of _ rs] exI [of _ pad]
        exI [of _ new]) auto
qed (auto simp: nth_list_update store_ring_def split: option.splits)

lemma delivered_grows:
  "mpsc_step bsize I s s' \<Longrightarrow> \<exists>new. delivered s' = delivered s @ new"
  by (cases rule: mpsc_step.cases) (auto simp: store_ring_def split: option.splits)

section \<open>The invariant\<close>

text \<open>
  Every producer's messages are those it has reserved, the one it is working on and those it has
  left. All of them fit the ring at once, so that no position wraps around and no free space is
  computed from a stale position.
\<close>

definition progs_ok :: "u64 \<Rightarrow> message list list \<Rightarrow> bool" where
  "progs_ok bsize progs \<longleftrightarrow> length progs = 3 \<and> progs ! 2 = producer_stop \<and>
     (\<forall>m \<in> set (concat progs). msg_ok (fst m) (snd m)) \<and> msgs_size (concat progs) \<le> unat bsize"

definition demo_ok :: "u64 \<Rightarrow> message_type \<Rightarrow> message list list \<Rightarrow> demo \<Rightarrow> bool" where
  "demo_ok bsize I progs d \<longleftrightarrow>
     (\<exists>recs. ring_inv bsize I recs (dsys d)) \<and> clean (dsys d) \<and>
     length (prods (dsys d)) = 3 \<and> length (left d) = 3 \<and>
     (\<forall>i < 3. sent_by i (reserved (dsys d)) @ pending_msg (prods (dsys d) ! i) @ left d ! i = progs ! i) \<and>
     (\<forall>x \<in> set (reserved (dsys d)). fst x < 3) \<and>
     total (dsys d) = msgs_size (map snd (reserved (dsys d))) \<and>
     (left d ! 2 = [] \<longrightarrow> left d ! 0 = [] \<and> left d ! 1 = [] \<and>
        prods (dsys d) ! 0 = PIdle \<and> prods (dsys d) ! 1 = PIdle) \<and>
     (\<exists>pre post. reserved (dsys d) = pre @ post \<and> (\<forall>x \<in> set pre. fst x < 2) \<and> (\<forall>x \<in> set post. fst x = 2)) \<and>
     printed d = ''[CONSUMER]: opened queue'' # concat (map (lines_of \<circ> react) (delivered (dsys d))) \<and>
     loop_ended d = list_ex (ends_loop \<circ> react) (delivered (dsys d))"

lemma reserved_size:
  assumes "\<forall>x \<in> set rs. fst x < 3"
  shows "msgs_size (map snd rs) = msgs_size (sent_by 0 rs) + msgs_size (sent_by 1 rs) + msgs_size (sent_by 2 rs)"
  using assms
proof (induction rs rule: rev_induct)
  case (snoc x rs)
  obtain i m where x: "x = (i, m)" by (cases x)
  then have "i = 0 \<or> i = 1 \<or> i = 2" using snoc.prems by auto
  with snoc x show ?case by auto
qed simp

lemma all_progs: "length progs = 3 \<Longrightarrow> concat progs = progs ! 0 @ progs ! 1 @ progs ! 2"
  by (auto simp: length_Suc_conv numeral_3_eq_3)

lemma less_3: "(i < 3) = (i = 0 \<or> i = 1 \<or> i = (2 :: nat))"
  by auto

lemma demo_room:
  assumes "demo_ok bsize I progs d" and "progs_ok bsize progs" and "i < 3"
  shows "total (dsys d) + msgs_size (pending_msg (prods (dsys d) ! i)) + msgs_size (left d ! i) \<le> unat bsize"
proof -
  have "total (dsys d) = msgs_size (sent_by 0 (reserved (dsys d))) + msgs_size (sent_by 1 (reserved (dsys d)))
      + msgs_size (sent_by 2 (reserved (dsys d)))"
    using assms(1) reserved_size by (simp add: demo_ok_def)
  moreover have "msgs_size (sent_by j (reserved (dsys d))) + msgs_size (pending_msg (prods (dsys d) ! j))
      + msgs_size (left d ! j) = msgs_size (progs ! j)" if "j < 3" for j
    using assms(1) that unfolding demo_ok_def by (metis add.assoc msgs_size_simps(3))
  from this [of 0] this [of 1] this [of 2]
  have "msgs_size (sent_by 0 (reserved (dsys d))) + msgs_size (pending_msg (prods (dsys d) ! 0))
      + msgs_size (left d ! 0) = msgs_size (progs ! 0)"
    "msgs_size (sent_by 1 (reserved (dsys d))) + msgs_size (pending_msg (prods (dsys d) ! 1))
      + msgs_size (left d ! 1) = msgs_size (progs ! 1)"
    "msgs_size (sent_by 2 (reserved (dsys d))) + msgs_size (pending_msg (prods (dsys d) ! 2))
      + msgs_size (left d ! 2) = msgs_size (progs ! 2)" by simp_all
  moreover have "msgs_size (progs ! 0) + msgs_size (progs ! 1) + msgs_size (progs ! 2) \<le> unat bsize"
    using assms(2) all_progs [of progs] by (auto simp: progs_ok_def)
  ultimately show ?thesis using assms(3) unfolding less_3 by auto
qed

text \<open>The compare-and-swap of a producer: no padding, and the free space is what it seems.\<close>

lemma demo_cas:
  assumes ok: "demo_ok bsize I progs d" and progs: "progs_ok bsize progs" and sz: "ring_size_ok bsize"
    and i: "i < 3" "prods (dsys d) ! i = PCas t p rd rs pad new" "rs_pos (dsys d) = rs"
  shows "unat pad = 0 \<and> unat (message_size p) = padded (8 + length p) \<and> unat (rs - rd) \<le> unat bsize"
proof -
  from ok obtain recs where inv: "ring_inv bsize I recs (dsys d)" and len: "length (prods (dsys d)) = 3"
    by (auto simp: demo_ok_def)
  have prod: "prod_ok bsize (queue (shared (dsys d))) (prods (dsys d) ! i)"
    using inv i(1) len by (simp add: ring_inv_def)
  then have msg: "msg_ok t p" and rd: "unat rd \<le> unat (rd_pos (dsys d))"
    and plan: "reserve_plan bsize rd rs (message_size p) = Some (pad, new)" using i(2) by simp_all
  have ms: "unat (message_size p) = padded (8 + length p)" using msg by (simp add: msg_ok_def message_size_unat)
  have "chain (unat bsize) (prods (dsys d)) (unat (cm_pos (dsys d))) (flight (dsys d)) (unat rs)"
    using inv i(3) by (simp add: ring_inv_def)
  from chain_le [OF this] inv i(3) have pos: "unat (rd_pos (dsys d)) \<le> unat rs" "total (dsys d) = unat rs"
    by (simp_all add: ring_inv_def)
  have room: "unat rs + padded (8 + length p) \<le> unat bsize"
    using demo_room [OF ok progs i(1)] i(2) pos(2) by simp
  have small: "0 < padded (8 + length p)" by (simp add: padded_def)
  have "unat rd + (unat rs - unat rd) = unat rs" "unat rs - unat rd \<le> unat bsize" "0 < unat bsize"
    using rd pos room small by simp_all
  from reserve_plan_room(2) [OF this refl plan] ms have "unat pad = pad_for (unat bsize) (unat rs) (padded (8 + length p))"
    by simp
  also have "\<dots> = 0" using room small by (simp add: pad_for_def)
  finally have "unat pad = 0" .
  moreover have "unat (rs - rd) \<le> unat bsize" using rd pos room by (simp add: unat_minus_simple64)
  ultimately show ?thesis using ms by simp
qed

lemma demo_left_ok:
  assumes "demo_ok bsize I progs d" and "progs_ok bsize progs" and "i < 3" and "left d ! i = (t, p) # ms"
  shows "msg_ok t p"
proof -
  have "sent_by i (reserved (dsys d)) @ pending_msg (prods (dsys d) ! i) @ (t, p) # ms = progs ! i"
    using assms(1,3,4) unfolding demo_ok_def by metis
  then have "(t, p) \<in> set (progs ! i)" by (metis in_set_conv_decomp append.assoc)
  moreover have "i < length progs" using assms(2,3) by (simp add: progs_ok_def)
  ultimately have "(t, p) \<in> set (concat progs)" by auto
  then show ?thesis using assms(2) by (auto simp: progs_ok_def simp del: set_concat)
qed

lemma demo_sends:
  assumes ok: "demo_ok bsize I progs d" and progs: "progs_ok bsize progs" and sz: "ring_size_ok bsize"
    and i: "i < length (prods (dsys d))" "prods (dsys d) ! i = PIdle" "left d ! i = (t, p) # ms" "may_send i d"
      "\<not> ucast (message_size p) > bsize"
    and d': "d' = d\<lparr>dsys := (set_prod i (PLoadRead t p) (dsys d))
        \<lparr>misused := misused (dsys d) \<or> t = Padding \<or> length p + 15 \<ge> 2 ^ 32\<rparr>, left := (left d)[i := ms]\<rparr>"
  shows "demo_ok bsize I progs d'"
proof -
  from ok obtain recs where inv: "ring_inv bsize I recs (dsys d)" and len: "length (prods (dsys d)) = 3"
    and len': "length (left d) = 3" and cl: "clean (dsys d)"
    by (auto simp: demo_ok_def)
  have i3: "i < 3" using i(1) len by simp
  from demo_left_ok [OF ok progs i3 i(3)] have msg: "msg_ok t p" .
  then have cl': "clean (dsys d')" using cl by (auto simp: d' clean_def msg_ok_def)
  have "mpsc_step bsize I (dsys d) (dsys d')" using call_send [OF i(1,2,5), of I t] by (simp add: d')
  from mpsc_step_inv [OF this cl' inv sz] have "\<exists>recs. ring_inv bsize I recs (dsys d')" .
  moreover have "\<forall>j < 3. sent_by j (reserved (dsys d')) @ pending_msg (prods (dsys d') ! j) @ left d' ! j = progs ! j"
    using ok i len len' by (auto simp: demo_ok_def d' nth_list_update)
  moreover have "left d' ! 2 = [] \<longrightarrow> left d' ! 0 = [] \<and> left d' ! 1 = [] \<and>
      prods (dsys d') ! 0 = PIdle \<and> prods (dsys d') ! 1 = PIdle"
  proof (cases "i = 2")
    case True
    then show ?thesis using i(4) len len' by (simp add: may_send_def d')
  next
    case False
    then have "i = 0 \<or> i = 1" using i3 by auto
    then have "left d ! 2 \<noteq> []" using ok i(3) by (auto simp: demo_ok_def)
    then show ?thesis using False by (simp add: d')
  qed
  ultimately show ?thesis
    using ok cl' len len' unfolding demo_ok_def by (simp add: d')
qed

text \<open>The accounts after a step inside the queue.\<close>

definition accounts :: "message list list \<Rightarrow> message list list \<Rightarrow> mpsc_sys \<Rightarrow> bool" where
  "accounts progs lft s \<longleftrightarrow> clean s \<and> length (prods s) = 3 \<and>
     (\<forall>j < 3. sent_by j (reserved s) @ pending_msg (prods s ! j) @ lft ! j = progs ! j) \<and>
     (\<forall>x \<in> set (reserved s). fst x < 3) \<and> total s = msgs_size (map snd (reserved s)) \<and>
     (\<exists>pre post. reserved s = pre @ post \<and> (\<forall>x \<in> set pre. fst x < 2) \<and> (\<forall>x \<in> set post. fst x = 2))"

lemma demo_accounts:
  assumes ok: "demo_ok bsize I progs d" and progs: "progs_ok bsize progs" and sz: "ring_size_ok bsize"
    and step: "mpsc_step bsize I (dsys d) s'" "inner (dsys d) s'"
  shows "accounts progs (left d) s'"
proof -
  let ?s = "dsys d"
  have acc: "accounts progs (left d) ?s" using ok by (simp add: demo_ok_def accounts_def)
  then have len: "length (prods ?s) = 3" by (simp add: accounts_def)
  note inner = inner_step [OF step]
  then have len': "length (prods s') = 3" using len by simp
  from inner consider
    (quiet) "reserved s' = reserved ?s" "total s' = total ?s" "stale s' = stale ?s" "misused s' = misused ?s"
      "\<forall>i < 3. pending_msg (prods s' ! i) = pending_msg (prods ?s ! i)"
  | (cas) i t p rd rs pad new where "i < 3" "prods ?s ! i = PCas t p rd rs pad new" "rs_pos ?s = rs"
      "reserved s' = reserved ?s @ [(i, t, p)]" "total s' = total ?s + unat pad + unat (message_size p)"
      "stale s' = (stale ?s \<or> unat (rs - rd) > unat bsize)" "misused s' = misused ?s"
      "pending_msg (prods s' ! i) = []" "\<forall>j < 3. j \<noteq> i \<longrightarrow> prods s' ! j = prods ?s ! j"
    unfolding len by blast
  then show ?thesis
  proof cases
    case quiet
    with acc len' show ?thesis by (auto simp: accounts_def clean_def)
  next
    case (cas i t p rd rs pad new)
    note c = demo_cas [OF ok progs sz cas(1-3)]
    have total: "total s' = msgs_size (map snd (reserved s'))" using acc cas c by (simp add: accounts_def)
    have "total ?s + padded (8 + length p) \<le> unat bsize" using demo_room [OF ok progs cas(1)] cas(2) by simp
    then have "clean s'" using acc cas c unat_u64_less [of bsize] by (auto simp: accounts_def clean_def)
    moreover have "sent_by j (reserved s') @ pending_msg (prods s' ! j) @ left d ! j = progs ! j" if "j < 3" for j
      using acc cas that by (cases "j = i") (auto simp: accounts_def)
    moreover have "\<exists>pre post. reserved s' = pre @ post \<and> (\<forall>x \<in> set pre. fst x < 2) \<and> (\<forall>x \<in> set post. fst x = 2)"
    proof -
      obtain pre post where split: "reserved ?s = pre @ post" "\<forall>x \<in> set pre. fst x < 2" "\<forall>x \<in> set post. fst x = 2"
        using acc unfolding accounts_def by blast
      show ?thesis
      proof (cases "i = 2")
        case True
        with split cas(4) show ?thesis by (intro exI [of _ pre] exI [of _ "post @ [(i, t, p)]"]) auto
      next
        case False
        then have i: "i = 0 \<or> i = 1" using cas(1) by auto
        have "post = []"
        proof (rule ccontr)
          assume "post \<noteq> []"
          then have "sent_by 2 (reserved ?s) \<noteq> []"
            using split by (cases post) (auto simp: sent_by_def)
          moreover have "sent_by 2 (reserved ?s) @ pending_msg (prods ?s ! 2) @ left d ! 2 = [(Stop, [])]"
            using acc progs by (simp add: accounts_def progs_ok_def producer_stop_def)
          ultimately have "left d ! 2 = []" by (auto simp: append_eq_Cons_conv)
          with ok i cas(2) show False by (auto simp: demo_ok_def)
        qed
        with split cas(4) i show ?thesis by (intro exI [of _ "pre @ [(i, t, p)]"] exI [of _ "[]"]) auto
      qed
    qed
    ultimately show ?thesis using acc cas(1,4) total len' by (auto simp: accounts_def)
  qed
qed

lemma demo_moves:
  assumes ok: "demo_ok bsize I progs d" and progs: "progs_ok bsize progs" and sz: "ring_size_ok bsize"
    and step: "mpsc_step bsize I (dsys d) s'" "inner (dsys d) s'"
    and d': "d' = d\<lparr>dsys := s', printed := printed d @ concat (map (lines_of \<circ> react) new),
        loop_ended := loop_ended d \<or> list_ex (ends_loop \<circ> react) new\<rparr>"
    and new: "new = drop (length (delivered (dsys d))) (delivered s')"
  shows "demo_ok bsize I progs d'"
proof -
  from ok obtain recs where inv: "ring_inv bsize I recs (dsys d)" and len: "length (prods (dsys d)) = 3"
    and cl: "clean (dsys d)"
    by (auto simp: demo_ok_def)
  have grown: "delivered s' = delivered (dsys d) @ new" using delivered_grows [OF step(1)] new by auto
  have "printed d' = ''[CONSUMER]: opened queue'' # concat (map (lines_of \<circ> react) (delivered s'))"
    "loop_ended d' = list_ex (ends_loop \<circ> react) (delivered s')"
    using ok grown by (simp_all add: demo_ok_def d')
  moreover have "left d' ! 2 = [] \<longrightarrow> left d' ! 0 = [] \<and> left d' ! 1 = [] \<and> prods s' ! 0 = PIdle \<and> prods s' ! 1 = PIdle"
    using ok innerD(1) [OF step(2)] len by (simp add: demo_ok_def d')
  moreover have acc: "accounts progs (left d) s'" by (rule demo_accounts [OF ok progs sz step])
  moreover have "\<exists>recs. ring_inv bsize I recs s'"
    using mpsc_step_inv [OF step(1) _ inv sz] acc by (simp add: accounts_def)
  ultimately show ?thesis using ok unfolding demo_ok_def accounts_def by (simp add: d')
qed

lemma demo_start_ok:
  assumes "mpsc_init bsize 3 s" and "ring_size_ok bsize" and "progs_ok bsize [first, second, producer_stop]"
  shows "demo_ok bsize I [first, second, producer_stop] (demo_start s first second)"
proof -
  have "\<exists>recs. ring_inv bsize I recs s" using mpsc_init_inv [OF assms(1,2)] by blast
  with assms(1) show ?thesis
    by (auto simp: demo_ok_def demo_start_def mpsc_init_def clean_def producer_stop_def)
qed

interpretation demo: invariant_system
  "\<lambda>d. \<exists>s first second. mpsc_init bsize 3 s \<and> progs = [first, second, producer_stop] \<and>
     ring_size_ok bsize \<and> progs_ok bsize progs \<and> d = demo_start s first second"
  "\<lambda>d e. demo_step bsize I d e \<and> ring_size_ok bsize \<and> progs_ok bsize progs" "demo_ok bsize I progs"
  for bsize I progs
proof (unfold_locales, goal_cases)
  case (1 d)
  then show ?case using demo_start_ok by blast
next
  case (2 d e)
  then have step: "demo_step bsize I d e" and ok: "ring_size_ok bsize" "progs_ok bsize progs" by simp_all
  from step show ?case
  proof (cases rule: demo_step.cases)
    case (sends i t p ms)
    from demo_sends [OF 2(2) ok(2,1) sends(2-6) sends(1)] show ?thesis .
  next
    case (moves s' new)
    from demo_moves [OF 2(2) ok(2,1) moves(2,3) moves(1) moves(5)] show ?thesis .
  qed
qed

lemma demo_reachable:
  assumes "mpsc_init bsize 3 s" and "ring_size_ok bsize" and "progs_ok bsize [first, second, producer_stop]"
    and "(demo_step bsize I)\<^sup>*\<^sup>* (demo_start s first second) d"
  shows "demo_ok bsize I [first, second, producer_stop] d"
proof -
  have "(\<lambda>d e. demo_step bsize I d e \<and> ring_size_ok bsize \<and> progs_ok bsize [first, second, producer_stop])
      = demo_step bsize I" using assms(2,3) by simp
  with demo.reachable_good [of bsize "[first, second, producer_stop]" "demo_start s first second" I d] assms
  show ?thesis by auto
qed

section \<open>What has been received when the consumer exits\<close>

lemma shuffled:
  "\<forall>x \<in> set pre. fst x < 2 \<Longrightarrow> map snd pre \<in> shuffles (sent_by 0 pre) (sent_by 1 pre)"
proof (induction pre)
  case (Cons x pre)
  obtain i m where x: "x = (i, m)" by (cases x)
  then have "i = 0 \<or> i = 1" using Cons.prems by auto
  with Cons x show ?case
    by (auto simp: sent_by_def intro: Cons_in_shuffles_leftI Cons_in_shuffles_rightI)
qed (simp add: sent_by_def)

lemma sent_by_mem: "(i, m) \<in> set rs \<Longrightarrow> m \<in> set (sent_by i rs)"
  by (force simp: sent_by_def)

text \<open>The consumer's loop has ended: it has taken everything, and the stop was the last message.\<close>

lemma demo_all_taken:
  assumes ok: "demo_ok bsize I [first, second, producer_stop] d" and ended: "loop_ended d"
    and harmless: "\<forall>m \<in> set (first @ second). \<not> ends_loop (react (encode_msg m))"
  shows "\<exists>ms \<in> shuffles first second. delivered (dsys d) =
    map encode_msg (filter (\<lambda>m. wanted_code I (type_code (fst m))) (ms @ [(Stop, [])]))"
proof -
  let ?s = "dsys d"
  obtain recs where inv: "ring_inv bsize I recs ?s" using ok by (auto simp: demo_ok_def)
  have del: "delivered ?s = map encode_msg (filter (\<lambda>m. wanted_code I (type_code (fst m)))
      (map snd (take (taken ?s) (reserved ?s))))" using inv by (simp add: ring_inv_def)
  have own: "sent_by i (reserved ?s) @ pending_msg (prods ?s ! i) @ left d ! i = [first, second, producer_stop] ! i"
    if "i < 3" for i using ok that by (simp add: demo_ok_def)
  obtain pre post where split: "reserved ?s = pre @ post" "\<forall>x \<in> set pre. fst x < 2" "\<forall>x \<in> set post. fst x = 2"
    using ok unfolding demo_ok_def by blast
  have pre_harmless: "\<not> ends_loop (react (encode_msg m))" if "(i, m) \<in> set pre" for i m
  proof -
    have i: "i = 0 \<or> i = 1" using split(2) that by auto
    have "m \<in> set (sent_by i (reserved ?s))" using that split(1) by (intro sent_by_mem) simp
    then have "m \<in> set ([first, second, producer_stop] ! i)" using own [of i] i by (metis UnI1 less_3 set_append)
    with i harmless show ?thesis by auto
  qed
  have "filter (\<lambda>x. fst x = 2) pre = []" "filter (\<lambda>x. fst x = 2) post = post"
    using split(2,3) by (auto simp: filter_empty_conv filter_id_conv)
  then have sent2: "sent_by 2 (reserved ?s) = map snd post" using split(1) by (simp add: sent_by_def)
  have post: "map snd post @ pending_msg (prods ?s ! 2) @ left d ! 2 = [(Stop, [])]"
    using own [of 2] sent2 by (simp add: producer_stop_def)
  obtain x where x: "x \<in> set (take (taken ?s) (reserved ?s))" "ends_loop (react (encode_msg (snd x)))"
    using ended ok del by (auto simp: demo_ok_def list_ex_iff)
  have "x \<notin> set pre" using pre_harmless x(2) by (cases x) auto
  then have "x \<in> set post" using x(1) split(1) by (auto dest: in_set_takeD)
  then have post1: "post = [x]" "snd x = (Stop, [])" "left d ! 2 = []"
    using post by (auto simp: append_eq_Cons_conv Cons_eq_append_conv)
  have "\<not> taken ?s \<le> length pre"
    using x(1) \<open>x \<notin> set pre\<close> split(1) by (auto dest: in_set_takeD)
  then have all: "map snd (take (taken ?s) (reserved ?s)) = map snd pre @ [(Stop, [])]"
    using split(1) post1 by simp
  have idle: "left d ! 0 = []" "left d ! 1 = []" "prods ?s ! 0 = PIdle" "prods ?s ! 1 = PIdle"
    using ok post1(3) by (auto simp: demo_ok_def)
  have "sent_by 0 pre = first" "sent_by 1 pre = second"
    using own [of 0] own [of 1] idle split(1,3) by (auto simp: sent_by_def filter_empty_conv)
  with shuffled [OF split(2)] have "map snd pre \<in> shuffles first second" by simp
  then show ?thesis using del all by (intro bexI [of _ "map snd pre"]) simp_all
qed

section \<open>An executable scheduler\<close>

datatype demo_turn = DemoSend nat | DemoMove turn

fun demo_move :: "u64 \<Rightarrow> message_type \<Rightarrow> demo_turn \<Rightarrow> demo \<Rightarrow> demo option" where
  "demo_move bsize I (DemoSend i) d =
     (case left d ! i of
        [] \<Rightarrow> None
      | (t, p) # ms \<Rightarrow>
          (if i < length (prods (dsys d)) \<and> prods (dsys d) ! i = PIdle \<and> may_send i d \<and> \<not> ucast (message_size p) > bsize
           then Some (d\<lparr>dsys := (set_prod i (PLoadRead t p) (dsys d))
                  \<lparr>misused := misused (dsys d) \<or> t = Padding \<or> length p + 15 \<ge> 2 ^ 32\<rparr>,
                left := (left d)[i := ms]\<rparr>)
           else None))"
| "demo_move bsize I (DemoMove m) d =
     (case take_turn bsize I m (dsys d) of
        None \<Rightarrow> None
      | Some s' \<Rightarrow>
          (if inner (dsys d) s' \<and> (loop_ended d \<longrightarrow> cons s' = cons (dsys d))
           then (let new = drop (length (delivered (dsys d))) (delivered s') in
                 Some (d\<lparr>dsys := s', printed := printed d @ concat (map (lines_of \<circ> react) new),
                   loop_ended := loop_ended d \<or> list_ex (ends_loop \<circ> react) new\<rparr>))
           else None))"

interpretation demo_schedule: scheduled_system "demo_step bsize I" "demo_move bsize I" for bsize I
proof
  show "demo_step bsize I d e" if "demo_move bsize I m d = Some e" for m d e
  proof (cases m)
    case (DemoSend i)
    with that sends [of i d _ _ _ bsize I] show ?thesis by (auto split: list.splits if_splits)
  next
    case (DemoMove t)
    with that moves [OF take_turn_step, of bsize I t d] show ?thesis
      by (auto simp: Let_def split: option.splits if_splits)
  qed
qed

section \<open>Properties\<close>

text \<open>A ring of 32 bytes, a producer with one text, one without messages, and the stop.\<close>

definition tiny_start :: mpsc_sys where
  "tiny_start = \<lparr>shared = \<lparr>protocol = fresh_protocol, queue = fresh_queue,
       ring = [0, 0, 0, 0, 0, 0, 0, 0, 0, 0, 0, 0, 0, 0, 0, 0, 0, 0, 0, 0, 0, 0, 0, 0, 0, 0, 0, 0, 0, 0, 0, 0]\<rparr>,
     prods = [PIdle, PIdle, PIdle], cons = CIdle, reserved = [], taken = 0, delivered = [],
     flight = [], total = 0, stale = False, misused = False, faulted = False\<rparr>"

definition tiny_turns :: "demo_turn list" where
  "tiny_turns =
     (let p0 = DemoMove (TurnProd 0); p2 = DemoMove (TurnProd 2); c = DemoMove TurnCons in
      [DemoSend 0, p0, p0, p0, p0, p0, c, c, c, DemoSend 2, p2, p2, p2, p2, p2, c, c, c, c, c, c, c])"

lemma tiny_start_init: "mpsc_init 32 3 tiny_start"
proof -
  have "replicate 3 PIdle = [PIdle, PIdle, PIdle]" by (simp add: eval_nat_numeral)
  then show ?thesis by (simp add: mpsc_init_def tiny_start_def)
qed

lemma tiny_run:
  "\<exists>d. (demo_step 32 All)\<^sup>*\<^sup>* (demo_start tiny_start [(Text, [65])] []) d \<and> loop_ended d"
  by (rule demo_schedule.turns_reach [where ms = tiny_turns])
    (simp add: mpsc_eval tiny_start_def tiny_turns_def demo_start_def may_send_def inner_def react_def producer_stop_def
      BytesToString_def chars_of_def)

text \<open>What the consumer prints for a list of messages, of which it takes those it is interested in.\<close>

definition consumer_lines :: "message_type \<Rightarrow> message list \<Rightarrow> string list" where
  "consumer_lines interested ms =
     concat (map (lines_of \<circ> react \<circ> encode_msg) (filter (\<lambda>m. wanted_code interested (type_code (fst m))) ms))"

text \<open>C22: Two producers, the program that sends the stop and the consumer, all at the same time, under
  every interleaving: when the messages of all programs together fit the ring, the race between
  two producers cannot happen, no copy leaves the ring, and when the consumer's loop has ended, it
  has printed the lines of all messages of the type it was asked for: those of each producer in
  the order it sent them, interleaved in some way, and the line of the stop last. Nothing is lost
  although the consumer stops at the first stop it sees.\<close>
theorem demo_delivers_all:
  assumes "mpsc_init bsize 3 s" and "ring_size_ok bsize" and "progs_ok bsize [first, second, producer_stop]"
    and "\<forall>m \<in> set (first @ second). \<not> ends_loop (react (encode_msg m))"
    and "(demo_step bsize I)\<^sup>*\<^sup>* (demo_start s first second) d"
  shows "\<not> stale (dsys d) \<and> \<not> faulted (dsys d) \<and>
    (loop_ended d \<longrightarrow> (\<exists>ms \<in> shuffles first second.
       printed d = [''[CONSUMER]: opened queue''] @ consumer_lines I ms @ [''[CONSUMER]: received Stop, exiting'']))"
proof -
  have ok: "demo_ok bsize I [first, second, producer_stop] d" by (rule demo_reachable [OF assms(1-3,5)])
  then have safe: "\<not> stale (dsys d)" "\<not> faulted (dsys d)"
    by (auto simp: demo_ok_def clean_def ring_inv_def)
  have stop: "wanted_code I (type_code Stop)" by (simp add: wanted_code_def)
  have "\<exists>ms \<in> shuffles first second.
      printed d = [''[CONSUMER]: opened queue''] @ consumer_lines I ms @ [''[CONSUMER]: received Stop, exiting'']"
    if "loop_ended d"
  proof -
    from demo_all_taken [OF ok that assms(4)] obtain ms where ms: "ms \<in> shuffles first second"
      "delivered (dsys d) = map encode_msg (filter (\<lambda>m. wanted_code I (type_code (fst m))) (ms @ [(Stop, [])]))"
      by blast
    moreover have "printed d = ''[CONSUMER]: opened queue'' # concat (map (lines_of \<circ> react) (delivered (dsys d)))"
      using ok by (simp add: demo_ok_def)
    ultimately show ?thesis
      using stop by (intro bexI [of _ ms]) (simp_all add: consumer_lines_def encode_msg_def [of "(Stop, [])"] react_def o_assoc)
  qed
  with safe show ?thesis by blast
qed

theorem demo_delivers_all_witness:
  "\<exists>d ms. (demo_step 32 All)\<^sup>*\<^sup>* (demo_start tiny_start [(Text, [65])] []) d \<and> loop_ended d \<and>
    \<not> stale (dsys d) \<and> \<not> faulted (dsys d) \<and> ms \<in> shuffles [(Text, [65])] [] \<and>
    printed d = [''[CONSUMER]: opened queue''] @ consumer_lines All ms @ [''[CONSUMER]: received Stop, exiting'']"
proof -
  obtain d where d: "(demo_step 32 All)\<^sup>*\<^sup>* (demo_start tiny_start [(Text, [65])] []) d" "loop_ended d"
    using tiny_run by blast
  have size: "ring_size_ok 32" by (simp add: ring_size_ok_def)
  have progs: "progs_ok 32 [[(Text, [65])], [], producer_stop]"
    by (simp add: progs_ok_def producer_stop_def msg_ok_def padded_def)
  have quiet: "\<forall>m \<in> set ([(Text, [65])] @ []). \<not> ends_loop (react (encode_msg m))"
    by (simp add: react_def encode_msg_def)
  from demo_delivers_all [OF tiny_start_init size progs quiet d(1)] d show ?thesis by blast
qed

text \<open>The example programs keep to these conditions: the messages of \<^verbatim>\<open>producer_first.cpp\<close>,
  \<^verbatim>\<open>producer_second.cpp\<close> and \<^verbatim>\<open>producer_stop.cpp\<close> take 184 bytes of the ring, none of them ends the
  consumer's loop early, and a consumer of all messages prints these lines for them.\<close>
theorem demo_programs:
  "(progs_ok bsize [producer_first, producer_second, producer_stop] \<longleftrightarrow> 184 \<le> unat bsize) \<and>
   list_all (\<lambda>m. \<not> ends_loop (react (encode_msg m))) (producer_first @ producer_second) \<and>
   consumer_lines All producer_first =
     [''[CONSUMER]: Text('' @ [CHR 0x22] @ ''hello from producer 1'' @ [CHR 0x22] @ '')'',
      ''[CONSUMER]: Number(111)'',
      ''[CONSUMER]: Text('' @ [CHR 0x22] @ ''another message from producer 1'' @ [CHR 0x22] @ '')''] \<and>
   consumer_lines Number (producer_first @ producer_second) = [''[CONSUMER]: Number(111)'', ''[CONSUMER]: Number(222)''] \<and>
   consumer_lines Stop (producer_first @ producer_second) = []"
proof (intro conjI)
  show "progs_ok bsize [producer_first, producer_second, producer_stop] \<longleftrightarrow> 184 \<le> unat bsize"
    by (simp add: progs_ok_def producer_first_def producer_second_def producer_stop_def msg_ok_def padded_def bytes_of_def)
  show "list_all (\<lambda>m. \<not> ends_loop (react (encode_msg m))) (producer_first @ producer_second)"
    by (simp add: producer_first_def producer_second_def react_def encode_msg_def BytesToInt64_def)
qed (simp_all add: producer_first_def producer_second_def consumer_lines_def wanted_code_def react_def encode_msg_def
    BytesToString_def BytesToInt64_def le_word_le_bytes take_bit_word_id show_int_def digits.simps char_of_eq_iff)

section \<open>Command lines are read back\<close>

text \<open>The consumer's command line: with a path, a size printed in decimal, which need not be
  followed by the end of the text, and the name of a type, it gets that path, size and
  type; any other number of arguments gives the usage, a size that does not start with a number
  and an unknown type give an error, before anything is opened.\<close>
theorem consumer_args_read:
  assumes "n < 2 ^ 64" and "\<forall>c \<in> set rest. \<not> is_digit c"
    and "(name, type) \<in> {(''text'', Text), (''number'', Number), (''stop'', Stop), (''all'', All)}"
  shows "consumer_args [prog, path, digits n @ rest, name] = Inr (path, word_of_nat n, type) \<and>
    (length argv \<noteq> 4 \<longrightarrow> consumer_args argv = Inl Usage) \<and>
    (rest \<noteq> [] \<and> \<not> is_space (hd rest) \<and> hd rest \<notin> {CHR ''-'', CHR ''+''} \<longrightarrow>
       consumer_args [prog, path, rest, name] = Inl (BadSize StoullInvalid)) \<and>
    (other \<notin> {''text'', ''number'', ''stop'', ''all''} \<longrightarrow>
       consumer_args [prog, path, digits n, other] = Inl UnknownType)"
proof (intro conjI impI)
  show "consumer_args [prog, path, digits n @ rest, name] = Inr (path, word_of_nat n, type)"
    using stoull_digits [OF assms(1,2)] assms(3) by (auto simp: consumer_args_def ParseMessageType_def)
  show "consumer_args argv = Inl Usage" if "length argv \<noteq> 4" using that by (simp add: consumer_args_def)
  show "consumer_args [prog, path, rest, name] = Inl (BadSize StoullInvalid)"
    if "rest \<noteq> [] \<and> \<not> is_space (hd rest) \<and> hd rest \<notin> {CHR ''-'', CHR ''+''}"
  proof -
    have "stoull rest = Inl StoullInvalid"
      using that assms(2) by (cases rest) (auto simp: stoull_def Let_def)
    then show ?thesis by (simp add: consumer_args_def)
  qed
  show "consumer_args [prog, path, digits n, other] = Inl UnknownType"
    if "other \<notin> {''text'', ''number'', ''stop'', ''all''}"
    using that stoull_digits [OF assms(1), of "[]"] by (simp add: consumer_args_def ParseMessageType_def)
qed

theorem consumer_args_read_witness:
  "consumer_args [''consumer'', ''/mpsc_demo'', digits 65536 @ ''k'', ''text''] = Inr (''/mpsc_demo'', 65536, Text)"
  using consumer_args_read [of 65536 "''k''" "''text''" Text "''consumer''" "''/mpsc_demo''"]
  by (simp add: is_digit_def)

section \<open>The benchmark\<close>

text \<open>
  The loop of \<open>BM_ProducerSendText\<close> on the mapped segment: send a text, receive it. \<open>None\<close>: a call
  does not return, or throws.
\<close>

definition kBenchShmSize :: u64 where
  "kBenchShmSize = push_bit 20 1"

primrec BM_ProducerSendText :: "nat \<Rightarrow> u64 \<Rightarrow> u8 list \<Rightarrow> shm \<Rightarrow> (recv_result list \<times> shm) option" where
  "BM_ProducerSendText 0 bsize bytes s = Some ([], s)"
| "BM_ProducerSendText (Suc n) bsize bytes s =
     (case Send bsize Text bytes s of
        Some (SendDone s1) \<Rightarrow>
          (case Receive bsize Text s1 of
             None \<Rightarrow> None
           | Some (msg, s2) \<Rightarrow>
               (case BM_ProducerSendText n bsize bytes s2 of
                  None \<Rightarrow> None
                | Some (msgs, s3) \<Rightarrow> Some (msg # msgs, s3)))
      | _ \<Rightarrow> None)"

lemma TrySend_read: "TrySend bsize t p s = SendDone s' \<Longrightarrow> readPos (queue s') = readPos (queue s)"
  by (auto simp: TrySend_def split: option.splits if_splits)

lemma receive_only:
  assumes "shm_holds bsize ((if pad = 0 then [] else [RPad pad]) @ [RMsg t p]) s" and "ring_size_ok bsize"
    and "wanted_code I (type_code t)"
  shows "\<exists>s'. Receive bsize I s = Some (RecvSome (type_code t) p, s') \<and> shm_holds bsize [] s' \<and>
    commitPos (queue s') = commitPos (queue s)"
proof -
  have one: "\<exists>s'. TryReceive bsize I s = Some (RecvSome (type_code t) p, s') \<and> shm_holds bsize [] s' \<and>
      commitPos (queue s') = commitPos (queue s)" if "shm_holds bsize [RMsg t p] s" for s
    using pass_on_holds [OF that assms(2)] assms(3) by (subst TryReceive.simps) simp
  have "\<exists>s'. TryReceive bsize I s = Some (RecvSome (type_code t) p, s') \<and> shm_holds bsize [] s' \<and>
      commitPos (queue s') = commitPos (queue s)"
  proof (cases "pad = 0")
    case True
    then show ?thesis using assms(1) by (intro one) simp
  next
    case False
    then have holds: "shm_holds bsize [RPad pad, RMsg t p] s" using assms(1) by simp
    from one [OF pass_on_holds(2) [OF holds assms(2)]] pass_on_holds(1) [OF holds assms(2), of I] show ?thesis
      by (subst TryReceive.simps) simp
  qed
  then show ?thesis by (subst Receive.simps) (auto split: option.splits)
qed

lemma send_and_receive:
  assumes "shm_holds bsize [] s" and "ring_size_ok bsize" and "msg_ok Text p"
    and "2 * padded (8 + length p) \<le> unat bsize"
    and "unat (commitPos (queue s)) + 2 * padded (8 + length p) < 2 ^ 64"
  shows "\<exists>s1 s2. Send bsize Text p s = Some (SendDone s1) \<and>
    Receive bsize Text s1 = Some (RecvSome (type_code Text) p, s2) \<and> shm_holds bsize [] s2 \<and>
    unat (commitPos (queue s2)) \<le> unat (commitPos (queue s)) + 2 * padded (8 + length p)"
proof -
  let ?n = "padded (8 + length p)"
  let ?pad = "pad_for (unat bsize) (unat (commitPos (queue s))) ?n"
  have pad: "?pad \<le> ?n" by (simp add: pad_for_def)
  then have "recs_size [] + ?pad + ?n \<le> unat bsize" "unat (commitPos (queue s)) + ?pad + ?n < 2 ^ 64"
    using assms(4,5) by simp_all
  from TrySend_done [OF assms(1-3) refl refl this] obtain s1 where s1: "TrySend bsize Text p s = SendDone s1"
    "shm_holds bsize ((if ?pad = 0 then [] else [RPad ?pad]) @ [RMsg Text p]) s1" by auto
  have "unat (commitPos (queue s1)) = unat (readPos (queue s1)) + ?pad + ?n"
    using s1(2) by (cases "?pad = 0") (simp_all add: shm_holds_def)
  moreover have "readPos (queue s1) = readPos (queue s)" by (rule TrySend_read [OF s1(1)])
  moreover have "unat (readPos (queue s)) = unat (commitPos (queue s))" using assms(1) by (simp add: shm_holds_def)
  ultimately have pos: "unat (commitPos (queue s1)) \<le> unat (commitPos (queue s)) + 2 * ?n" using pad by simp
  have "wanted_code Text (type_code Text)" by (simp add: wanted_code_def)
  from receive_only [OF s1(2) assms(2) this] pos Send_done [OF s1(1)] show ?thesis by auto
qed

lemma bench_loop:
  assumes "ring_size_ok bsize" and "msg_ok Text p" and "2 * padded (8 + length p) \<le> unat bsize"
    and "shm_holds bsize [] s" and "unat (commitPos (queue s)) + 2 * n * padded (8 + length p) < 2 ^ 64"
  shows "\<exists>s'. BM_ProducerSendText n bsize p s = Some (replicate n (RecvSome (type_code Text) p), s')"
  using assms(4,5)
proof (induction n arbitrary: s)
  case (Suc n)
  let ?n = "padded (8 + length p)"
  have "unat (commitPos (queue s)) + 2 * ?n < 2 ^ 64" using Suc.prems(2) by simp
  from send_and_receive [OF Suc.prems(1) assms(1-3) this] obtain s1 s2 where
    s: "Send bsize Text p s = Some (SendDone s1)" "Receive bsize Text s1 = Some (RecvSome (type_code Text) p, s2)"
    "shm_holds bsize [] s2" "unat (commitPos (queue s2)) \<le> unat (commitPos (queue s)) + 2 * ?n" by blast
  from Suc.IH [OF s(3)] s(4) Suc.prems(2) s(1,2) show ?case by auto
qed simp

text \<open>The benchmark of the queue: on its segment of 2^20 bytes, for each of its payload sizes (up
  to 1024 bytes) and any number of iterations below 2^52, every \<open>Send\<close> and every \<open>Receive\<close> returns and
  every text comes back unchanged, wherever in the ring it lies and however often the ring has
  been filled.\<close>
theorem queue_benchmark_roundtrip:
  assumes "GetBufferSizeFromShmSize kBenchShmSize = Inr bsize" and "length payload \<le> 1024" and "iterations < 2 ^ 52"
  shows "\<exists>s. BM_ProducerSendText iterations bsize payload (fresh_shm (unat bsize)) =
    Some (replicate iterations (RecvSome (type_code Text) payload), s)"
proof -
  have b: "bsize = 1048448" using assms(1)
    by (auto simp: GetBufferSizeFromShmSize_def HeaderSize_def kBenchShmSize_def split: if_splits)
  have size: "ring_size_ok bsize" "unat bsize = 1048448" by (simp_all add: b ring_size_ok_def)
  have pad: "padded (8 + length payload) \<le> 1039" using assms(2) by (simp add: padded_def)
  have "2 * iterations * padded (8 + length payload) \<le> 2 * 2 ^ 52 * 1039"
    using assms(3) pad by (intro mult_mono) simp_all
  then have "2 * iterations * padded (8 + length payload) < 2 ^ 64" by simp
  moreover have "msg_ok Text payload" using assms(2) by (simp add: msg_ok_def)
  ultimately show ?thesis
    using bench_loop [OF size(1) _ _ fresh_holds [OF refl], of payload iterations] pad size(2)
    by simp
qed

theorem queue_benchmark_roundtrip_witness:
  "\<exists>s. BM_ProducerSendText 100000 1048448 (replicate 1024 97) (fresh_shm (unat (1048448 :: u64))) =
    Some (replicate 100000 (RecvSome (type_code Text) (replicate 1024 97)), s)"
  by (rule queue_benchmark_roundtrip)
    (simp_all add: GetBufferSizeFromShmSize_def HeaderSize_def kBenchShmSize_def)

end
