(* ===== verification/Mpsc_Programs_Live.thy ===== *)
theory Mpsc_Programs_Live
  imports Mpsc_Programs
begin

text \<open>
  The programs around the shared-memory queue can always finish: from every state that they
  reach together some sequence of steps ends the consumer's loop. While a message is unsent or
  unpublished a producer can move on, the one whose reservation comes first among those that have
  reserved; afterwards the consumer can, until it has seen the stop.
\<close>

section \<open>What is left to do\<close>

definition unsent :: "demo \<Rightarrow> nat" where
  "unsent d = (\<Sum>i < 3. length (pending_msg (prods (dsys d) ! i)) + length (left d ! i))"

text \<open>Steps of a producer to the end of its call, a failing compare-and-swap included.\<close>

fun prod_work :: "u64 \<Rightarrow> prod_pc \<Rightarrow> nat" where
  "prod_work rs PIdle = 0"
| "prod_work rs (PLoadRead t p) = 4"
| "prod_work rs (PLoadReserve t p rd) = 3"
| "prod_work rs (PCas t p rd rs' pad new) = (if rs' = rs then 2 else 5)"
| "prod_work rs (PWritePad t p rs' pad new) = 3"
| "prod_work rs (PWriteMsg t p rs' pad new) = 2"
| "prod_work rs (PPublish t p rs' pad new) = 1"
| "prod_work rs (PRetry t p) = 5"

definition work :: "demo \<Rightarrow> nat" where
  "work d = (\<Sum>i < 3. 6 * length (left d ! i) + prod_work (rs_pos (dsys d)) (prods (dsys d) ! i))"

definition unread :: "demo \<Rightarrow> nat" where
  "unread d = unat (cm_pos (dsys d)) - unat (rd_pos (dsys d))"

fun cons_work :: "u64 \<Rightarrow> cons_pc \<Rightarrow> nat" where
  "cons_work cm CIdle = 4"
| "cons_work cm CLoadRead = 3"
| "cons_work cm (CLoadCommit rd) = 2"
| "cons_work cm (CPass rd cm') = (if cm' = cm then 1 else 5)"
| "cons_work cm (CSkip p) = 0"
| "cons_work cm (CTake m p) = 0"

definition todo :: "(demo \<times> demo) set" where
  "todo = measures [unsent, work, unread, \<lambda>d. cons_work (cm_pos (dsys d)) (cons (dsys d))]"

definition advances :: "u64 \<Rightarrow> message_type \<Rightarrow> demo \<Rightarrow> bool" where
  "advances bsize I d \<longleftrightarrow> (\<exists>d'. demo_step bsize I d d' \<and> (d', d) \<in> todo)"

section \<open>A producer moves\<close>

text \<open>The step of one producer: what it does to the sums over all of them.\<close>

lemma sum_one_less:
  fixes f g :: "nat \<Rightarrow> nat"
  assumes "i < n" and "g i < f i" and "\<And>j. j < n \<Longrightarrow> j \<noteq> i \<Longrightarrow> g j = f j"
  shows "(\<Sum>j < n. g j) < (\<Sum>j < n. f j)"
proof (rule sum_strict_mono_ex1)
  show "\<forall>j \<in> {..<n}. g j \<le> f j" using assms(2,3) by (metis lessThan_iff order_refl less_imp_le)
  show "\<exists>j \<in> {..<n}. g j < f j" using assms(1,2) by blast
qed simp

lemma inner_one:
  assumes "prods s' = (prods s)[i := q]" and "prods s ! i \<noteq> PIdle"
    and "q = PIdle \<Longrightarrow> pending_msg (prods s ! i) = []"
  shows "inner s s'"
  unfolding inner_def list_all_iff
proof
  fix j assume "j \<in> set [0..<length (prods s)]"
  then show "(prods s ! j = PIdle \<longrightarrow> prods s' ! j = PIdle) \<and>
      (case prods s ! j of PRetry t p \<Rightarrow> prods s' ! j \<noteq> PIdle | _ \<Rightarrow> True)"
    using assms by (cases "j = i") (auto split: prod_pc.splits)
qed

lemma demo_step_quiet:
  assumes "mpsc_step bsize I (dsys d) s'" and "inner (dsys d) s'" and "cons s' = cons (dsys d)"
    and "delivered s' = delivered (dsys d)"
  shows "demo_step bsize I d (d\<lparr>dsys := s'\<rparr>)"
  using moves [OF assms(1,2) _ refl] assms(3,4) by simp

lemma producer_advances:
  assumes step: "mpsc_step bsize I (dsys d) s'" and i: "i < 3" "length (prods (dsys d)) = 3"
    and pc: "prods s' = (prods (dsys d))[i := q]" "prods (dsys d) ! i \<noteq> PIdle"
    and other: "cons s' = cons (dsys d)" "delivered s' = delivered (dsys d)" "rs_pos s' = rs_pos (dsys d)"
    and less: "pending_msg q = pending_msg (prods (dsys d) ! i)"
      "prod_work (rs_pos (dsys d)) q < prod_work (rs_pos (dsys d)) (prods (dsys d) ! i)"
  shows "advances bsize I d"
proof -
  let ?d = "d\<lparr>dsys := s'\<rparr>"
  have "inner (dsys d) s'" by (rule inner_one [OF pc]) (use less in auto)
  then have "demo_step bsize I d ?d" using demo_step_quiet [OF step] other by simp
  moreover have "unsent ?d = unsent d"
    unfolding unsent_def using less(1) i by (intro sum.cong) (auto simp: pc(1) nth_list_update)
  moreover have "work ?d < work d"
    unfolding work_def using i less(2) by (intro sum_one_less [of i]) (simp_all add: pc(1) other(3))
  ultimately show ?thesis by (auto simp: advances_def todo_def)
qed

lemma reserving_advances:
  assumes step: "mpsc_step bsize I (dsys d) s'" and i: "i < 3" "length (prods (dsys d)) = 3"
    and pc: "prods s' = (prods (dsys d))[i := q]" "pending_msg (prods (dsys d) ! i) \<noteq> []" "pending_msg q = []" "q \<noteq> PIdle"
    and other: "cons s' = cons (dsys d)" "delivered s' = delivered (dsys d)"
  shows "advances bsize I d"
proof -
  let ?d = "d\<lparr>dsys := s'\<rparr>"
  have "inner (dsys d) s'" by (rule inner_one [OF pc(1)]) (use pc(2,4) in auto)
  then have "demo_step bsize I d ?d" using demo_step_quiet [OF step] other by simp
  moreover have "unsent ?d < unsent d"
    unfolding unsent_def using i pc(2,3) by (intro sum_one_less [of i]) (simp_all add: pc(1))
  ultimately show ?thesis by (auto simp: advances_def todo_def)
qed

lemma consumer_advances:
  assumes step: "mpsc_step bsize I (dsys d) s'" and open_loop: "\<not> loop_ended d"
    and same: "prods s' = prods (dsys d)" "rs_pos s' = rs_pos (dsys d)" "cm_pos s' = cm_pos (dsys d)"
    and less: "unat (cm_pos (dsys d)) - unat (rd_pos s') < unread d \<or>
      rd_pos s' = rd_pos (dsys d) \<and> cons_work (cm_pos s') (cons s') < cons_work (cm_pos s') (cons (dsys d))"
  shows "advances bsize I d"
proof -
  let ?new = "drop (length (delivered (dsys d))) (delivered s')"
  let ?d = "d\<lparr>dsys := s', printed := printed d @ concat (map (lines_of \<circ> react) ?new),
      loop_ended := loop_ended d \<or> list_ex (ends_loop \<circ> react) ?new\<rparr>"
  have "inner (dsys d) s'" using same(1) by (auto simp: inner_def list_all_iff split: prod_pc.splits)
  then have "demo_step bsize I d ?d" using moves [OF step _ _ refl] open_loop by simp
  moreover have "unsent ?d = unsent d" "work ?d = work d" by (simp_all add: unsent_def work_def same)
  moreover have "unread ?d < unread d \<or> unread ?d = unread d \<and>
      cons_work (cm_pos s') (cons s') < cons_work (cm_pos s') (cons (dsys d))"
    using less by (auto simp: unread_def same(3))
  ultimately show ?thesis unfolding advances_def todo_def by (intro exI [of _ ?d]) (auto simp: same(3))
qed

section \<open>Who moves\<close>

text \<open>A producer on its way to a reservation: there is always room for it.\<close>

lemma demo_plan:
  assumes ok: "demo_ok bsize I progs d" and progs: "progs_ok bsize progs"
    and i: "i < 3" "prods (dsys d) ! i = PLoadReserve t p rd"
  obtains pad new where "reserve_plan bsize rd (rs_pos (dsys d)) (message_size p) = Some (pad, new)"
proof -
  let ?s = "dsys d"
  from ok obtain recs where inv: "ring_inv bsize I recs ?s" and len: "length (prods ?s) = 3"
    by (auto simp: demo_ok_def)
  have "prod_ok bsize (queue (shared ?s)) (prods ?s ! i)" using inv i(1) len by (simp add: ring_inv_def)
  then have msg: "msg_ok t p" and rd: "unat rd \<le> unat (rd_pos ?s)" using i(2) by simp_all
  have ms: "unat (message_size p) = padded (8 + length p)" using msg by (simp add: msg_ok_def message_size_unat)
  have "chain (unat bsize) (prods ?s) (unat (cm_pos ?s)) (flight ?s) (unat (rs_pos ?s))"
    using inv by (simp add: ring_inv_def)
  from chain_le [OF this] inv have pos: "unat (rd_pos ?s) \<le> unat (rs_pos ?s)" "total ?s = unat (rs_pos ?s)"
    by (simp_all add: ring_inv_def)
  have room: "unat (rs_pos ?s) + padded (8 + length p) \<le> unat bsize"
    using demo_room [OF ok progs i(1)] i(2) pos(2) by simp
  have small: "0 < padded (8 + length p)" by (simp add: padded_def)
  have "unat rd + (unat (rs_pos ?s) - unat rd) = unat (rs_pos ?s)" "unat (rs_pos ?s) - unat rd \<le> unat bsize" "0 < unat bsize"
    using rd pos room small by simp_all
  note plan = reserve_plan_room(1) [OF this refl, of "message_size p"]
  have "pad_for (unat bsize) (unat (rs_pos ?s)) (unat (message_size p)) = 0"
    using room small ms by (simp add: pad_for_def)
  then have "reserve_plan bsize rd (rs_pos ?s) (message_size p) \<noteq> None" using plan room ms by simp
  with that show thesis by auto
qed

lemma reserver_moves:
  assumes ok: "demo_ok bsize I progs d" and progs: "progs_ok bsize progs"
    and i: "i < 3" "prods (dsys d) ! i \<noteq> PIdle" "\<not> reserving (prods (dsys d) ! i)"
  shows "advances bsize I d"
proof -
  let ?s = "dsys d"
  have len: "length (prods ?s) = 3" using ok by (simp add: demo_ok_def)
  then have lt: "i < length (prods ?s)" using i(1) by simp
  show ?thesis
  proof (cases "prods ?s ! i")
    case (PLoadRead t p)
    show ?thesis
      by (rule producer_advances [where q = "PLoadReserve t p (rd_pos ?s)", OF load_read [OF lt PLoadRead] i(1) len]) (simp_all add: PLoadRead)
  next
    case (PLoadReserve t p rd)
    obtain pad new where plan: "reserve_plan bsize rd (rs_pos ?s) (message_size p) = Some (pad, new)"
      by (rule demo_plan [OF ok progs i(1) PLoadReserve])
    show ?thesis
      by (rule producer_advances [where q = "PCas t p rd (rs_pos ?s) pad new", OF reserve_go [OF lt PLoadReserve plan] i(1) len]) (simp_all add: PLoadReserve)
  next
    case (PCas t p rd rs pad new)
    show ?thesis
    proof (cases "rs_pos ?s = rs")
      case True
      show ?thesis
        by (rule reserving_advances [where q = "if pad \<ge> MessageHeaderSize then PWritePad t p rs pad new else PWriteMsg t p rs pad new", OF cas_ok [OF lt PCas True refl] i(1) len]) (simp_all add: PCas)
    next
      case False
      then show ?thesis
        by (intro producer_advances [where q = "PLoadRead t p", OF cas_fail [OF lt PCas] i(1) len]) (auto simp: PCas)
    qed
  next
    case (PRetry t p)
    show ?thesis
      by (rule producer_advances [where q = "PLoadRead t p", OF send_again [OF lt PRetry] i(1) len]) (simp_all add: PRetry)
  qed (use i in \<open>simp_all add: reserving_def\<close>)
qed

lemma store_ring_keeps [simp]:
  "prods (store_ring r s) = prods s" "cons (store_ring r s) = cons s" "delivered (store_ring r s) = delivered s"
  "queue (shared (store_ring r s)) = queue (shared s)"
  by (simp_all add: store_ring_def split: option.splits)

text \<open>The producer whose reservation is the first: it writes and publishes.\<close>

lemma writer_moves:
  assumes ok: "demo_ok bsize I progs d" and flight: "flight (dsys d) \<noteq> []"
  shows "advances bsize I d"
proof -
  let ?s = "dsys d"
  from ok obtain recs where inv: "ring_inv bsize I recs ?s" and len: "length (prods ?s) = 3"
    by (auto simp: demo_ok_def)
  obtain i others where fl: "flight ?s = i # others" using flight by (cases "flight ?s") auto
  have "chain (unat bsize) (prods ?s) (unat (cm_pos ?s)) (i # others) (unat (rs_pos ?s))"
    using inv by (simp add: ring_inv_def fl [symmetric])
  then obtain pl where lt: "i < length (prods ?s)" and pl: "reservation (prods ?s ! i) = Some pl"
    "plan_begin pl = unat (cm_pos ?s)" by (auto split: option.splits)
  then have i: "i < 3" using len by simp
  show ?thesis
  proof (cases "prods ?s ! i")
    case (PWritePad t p rs pad new)
    show ?thesis
      by (rule producer_advances [where q = "PWriteMsg t p rs pad new", OF write_pad [OF lt PWritePad] i len]) (simp_all add: PWritePad)
  next
    case (PWriteMsg t p rs pad new)
    show ?thesis
      by (rule producer_advances [where q = "PPublish t p rs pad new", OF write_msg [OF lt PWriteMsg] i len]) (simp_all add: PWriteMsg)
  next
    case (PPublish t p rs pad new)
    then have first: "cm_pos ?s = rs" using pl by (auto simp: word_unat_eq_iff)
    show ?thesis
      by (rule producer_advances [where q = "PIdle", OF publish [OF lt PPublish first] i len]) (simp_all add: PPublish)
  qed (use pl(1) in simp_all)
qed

text \<open>A program that has still to send.\<close>

lemma demo_sender_moves:
  assumes ok: "demo_ok bsize I progs d" and progs: "progs_ok bsize progs"
    and idle: "\<forall>i < 3. prods (dsys d) ! i = PIdle" and some: "i < 3" "left d ! i \<noteq> []"
  shows "advances bsize I d"
proof -
  let ?s = "dsys d"
  have len: "length (prods ?s) = 3" "length (left d) = 3" using ok by (simp_all add: demo_ok_def)
  obtain k where k: "k < 3" "left d ! k \<noteq> []" "may_send k d"
  proof (cases "left d ! 0 = [] \<and> left d ! 1 = []")
    case True
    then show thesis using that [of i] some idle by (simp add: may_send_def)
  next
    case False
    then show thesis using that [of 0] that [of 1] by (auto simp: may_send_def)
  qed
  obtain t p ms where l: "left d ! k = (t, p) # ms" using k(2) by (cases "left d ! k") auto
  have "msg_ok t p" by (rule demo_left_ok [OF ok progs k(1) l])
  then have ms: "unat (message_size p) = padded (8 + length p)" by (simp add: msg_ok_def message_size_unat)
  have "padded (8 + length p) \<le> unat bsize" using demo_room [OF ok progs k(1)] l by simp
  then have fits: "\<not> ucast (message_size p) > bsize" using ms by (simp add: word_less_nat_alt)
  have "k < length (prods ?s)" "prods ?s ! k = PIdle" using k(1) len idle by simp_all
  note step = sends [OF this l k(3) fits, of I]
  let ?d = "d\<lparr>dsys := (set_prod k (PLoadRead t p) ?s)
      \<lparr>misused := misused ?s \<or> t = Padding \<or> length p + 15 \<ge> 2 ^ 32\<rparr>, left := (left d)[k := ms]\<rparr>"
  have "unsent ?d = unsent d"
    unfolding unsent_def using k(1) len l idle by (intro sum.cong) (auto simp: nth_list_update)
  moreover have "work ?d < work d"
    unfolding work_def using k(1) len l idle by (intro sum_one_less [of k]) simp_all
  ultimately show ?thesis using step unfolding advances_def todo_def by (intro exI [of _ ?d]) auto
qed

text \<open>Everything is published and the consumer has not seen the stop: a record waits for it.\<close>

lemma stop_waits:
  assumes ok: "demo_ok bsize I [first, second, producer_stop] d" and inv: "ring_inv bsize I recs (dsys d)"
    and quiet: "flight (dsys d) = []" "left d ! 2 = []" "prods (dsys d) ! 2 = PIdle" and open_loop: "\<not> loop_ended d"
  shows "recs \<noteq> []"
proof
  assume none: "recs = []"
  let ?s = "dsys d"
  have "map snd (drop (taken ?s) (reserved ?s)) = rec_msgs recs @ map (\<lambda>i. flight_msg (prods ?s ! i)) (flight ?s)"
    and del: "delivered ?s = map encode_msg (filter (\<lambda>m. wanted_code I (type_code (fst m)))
      (map snd (take (taken ?s) (reserved ?s))))" using inv by (simp_all add: ring_inv_def)
  then have "take (taken ?s) (reserved ?s) = reserved ?s" using none quiet(1) by simp
  moreover have "sent_by 2 (reserved ?s) = producer_stop"
  proof -
    have "sent_by 2 (reserved ?s) @ pending_msg (prods ?s ! 2) @ left d ! 2 = [first, second, producer_stop] ! 2"
      using ok by (simp add: demo_ok_def)
    then show ?thesis using quiet by simp
  qed
  then have "(Stop, []) \<in> set (sent_by 2 (reserved ?s))" by (simp add: producer_stop_def)
  then have "(Stop, []) \<in> set (map snd (reserved ?s))" by (auto simp: sent_by_def)
  ultimately have "encode_msg (Stop, []) \<in> set (delivered ?s)"
    by (simp add: del wanted_code_def)
  moreover have "ends_loop (react (encode_msg (Stop, [])))" by (simp add: react_def encode_msg_def)
  ultimately show False using ok open_loop by (auto simp: demo_ok_def list_ex_iff)
qed

lemma demo_reader_moves:
  assumes inv: "ring_inv bsize I recs (dsys d)" and sz: "ring_size_ok bsize" and quiet: "flight (dsys d) = []"
    and wait: "recs \<noteq> []" and open_loop: "\<not> loop_ended d"
  shows "advances bsize I d"
proof -
  let ?s = "dsys d"
  have cons: "cons_ok I (queue (shared ?s)) recs (cons ?s)" using inv by (simp add: ring_inv_def)
  have pos: "unat (rd_pos ?s) + recs_size recs = unat (cm_pos ?s)" using inv by (simp add: ring_inv_def)
  have fits: "rec_fits (unat bsize) (unat (rd_pos ?s)) (hd recs)" and split: "recs = hd recs # tl recs"
    using inv wait by (cases recs, auto simp: ring_inv_def rec_at_def)+
  have less: "unat (cm_pos ?s) - unat p < unread d" if "unat p = unat (rd_pos ?s) + rec_size (hd recs)" for p
  proof -
    have "recs_size recs = rec_size (hd recs) + recs_size (tl recs)" by (subst split) simp
    then show ?thesis using that pos rec_size_ge [OF fits] by (simp add: unread_def)
  qed
  have holds: "shm_holds bsize recs (shared ?s)"
    using inv quiet by (auto simp: ring_inv_def shm_holds_def word_unat_eq_iff)
  note step = consumer_advances [OF _ open_loop]
  show ?thesis
  proof (cases "cons ?s")
    case CIdle
    show ?thesis by (rule step [OF call_receive [OF CIdle]]) (simp_all add: CIdle)
  next
    case CLoadRead
    show ?thesis by (rule step [OF load_own_read [OF CLoadRead]]) (simp_all add: CLoadRead)
  next
    case (CLoadCommit rd)
    show ?thesis by (rule step [OF load_commit [OF CLoadCommit]]) (simp_all add: CLoadCommit)
  next
    case (CPass rd cm)
    obtain r where r: "receive_pass bsize I (ring (shared ?s)) rd cm = Some r"
      using consumer_pass [OF inv sz CPass] by blast
    have "cm \<noteq> cm_pos ?s" if "r = NothingYet"
    proof
      assume "cm = cm_pos ?s"
      moreover have "rd = rd_pos ?s" using cons CPass by simp
      ultimately have "r = pass_of I (hd recs) (rd_pos ?s + word_of_nat (rec_size (hd recs)))"
        using pass_on_holds(1) [OF _ sz, of "hd recs" "tl recs" "shared ?s" I] holds split r by simp
      then show False using that by (cases "hd recs") simp_all
    qed
    then show ?thesis
    proof (cases r)
      case NothingYet
      from r this pass_nothing [OF CPass] have "mpsc_step bsize I ?s (?s\<lparr>cons := CIdle\<rparr>)" by simp
      from step [OF this] CPass \<open>r = NothingYet \<Longrightarrow> cm \<noteq> cm_pos ?s\<close> NothingYet show ?thesis by simp
    next
      case (SkipTo p)
      from r this pass_skip [OF CPass] have "mpsc_step bsize I ?s (?s\<lparr>cons := CSkip p\<rparr>)" by simp
      from step [OF this] CPass show ?thesis by simp
    next
      case (Took m p)
      from r this pass_take [OF CPass] have "mpsc_step bsize I ?s (?s\<lparr>cons := CTake m p\<rparr>)" by simp
      from step [OF this] CPass show ?thesis by simp
    qed
  next
    case (CSkip p)
    then have "unat p = unat (rd_pos ?s) + rec_size (hd recs)" using cons by auto
    from less [OF this] show ?thesis by (intro step [OF store_skip [OF CSkip]]) simp_all
  next
    case (CTake m p)
    then have "unat p = unat (rd_pos ?s) + rec_size (hd recs)" using cons by auto
    from less [OF this] show ?thesis by (intro step [OF store_take [OF CTake]]) simp_all
  qed
qed

lemma demo_advances:
  assumes ok: "demo_ok bsize I progs d" and progs: "progs_ok bsize progs" and sz: "ring_size_ok bsize"
    and open_loop: "\<not> loop_ended d"
  shows "advances bsize I d"
proof -
  let ?s = "dsys d"
  obtain recs where inv: "ring_inv bsize I recs ?s" and len: "length (prods ?s) = 3"
    using ok by (auto simp: demo_ok_def)
  consider "flight ?s \<noteq> []" | i where "flight ?s = []" "i < 3" "prods ?s ! i \<noteq> PIdle"
    | i where "\<forall>i < 3. prods ?s ! i = PIdle" "i < 3" "left d ! i \<noteq> []"
    | "flight ?s = []" "\<forall>i < 3. prods ?s ! i = PIdle" "\<forall>i < 3. left d ! i = []" by blast
  then show ?thesis
  proof cases
    case 1
    then show ?thesis by (rule writer_moves [OF ok])
  next
    case (2 i)
    then have "\<not> reserving (prods ?s ! i)" using inv len by (simp add: ring_inv_def)
    then show ?thesis by (rule reserver_moves [OF ok progs 2(2,3)])
  next
    case (3 i)
    then show ?thesis by (rule demo_sender_moves [OF ok progs])
  next
    case 4
    have "progs = [progs ! 0, progs ! 1, producer_stop]"
      using progs by (auto simp: progs_ok_def length_Suc_conv numeral_3_eq_3)
    then have "demo_ok bsize I [progs ! 0, progs ! 1, producer_stop] d" using ok by simp
    from stop_waits [OF this inv 4(1) _ _ open_loop] 4(2,3) have "recs \<noteq> []" by simp
    then show ?thesis by (rule demo_reader_moves [OF inv sz 4(1) _ open_loop])
  qed
qed

section \<open>Property\<close>

text \<open>C24: The example programs together can always finish: from every state they reach, whatever the
  interleaving so far, some sequence of steps ends the consumer's loop. No producer waits for room,
  none waits for ever for its turn to publish, and the stop reaches the consumer.\<close>
theorem demo_finishes:
  assumes "mpsc_init bsize 3 s" and "ring_size_ok bsize" and "progs_ok bsize [first, second, producer_stop]"
    and "(demo_step bsize I)\<^sup>*\<^sup>* (demo_start s first second) d"
  shows "\<exists>d'. (demo_step bsize I)\<^sup>*\<^sup>* d d' \<and> loop_ended d'"
proof -
  have "wf todo" by (simp add: todo_def)
  then show ?thesis
    using assms(4)
  proof (induction d rule: wf_induct_rule)
    case (less d)
    show ?case
    proof (cases "loop_ended d")
      case False
      with demo_reachable [OF assms(1-3) less.prems] assms(2,3) have "advances bsize I d" by (intro demo_advances)
      then obtain e where e: "demo_step bsize I d e" "(e, d) \<in> todo" by (auto simp: advances_def)
      from less.IH [OF e(2)] less.prems e(1) show ?thesis
        by (meson converse_rtranclp_into_rtranclp rtranclp.rtrancl_into_rtrancl)
    qed blast
  qed
qed

theorem demo_finishes_witness:
  "\<exists>d'. (demo_step 32 All)\<^sup>*\<^sup>* (demo_start tiny_start [(Text, [65])] []) d' \<and> loop_ended d'"
proof (rule demo_finishes [OF tiny_start_init _ _ rtranclp.rtrancl_refl])
  show "ring_size_ok 32" by (simp add: ring_size_ok_def)
  show "progs_ok 32 [[(Text, [65])], [], producer_stop]"
    by (simp add: progs_ok_def producer_stop_def msg_ok_def padded_def)
qed

end
