(* ===== verification/Mpsc_Nodes.thy ===== *)
theory Mpsc_Nodes
  imports Mpsc_Layout
begin

text \<open>
  The life of the nodes of the shared-memory queue (\<^verbatim>\<open>hw-5/mpsc_queue.cpp\<close>): opening or creating
  the segment (\<open>SharedMemoryRegion\<close>), initialising it or waiting until it is ready
  (\<open>InitializeIfNeeded\<close>, \<open>WaitUntilReady\<close>), checking it (\<open>ValidateProtocol\<close>), counting the nodes,
  and leaving, with the last consumer unlinking the name. Any number of producers and consumers
  that use one name, one system call or atomic access a step.
\<close>

section \<open>State\<close>

text \<open>
  A shared-memory object: its size (0 from \<open>shm_open\<close> to \<open>ftruncate\<close>) and the two headers at its
  begin; \<open>ftruncate\<close> fills it with zeros.
\<close>

record segment =
  seg_bytes :: u64
  header :: protocol_header
  positions :: queue_header

definition new_object :: segment where
  "new_object = \<lparr>seg_bytes = 0,
     header = \<lparr>magic = 0, version = 0, shmSize = 0, bufferSize = 0, initState = 0,
       producerCount = 0, consumerCount = 0, refCount = 0\<rparr>,
     positions = fresh_queue\<rparr>"

datatype role = Producer | Consumer

text \<open>
  How a node ends: its constructor threw, \<open>CHECK_ERROR\<close> called \<open>exit\<close>, it touched a page behind
  the end of the object (\<open>SIGBUS\<close>).
\<close>

datatype node_end = Threw mpsc_error | ExitFailure | BusError

text \<open>The number is the object that is open.\<close>

datatype node_pc =
    NodeStart
  | OpenAgain
  | Truncating nat
  | Mapping nat bool
  | InitNew nat
  | InitMark nat
  | InitFields nat
  | InitCounters nat
  | InitPositions nat
  | InitReady nat
  | Waiting nat
  | Checking nat
  | CountRole nat
  | CountRef nat
  | Attached nat
  | UncountRole nat
  | UncountRef nat
  | Unlinking
  | Gone
  | Dead node_end

record node =
  role :: role
  size_arg :: u64
  pc :: node_pc

record node_sys =
  path :: "nat option"
  segs :: "segment list"
  nodes :: "node list"

section \<open>Operations\<close>

definition set_pc :: "nat \<Rightarrow> node_pc \<Rightarrow> node_sys \<Rightarrow> node_sys" where
  "set_pc i p s = s\<lparr>nodes := (nodes s)[i := (nodes s ! i)\<lparr>pc := p\<rparr>]\<rparr>"

definition set_header :: "nat \<Rightarrow> (protocol_header \<Rightarrow> protocol_header) \<Rightarrow> node_sys \<Rightarrow> node_sys" where
  "set_header k f s = s\<lparr>segs := (segs s)[k := (segs s ! k)\<lparr>header := f (header (segs s ! k))\<rparr>]\<rparr>"

definition set_positions :: "nat \<Rightarrow> queue_header \<Rightarrow> node_sys \<Rightarrow> node_sys" where
  "set_positions k q s = s\<lparr>segs := (segs s)[k := (segs s ! k)\<lparr>positions := q\<rparr>]\<rparr>"

text \<open>\<open>ValidateProtocol\<close>; the producer looks at the state once more.\<close>

definition ValidateProtocol :: "role \<Rightarrow> u64 \<Rightarrow> u64 \<Rightarrow> protocol_header \<Rightarrow> mpsc_error option" where
  "ValidateProtocol r shm_size buffer_size h =
     (if magic h \<noteq> ProtocolMagic then Some InvalidMagic
      else if version h \<noteq> ProtocolVersion then Some UnsupportedVersion
      else if shmSize h \<noteq> shm_size then Some ShmSizeMismatch
      else if bufferSize h \<noteq> buffer_size then Some BufferSizeMismatch
      else if r = Producer \<and> initState h \<noteq> init_code Ready then Some NotReady
      else None)"

text \<open>The two atomic counters of a node, at the end of its constructor and in its destructor.\<close>

fun count_role :: "role \<Rightarrow> u32 \<Rightarrow> protocol_header \<Rightarrow> protocol_header" where
  "count_role Producer d h = h\<lparr>producerCount := producerCount h + d\<rparr>"
| "count_role Consumer d h = h\<lparr>consumerCount := consumerCount h + d\<rparr>"

definition count_ref :: "u32 \<Rightarrow> protocol_header \<Rightarrow> protocol_header" where
  "count_ref d h = h\<lparr>refCount := refCount h + d\<rparr>"

text \<open>\<open>SharedMemoryRegion\<close>: \<open>shm_open\<close> with \<open>O_CREAT | O_EXCL\<close>, or of an existing object.\<close>

definition open_existing :: "nat \<Rightarrow> node_sys \<Rightarrow> node_sys" where
  "open_existing i s =
     (case path s of None \<Rightarrow> set_pc i (Dead ExitFailure) s | Some k \<Rightarrow> set_pc i (Mapping k False) s)"

definition open_or_create :: "nat \<Rightarrow> node_sys \<Rightarrow> node_sys" where
  "open_or_create i s =
     (case path s of
        None \<Rightarrow> (set_pc i (Truncating (length (segs s))) s)
                  \<lparr>path := Some (length (segs s)), segs := segs s @ [new_object]\<rparr>
      | Some k \<Rightarrow> set_pc i OpenAgain s)"

text \<open>\<open>ftruncate\<close> takes a signed size.\<close>

definition truncate_object :: "nat \<Rightarrow> nat \<Rightarrow> node_sys \<Rightarrow> node_sys" where
  "truncate_object i k s =
     (let n = size_arg (nodes s ! i)
      in if 2 ^ 63 \<le> n then set_pc i (Dead ExitFailure) s
         else (set_pc i (Mapping k True) s)\<lparr>segs := (segs s)[k := (segs s ! k)\<lparr>seg_bytes := n\<rparr>]\<rparr>)"

text \<open>\<open>mmap\<close> (of length 0 it fails) and the size of the ring, computed before the body runs.\<close>

definition map_object :: "nat \<Rightarrow> nat \<Rightarrow> bool \<Rightarrow> node_sys \<Rightarrow> node_sys" where
  "map_object i k creator s =
     (let n = size_arg (nodes s ! i)
      in if n = 0 then set_pc i (Dead (Threw MmapFailed)) s
         else case GetBufferSizeFromShmSize n of
                Inl e \<Rightarrow> set_pc i (Dead (Threw e)) s
              | Inr b \<Rightarrow> set_pc i (if creator then InitNew k else Waiting k) s)"

text \<open>\<open>WaitUntilReady\<close>: one load of \<open>initState\<close>.\<close>

definition wait_ready :: "nat \<Rightarrow> nat \<Rightarrow> node_sys \<Rightarrow> node_sys" where
  "wait_ready i k s =
     (if seg_bytes (segs s ! k) = 0 then set_pc i (Dead BusError) s
      else if initState (header (segs s ! k)) = init_code Ready then set_pc i (Checking k) s
      else s)"

definition check_protocol :: "nat \<Rightarrow> nat \<Rightarrow> node_sys \<Rightarrow> node_sys" where
  "check_protocol i k s =
     (let x = nodes s ! i
      in case ValidateProtocol (role x) (size_arg x) (size_arg x - HeaderSize) (header (segs s ! k)) of
           Some e \<Rightarrow> set_pc i (Dead (Threw e)) s
         | None \<Rightarrow> set_pc i (CountRole k) s)"

text \<open>The fields \<open>InitializeIfNeeded\<close> writes between the two stores of \<open>initState\<close>.\<close>

definition init_fields :: "u64 \<Rightarrow> protocol_header \<Rightarrow> protocol_header" where
  "init_fields n h = h\<lparr>magic := ProtocolMagic, version := ProtocolVersion, shmSize := n,
     bufferSize := n - HeaderSize\<rparr>"

text \<open>The next step of a node; a node that is attached leaves.\<close>

definition node_turn :: "nat \<Rightarrow> node_sys \<Rightarrow> node_sys option" where
  "node_turn i s =
     (let x = nodes s ! i
      in case pc x of
           NodeStart \<Rightarrow> Some (if role x = Producer then open_or_create i s else open_existing i s)
         | OpenAgain \<Rightarrow> Some (open_existing i s)
         | Truncating k \<Rightarrow> Some (truncate_object i k s)
         | Mapping k creator \<Rightarrow> Some (map_object i k creator s)
         | InitNew k \<Rightarrow> Some (set_pc i (InitMark k) (set_positions k fresh_queue (set_header k (\<lambda>h. fresh_protocol) s)))
         | InitMark k \<Rightarrow> Some (set_pc i (InitFields k) (set_header k (\<lambda>h. h\<lparr>initState := init_code Initializing\<rparr>) s))
         | InitFields k \<Rightarrow> Some (set_pc i (InitCounters k) (set_header k (init_fields (size_arg x)) s))
         | InitCounters k \<Rightarrow> Some (set_pc i (InitPositions k)
             (set_header k (\<lambda>h. h\<lparr>producerCount := 0, consumerCount := 0, refCount := 0\<rparr>) s))
         | InitPositions k \<Rightarrow> Some (set_pc i (InitReady k) (set_positions k fresh_queue s))
         | InitReady k \<Rightarrow> Some (set_pc i (CountRole k) (set_header k (\<lambda>h. h\<lparr>initState := init_code Ready\<rparr>) s))
         | Waiting k \<Rightarrow> Some (wait_ready i k s)
         | Checking k \<Rightarrow> Some (check_protocol i k s)
         | CountRole k \<Rightarrow> Some (set_pc i (CountRef k) (set_header k (count_role (role x) 1) s))
         | CountRef k \<Rightarrow> Some (set_pc i (Attached k) (set_header k (count_ref 1) s))
         | Attached k \<Rightarrow> Some (set_pc i (UncountRole k) s)
         | UncountRole k \<Rightarrow> Some (set_pc i (UncountRef k) (set_header k (count_role (role x) (- 1)) s))
         | UncountRef k \<Rightarrow>
             Some (set_pc i (if role x = Consumer \<and> refCount (header (segs s ! k)) = 1 then Unlinking else Gone)
               (set_header k (count_ref (- 1)) s))
         | Unlinking \<Rightarrow> Some ((set_pc i Gone s)\<lparr>path := None\<rparr>)
         | Gone \<Rightarrow> None
         | Dead e \<Rightarrow> None)"

text \<open>Nodes take turns; an attached node sends and receives, which moves the positions.\<close>

inductive node_step :: "node_sys \<Rightarrow> node_sys \<Rightarrow> bool" where
  node_moves: "i < length (nodes s) \<Longrightarrow> node_turn i s = Some t \<Longrightarrow> node_step s t"
| node_uses: "i < length (nodes s) \<Longrightarrow> pc (nodes s ! i) = Attached k \<Longrightarrow> node_step s (set_positions k q s)"

definition node_init :: "node_sys \<Rightarrow> bool" where
  "node_init s \<longleftrightarrow> path s = None \<and> segs s = [] \<and> list_all (\<lambda>x. pc x = NodeStart) (nodes s)"

text \<open>Turns that can be computed: the node that moves.\<close>

definition node_move :: "nat \<Rightarrow> node_sys \<Rightarrow> node_sys option" where
  "node_move i s = (if i < length (nodes s) then node_turn i s else None)"

abbreviation node_turns :: "nat list \<Rightarrow> node_sys \<Rightarrow> node_sys option" where
  "node_turns \<equiv> run_turns node_move"

lemma node_move_step: "node_move i s = Some t \<Longrightarrow> node_step s t"
  by (auto simp: node_move_def intro: node_moves split: if_splits)

end
