(* ===== verification/Mpsc_Nodes_Inv.thy ===== *)
theory Mpsc_Nodes_Inv
  imports Mpsc_Nodes
begin

text \<open>
  The invariant of the nodes of the shared-memory queue: a segment has one creator, is not used
  before it is ready, and its counters count the nodes. A step of a node changes its own point
  and one object; what that asks of the invariant is shown here once.
\<close>

section \<open>Invariant\<close>

text \<open>The object a node is creating, has counted itself in by role, and in the total.\<close>

fun creating :: "node_pc \<Rightarrow> nat option" where
  "creating (Truncating k) = Some k"
| "creating (Mapping k creator) = (if creator then Some k else None)"
| "creating (InitNew k) = Some k"
| "creating (InitMark k) = Some k"
| "creating (InitFields k) = Some k"
| "creating (InitCounters k) = Some k"
| "creating (InitPositions k) = Some k"
| "creating (InitReady k) = Some k"
| "creating _ = None"

fun role_counted :: "node_pc \<Rightarrow> nat option" where
  "role_counted (CountRef k) = Some k"
| "role_counted (Attached k) = Some k"
| "role_counted (UncountRole k) = Some k"
| "role_counted _ = None"

fun ref_counted :: "node_pc \<Rightarrow> nat option" where
  "ref_counted (Attached k) = Some k"
| "ref_counted (UncountRole k) = Some k"
| "ref_counted (UncountRef k) = Some k"
| "ref_counted _ = None"

definition ready :: "segment \<Rightarrow> bool" where
  "ready g \<longleftrightarrow> initState (header g) = init_code Ready"

definition fields_ok :: "segment \<Rightarrow> bool" where
  "fields_ok g \<longleftrightarrow> magic (header g) = ProtocolMagic \<and> version (header g) = ProtocolVersion \<and>
     shmSize (header g) = seg_bytes g \<and> bufferSize (header g) = seg_bytes g - HeaderSize \<and> HeaderSize < seg_bytes g"

definition counters_zero :: "segment \<Rightarrow> bool" where
  "counters_zero g \<longleftrightarrow> producerCount (header g) = 0 \<and> consumerCount (header g) = 0 \<and> refCount (header g) = 0"

text \<open>What a node knows at each point.\<close>

definition own_object :: "segment list \<Rightarrow> u64 \<Rightarrow> nat \<Rightarrow> bool" where
  "own_object gs n k \<longleftrightarrow> k < length gs \<and> \<not> ready (gs ! k) \<and> seg_bytes (gs ! k) = n"

definition in_use :: "segment list \<Rightarrow> u64 \<Rightarrow> nat \<Rightarrow> bool" where
  "in_use gs n k \<longleftrightarrow> k < length gs \<and> ready (gs ! k) \<and> shmSize (header (gs ! k)) = n"

fun pc_ok :: "segment list \<Rightarrow> u64 \<Rightarrow> node_pc \<Rightarrow> bool" where
  "pc_ok gs n (Truncating k) \<longleftrightarrow> k < length gs \<and> \<not> ready (gs ! k)"
| "pc_ok gs n (Mapping k creator) \<longleftrightarrow> k < length gs \<and> (creator \<longrightarrow> own_object gs n k)"
| "pc_ok gs n (InitNew k) \<longleftrightarrow> own_object gs n k \<and> HeaderSize < n"
| "pc_ok gs n (InitMark k) \<longleftrightarrow> own_object gs n k \<and> HeaderSize < n"
| "pc_ok gs n (InitFields k) \<longleftrightarrow> own_object gs n k \<and> HeaderSize < n"
| "pc_ok gs n (InitCounters k) \<longleftrightarrow> own_object gs n k \<and> fields_ok (gs ! k)"
| "pc_ok gs n (InitPositions k) \<longleftrightarrow> own_object gs n k \<and> fields_ok (gs ! k) \<and> counters_zero (gs ! k)"
| "pc_ok gs n (InitReady k) \<longleftrightarrow> own_object gs n k \<and> fields_ok (gs ! k) \<and> counters_zero (gs ! k)"
| "pc_ok gs n (Waiting k) \<longleftrightarrow> k < length gs"
| "pc_ok gs n (Checking k) \<longleftrightarrow> k < length gs \<and> ready (gs ! k)"
| "pc_ok gs n (CountRole k) \<longleftrightarrow> in_use gs n k"
| "pc_ok gs n (CountRef k) \<longleftrightarrow> in_use gs n k"
| "pc_ok gs n (Attached k) \<longleftrightarrow> in_use gs n k"
| "pc_ok gs n (UncountRole k) \<longleftrightarrow> in_use gs n k"
| "pc_ok gs n (UncountRef k) \<longleftrightarrow> in_use gs n k"
| "pc_ok gs n _ \<longleftrightarrow> True"

definition node_ok :: "segment list \<Rightarrow> node \<Rightarrow> bool" where
  "node_ok gs x \<longleftrightarrow> pc_ok gs (size_arg x) (pc x)"

definition creators :: "node list \<Rightarrow> nat \<Rightarrow> nat" where
  "creators ns k = cnt (\<lambda>x. creating (pc x) = Some k) ns"

definition referrers :: "node list \<Rightarrow> nat \<Rightarrow> nat" where
  "referrers ns k = cnt (\<lambda>x. ref_counted (pc x) = Some k) ns"

definition members :: "role \<Rightarrow> node list \<Rightarrow> nat \<Rightarrow> nat" where
  "members r ns k = cnt (\<lambda>x. role_counted (pc x) = Some k \<and> role x = r) ns"

definition seg_ok :: "node list \<Rightarrow> nat \<Rightarrow> segment \<Rightarrow> bool" where
  "seg_ok ns k g \<longleftrightarrow> creators ns k \<le> 1 \<and>
     (ready g \<longrightarrow> creators ns k = 0 \<and> fields_ok g \<and> refCount (header g) = of_nat (referrers ns k) \<and>
        producerCount (header g) = of_nat (members Producer ns k) \<and>
        consumerCount (header g) = of_nat (members Consumer ns k))"

definition node_inv :: "node_sys \<Rightarrow> bool" where
  "node_inv s \<longleftrightarrow> (\<forall>i < length (nodes s). node_ok (segs s) (nodes s ! i)) \<and>
     (\<forall>k < length (segs s). seg_ok (nodes s) k (segs s ! k)) \<and>
     (\<forall>k. path s = Some k \<longrightarrow> k < length (segs s))"

section \<open>Counting\<close>

lemma of_nat_cnt_update:
  assumes "i < length xs"
  shows "(of_nat (cnt P (xs[i := x])) :: u32) =
    of_nat (cnt P xs) + (if P x then 1 else 0) - (if P (xs ! i) then 1 else 0)"
proof -
  have "(of_nat (cnt P (xs[i := x]) + (if P (xs ! i) then 1 else 0)) :: u32) =
      of_nat (cnt P xs + (if P x then 1 else 0))"
    using cnt_move [OF assms refl, of P x] by simp
  then show ?thesis by (simp add: algebra_simps split: if_splits)
qed

lemma cnt_same:
  assumes "i < length xs" and "P x \<longleftrightarrow> P (xs ! i)"
  shows "cnt P (xs[i := x]) = cnt P xs"
  using cnt_move [OF assms(1) refl, of P x] assms(2) by (simp split: if_splits)

text \<open>A node whose point speaks of no other object than \<open>k\<close>.\<close>

definition about :: "nat \<Rightarrow> node_pc \<Rightarrow> bool" where
  "about k p \<longleftrightarrow> creating p \<in> {None, Some k} \<and> ref_counted p \<in> {None, Some k} \<and> role_counted p \<in> {None, Some k}"

lemma about_only:
  assumes "about k p" and "j \<noteq> k"
  shows "creating p \<noteq> Some j \<and> ref_counted p \<noteq> Some j \<and> role_counted p \<noteq> Some j"
  using assms by (auto simp: about_def)

lemma counts_elsewhere:
  assumes "i < length ns" and "about k (pc (ns ! i))" and "about k (pc x)" and "j \<noteq> k"
  shows "creators (ns[i := x]) j = creators ns j" "referrers (ns[i := x]) j = referrers ns j"
    "members r (ns[i := x]) j = members r ns j"
  using about_only [OF assms(2,4)] about_only [OF assms(3,4)]
  by (simp_all add: creators_def referrers_def members_def cnt_same [OF assms(1)])

lemma no_counted_before_ready:
  assumes "\<forall>i < length ns. node_ok gs (ns ! i)" and "\<not> ready (gs ! k)"
  shows "referrers ns k = 0" "members r ns k = 0"
proof -
  have "ref_counted (pc x) \<noteq> Some k \<and> role_counted (pc x) \<noteq> Some k" if "x \<in> set ns" for x
  proof -
    from that assms(1) have "pc_ok gs (size_arg x) (pc x)" by (auto simp: in_set_conv_nth node_ok_def)
    with assms(2) show ?thesis by (cases "pc x") (auto simp: in_use_def)
  qed
  then show "referrers ns k = 0" "members r ns k = 0"
    unfolding referrers_def members_def cnt_zero_iff by blast+
qed

text \<open>What other nodes may see of an object does not change, unless its creator is at work.\<close>

definition frozen :: "segment \<Rightarrow> segment \<Rightarrow> bool" where
  "frozen g g' \<longleftrightarrow> seg_bytes g' = seg_bytes g \<and> magic (header g') = magic (header g) \<and>
     version (header g') = version (header g) \<and> shmSize (header g') = shmSize (header g) \<and>
     bufferSize (header g') = bufferSize (header g) \<and> initState (header g') = initState (header g)"

lemma pc_ok_creating:
  assumes "pc_ok gs n p" and "creating p = Some k"
  shows "k < length gs \<and> \<not> ready (gs ! k)"
  using assms by (cases p) (auto simp: own_object_def split: if_splits)

lemma pc_ok_other:
  assumes "pc_ok gs n p" and "creating p \<noteq> Some k" and "\<not> ready (gs ! k)"
  shows "pc_ok (gs[k := g']) n p"
proof -
  have own: "own_object (gs[k := g']) n j = own_object gs n j" if "j \<noteq> k" for j
    using that by (simp add: own_object_def)
  have use: "in_use (gs[k := g']) n j" if "in_use gs n j" for j
    using that assms(3) by (cases "j = k") (auto simp: in_use_def)
  have rd: "ready (gs[k := g'] ! j)" if "ready (gs ! j)" for j
    using that assms(3) by (cases "j = k") auto
  show ?thesis using assms own use rd by (cases p) (simp_all split: if_splits)
qed

lemma pc_ok_frozen:
  assumes "pc_ok gs n p" and "creating p \<noteq> Some k" and "frozen (gs ! k) g'"
  shows "pc_ok (gs[k := g']) n p"
proof (cases "k < length gs")
  case True
  have r: "ready g' = ready (gs ! k)" using assms(3) by (simp add: frozen_def ready_def)
  have own: "own_object (gs[k := g']) n j = own_object gs n j" if "j \<noteq> k" for j
    using that by (simp add: own_object_def)
  have use: "in_use (gs[k := g']) n j" if "in_use gs n j" for j
    using that assms(3) r True by (cases "j = k") (auto simp: in_use_def frozen_def)
  have rd: "ready (gs[k := g'] ! j)" if "ready (gs ! j)" for j
    using that r True by (cases "j = k") auto
  show ?thesis using assms own use rd by (cases p) (simp_all split: if_splits)
qed (use assms(1) in \<open>simp add: list_update_beyond\<close>)

section \<open>One node, one object\<close>

lemma node_update_inv:
  assumes inv: "node_inv s" and i: "i < length (nodes s)" and k: "k < length (segs s)"
    and about: "about k (pc (nodes s ! i))" "about k (pc x)"
    and frame: "g = segs s ! k \<or> frozen (segs s ! k) g \<and> ready (segs s ! k) \<or> creating (pc (nodes s ! i)) = Some k"
    and ok: "node_ok ((segs s)[k := g]) x"
    and seg: "seg_ok ((nodes s)[i := x]) k g"
  shows "node_inv (s\<lparr>nodes := (nodes s)[i := x], segs := (segs s)[k := g]\<rparr>)"
proof -
  have old: "pc_ok (segs s) (size_arg (nodes s ! j)) (pc (nodes s ! j))" if "j < length (nodes s)" for j
    using inv that by (simp add: node_inv_def node_ok_def)
  have segk: "seg_ok (nodes s) k (segs s ! k)" using inv k by (simp add: node_inv_def)
  have other: "pc_ok ((segs s)[k := g]) (size_arg (nodes s ! j)) (pc (nodes s ! j))"
    if j: "j < length (nodes s)" "j \<noteq> i" for j
    using frame
  proof (elim disjE conjE)
    assume "g = segs s ! k"
    with old [OF j(1)] show ?thesis by simp
  next
    assume "frozen (segs s ! k) g" and "ready (segs s ! k)"
    moreover have "creating (pc (nodes s ! j)) \<noteq> Some k" using pc_ok_creating [OF old [OF j(1)]] calculation(2) by blast
    ultimately show ?thesis using pc_ok_frozen [OF old [OF j(1)]] by blast
  next
    assume c: "creating (pc (nodes s ! i)) = Some k"
    have "creating (pc (nodes s ! j)) \<noteq> Some k"
      using cnt_le_one_unique [of "\<lambda>x. creating (pc x) = Some k" "nodes s" i j] segk c i j
      by (auto simp: seg_ok_def creators_def)
    with pc_ok_other [OF old [OF j(1)]] pc_ok_creating [OF old [OF i] c] show ?thesis by blast
  qed
  have "node_ok ((segs s)[k := g]) ((nodes s)[i := x] ! j)" if "j < length (nodes s)" for j
    using that ok other [of j] by (cases "j = i") (simp_all add: node_ok_def)
  moreover have "seg_ok ((nodes s)[i := x]) j ((segs s)[k := g] ! j)" if "j < length (segs s)" for j
  proof (cases "j = k")
    case False
    have "seg_ok (nodes s) j (segs s ! j)" using inv that by (simp add: node_inv_def)
    with False show ?thesis by (simp add: seg_ok_def counts_elsewhere [OF i about False])
  qed (use k seg in simp)
  ultimately show ?thesis using inv by (simp add: node_inv_def)
qed

text \<open>The object stays as it is.\<close>

lemma node_move_inv:
  assumes inv: "node_inv s" and i: "i < length (nodes s)" and k: "k < length (segs s)"
    and about: "about k (pc (nodes s ! i))" "about k p"
    and ok: "pc_ok (segs s) (size_arg (nodes s ! i)) p"
    and same: "ref_counted p = ref_counted (pc (nodes s ! i))" "role_counted p = role_counted (pc (nodes s ! i))"
    and create: "creating p = Some k \<Longrightarrow> creating (pc (nodes s ! i)) = Some k"
  shows "node_inv (set_pc i p s)"
proof -
  let ?x = "(nodes s ! i)\<lparr>pc := p\<rparr>"
  have "referrers ((nodes s)[i := ?x]) k = referrers (nodes s) k"
    "members r ((nodes s)[i := ?x]) k = members r (nodes s) k" for r
    unfolding referrers_def members_def using i same by (auto intro!: cnt_same)
  moreover have "creators ((nodes s)[i := ?x]) k \<le> creators (nodes s) k"
    unfolding creators_def using cnt_move [OF i refl, of "\<lambda>x. creating (pc x) = Some k" ?x] create
    by (auto split: if_splits)
  moreover have "seg_ok (nodes s) k (segs s ! k)" using inv k by (simp add: node_inv_def)
  ultimately have "seg_ok ((nodes s)[i := ?x]) k (segs s ! k)" by (auto simp: seg_ok_def)
  from node_update_inv [OF inv i k about(1) _ _ _ this] about(2) ok show ?thesis
    by (simp add: set_pc_def node_ok_def)
qed

end
