(* ===== verification/Mpsc_Nodes_Steps.thy ===== *)
theory Mpsc_Nodes_Steps
  imports Mpsc_Nodes_Inv
begin

text \<open>
  Every step of a node keeps the invariant: opening, truncating and mapping, the steps of the
  creator, waiting and checking, counting in and out, and leaving.
\<close>

section \<open>Every step keeps the invariant\<close>

lemma node_inv_parts:
  assumes "node_inv s" and "i < length (nodes s)"
  shows "pc_ok (segs s) (size_arg (nodes s ! i)) (pc (nodes s ! i))"
  using assms by (simp add: node_inv_def node_ok_def)

lemma set_pc_frame [simp]:
  "segs (set_pc i p s) = segs s" "path (set_pc i p s) = path s" "length (nodes (set_pc i p s)) = length (nodes s)"
  by (simp_all add: set_pc_def)

lemma set_pc_header:
  "set_pc i p (set_header k f s) = s\<lparr>nodes := (nodes s)[i := (nodes s ! i)\<lparr>pc := p\<rparr>],
     segs := (segs s)[k := (segs s ! k)\<lparr>header := f (header (segs s ! k))\<rparr>]\<rparr>"
  by (simp add: set_pc_def set_header_def)

lemma set_pc_positions:
  "set_pc i p (set_positions k q s) = s\<lparr>nodes := (nodes s)[i := (nodes s ! i)\<lparr>pc := p\<rparr>],
     segs := (segs s)[k := (segs s ! k)\<lparr>positions := q\<rparr>]\<rparr>"
  by (simp add: set_pc_def set_positions_def)

lemma set_pc_new:
  assumes "k < length (segs s)"
  shows "set_pc i p (set_positions k q (set_header k f s)) = s\<lparr>nodes := (nodes s)[i := (nodes s ! i)\<lparr>pc := p\<rparr>],
     segs := (segs s)[k := (segs s ! k)\<lparr>header := f (header (segs s ! k)), positions := q\<rparr>]\<rparr>"
  using assms by (simp add: set_pc_def set_positions_def set_header_def)

text \<open>Going to a point that is about no object.\<close>

lemma node_stop_inv:
  assumes "node_inv s" and "i < length (nodes s)" and "pc_ok (segs s) 0 p"
    and "creating p = None" "ref_counted p = None" "role_counted p = None"
    and "ref_counted (pc (nodes s ! i)) = None" "role_counted (pc (nodes s ! i)) = None"
    and "\<And>gs n. pc_ok gs n p = pc_ok gs 0 p"
  shows "node_inv (set_pc i p s)"
proof -
  let ?x = "(nodes s ! i)\<lparr>pc := p\<rparr>"
  have counts: "referrers ((nodes s)[i := ?x]) k = referrers (nodes s) k"
    "members r ((nodes s)[i := ?x]) k = members r (nodes s) k" for r k
    unfolding referrers_def members_def using assms by (auto intro!: cnt_same)
  have fewer: "creators ((nodes s)[i := ?x]) k \<le> creators (nodes s) k" for k
    unfolding creators_def using cnt_move [OF assms(2) refl, of "\<lambda>x. creating (pc x) = Some k" ?x] assms(4)
    by (auto split: if_splits)
  have "seg_ok ((nodes s)[i := ?x]) k g" if "seg_ok (nodes s) k g" for k g
    using that fewer [of k] by (auto simp: seg_ok_def counts)
  moreover have "node_ok (segs s) ((nodes s)[i := ?x] ! j)" if "j < length (nodes s)" for j
    using assms(1,2,3,9) that by (cases "j = i") (auto simp: node_inv_def node_ok_def)
  ultimately show ?thesis using assms(1) by (simp add: node_inv_def set_pc_def)
qed

lemma dead_inv:
  assumes "node_inv s" and "i < length (nodes s)"
    and "ref_counted (pc (nodes s ! i)) = None" "role_counted (pc (nodes s ! i)) = None"
  shows "node_inv (set_pc i (Dead e) s)"
  using node_stop_inv [OF assms(1,2)] assms(3,4) by simp

lemma open_existing_inv:
  assumes "node_inv s" and "i < length (nodes s)" and "pc (nodes s ! i) \<in> {NodeStart, OpenAgain}"
  shows "node_inv (open_existing i s)"
proof (cases "path s")
  case None
  with dead_inv [OF assms(1,2)] assms(3) show ?thesis by (auto simp: open_existing_def)
next
  case (Some k)
  with assms(1) have "k < length (segs s)" by (simp add: node_inv_def)
  with Some node_move_inv [OF assms(1,2), of k "Mapping k False"] assms(3) show ?thesis
    by (auto simp: open_existing_def about_def)
qed

lemma open_or_create_inv:
  assumes inv: "node_inv s" and i: "i < length (nodes s)" and pc: "pc (nodes s ! i) = NodeStart"
  shows "node_inv (open_or_create i s)"
proof (cases "path s")
  case (Some k)
  with node_stop_inv [OF inv i, of OpenAgain] pc show ?thesis by (simp add: open_or_create_def)
next
  case None
  let ?k = "length (segs s)" and ?x = "(nodes s ! i)\<lparr>pc := Truncating (length (segs s))\<rparr>"
  let ?gs = "segs s @ [new_object]" and ?ns = "(nodes s)[i := ?x]"
  have old: "pc_ok (segs s) (size_arg y) (pc y)" if "y \<in> set (nodes s)" for y
    using inv that by (auto simp: node_inv_def node_ok_def in_set_conv_nth)
  have fresh: "creating (pc y) \<noteq> Some ?k \<and> ref_counted (pc y) \<noteq> Some ?k \<and> role_counted (pc y) \<noteq> Some ?k"
    if "y \<in> set (nodes s)" for y
    using old [OF that] by (cases "pc y") (auto simp: own_object_def in_use_def)
  have keep: "pc_ok ?gs n p" if "pc_ok (segs s) n p" for n p
    using that by (cases p) (auto simp: own_object_def in_use_def nth_append)
  have "node_ok ?gs (?ns ! j)" if "j < length (nodes s)" for j
    using that keep [OF old] i
    by (cases "j = i") (auto simp: node_ok_def ready_def new_object_def)
  moreover have "seg_ok ?ns j (?gs ! j)" if "j < length ?gs" for j
  proof (cases "j = ?k")
    case False
    with that have j: "j < length (segs s)" by simp
    then have "creators ?ns j = creators (nodes s) j" "referrers ?ns j = referrers (nodes s) j"
      "members r ?ns j = members r (nodes s) j" for r
      unfolding creators_def referrers_def members_def using i pc by (auto intro!: cnt_same)
    moreover have "seg_ok (nodes s) j (segs s ! j)" using inv j by (simp add: node_inv_def)
    ultimately show ?thesis using j by (simp add: seg_ok_def nth_append)
  next
    case True
    have "cnt (\<lambda>x. creating (pc x) = Some ?k) (nodes s) = 0" using fresh by (simp add: cnt_zero_iff)
    then have "creators ?ns ?k \<le> 1"
      unfolding creators_def using cnt_move [OF i refl, of "\<lambda>x. creating (pc x) = Some ?k" ?x] by (simp split: if_splits)
    with True show ?thesis by (simp add: seg_ok_def nth_append ready_def new_object_def)
  qed
  ultimately show ?thesis using None by (simp add: node_inv_def open_or_create_def set_pc_def)
qed

text \<open>The creator at work: the object is not ready before and after.\<close>

lemma creator_update_inv:
  assumes inv: "node_inv s" and i: "i < length (nodes s)"
    and c: "creating (pc (nodes s ! i)) = Some k" "creating p = Some k"
    and n: "ref_counted p = None" "role_counted p = None"
      "ref_counted (pc (nodes s ! i)) = None" "role_counted (pc (nodes s ! i)) = None"
    and g: "\<not> ready g" and ok: "pc_ok ((segs s)[k := g]) (size_arg (nodes s ! i)) p"
  shows "node_inv (s\<lparr>nodes := (nodes s)[i := (nodes s ! i)\<lparr>pc := p\<rparr>], segs := (segs s)[k := g]\<rparr>)"
proof -
  have k: "k < length (segs s)" using pc_ok_creating [OF node_inv_parts [OF inv i] c(1)] by blast
  have "creators ((nodes s)[i := (nodes s ! i)\<lparr>pc := p\<rparr>]) k = creators (nodes s) k"
    unfolding creators_def using i c by (auto intro!: cnt_same)
  moreover have "creators (nodes s) k \<le> 1" using inv k by (simp add: node_inv_def seg_ok_def)
  ultimately have "seg_ok ((nodes s)[i := (nodes s ! i)\<lparr>pc := p\<rparr>]) k g" using g by (simp add: seg_ok_def)
  from node_update_inv [OF inv i k _ _ _ _ this] c n ok show ?thesis by (simp add: about_def node_ok_def)
qed

lemma truncate_inv:
  assumes inv: "node_inv s" and i: "i < length (nodes s)" and pc: "pc (nodes s ! i) = Truncating k"
  shows "node_inv (truncate_object i k s)"
proof (cases "2 ^ 63 \<le> size_arg (nodes s ! i)")
  case True
  with dead_inv [OF inv i] pc show ?thesis by (simp add: truncate_object_def Let_def)
next
  case False
  from node_inv_parts [OF inv i] pc have k: "k < length (segs s)" "\<not> ready (segs s ! k)" by simp_all
  with creator_update_inv [OF inv i, of k "Mapping k True" "(segs s ! k)\<lparr>seg_bytes := size_arg (nodes s ! i)\<rparr>"] pc False
  show ?thesis by (simp add: truncate_object_def Let_def set_pc_def ready_def own_object_def)
qed

lemma map_object_inv:
  assumes inv: "node_inv s" and i: "i < length (nodes s)" and pc: "pc (nodes s ! i) = Mapping k creator"
  shows "node_inv (map_object i k creator s)"
proof -
  from node_inv_parts [OF inv i] pc have k: "k < length (segs s)" "creator \<longrightarrow> own_object (segs s) (size_arg (nodes s ! i)) k"
    by simp_all
  have "node_inv (set_pc i (if creator then InitNew k else Waiting k) s)" if "HeaderSize < size_arg (nodes s ! i)"
    using node_move_inv [OF inv i k(1), of "InitNew k"] node_move_inv [OF inv i k(1), of "Waiting k"] pc k that
    by (cases creator) (simp_all add: about_def)
  then show ?thesis
    using dead_inv [OF inv i] pc
    by (auto simp: map_object_def GetBufferSizeFromShmSize_def Let_def not_le)
qed

lemma init_steps_inv:
  assumes inv: "node_inv s" and i: "i < length (nodes s)"
    and pc: "pc (nodes s ! i) \<in> {InitNew k, InitMark k, InitFields k, InitCounters k, InitPositions k}"
    and turn: "node_turn i s = Some t"
  shows "node_inv t"
proof -
  from node_inv_parts [OF inv i] pc have k: "k < length (segs s)" "\<not> ready (segs s ! k)"
    by (auto simp: own_object_def)
  have n: "size_arg (nodes s ! i) = seg_bytes (segs s ! k)" "HeaderSize < seg_bytes (segs s ! k)"
    using node_inv_parts [OF inv i] pc by (auto simp: own_object_def fields_ok_def)
  note update = creator_update_inv [OF inv i, of k] own_object_def ready_def
  note nr = k(2) [unfolded ready_def]
  from pc consider (new) "pc (nodes s ! i) = InitNew k" | (mark) "pc (nodes s ! i) = InitMark k"
    | (fields) "pc (nodes s ! i) = InitFields k" | (counters) "pc (nodes s ! i) = InitCounters k"
    | (pos) "pc (nodes s ! i) = InitPositions k" by blast
  then show ?thesis
  proof cases
    case new
    with turn k n update show ?thesis by (auto simp: node_turn_def set_pc_new fresh_protocol_def)
  next
    case mark
    with turn k n update show ?thesis by (auto simp: node_turn_def set_pc_header)
  next
    case fields
    with turn k n nr update show ?thesis by (auto simp: node_turn_def set_pc_header init_fields_def fields_ok_def)
  next
    case counters
    with turn k n nr update node_inv_parts [OF inv i] show ?thesis
      by (auto simp: node_turn_def set_pc_header fields_ok_def counters_zero_def)
  next
    case pos
    with turn k n nr update node_inv_parts [OF inv i] show ?thesis
      by (auto simp: node_turn_def set_pc_positions fields_ok_def counters_zero_def)
  qed
qed

lemma init_ready_inv:
  assumes inv: "node_inv s" and i: "i < length (nodes s)" and pc: "pc (nodes s ! i) = InitReady k"
  shows "node_inv (set_pc i (CountRole k) (set_header k (\<lambda>h. h\<lparr>initState := init_code Ready\<rparr>) s))"
proof -
  let ?g = "(segs s ! k)\<lparr>header := (header (segs s ! k))\<lparr>initState := init_code Ready\<rparr>\<rparr>"
  let ?ns = "(nodes s)[i := (nodes s ! i)\<lparr>pc := CountRole k\<rparr>]"
  from node_inv_parts [OF inv i] pc have own: "own_object (segs s) (size_arg (nodes s ! i)) k"
    "fields_ok (segs s ! k)" "counters_zero (segs s ! k)" by simp_all
  then have k: "k < length (segs s)" and nr: "\<not> ready (segs s ! k)" by (simp_all add: own_object_def)
  have "\<forall>j < length (nodes s). node_ok (segs s) (nodes s ! j)" using inv by (simp add: node_inv_def)
  note none = no_counted_before_ready [OF this nr]
  have "referrers ?ns k = 0" "members r ?ns k = 0" for r
    using none pc i by (simp_all add: referrers_def members_def cnt_same)
  moreover have "creators ?ns k = 0"
  proof -
    have "creators (nodes s) k \<le> 1" using inv k by (simp add: node_inv_def seg_ok_def)
    then show ?thesis unfolding creators_def
      using cnt_move [OF i refl, of "\<lambda>x. creating (pc x) = Some k" "(nodes s ! i)\<lparr>pc := CountRole k\<rparr>"] pc by simp
  qed
  ultimately have seg: "seg_ok ?ns k ?g"
    using own by (simp add: seg_ok_def fields_ok_def counters_zero_def)
  have "in_use ((segs s)[k := ?g]) (size_arg (nodes s ! i)) k"
    using own k by (simp add: in_use_def ready_def own_object_def fields_ok_def)
  with node_update_inv [OF inv i k _ _ _ _ seg] pc show ?thesis
    by (simp add: about_def node_ok_def set_pc_header)
qed

text \<open>A node that counts itself in or out.\<close>

lemma member_update_inv:
  assumes inv: "node_inv s" and i: "i < length (nodes s)" and use: "in_use (segs s) (size_arg (nodes s ! i)) k"
    and about: "about k (pc (nodes s ! i))" "about k p" and c: "creating (pc (nodes s ! i)) = None" "creating p = None"
    and fr: "frozen (segs s ! k) ((segs s ! k)\<lparr>header := h\<rparr>)"
    and ok: "in_use ((segs s)[k := (segs s ! k)\<lparr>header := h\<rparr>]) (size_arg (nodes s ! i)) k \<Longrightarrow>
      pc_ok ((segs s)[k := (segs s ! k)\<lparr>header := h\<rparr>]) (size_arg (nodes s ! i)) p"
    and refs: "refCount h = refCount (header (segs s ! k)) + (if ref_counted p = Some k then 1 else 0)
      - (if ref_counted (pc (nodes s ! i)) = Some k then 1 else 0)"
    and prods: "producerCount h = producerCount (header (segs s ! k))
      + (if role_counted p = Some k \<and> role (nodes s ! i) = Producer then 1 else 0)
      - (if role_counted (pc (nodes s ! i)) = Some k \<and> role (nodes s ! i) = Producer then 1 else 0)"
    and conss: "consumerCount h = consumerCount (header (segs s ! k))
      + (if role_counted p = Some k \<and> role (nodes s ! i) = Consumer then 1 else 0)
      - (if role_counted (pc (nodes s ! i)) = Some k \<and> role (nodes s ! i) = Consumer then 1 else 0)"
  shows "node_inv (s\<lparr>nodes := (nodes s)[i := (nodes s ! i)\<lparr>pc := p\<rparr>], segs := (segs s)[k := (segs s ! k)\<lparr>header := h\<rparr>]\<rparr>)"
proof -
  let ?g = "(segs s ! k)\<lparr>header := h\<rparr>" and ?ns = "(nodes s)[i := (nodes s ! i)\<lparr>pc := p\<rparr>]"
  from use have k: "k < length (segs s)" "ready (segs s ! k)" by (simp_all add: in_use_def)
  with inv have old: "seg_ok (nodes s) k (segs s ! k)" by (simp add: node_inv_def)
  have "creators ?ns k = creators (nodes s) k" unfolding creators_def using i c by (auto intro!: cnt_same)
  moreover have "fields_ok ?g = fields_ok (segs s ! k)" using fr by (simp add: frozen_def fields_ok_def)
  moreover have "refCount h = of_nat (referrers ?ns k)"
    using old k(2) refs of_nat_cnt_update [OF i, of "\<lambda>x. ref_counted (pc x) = Some k" "(nodes s ! i)\<lparr>pc := p\<rparr>"]
    by (simp add: seg_ok_def referrers_def)
  moreover have "producerCount h = of_nat (members Producer ?ns k)"
    using old k(2) prods of_nat_cnt_update [OF i, of "\<lambda>x. role_counted (pc x) = Some k \<and> role x = Producer" "(nodes s ! i)\<lparr>pc := p\<rparr>"]
    by (simp add: seg_ok_def members_def)
  moreover have "consumerCount h = of_nat (members Consumer ?ns k)"
    using old k(2) conss of_nat_cnt_update [OF i, of "\<lambda>x. role_counted (pc x) = Some k \<and> role x = Consumer" "(nodes s ! i)\<lparr>pc := p\<rparr>"]
    by (simp add: seg_ok_def members_def)
  ultimately have seg: "seg_ok ?ns k ?g" using old k(2) by (simp add: seg_ok_def)
  have "in_use ((segs s)[k := ?g]) (size_arg (nodes s ! i)) k"
    using use fr by (auto simp: in_use_def frozen_def ready_def)
  with node_update_inv [OF inv i k(1) about(1) _ _ _ seg] about(2) fr k(2) ok show ?thesis
    by (simp add: node_ok_def)
qed

lemma wait_ready_inv:
  assumes inv: "node_inv s" and i: "i < length (nodes s)" and pc: "pc (nodes s ! i) = Waiting k"
  shows "node_inv (wait_ready i k s)"
proof -
  from node_inv_parts [OF inv i] pc have k: "k < length (segs s)" by simp
  have "node_inv (set_pc i (Checking k) s)" if "initState (header (segs s ! k)) = init_code Ready"
    using node_move_inv [OF inv i k, of "Checking k"] pc k that by (simp add: about_def ready_def)
  then show ?thesis using dead_inv [OF inv i] pc inv by (simp add: wait_ready_def)
qed

lemma check_protocol_inv:
  assumes inv: "node_inv s" and i: "i < length (nodes s)" and pc: "pc (nodes s ! i) = Checking k"
  shows "node_inv (check_protocol i k s)"
proof (cases "ValidateProtocol (role (nodes s ! i)) (size_arg (nodes s ! i)) (size_arg (nodes s ! i) - HeaderSize)
    (header (segs s ! k))")
  case (Some e)
  with dead_inv [OF inv i] pc show ?thesis by (simp add: check_protocol_def Let_def)
next
  case None
  then have "shmSize (header (segs s ! k)) = size_arg (nodes s ! i)"
    by (auto simp: ValidateProtocol_def split: if_splits)
  with node_inv_parts [OF inv i] pc have "in_use (segs s) (size_arg (nodes s ! i)) k" "k < length (segs s)"
    by (auto simp: in_use_def)
  with None node_move_inv [OF inv i, of k "CountRole k"] pc show ?thesis
    by (simp add: check_protocol_def Let_def about_def)
qed

lemma counting_inv:
  assumes inv: "node_inv s" and i: "i < length (nodes s)"
    and pc: "pc (nodes s ! i) \<in> {CountRole k, CountRef k, UncountRole k, UncountRef k}"
    and turn: "node_turn i s = Some t"
  shows "node_inv t"
proof -
  from node_inv_parts [OF inv i] pc have use: "in_use (segs s) (size_arg (nodes s ! i)) k" by auto
  note update = member_update_inv [OF inv i use]
  from pc consider (role) "pc (nodes s ! i) = CountRole k" | (ref) "pc (nodes s ! i) = CountRef k"
    | (unrole) "pc (nodes s ! i) = UncountRole k" | (unref) "pc (nodes s ! i) = UncountRef k" by blast
  then show ?thesis
  proof cases
    case role
    with turn show ?thesis
      by (cases "role (nodes s ! i)") (auto simp: node_turn_def set_pc_header about_def frozen_def intro!: update)
  next
    case ref
    with turn show ?thesis
      by (auto simp: node_turn_def set_pc_header about_def frozen_def count_ref_def intro!: update)
  next
    case unrole
    with turn show ?thesis
      by (cases "role (nodes s ! i)") (auto simp: node_turn_def set_pc_header about_def frozen_def intro!: update)
  next
    case unref
    let ?p = "if role (nodes s ! i) = Consumer \<and> refCount (header (segs s ! k)) = 1 then Unlinking else Gone"
    have "?p = Unlinking \<or> ?p = Gone" by simp
    then have "creating ?p = None" "ref_counted ?p = None" "role_counted ?p = None" "\<And>gs n. pc_ok gs n ?p" by auto
    with unref turn show ?thesis
      by (auto simp: node_turn_def Let_def set_pc_header about_def frozen_def count_ref_def intro!: update)
  qed
qed

lemma node_turn_inv:
  assumes turn: "node_turn i s = Some t" and i: "i < length (nodes s)" and inv: "node_inv s"
  shows "node_inv t"
proof (cases "pc (nodes s ! i)")
  case NodeStart
  with turn open_or_create_inv [OF inv i] open_existing_inv [OF inv i] show ?thesis
    by (auto simp: node_turn_def split: if_splits)
next
  case OpenAgain
  with turn open_existing_inv [OF inv i] show ?thesis by (auto simp: node_turn_def)
next
  case (Truncating k)
  with turn truncate_inv [OF inv i] show ?thesis by (auto simp: node_turn_def)
next
  case (Mapping k c)
  with turn map_object_inv [OF inv i] show ?thesis by (auto simp: node_turn_def)
next
  case (InitReady k)
  with turn init_ready_inv [OF inv i] show ?thesis by (auto simp: node_turn_def)
next
  case (Waiting k)
  with turn wait_ready_inv [OF inv i] show ?thesis by (auto simp: node_turn_def)
next
  case (Checking k)
  with turn check_protocol_inv [OF inv i] show ?thesis by (auto simp: node_turn_def)
next
  case (Attached k)
  with node_inv_parts [OF inv i] have "in_use (segs s) (size_arg (nodes s ! i)) k" "k < length (segs s)"
    by (auto simp: in_use_def)
  with node_move_inv [OF inv i, of k "UncountRole k"] Attached turn show ?thesis
    by (auto simp: node_turn_def about_def)
next
  case Unlinking
  with node_stop_inv [OF inv i, of Gone] have "node_inv (set_pc i Gone s)" by simp
  with Unlinking turn show ?thesis by (auto simp: node_turn_def node_inv_def)
next
  case Gone
  with turn show ?thesis by (simp add: node_turn_def)
next
  case (Dead e)
  with turn show ?thesis by (simp add: node_turn_def)
qed (use init_steps_inv [OF inv i _ turn] counting_inv [OF inv i _ turn] in simp_all)

lemma uses_inv:
  assumes inv: "node_inv s" and i: "i < length (nodes s)" and pc: "pc (nodes s ! i) = Attached k"
  shows "node_inv (set_positions k q s)"
proof -
  let ?g = "(segs s ! k)\<lparr>positions := q\<rparr>"
  from node_inv_parts [OF inv i] pc have use: "in_use (segs s) (size_arg (nodes s ! i)) k"
    and k: "k < length (segs s)" "ready (segs s ! k)" by (auto simp: in_use_def)
  have fr: "frozen (segs s ! k) ?g" by (simp add: frozen_def)
  have "seg_ok (nodes s) k ?g" using inv k by (simp add: node_inv_def seg_ok_def ready_def fields_ok_def)
  moreover have "node_ok ((segs s)[k := ?g]) (nodes s ! i)"
    using use k pc by (simp add: node_ok_def in_use_def ready_def)
  ultimately show ?thesis
    using node_update_inv [OF inv i k(1), of "nodes s ! i" ?g] fr k(2) pc by (simp add: about_def set_positions_def)
qed

lemma node_step_inv:
  assumes "node_step s t" and "node_inv s"
  shows "node_inv t"
  using assms by (cases rule: node_step.cases) (auto intro: node_turn_inv uses_inv)

lemma node_init_inv: "node_init s \<Longrightarrow> node_inv s"
  by (auto simp: node_init_def node_inv_def node_ok_def list_all_length)

interpretation shared_segments: scheduled_invariant node_init node_step node_inv node_move
  by unfold_locales (auto intro: node_init_inv node_step_inv node_move_step)

lemmas node_turns_run = shared_segments.turns_run

end
