(* ===== verification/Mpsc_Nodes_Runs.thy ===== *)
theory Mpsc_Nodes_Runs
  imports Mpsc_Nodes_Steps
begin

text \<open>
  The properties of opening, sharing and leaving a segment, and the runs in which the code does
  not do what it means to: a node that opens the segment before its size is set, a segment that
  never becomes ready, and a segment whose name is removed while a node attaches to it.
\<close>

section \<open>Abandoned segments\<close>

text \<open>An object that is not ready and that nobody is creating any more.\<close>

definition abandoned :: "nat \<Rightarrow> node_sys \<Rightarrow> bool" where
  "abandoned k s \<longleftrightarrow> k < length (segs s) \<and> \<not> ready (segs s ! k) \<and> seg_bytes (segs s ! k) \<noteq> 0 \<and> creators (nodes s) k = 0"

lemma abandoned_pc:
  assumes "node_inv s" and "abandoned k s" and "i < length (nodes s)"
  shows "creating (pc (nodes s ! i)) \<noteq> Some k \<and> pc (nodes s ! i) \<notin> {Checking k, CountRole k, CountRef k, Attached k,
    UncountRole k, UncountRef k}"
proof -
  have "creating (pc (nodes s ! i)) \<noteq> Some k"
    using assms(2,3) by (auto simp: abandoned_def creators_def cnt_zero_iff)
  with node_inv_parts [OF assms(1,3)] assms(2) show ?thesis by (auto simp: abandoned_def in_use_def)
qed

lemma abandoned_update:
  assumes "abandoned k s" and "i < length (nodes s)" and "creating (pc x) \<noteq> Some k" and "j \<noteq> k"
  shows "abandoned k (s\<lparr>nodes := (nodes s)[i := x], segs := (segs s)[j := g]\<rparr>)"
proof -
  have "creators ((nodes s)[i := x]) k = 0"
    using assms(1-3) cnt_move [OF assms(2) refl, of "\<lambda>x. creating (pc x) = Some k" x]
    by (simp add: abandoned_def creators_def)
  with assms(1,4) show ?thesis by (simp add: abandoned_def)
qed

lemma abandoned_set_pc:
  assumes "abandoned k s" and "i < length (nodes s)" and "creating p \<noteq> Some k"
  shows "abandoned k (set_pc i p s)"
proof -
  have "creators ((nodes s)[i := (nodes s ! i)\<lparr>pc := p\<rparr>]) k = 0"
    using assms cnt_move [OF assms(2) refl, of "\<lambda>x. creating (pc x) = Some k" "(nodes s ! i)\<lparr>pc := p\<rparr>"]
    by (simp add: abandoned_def creators_def)
  with assms(1) show ?thesis by (simp add: abandoned_def set_pc_def)
qed

lemma abandoned_path [simp]: "abandoned k (s\<lparr>path := p\<rparr>) = abandoned k s"
  by (simp add: abandoned_def)

lemma abandoned_turn:
  assumes inv: "node_inv s" and a: "abandoned k s" and i: "i < length (nodes s)" and turn: "node_turn i s = Some t"
  shows "abandoned k t"
proof -
  note pc = abandoned_pc [OF inv a i]
  note move = abandoned_set_pc [OF a i] and upd = abandoned_update [OF a i]
  show ?thesis
  proof (cases "pc (nodes s ! i)")
    case NodeStart
    have "abandoned k (open_or_create i s)"
    proof (cases "path s")
      case None
      have n: "k < length (segs s)" using a by (simp add: abandoned_def)
      then have "abandoned k (set_pc i (Truncating (length (segs s))) s)" by (intro move) simp
      with None n show ?thesis by (simp add: open_or_create_def abandoned_def nth_append)
    qed (use move in \<open>simp add: open_or_create_def\<close>)
    moreover have "abandoned k (open_existing i s)" using move by (simp add: open_existing_def split: option.splits)
    ultimately show ?thesis using turn NodeStart by (auto simp: node_turn_def split: if_splits)
  next
    case OpenAgain
    with turn move show ?thesis by (auto simp: node_turn_def open_existing_def split: option.splits)
  next
    case (Truncating j)
    with turn pc move upd show ?thesis by (auto simp: node_turn_def truncate_object_def Let_def set_pc_def)
  next
    case (Mapping j c)
    with turn pc move show ?thesis
      by (auto simp: node_turn_def map_object_def Let_def split: sum.splits if_splits)
  next
    case (InitNew j)
    then have "j < length (segs s)" using node_inv_parts [OF inv i] by (simp add: own_object_def)
    with InitNew turn pc upd show ?thesis by (auto simp: node_turn_def set_pc_new)
  next
    case (Waiting j)
    with turn pc move a show ?thesis by (auto simp: node_turn_def wait_ready_def)
  next
    case (Checking j)
    with turn pc move show ?thesis by (auto simp: node_turn_def check_protocol_def Let_def split: option.splits)
  next
    case (Attached j)
    with turn move show ?thesis by (auto simp: node_turn_def)
  next
    case Unlinking
    with turn move show ?thesis by (auto simp: node_turn_def)
  qed (use turn pc upd in \<open>auto simp: node_turn_def Let_def set_pc_header set_pc_positions\<close>)
qed

lemma other_pc_kept:
  assumes "node_turn i s = Some t" and "j \<noteq> i"
  shows "nodes t ! j = nodes s ! j"
  using assms
  by (auto simp: node_turn_def Let_def set_pc_def set_header_def set_positions_def open_existing_def
      open_or_create_def truncate_object_def map_object_def wait_ready_def check_protocol_def
      split: node_pc.splits option.splits sum.splits if_splits)

lemma node_turn_length:
  assumes "node_turn i s = Some t"
  shows "length (nodes t) = length (nodes s)"
  using assms
  by (auto simp: node_turn_def Let_def set_pc_def set_header_def set_positions_def open_existing_def
      open_or_create_def truncate_object_def map_object_def wait_ready_def check_protocol_def
      split: node_pc.splits option.splits sum.splits if_splits)

lemma blocked_step:
  assumes "node_step s t" and "node_inv s" and "abandoned k s" and "i < length (nodes s)" and "pc (nodes s ! i) = Waiting k"
  shows "abandoned k t \<and> i < length (nodes t) \<and> pc (nodes t ! i) = Waiting k"
  using assms(1)
proof (cases rule: node_step.cases)
  case (node_moves j)
  note a = abandoned_turn [OF assms(2,3) node_moves(1,2)] and len = node_turn_length [OF node_moves(2)]
  show ?thesis
  proof (cases "j = i")
    case True
    have "t = s"
      using node_moves(2) True assms(3,5) by (auto simp: node_turn_def wait_ready_def abandoned_def ready_def)
    with assms show ?thesis by simp
  next
    case False
    with other_pc_kept [OF node_moves(2), of i] a len assms(4,5) show ?thesis by auto
  qed
next
  case (node_uses j m q)
  then have "m \<noteq> k" using abandoned_pc [OF assms(2,3), of j] by auto
  with node_uses assms(3-5) show ?thesis by (simp add: abandoned_def set_positions_def)
qed

section \<open>Properties\<close>

text \<open>Concrete runs: nodes that agree on the size.\<close>

definition fresh_nodes :: "(role \<times> u64) list \<Rightarrow> node_sys" where
  "fresh_nodes xs = \<lparr>path = None, segs = [],
     nodes = map (\<lambda>(r, n). \<lparr>role = r, size_arg = n, pc = NodeStart\<rparr>) xs\<rparr>"

definition one_each :: node_sys where
  "one_each = fresh_nodes [(Producer, 256), (Consumer, 256)]"

text \<open>The turns in which node \<open>i\<close> creates the segment, opens it, leaves it.\<close>

definition creates :: "nat \<Rightarrow> nat list" where
  "creates i = [i, i, i, i, i, i, i, i, i, i, i]"

definition opens :: "nat \<Rightarrow> nat list" where
  "opens i = [i, i, i, i, i, i]"

lemmas node_eval = fresh_nodes_def one_each_def creates_def opens_def node_move_def node_turn_def Let_def set_pc_def set_header_def
  set_positions_def open_existing_def open_or_create_def truncate_object_def map_object_def wait_ready_def
  check_protocol_def ValidateProtocol_def GetBufferSizeFromShmSize_def HeaderSize_def init_fields_def
  count_ref_def new_object_def fresh_protocol_def fresh_queue_def ProtocolMagic_def ProtocolVersion_def

lemma fresh_nodes_init: "node_init (fresh_nodes xs)"
  by (auto simp: node_init_def fresh_nodes_def list_all_iff)

lemma both_attached:
  "\<exists>t. node_turns (creates 0 @ opens 1) one_each = Some t \<and> length (nodes t) = 2 \<and>
    pc (nodes t ! 0) = Attached 0 \<and> pc (nodes t ! 1) = Attached 0 \<and> refCount (header (segs t ! 0)) = 2"
  by (simp add: node_eval)

text \<open>C32: Two nodes that are attached to the same segment agree on it. Whatever nodes come and go, a
  node that has finished its constructor sees a ready segment with the right magic and version,
  whose sizes are the ones it was given, so that all of them compute the same ring; and nobody is
  initialising that segment any more.\<close>
theorem attached_nodes_agree:
  assumes "node_init s" and "node_step\<^sup>*\<^sup>* s t" and "i < length (nodes t)" and "j < length (nodes t)"
    and "pc (nodes t ! i) = Attached k" and "pc (nodes t ! j) = Attached k"
  shows "size_arg (nodes t ! i) = size_arg (nodes t ! j) \<and> seg_bytes (segs t ! k) = size_arg (nodes t ! i) \<and>
    HeaderSize < size_arg (nodes t ! i) \<and>
    ValidateProtocol Producer (size_arg (nodes t ! i)) (size_arg (nodes t ! i) - HeaderSize) (header (segs t ! k)) = None \<and>
    creators (nodes t) k = 0"
proof -
  have inv: "node_inv t" using shared_segments.reachable_good [OF assms(1,2)] .
  from node_inv_parts [OF inv assms(3)] node_inv_parts [OF inv assms(4)] assms(5,6)
  have use: "in_use (segs t) (size_arg (nodes t ! i)) k" "in_use (segs t) (size_arg (nodes t ! j)) k" by simp_all
  with inv have "seg_ok (nodes t) k (segs t ! k)" "ready (segs t ! k)" by (simp_all add: node_inv_def in_use_def)
  with use show ?thesis by (auto simp: seg_ok_def in_use_def fields_ok_def ready_def ValidateProtocol_def)
qed

theorem attached_nodes_agree_witness:
  "\<exists>t. node_step\<^sup>*\<^sup>* one_each t \<and> pc (nodes t ! 0) = Attached 0 \<and> pc (nodes t ! 1) = Attached 0 \<and>
    size_arg (nodes t ! 0) = size_arg (nodes t ! 1) \<and> seg_bytes (segs t ! 0) = size_arg (nodes t ! 0) \<and>
    creators (nodes t) 0 = 0"
proof -
  from both_attached obtain t where t: "node_turns (creates 0 @ opens 1) one_each = Some t" "length (nodes t) = 2"
    "pc (nodes t ! 0) = Attached 0" "pc (nodes t ! 1) = Attached 0" by blast
  note run = node_turns_run [OF t(1)]
  have "node_init one_each" unfolding one_each_def by (rule fresh_nodes_init)
  from attached_nodes_agree [OF this run, of 0 1 0] t(2-4) run show ?thesis by auto
qed

text \<open>A segment that is ready counts its nodes.\<close>

lemma ready_counts:
  assumes "node_inv t" and "length (nodes t) < 2 ^ 32" and "k < length (segs t)" and "ready (segs t ! k)"
  shows "unat (refCount (header (segs t ! k))) = referrers (nodes t) k \<and>
    unat (producerCount (header (segs t ! k))) = members Producer (nodes t) k \<and>
    unat (consumerCount (header (segs t ! k))) = members Consumer (nodes t) k"
proof -
  have "cnt P (nodes t) < 2 ^ 32" for P
    using assms(2) length_filter_le [of P "nodes t"] unfolding cnt_def by linarith
  with assms show ?thesis by (auto simp: node_inv_def seg_ok_def referrers_def members_def unat_of_nat)
qed

text \<open>C33: The counters of a segment are exact: as soon as it is ready, whoever its nodes are, producerCount,
  consumerCount and refCount are the numbers of producers, of consumers and of nodes between the two
  atomic operations that count them in and out. So a consumer that leaves a segment removes the name
  exactly when no other node is counted.\<close>
theorem node_counters_exact:
  assumes "node_init s" and "node_step\<^sup>*\<^sup>* s t" and "length (nodes t) < 2 ^ 32"
  shows "(\<forall>k < length (segs t). initState (header (segs t ! k)) = init_code Ready \<longrightarrow>
      unat (refCount (header (segs t ! k))) = referrers (nodes t) k \<and>
      unat (producerCount (header (segs t ! k))) = members Producer (nodes t) k \<and>
      unat (consumerCount (header (segs t ! k))) = members Consumer (nodes t) k) \<and>
    (\<forall>i k u. i < length (nodes t) \<and> role (nodes t ! i) = Consumer \<and> pc (nodes t ! i) = UncountRef k \<and>
        node_turn i t = Some u \<longrightarrow>
      k < length (segs t) \<and> initState (header (segs t ! k)) = init_code Ready \<and>
      pc (nodes u ! i) = (if referrers (nodes u) k = 0 then Unlinking else Gone))"
proof -
  have inv: "node_inv t" using shared_segments.reachable_good [OF assms(1,2)] .
  note counts = ready_counts [OF inv assms(3)]
  have "k < length (segs t) \<and> ready (segs t ! k) \<and> pc (nodes u ! i) = (if referrers (nodes u) k = 0 then Unlinking else Gone)"
    if i: "i < length (nodes t)" "role (nodes t ! i) = Consumer" "pc (nodes t ! i) = UncountRef k" "node_turn i t = Some u" for i k u
  proof -
    have seg: "k < length (segs t)" "ready (segs t ! k)"
      using node_inv_parts [OF inv i(1)] i(3) by (simp_all add: in_use_def)
    from counts [OF seg] have one: "refCount (header (segs t ! k)) = 1 \<longleftrightarrow> referrers (nodes t) k = 1"
      by (simp add: word_unat_eq_iff)
    have u: "u = set_pc i (if refCount (header (segs t ! k)) = 1 then Unlinking else Gone) (set_header k (count_ref (- 1)) t)"
      using i by (simp add: node_turn_def)
    have "referrers (nodes u) k + 1 = referrers (nodes t) k"
      using u cnt_move [OF i(1) refl, of "\<lambda>x. ref_counted (pc x) = Some k"
          "(nodes t ! i)\<lparr>pc := if refCount (header (segs t ! k)) = 1 then Unlinking else Gone\<rparr>"] i(3)
      by (simp add: referrers_def set_pc_header split: if_splits)
    with one u i(1) seg show ?thesis by (simp add: set_pc_header)
  qed
  with counts show ?thesis unfolding ready_def by blast
qed

text \<open>Two producers on one segment, and then one producer and a consumer that is about to leave.\<close>

theorem node_counters_exact_witness:
  "(\<exists>t. node_step\<^sup>*\<^sup>* (fresh_nodes [(Producer, 256), (Producer, 256)]) t \<and>
      refCount (header (segs t ! 0)) = 2 \<and> producerCount (header (segs t ! 0)) = 2 \<and>
      members Producer (nodes t) 0 = 2 \<and> referrers (nodes t) 0 = 2) \<and>
   (\<exists>t u. node_step\<^sup>*\<^sup>* one_each t \<and> node_turn 1 t = Some u \<and> pc (nodes t ! 1) = UncountRef 0 \<and>
      pc (nodes u ! 1) = (if referrers (nodes u) 0 = 0 then Unlinking else Gone))"
proof
  let ?s = "fresh_nodes [(Producer, 256), (Producer, 256)]"
  have "\<exists>t. node_turns (creates 0 @ [1] @ opens 1) ?s = Some t \<and> length (nodes t) = 2 \<and> length (segs t) = 1 \<and>
    initState (header (segs t ! 0)) = init_code Ready \<and> refCount (header (segs t ! 0)) = 2 \<and> producerCount (header (segs t ! 0)) = 2"
    by (simp add: node_eval)
  then obtain t where t: "node_turns (creates 0 @ [1] @ opens 1) ?s = Some t" "length (nodes t) = 2" "length (segs t) = 1"
    "initState (header (segs t ! 0)) = init_code Ready" "refCount (header (segs t ! 0)) = 2" "producerCount (header (segs t ! 0)) = 2"
    by blast
  note run = node_turns_run [OF t(1)]
  from node_counters_exact [OF fresh_nodes_init run] t(2-6) run show
    "\<exists>t. node_step\<^sup>*\<^sup>* ?s t \<and> refCount (header (segs t ! 0)) = 2 \<and> producerCount (header (segs t ! 0)) = 2 \<and>
      members Producer (nodes t) 0 = 2 \<and> referrers (nodes t) 0 = 2"
    by (intro exI [of _ t]) simp
next
  have "\<exists>t u. node_turns (creates 0 @ opens 1 @ [1, 1]) one_each = Some t \<and> length (nodes t) = 2 \<and>
    role (nodes t ! 1) = Consumer \<and> pc (nodes t ! 1) = UncountRef 0 \<and> node_turn 1 t = Some u"
    by (simp add: node_eval)
  then obtain t u where t: "node_turns (creates 0 @ opens 1 @ [1, 1]) one_each = Some t" "length (nodes t) = 2"
    "role (nodes t ! 1) = Consumer" "pc (nodes t ! 1) = UncountRef 0" "node_turn 1 t = Some u" by blast
  note run = node_turns_run [OF t(1)]
  have "node_init one_each" unfolding one_each_def by (rule fresh_nodes_init)
  from node_counters_exact [OF this run] t(2-5) run show
    "\<exists>t u. node_step\<^sup>*\<^sup>* one_each t \<and> node_turn 1 t = Some u \<and> pc (nodes t ! 1) = UncountRef 0 \<and>
      pc (nodes u ! 1) = (if referrers (nodes u) 0 = 0 then Unlinking else Gone)"
    by (intro exI [of _ t] exI [of _ u]) simp
qed

text \<open>A segment whose creator fails blocks every other node for ever. Once an object with its size
  set is not ready and nobody is creating it, as after a producer was given a size of at most 128
  bytes and its constructor threw behind ftruncate, a node that waits for it waits in every
  continuation: WaitUntilReady has no other end, and the name stays taken.\<close>
theorem abandoned_segment_blocks:
  assumes "node_init s" and "node_step\<^sup>*\<^sup>* s t" and "node_step\<^sup>*\<^sup>* t u"
    and "i < length (nodes t)" and "pc (nodes t ! i) = Waiting k"
    and "creators (nodes t) k = 0" and "initState (header (segs t ! k)) \<noteq> init_code Ready"
    and "seg_bytes (segs t ! k) \<noteq> 0"
  shows "pc (nodes u ! i) = Waiting k"
proof -
  have inv: "node_inv t" using shared_segments.reachable_good [OF assms(1,2)] .
  then have a: "abandoned k t"
    using node_inv_parts [OF inv assms(4)] assms(5-8) by (simp add: abandoned_def ready_def)
  have "node_inv u \<and> abandoned k u \<and> i < length (nodes u) \<and> pc (nodes u ! i) = Waiting k"
    using assms(3)
  proof (induction rule: rtranclp_induct)
    case base
    with inv a assms(4,5) show ?case by simp
  next
    case (step v w)
    with blocked_step [OF step.hyps(2)] node_step_inv [OF step.hyps(2)] show ?case by blast
  qed
  then show ?thesis by blast
qed

theorem abandoned_segment_blocks_witness:
  "\<exists>t. node_step\<^sup>*\<^sup>* (fresh_nodes [(Producer, 64), (Consumer, 256)]) t \<and>
    pc (nodes t ! 0) = Dead (Threw ShmTooSmall) \<and> {pc (nodes u ! 1) | u. node_step\<^sup>*\<^sup>* t u} = {Waiting 0}"
proof -
  let ?s = "fresh_nodes [(Producer, 64), (Consumer, 256)]"
  have "\<exists>t. node_turns [0, 0, 0, 1, 1] ?s = Some t \<and> length (nodes t) = 2 \<and>
    pc (nodes t ! 0) = Dead (Threw ShmTooSmall) \<and> pc (nodes t ! 1) = Waiting 0 \<and> creators (nodes t) 0 = 0 \<and>
    initState (header (segs t ! 0)) \<noteq> init_code Ready \<and> seg_bytes (segs t ! 0) \<noteq> 0"
    by (simp add: node_eval creators_def)
  then obtain t where t: "node_turns [0, 0, 0, 1, 1] ?s = Some t" "length (nodes t) = 2"
    "pc (nodes t ! 0) = Dead (Threw ShmTooSmall)" "pc (nodes t ! 1) = Waiting 0" "creators (nodes t) 0 = 0"
    "initState (header (segs t ! 0)) \<noteq> init_code Ready" "seg_bytes (segs t ! 0) \<noteq> 0" by blast
  note run = node_turns_run [OF t(1)]
  have "1 < length (nodes t)" using t(2) by simp
  note blocks = abandoned_segment_blocks [OF fresh_nodes_init run _ this t(4-7)]
  have "{pc (nodes u ! 1) | u. node_step\<^sup>*\<^sup>* t u} = {Waiting 0}" using blocks by (auto intro!: exI [of _ t])
  with run t(3) show ?thesis by blast
qed

text \<open>Opening and leaving race. A node that opens the object between the creator's shm_open and its
  ftruncate touches a page that does not exist and is killed; and a producer that attaches while
  the last consumer leaves ends up in a segment without a name: a producer and a consumer that come
  later, with the same name and size, share another one, and its messages are never received.\<close>
theorem node_races:
  "(\<exists>t. node_init one_each \<and> node_step\<^sup>*\<^sup>* one_each t \<and> pc (nodes t ! 1) = Dead BusError) \<and>
   (\<exists>t. node_step\<^sup>*\<^sup>* (fresh_nodes [(Producer, 256), (Consumer, 256), (Producer, 256), (Producer, 256), (Consumer, 256)]) t \<and>
      pc (nodes t ! 2) = Attached 0 \<and> path t = Some 1 \<and>
      pc (nodes t ! 3) = Attached 1 \<and> pc (nodes t ! 4) = Attached 1)"
proof -
  have "\<exists>t. node_turns [0, 1, 1, 1] one_each = Some t \<and> pc (nodes t ! 1) = Dead BusError"
    by (simp add: node_eval)
  moreover have "\<exists>t. node_turns (creates 0 @ [0, 0, 0] @ opens 1 @ [2, 2, 2, 2, 2] @ [1, 1, 1, 1] @ [2, 2] @ creates 3 @ opens 4)
      (fresh_nodes [(Producer, 256), (Consumer, 256), (Producer, 256), (Producer, 256), (Consumer, 256)]) = Some t \<and>
      pc (nodes t ! 2) = Attached 0 \<and> path t = Some 1 \<and> pc (nodes t ! 3) = Attached 1 \<and> pc (nodes t ! 4) = Attached 1"
    by (simp add: node_eval)
  moreover have "node_init one_each" unfolding one_each_def by (rule fresh_nodes_init)
  ultimately show ?thesis using node_turns_run by blast
qed

end
