(* ===== verification/Descriptors.thy ===== *)
theory Descriptors
  imports Main
begin

text \<open>
  The descriptor table of a process: the open file for each number. A new descriptor gets the lowest
  number that is free, as POSIX promises. Used for the process pool and for the shared-memory queue.
\<close>

definition first_free :: "'f option list \<Rightarrow> nat" where
  "first_free t = length (takeWhile (\<lambda>f. f \<noteq> None) t)"

definition open_fd :: "'f \<Rightarrow> 'f option list \<Rightarrow> 'f option list" where
  "open_fd f t = (if first_free t < length t then t[first_free t := Some f] else t @ [Some f])"

definition close_fd :: "nat \<Rightarrow> 'f option list \<Rightarrow> 'f option list" where
  "close_fd n t = t[n := None]"

definition file_at :: "'f option list \<Rightarrow> nat \<Rightarrow> 'f option" where
  "file_at t n = (if n < length t then t ! n else None)"

lemma first_free_none [simp]: "file_at t (first_free t) = None"
proof (cases "first_free t < length t")
  case True
  then show ?thesis
    using nth_length_takeWhile [of "\<lambda>f. f \<noteq> None" t] by (simp add: file_at_def first_free_def)
qed (simp add: file_at_def)

lemma file_at_open [simp]: "file_at (open_fd f t) = (file_at t)(first_free t \<mapsto> f)"
proof -
  have "first_free t \<le> length t" by (simp add: first_free_def length_takeWhile_le)
  then show ?thesis by (auto simp: fun_eq_iff open_fd_def file_at_def nth_append nth_list_update)
qed

lemma file_at_close [simp]: "file_at (close_fd n t) = (file_at t)(n := None)"
  by (auto simp: fun_eq_iff close_fd_def file_at_def)

end
