(* ===== verification/Mpsc_Region.thy ===== *)
theory Mpsc_Region
  imports Mpsc_Nodes Descriptors
begin

text \<open>
  \<open>SharedMemoryRegion\<close> and the parts of the nodes that hold it (\<^verbatim>\<open>hw-5/mpsc_queue.cpp\<close>), seen from one
  process: the descriptor, the mapping and the name, call by call, with every call that can fail.
  Theory \<open>Mpsc_Nodes\<close> has what the nodes of several processes do to one another in the segment; here
  is what a node leaves behind in its process.
\<close>

section \<open>The kernel\<close>

text \<open>
  The descriptor table of the process (a descriptor refers to a shared-memory object), the names, the
  sizes of the objects, and the mappings by their address: object and length.
\<close>

record shm_kernel =
  table :: "nat option list"
  names :: "string \<Rightarrow> nat option"
  sizes :: "nat list"
  mappings :: "nat \<Rightarrow> (nat \<times> nat) option"

text \<open>
  Which calls succeed, beyond what the state decides, and the address the kernel chooses for a mapping.
\<close>

record shm_fate =
  create_ok :: bool
  truncate_ok :: bool
  open_ok :: bool
  map_at :: "nat option"
  unmap_ok :: bool
  close_ok :: bool
  unlink_ok :: bool

datatype open_mode = OpenOrCreate | OpenExisting

record region =
  sharedMemoryPath :: string
  sharedMemorySize :: u64
  sharedMemoryFd :: nat
  sharedMemory :: nat
  creator :: bool

section \<open>SharedMemoryRegion\<close>

text \<open>The first half of the constructor: the descriptor, whether the object is new; \<open>Inl\<close> is \<open>exit\<close>.\<close>

definition open_path :: "string \<Rightarrow> shm_fate \<Rightarrow> shm_kernel \<Rightarrow> shm_kernel + (nat \<times> shm_kernel)" where
  "open_path p f k =
     (case names k p of
        Some ob \<Rightarrow> (if open_ok f then Inr (first_free (table k), k\<lparr>table := open_fd ob (table k)\<rparr>) else Inl k)
      | None \<Rightarrow> Inl k)"

definition open_object :: "string \<Rightarrow> u64 \<Rightarrow> open_mode \<Rightarrow> shm_fate \<Rightarrow> shm_kernel \<Rightarrow> shm_kernel + (nat \<times> bool \<times> shm_kernel)" where
  "open_object p n mode f k =
     (if mode = OpenOrCreate
      then (if \<not> create_ok f then Inl k
            else if names k p = None
            then (let ob = length (sizes k);
                      k1 = k\<lparr>table := open_fd ob (table k), names := (names k)(p \<mapsto> ob), sizes := sizes k @ [0]\<rparr>
                  in if truncate_ok f \<and> n < 2 ^ 63
                     then Inr (first_free (table k), True, k1\<lparr>sizes := (sizes k1)[ob := unat n]\<rparr>)
                     else Inl k1)
            else (case open_path p f k of Inl k' \<Rightarrow> Inl k' | Inr (fd, k') \<Rightarrow> Inr (fd, False, k')))
      else (case open_path p f k of Inl k' \<Rightarrow> Inl k' | Inr (fd, k') \<Rightarrow> Inr (fd, False, k')))"

text \<open>The constructor; \<open>mmap\<close> of length 0 fails. When it throws, the destructor does not run.\<close>

definition SharedMemoryRegion ::
  "string \<Rightarrow> u64 \<Rightarrow> open_mode \<Rightarrow> shm_fate \<Rightarrow> shm_kernel \<Rightarrow> (node_end + region) \<times> shm_kernel" where
  "SharedMemoryRegion p n mode f k =
     (case open_object p n mode f k of
        Inl k' \<Rightarrow> (Inl ExitFailure, k')
      | Inr (fd, new, k') \<Rightarrow>
          (case map_at f of
             None \<Rightarrow> (Inl (Threw MmapFailed), k')
           | Some a \<Rightarrow>
               (if n = 0 then (Inl (Threw MmapFailed), k')
                else (Inr \<lparr>sharedMemoryPath = p, sharedMemorySize = n, sharedMemoryFd = fd, sharedMemory = a, creator = new\<rparr>,
                      k'\<lparr>mappings := (mappings k')(a \<mapsto> (the (file_at (table k') fd), unat n))\<rparr>))))"

text \<open>The destructor: \<open>Some\<close> is the \<open>exit\<close> of \<open>CHECK_ERROR\<close>.\<close>

definition destroy_region :: "region \<Rightarrow> shm_fate \<Rightarrow> shm_kernel \<Rightarrow> node_end option \<times> shm_kernel" where
  "destroy_region r f k =
     (if \<not> unmap_ok f then (Some ExitFailure, k)
      else (let k1 = k\<lparr>mappings := (mappings k)(sharedMemory r := None)\<rparr>
            in if \<not> close_ok f then (Some ExitFailure, k1)
               else (None, k1\<lparr>table := close_fd (sharedMemoryFd r) (table k1)\<rparr>)))"

definition GetMemory :: "region \<Rightarrow> nat" where
  "GetMemory r = sharedMemory r"

definition GetSize :: "region \<Rightarrow> u64" where
  "GetSize r = sharedMemorySize r"

definition IsCreator :: "region \<Rightarrow> bool" where
  "IsCreator r = creator r"

text \<open>\<open>Unlink\<close>: a name that is already gone is no error.\<close>

definition Unlink :: "region \<Rightarrow> shm_fate \<Rightarrow> shm_kernel \<Rightarrow> node_end option \<times> shm_kernel" where
  "Unlink r f k =
     (if names k (sharedMemoryPath r) = None then (None, k)
      else if unlink_ok f then (None, k\<lparr>names := (names k)(sharedMemoryPath r := None)\<rparr>)
      else (Some ExitFailure, k))"

section \<open>The nodes\<close>

definition GetBufferBegin :: "nat \<Rightarrow> nat" where
  "GetBufferBegin memory = memory + unat HeaderSize"

record node_view =
  shmRegion :: region
  shmLayout :: nat
  ring_begin :: nat
  ring_size :: u64

text \<open>
  The member initialisers of \<open>ProducerNode\<close> and \<open>ConsumerNode\<close>. When the size is refused, the
  region is already there and is destroyed.
\<close>

definition make_node :: "role \<Rightarrow> string \<Rightarrow> u64 \<Rightarrow> shm_fate \<Rightarrow> shm_kernel \<Rightarrow> (node_end + node_view) \<times> shm_kernel" where
  "make_node ro p n f k =
     (case SharedMemoryRegion p n (if ro = Producer then OpenOrCreate else OpenExisting) f k of
        (Inl e, k1) \<Rightarrow> (Inl e, k1)
      | (Inr r, k1) \<Rightarrow>
          (case GetBufferSizeFromShmSize n of
             Inl e \<Rightarrow> (case destroy_region r f k1 of
                 (None, k2) \<Rightarrow> (Inl (Threw e), k2)
               | (Some x, k2) \<Rightarrow> (Inl x, k2))
           | Inr b \<Rightarrow> (Inr \<lparr>shmRegion = r, shmLayout = GetMemory r, ring_begin = GetBufferBegin (GetMemory r), ring_size = b\<rparr>, k1)))"

section \<open>What a node opens and leaves\<close>

text \<open>What the first half has done when it went through.\<close>

lemma open_object_ok:
  assumes "open_object p n mode f k = Inr (fd, new, k')"
  shows "fd = first_free (table k) \<and> mappings k' = mappings k \<and>
    (\<exists>ob. file_at (table k') = (file_at (table k))(fd \<mapsto> ob) \<and> names k' p = Some ob \<and>
      (if new then names k p = None \<and> mode = OpenOrCreate \<and> sizes k' ! ob = unat n else names k' = names k \<and> sizes k' = sizes k))"
  using assms
  by (auto simp: open_object_def open_path_def Let_def split: if_splits option.splits sum.splits)

lemma SharedMemoryRegion_ok:
  assumes "SharedMemoryRegion p n mode f k = (Inr r, k')"
  shows "n \<noteq> 0 \<and> map_at f = Some (sharedMemory r) \<and> sharedMemoryPath r = p \<and> sharedMemorySize r = n \<and>
    (\<exists>ob k1. open_object p n mode f k = Inr (sharedMemoryFd r, creator r, k1) \<and>
      file_at (table k1) (sharedMemoryFd r) = Some ob \<and> names k1 p = Some ob \<and>
      k' = k1\<lparr>mappings := (mappings k1)(sharedMemory r \<mapsto> (ob, unat n))\<rparr>)"
proof -
  obtain fd new k1 where o: "open_object p n mode f k = Inr (fd, new, k1)"
    using assms by (cases "open_object p n mode f k") (auto simp: SharedMemoryRegion_def)
  obtain ob where ob: "file_at (table k1) = (file_at (table k))(fd \<mapsto> ob)" "names k1 p = Some ob"
    using open_object_ok [OF o] by blast
  with o assms show ?thesis by (auto simp: SharedMemoryRegion_def split: option.splits if_splits)
qed

lemma destroy_region_files:
  assumes "destroy_region r f k = (None, k')"
  shows "file_at (table k') = (file_at (table k))(sharedMemoryFd r := None) \<and>
    mappings k' = (mappings k)(sharedMemory r := None) \<and> names k' = names k \<and> sizes k' = sizes k"
  using assms by (auto simp: destroy_region_def Let_def split: if_splits)

text \<open>Opening and destroying leave no trace in the process.\<close>

lemma region_released:
  assumes "SharedMemoryRegion p n mode f k = (Inr r, k1)" and "destroy_region r f' k1 = (None, k2)"
    and "mappings k (sharedMemory r) = None"
  shows "file_at (table k2) = file_at (table k) \<and> mappings k2 = mappings k \<and> names k2 = names k1 \<and> sizes k2 = sizes k1"
proof -
  obtain ob k' where o: "open_object p n mode f k = Inr (sharedMemoryFd r, creator r, k')"
    and k1: "k1 = k'\<lparr>mappings := (mappings k')(sharedMemory r \<mapsto> (ob, unat n))\<rparr>"
    using SharedMemoryRegion_ok [OF assms(1)] by blast
  note d = destroy_region_files [OF assms(2)] and oo = open_object_ok [OF o]
  have "file_at (table k) (sharedMemoryFd r) = None" using oo by simp
  with d oo k1 assms(3) show ?thesis by (auto simp: fun_eq_iff)
qed

lemma make_node_ok:
  assumes "make_node ro p n f k = (Inr v, k1)"
  shows "\<exists>mode. SharedMemoryRegion p n mode f k = (Inr (shmRegion v), k1) \<and> GetBufferSizeFromShmSize n = Inr (ring_size v) \<and>
    shmLayout v = sharedMemory (shmRegion v) \<and> ring_begin v = GetBufferBegin (shmLayout v)"
  using assms
  by (auto simp: make_node_def GetMemory_def split: prod.splits sum.splits option.splits)

lemma ring_fits:
  assumes "GetBufferSizeFromShmSize n = Inr b"
  shows "0 < unat b \<and> unat HeaderSize + unat b = unat n"
  using assms by (auto simp: GetBufferSizeFromShmSize_def unat_minus_simple64 word_le_nat_alt word_less_nat_alt split: if_splits)

section \<open>Properties\<close>

text \<open>C28: A node owns what it opened and nothing else. The ring of a node that was made lies behind the
  header and ends with the mapping, which is that of the named object with the size asked for; and
  destroying the node closes exactly its descriptor and removes exactly its mapping, while the
  name and the object stay for the other nodes.\<close>
theorem node_released:
  assumes "make_node ro p n f k = (Inr v, k1)" and "destroy_region (shmRegion v) f' k1 = (None, k2)"
    and "mappings k (shmLayout v) = None"
  shows "(\<exists>ob. names k1 p = Some ob \<and> mappings k1 (shmLayout v) = Some (ob, unat n)) \<and>
    shmLayout v + 128 = ring_begin v \<and> ring_begin v + unat (ring_size v) = shmLayout v + unat n \<and> 0 < unat (ring_size v) \<and>
    file_at (table k2) = file_at (table k) \<and> mappings k2 = mappings k \<and> names k2 = names k1 \<and> sizes k2 = sizes k1"
proof -
  obtain mode where m: "SharedMemoryRegion p n mode f k = (Inr (shmRegion v), k1)" "GetBufferSizeFromShmSize n = Inr (ring_size v)"
    "shmLayout v = sharedMemory (shmRegion v)" "ring_begin v = GetBufferBegin (shmLayout v)"
    using make_node_ok [OF assms(1)] by blast
  have "names k1 p = Some ob \<and> mappings k1 (shmLayout v) = Some (ob, unat n)"
    if "open_object p n mode f k = Inr (sharedMemoryFd (shmRegion v), creator (shmRegion v), k')" "names k' p = Some ob"
      "k1 = k'\<lparr>mappings := (mappings k')(sharedMemory (shmRegion v) \<mapsto> (ob, unat n))\<rparr>" for ob k'
    using that m(3) by simp
  then have "\<exists>ob. names k1 p = Some ob \<and> mappings k1 (shmLayout v) = Some (ob, unat n)"
    using SharedMemoryRegion_ok [OF m(1)] by blast
  moreover have "mappings k (sharedMemory (shmRegion v)) = None" using assms(3) m(3) by simp
  ultimately show ?thesis
    using region_released [OF m(1) assms(2)] ring_fits [OF m(2)] m(4) by (simp add: GetBufferBegin_def HeaderSize_def)
qed

definition fresh_kernel :: shm_kernel where
  "fresh_kernel = \<lparr>table = [Some 7, None, Some 8], names = Map.empty, sizes = [], mappings = Map.empty\<rparr>"

definition all_works :: shm_fate where
  "all_works = \<lparr>create_ok = True, truncate_ok = True, open_ok = True, map_at = Some 4096, unmap_ok = True,
     close_ok = True, unlink_ok = True\<rparr>"

lemmas region_eval = fresh_kernel_def all_works_def make_node_def SharedMemoryRegion_def open_object_def open_path_def
  destroy_region_def GetMemory_def GetBufferSizeFromShmSize_def HeaderSize_def first_free_def open_fd_def close_fd_def
  file_at_def Let_def

theorem node_released_witness:
  "\<exists>v k1 k2. make_node Producer ''/q'' 4096 all_works fresh_kernel = (Inr v, k1) \<and> file_at (table k1) 1 = Some 0 \<and>
    destroy_region (shmRegion v) all_works k1 = (None, k2) \<and> file_at (table k2) = file_at (table fresh_kernel) \<and>
    ring_begin v + unat (ring_size v) = shmLayout v + 4096"
proof -
  have "\<exists>v k1 k2. make_node Producer ''/q'' 4096 all_works fresh_kernel = (Inr v, k1) \<and> file_at (table k1) 1 = Some 0 \<and>
      destroy_region (shmRegion v) all_works k1 = (None, k2) \<and> mappings fresh_kernel (shmLayout v) = None"
    by (simp add: region_eval)
  then obtain v k1 k2 where v: "make_node Producer ''/q'' 4096 all_works fresh_kernel = (Inr v, k1)" "file_at (table k1) 1 = Some 0"
    "destroy_region (shmRegion v) all_works k1 = (None, k2)" "mappings fresh_kernel (shmLayout v) = None" by blast
  from node_released [OF v(1,3,4)] v show ?thesis by auto
qed

text \<open>A node that cannot be made: when \<open>mmap\<close> fails the descriptor stays open; when the size is refused
  the process is as before, but a segment that was created for it keeps its name.\<close>

theorem failed_node:
  assumes "make_node ro p n f k = (Inl (Threw e), k1)" and "\<And>a. map_at f = Some a \<Longrightarrow> mappings k a = None"
  shows "(e = MmapFailed \<longrightarrow> mappings k1 = mappings k \<and>
      (\<exists>fd ob. file_at (table k) fd = None \<and> file_at (table k1) = (file_at (table k))(fd \<mapsto> ob))) \<and>
    (e = ShmTooSmall \<longrightarrow> file_at (table k1) = file_at (table k) \<and> mappings k1 = mappings k \<and> names k1 p \<noteq> None)"
proof -
  let ?mode = "if ro = Producer then OpenOrCreate else OpenExisting"
  show ?thesis
  proof (cases "SharedMemoryRegion p n ?mode f k")
    case (Pair x k')
    show ?thesis
    proof (cases x)
      case (Inl d)
      with Pair assms(1) have d: "d = Threw e" "k' = k1" by (auto simp: make_node_def)
      then obtain fd new where o: "open_object p n ?mode f k = Inr (fd, new, k1)" and e: "e = MmapFailed"
        using Pair Inl by (auto simp: SharedMemoryRegion_def split: sum.splits option.splits if_splits)
      from open_object_ok [OF o] e show ?thesis by (metis first_free_none mpsc_error.distinct(1))
    next
      case (Inr r)
      note m = Pair [unfolded Inr]
      have e: "GetBufferSizeFromShmSize n = Inl e \<and> destroy_region r f k' = (None, k1)"
        using m assms(1) by (auto simp: make_node_def GetBufferSizeFromShmSize_def destroy_region_def Let_def split: if_splits)
      then have small: "e = ShmTooSmall" by (auto simp: GetBufferSizeFromShmSize_def split: if_splits)
      have "mappings k (sharedMemory r) = None" using assms(2) SharedMemoryRegion_ok [OF m] by blast
      from region_released [OF m _ this, of f k1] e have
        "file_at (table k1) = file_at (table k)" "mappings k1 = mappings k" "names k1 = names k'" by simp_all
      moreover have "names k' p \<noteq> None" using SharedMemoryRegion_ok [OF m] by auto
      ultimately show ?thesis using small by simp
    qed
  qed
qed

theorem failed_node_witness:
  "\<exists>k1. make_node Producer ''/q'' 4096 (all_works\<lparr>map_at := None\<rparr>) fresh_kernel = (Inl (Threw MmapFailed), k1) \<and>
    (\<exists>fd ob. file_at (table fresh_kernel) fd = None \<and> file_at (table k1) = (file_at (table fresh_kernel))(fd \<mapsto> ob))"
proof -
  obtain k1 where k1: "make_node Producer ''/q'' 4096 (all_works\<lparr>map_at := None\<rparr>) fresh_kernel = (Inl (Threw MmapFailed), k1)"
    by (simp add: region_eval)
  from failed_node [OF k1] k1 show ?thesis by (simp add: all_works_def)
qed

end
