(* ===== verification/Mpsc_Whole.thy ===== *)
theory Mpsc_Whole
  imports Mpsc_Programs Mpsc_Region
begin

text \<open>
  The programs of the shared-memory queue as whole processes (\<^verbatim>\<open>hw-5/producer_first.cpp\<close>,
  \<^verbatim>\<open>hw-5/producer_second.cpp\<close>, \<^verbatim>\<open>hw-5/producer_stop.cpp\<close>, \<^verbatim>\<open>hw-5/consumer.cpp\<close>), from the command
  line to the exit code: the arguments, the node with its region, the calls of the queue, the
  destructors, and what is printed. They run one after the other here; theory \<open>Mpsc_Programs\<close> has
  them at the same time, on a queue that is already open.
\<close>

section \<open>Processes on one machine\<close>

text \<open>What outlives a process: the names of the objects, their sizes and contents.\<close>

record machine =
  named :: "string \<Rightarrow> nat option"
  lengths :: "nat list"
  memory :: "shm list"

text \<open>An object that \<open>ftruncate\<close> has filled with zeros.\<close>

definition zero_shm :: "nat \<Rightarrow> shm" where
  "zero_shm n = \<lparr>protocol = header new_object, queue = positions new_object, ring = replicate (n - 128) 0\<rparr>"

text \<open>A process starts with its own table of descriptors and no mapping; both go when it ends.\<close>

definition enter :: "nat option list \<Rightarrow> machine \<Rightarrow> shm_kernel" where
  "enter t M = \<lparr>table = t, names = named M, sizes = lengths M, mappings = Map.empty\<rparr>"

definition leave :: "shm_kernel \<Rightarrow> shm list \<Rightarrow> machine" where
  "leave k mem = \<lparr>named = names k, lengths = sizes k, memory = mem\<rparr>"

definition with_new :: "shm_kernel \<Rightarrow> shm list \<Rightarrow> shm list" where
  "with_new k mem = mem @ map zero_shm (drop (length mem) (sizes k))"

text \<open>How a program ends: with a code, with an exception that nobody catches, by a signal.\<close>

datatype program_end = ExitCode nat | BadArgument arg_error | Uncaught mpsc_error | Killed

fun arg_end :: "arg_error \<Rightarrow> program_end" where
  "arg_end Usage = ExitCode 1"
| "arg_end e = BadArgument e"

fun ended :: "node_end \<Rightarrow> program_end" where
  "ended (Threw e) = Uncaught e"
| "ended ExitFailure = ExitCode 1"
| "ended BusError = Killed"

section \<open>The nodes\<close>

text \<open>The body of \<open>InitializeIfNeeded\<close> in the process that has created the object.\<close>

definition InitializeIfNeeded :: "u64 \<Rightarrow> shm \<Rightarrow> shm" where
  "InitializeIfNeeded n s =
     s\<lparr>protocol := (init_fields n (fresh_protocol\<lparr>initState := init_code Initializing\<rparr>))
         \<lparr>producerCount := 0, consumerCount := 0, refCount := 0, initState := init_code Ready\<rparr>,
       queue := fresh_queue\<rparr>"

text \<open>
  The body of a constructor. \<open>None\<close>: \<open>WaitUntilReady\<close> waits for ever, as nobody else moves here. An
  object without bytes cannot be read.
\<close>

definition construct :: "role \<Rightarrow> bool \<Rightarrow> nat \<Rightarrow> u64 \<Rightarrow> shm \<Rightarrow> (node_end + shm) option" where
  "construct ro new len n s =
     (let counted = (\<lambda>s. s\<lparr>protocol := count_ref 1 (count_role ro 1 (protocol s))\<rparr>)
      in if ro = Producer \<and> new then Some (Inr (counted (InitializeIfNeeded n s)))
         else if len = 0 then Some (Inl BusError)
         else if initState (protocol s) \<noteq> init_code Ready then None
         else (case ValidateProtocol ro n (n - HeaderSize) (protocol s) of
                 Some e \<Rightarrow> Some (Inl (Threw e))
               | None \<Rightarrow> Some (Inr (counted s))))"

text \<open>The destructor, and then the one of the region.\<close>

definition destruct :: "role \<Rightarrow> node_view \<Rightarrow> shm_fate \<Rightarrow> shm \<Rightarrow> shm_kernel \<Rightarrow> node_end option \<times> shm \<times> shm_kernel" where
  "destruct ro v f s k =
     (let s1 = s\<lparr>protocol := count_ref (- 1) (count_role ro (- 1) (protocol s))\<rparr>
      in case (if ro = Consumer \<and> refCount (protocol s) = 1 then Unlink (shmRegion v) f k else (None, k)) of
           (Some e, k1) \<Rightarrow> (Some e, s1, k1)
         | (None, k1) \<Rightarrow> (case destroy_region (shmRegion v) f k1 of (x, k2) \<Rightarrow> (x, s1, k2)))"

section \<open>The programs\<close>

text \<open>
  \<open>main\<close> behind the command line, with what it does between the constructor and the destructor of its
  node: \<open>body\<close> gets the ring and says whether it dies, what it prints, and what is in the segment
  then. An exception that nobody catches ends the process without the destructors.
\<close>

definition with_node ::
  "role \<Rightarrow> string \<Rightarrow> u64 \<Rightarrow> (u64 \<Rightarrow> shm \<Rightarrow> (program_end option \<times> string list \<times> shm) option) \<Rightarrow>
   shm_fate \<Rightarrow> nat option list \<Rightarrow> machine \<Rightarrow> (program_end \<times> string list \<times> machine) option" where
  "with_node ro p n body f t M =
     (case make_node ro p n f (enter t M) of
        (Inl e, k) \<Rightarrow> Some (ended e, [], leave k (with_new k (memory M)))
      | (Inr v, k) \<Rightarrow>
          (let mem = with_new k (memory M); ob = fst (the (mappings k (shmLayout v)))
           in case construct ro (IsCreator (shmRegion v)) (sizes k ! ob) n (mem ! ob) of
                None \<Rightarrow> None
              | Some (Inl e) \<Rightarrow> Some (ended e, [], leave k mem)
              | Some (Inr s) \<Rightarrow>
                  (case body (ring_size v) s of
                     None \<Rightarrow> None
                   | Some (Some e, ls, s1) \<Rightarrow> Some (e, ls, leave k (mem[ob := s1]))
                   | Some (None, ls, s1) \<Rightarrow>
                       (case destruct ro v f s1 k of
                          (x, s2, k2) \<Rightarrow> Some (case x of None \<Rightarrow> ExitCode 0 | Some e \<Rightarrow> ended e, ls, leave k2 (mem[ob := s2]))))))"

text \<open>The calls of \<open>Send\<close> one after the other; a write outside the ring is not defined.\<close>

primrec send_all :: "u64 \<Rightarrow> message list \<Rightarrow> shm \<Rightarrow> (program_end option \<times> shm) option" where
  "send_all bsize [] s = Some (None, s)"
| "send_all bsize (m # ms) s =
     (case Send bsize (fst m) (snd m) s of
        None \<Rightarrow> None
      | Some (SendDone s1) \<Rightarrow> send_all bsize ms s1
      | Some (SendThrew e) \<Rightarrow> Some (Some (Uncaught e), s)
      | Some _ \<Rightarrow> Some (Some Killed, s))"

definition producer_main ::
  "string list \<Rightarrow> message list \<Rightarrow> string list \<Rightarrow> string list \<Rightarrow>
   shm_fate \<Rightarrow> nat option list \<Rightarrow> machine \<Rightarrow> (program_end \<times> string list \<times> machine) option" where
  "producer_main first_lines ms last_lines argv f t M =
     (case producer_args argv of
        Inl e \<Rightarrow> Some (arg_end e, [], M)
      | Inr (p, n) \<Rightarrow>
          with_node Producer p n (\<lambda>bsize s.
            case send_all bsize ms s of
              None \<Rightarrow> None
            | Some (None, s1) \<Rightarrow> Some (None, first_lines @ last_lines, s1)
            | Some (Some e, s1) \<Rightarrow> Some (Some e, first_lines, s1)) f t M)"

definition main_first :: "string list \<Rightarrow> shm_fate \<Rightarrow> nat option list \<Rightarrow> machine \<Rightarrow> (program_end \<times> string list \<times> machine) option" where
  "main_first = producer_main [''[PRODUCER_1]: connected to queue''] producer_first [''[PRODUCER_1]: done'']"

definition main_second :: "string list \<Rightarrow> shm_fate \<Rightarrow> nat option list \<Rightarrow> machine \<Rightarrow> (program_end \<times> string list \<times> machine) option" where
  "main_second = producer_main [''[PRODUCER_2]: connected to queue''] producer_second [''[PRODUCER_2]: done'']"

definition main_stop :: "string list \<Rightarrow> shm_fate \<Rightarrow> nat option list \<Rightarrow> machine \<Rightarrow> (program_end \<times> string list \<times> machine) option" where
  "main_stop = producer_main [] producer_stop [''[PRODUCER_STOP]: sent Stop'']"

text \<open>The loop of the consumer; \<open>None\<close> is a loop that does not end.\<close>

partial_function (option) receive_loop :: "u64 \<Rightarrow> message_type \<Rightarrow> shm \<Rightarrow> (program_end option \<times> string list \<times> shm) option" where
  "receive_loop bsize I s =
     (case Receive bsize I s of
        None \<Rightarrow> None
      | Some (r, s1) \<Rightarrow>
          (case r of
             RecvSome code payload \<Rightarrow>
               (if react (code, payload) = Dies then Some (Some (Uncaught InvalidInt64Payload), [], s1)
                else if ends_loop (react (code, payload)) then Some (None, lines_of (react (code, payload)), s1)
                else Option.bind (receive_loop bsize I s1)
                       (\<lambda>(e, ls, s2). Some (e, lines_of (react (code, payload)) @ ls, s2)))
           | _ \<Rightarrow> Some (Some Killed, [], s1)))"

definition consumer_main :: "string list \<Rightarrow> shm_fate \<Rightarrow> nat option list \<Rightarrow> machine \<Rightarrow> (program_end \<times> string list \<times> machine) option" where
  "consumer_main argv f t M =
     (case consumer_args argv of
        Inl e \<Rightarrow> Some (arg_end e, [], M)
      | Inr (p, n, I) \<Rightarrow>
          with_node Consumer p n (\<lambda>bsize s.
            case receive_loop bsize I s of
              None \<Rightarrow> None
            | Some (e, ls, s1) \<Rightarrow> Some (e, ''[CONSUMER]: opened queue'' # ls, s1)) f t M)"

section \<open>Sending and receiving all messages\<close>

definition msg_recs :: "message list \<Rightarrow> ring_rec list" where
  "msg_recs ms = map (\<lambda>(t, p). RMsg t p) ms"

lemma msg_recs_simps [simp]:
  "msg_recs [] = []" "msg_recs (m # ms) = RMsg (fst m) (snd m) # msg_recs ms" "msg_recs (ms @ ms') = msg_recs ms @ msg_recs ms'"
  "recs_size (msg_recs ms) = msgs_size ms" "rec_msgs (msg_recs ms) = ms"
proof -
  show "recs_size (msg_recs ms) = msgs_size ms" by (induction ms) (auto simp: msg_recs_def)
  show "rec_msgs (msg_recs ms) = ms" by (induction ms) (auto simp: msg_recs_def)
qed (simp_all add: msg_recs_def case_prod_unfold)

text \<open>A ring that has been filled from its begin: nothing has wrapped.\<close>

definition filled :: "u64 \<Rightarrow> message list \<Rightarrow> shm \<Rightarrow> bool" where
  "filled bsize ms s \<longleftrightarrow> shm_holds bsize (msg_recs ms) s \<and> readPos (queue s) = 0"

lemma send_all_done:
  assumes "filled bsize old s" and "ring_size_ok bsize" and "\<forall>m \<in> set ms. msg_ok (fst m) (snd m)"
    and "msgs_size old + msgs_size ms \<le> unat bsize"
  shows "\<exists>s'. send_all bsize ms s = Some (None, s') \<and> filled bsize (old @ ms) s' \<and> protocol s' = protocol s"
  using assms
proof (induction ms arbitrary: old s)
  case (Cons m ms)
  let ?n = "padded (8 + length (snd m))"
  have holds: "shm_holds bsize (msg_recs old) s" "readPos (queue s) = 0"
    using Cons.prems(1) by (simp_all add: filled_def)
  then have pos: "unat (commitPos (queue s)) = msgs_size old" by (simp add: shm_holds_def)
  have fit: "msgs_size old + ?n \<le> unat bsize" using Cons.prems(4) by simp
  moreover have "8 \<le> ?n" using padded_props(1) [of "8 + length (snd m)"] by simp
  ultimately have pad: "pad_for (unat bsize) (unat (commitPos (queue s))) ?n = 0" using pos by (simp add: pad_for_def)
  have "unat (commitPos (queue s)) + 0 + ?n < 2 ^ 64" using pos fit unat_u64_less [of bsize] by simp
  with TrySend_done [OF holds(1) Cons.prems(2) _ refl refl, of "fst m" "snd m"] pad fit Cons.prems(3)
  obtain s1 where s1: "TrySend bsize (fst m) (snd m) s = SendDone s1" "protocol s1 = protocol s"
    "shm_holds bsize (msg_recs (old @ [m])) s1" by auto
  then have "filled bsize (old @ [m]) s1" using TrySend_read [OF s1(1)] holds(2) by (simp add: filled_def)
  from Cons.IH [OF this Cons.prems(2)] Cons.prems(3,4) Send_done [OF s1(1)] s1(2) show ?case by auto
qed simp

text \<open>Receiving changes nothing but the position.\<close>

lemma store_read_pos_protocol [simp]: "protocol (store_read_pos p s) = protocol s"
  by (simp add: store_read_pos_def)

lemma TryReceive_protocol:
  assumes "TryReceive bsize I s = Some (r, s')"
  shows "protocol s' = protocol s"
proof -
  have "\<forall>r s'. x = (r, s') \<longrightarrow> protocol s' = protocol s" if "TryReceive bsize I s = Some x" for x
  proof (rule TryReceive.raw_induct [where P = "\<lambda>bsize I s x. \<forall>r s'. x = (r, s') \<longrightarrow> protocol s' = protocol s", OF _ that], goal_cases)
    case (1 rec bsize I s x)
    show ?case
    proof (cases "receive_pass bsize I (ring s) (readPos (queue s)) (commitPos (queue s))")
      case (Some r)
      show ?thesis
      proof (cases r)
        case (SkipTo p)
        have "rec bsize I (store_read_pos p s) = Some x" using 1(2) Some SkipTo by simp
        from 1(1) [OF this] show ?thesis by (simp only: store_read_pos_protocol)
      qed (use 1(2) Some in auto)
    qed (use 1(2) in auto)
  qed
  with assms show ?thesis by blast
qed

lemma Receive_protocol:
  assumes "Receive bsize I s = Some (r, s')"
  shows "protocol s' = protocol s"
proof -
  have "\<forall>r s'. x = (r, s') \<longrightarrow> protocol s' = protocol s" if "Receive bsize I s = Some x" for x
  proof (rule Receive.raw_induct [where P = "\<lambda>bsize I s x. \<forall>r s'. x = (r, s') \<longrightarrow> protocol s' = protocol s", OF _ that], goal_cases)
    case (1 rec bsize I s x)
    obtain r s1 where r: "TryReceive bsize I s = Some (r, s1)" using 1(2) by (cases "TryReceive bsize I s") auto
    show ?case
    proof (cases "r = RecvNone")
      case True
      have "rec bsize I s1 = Some x" using 1(2) r True by simp
      from 1(1) [OF this] show ?thesis by (simp only: TryReceive_protocol [OF r])
    next
      case False
      then have "x = (r, s1)" using 1(2) r by (cases r) auto
      then show ?thesis using TryReceive_protocol [OF r] by simp
    qed
  qed
  with assms show ?thesis by blast
qed

text \<open>The messages the consumer asked for, up to the one that ends its loop.\<close>

lemma receive_loop_prints:
  assumes "shm_holds bsize recs s" and "ring_size_ok bsize" and "rec_msgs recs = ms @ (Stop, []) # rest"
    and "\<forall>m \<in> set ms. \<not> ends_loop (react (encode_msg m))"
  shows "\<exists>s'. receive_loop bsize I s = Some (None, consumer_lines I ms @ [''[CONSUMER]: received Stop, exiting''], s') \<and>
    protocol s' = protocol s"
  using assms(1,3,4)
proof (induction "length ms" arbitrary: ms recs s rule: less_induct)
  case less
  let ?w = "\<lambda>m. wanted_code I (type_code (fst m))"
  have stop: "wanted_code I (type_code Stop)" by (simp add: wanted_code_def)
  show ?case
  proof (cases "filter ?w ms")
    case Nil
    then have "\<forall>m \<in> set ms. \<not> ?w m" by (simp add: filter_empty_conv)
    from Receive_holds [OF less.prems(1) assms(2) less.prems(2) this stop] obtain s1 where
      s1: "Receive bsize I s = Some (RecvSome (type_code Stop) [], s1)" by blast
    with Receive_protocol [OF s1] Nil show ?thesis
      by (subst receive_loop.simps) (simp add: react_def consumer_lines_def)
  next
    case (Cons m ms2)
    then obtain us vs where u: "ms = us @ m # vs" "\<forall>x \<in> set us. \<not> ?w x" "?w m" "ms2 = filter ?w vs"
      unfolding filter_eq_Cons_iff by blast
    obtain t p where m: "m = (t, p)" by (cases m)
    from Receive_holds [OF less.prems(1) assms(2) _ u(2), of t p "vs @ (Stop, []) # rest"] less.prems(2) u m obtain s1 recs1 where
      s1: "Receive bsize I s = Some (RecvSome (type_code t) p, s1)" "shm_holds bsize recs1 s1"
      "rec_msgs recs1 = vs @ (Stop, []) # rest" by auto
    have goes: "\<not> ends_loop (react (type_code t, p))" using less.prems(3) u(1) m by (simp add: encode_msg_def)
    then have "react (type_code t, p) \<noteq> Dies" by auto
    moreover have "length vs < length ms" using u(1) by simp
    with less.hyps [OF this s1(2,3)] less.prems(3) u(1) obtain s2 where
      "receive_loop bsize I s1 = Some (None, consumer_lines I vs @ [''[CONSUMER]: received Stop, exiting''], s2)"
      "protocol s2 = protocol s1" by auto
    moreover have "consumer_lines I ms = lines_of (react (type_code t, p)) @ consumer_lines I vs"
      using Cons u(4) m by (simp add: consumer_lines_def encode_msg_def)
    ultimately show ?thesis
      using s1(1) goes Receive_protocol [OF s1(1)] by (subst receive_loop.simps) simp
  qed
qed

section \<open>A process on a queue\<close>

definition works :: "shm_fate \<Rightarrow> bool" where
  "works f \<longleftrightarrow> create_ok f \<and> truncate_ok f \<and> open_ok f \<and> map_at f \<noteq> None \<and> unmap_ok f \<and> close_ok f \<and> unlink_ok f"

text \<open>A size that \<open>ftruncate\<close> takes and that leaves a ring.\<close>

definition good_size :: "u64 \<Rightarrow> bool" where
  "good_size n \<longleftrightarrow> 128 < n \<and> n < 2 ^ 63 \<and> ring_size_ok (n - HeaderSize)"

definition ready_header :: "u64 \<Rightarrow> protocol_header" where
  "ready_header n = (init_fields n fresh_protocol)\<lparr>initState := init_code Ready\<rparr>"

text \<open>The queue on name \<open>p\<close> that nobody has open, with these messages.\<close>

definition queue_at :: "string \<Rightarrow> u64 \<Rightarrow> message list \<Rightarrow> machine \<Rightarrow> bool" where
  "queue_at p n ms M \<longleftrightarrow> length (memory M) = length (lengths M) \<and>
     (\<exists>ob. named M p = Some ob \<and> ob < length (lengths M) \<and> lengths M ! ob = unat n \<and>
        filled (n - HeaderSize) ms (memory M ! ob) \<and> protocol (memory M ! ob) = ready_header n)"

lemma counted_out:
  "count_ref (- 1) (count_role ro (- 1) (count_ref 1 (count_role ro 1 h))) = h"
  by (cases ro) (simp_all add: count_ref_def)

text \<open>The node on an object that is there, and on one that it creates.\<close>

definition view_at :: "string \<Rightarrow> u64 \<Rightarrow> nat \<Rightarrow> nat \<Rightarrow> bool \<Rightarrow> node_view" where
  "view_at p n fd a new = \<lparr>shmRegion = \<lparr>sharedMemoryPath = p, sharedMemorySize = n, sharedMemoryFd = fd, sharedMemory = a, creator = new\<rparr>,
     shmLayout = a, ring_begin = GetBufferBegin a, ring_size = n - HeaderSize\<rparr>"

lemma size_of_ring: "good_size n \<Longrightarrow> n \<noteq> 0 \<and> GetBufferSizeFromShmSize n = Inr (n - HeaderSize)"
  by (auto simp: good_size_def GetBufferSizeFromShmSize_def HeaderSize_def)

lemma make_node_opens:
  assumes "works f" and "good_size n" and "names k p = Some ob" and "map_at f = Some a"
  shows "make_node ro p n f k = (Inr (view_at p n (first_free (table k)) a False),
    k\<lparr>table := open_fd ob (table k), mappings := (mappings k)(a \<mapsto> (ob, unat n))\<rparr>)"
  using assms size_of_ring [OF assms(2)]
  by (cases ro) (simp_all add: works_def make_node_def SharedMemoryRegion_def open_object_def open_path_def GetMemory_def view_at_def)

lemma make_node_creates:
  assumes "works f" and "good_size n" and "names k p = None" and "map_at f = Some a"
  shows "make_node Producer p n f k = (Inr (view_at p n (first_free (table k)) a True),
    k\<lparr>table := open_fd (length (sizes k)) (table k), names := (names k)(p \<mapsto> length (sizes k)),
      sizes := sizes k @ [unat n], mappings := (mappings k)(a \<mapsto> (length (sizes k), unat n))\<rparr>)"
proof -
  have "n < 9223372036854775808" using assms(2) by (simp add: good_size_def)
  then show ?thesis
    using assms size_of_ring [OF assms(2)]
    by (simp add: works_def make_node_def SharedMemoryRegion_def open_object_def GetMemory_def view_at_def Let_def)
qed

text \<open>The destructors of a node whose calls go through; a consumer that is the last node takes the name.\<close>

lemma destruct_works:
  assumes "works f" and "protocol s = count_ref 1 (count_role ro 1 (ready_header n))"
  shows "\<exists>k'. destruct ro (view_at p n fd a new) f s k = (None, s\<lparr>protocol := ready_header n\<rparr>, k') \<and> sizes k' = sizes k \<and>
    names k' = (if ro = Consumer then (names k)(p := None) else names k)"
proof -
  have "refCount (protocol s) = 1"
    using assms(2) by (cases ro) (simp_all add: count_ref_def ready_header_def init_fields_def fresh_protocol_def)
  then show ?thesis
    using assms
    by (cases ro) (auto simp: destruct_def Let_def counted_out [of Producer, simplified] counted_out [of Consumer, simplified]
      destroy_region_def Unlink_def works_def view_at_def split: if_splits)
qed

text \<open>What a program does between the constructor and the destructor, on any state of the ring that \<open>P\<close>
  describes, and what it leaves.\<close>

definition body_does ::
  "(u64 \<Rightarrow> shm \<Rightarrow> (program_end option \<times> string list \<times> shm) option) \<Rightarrow> u64 \<Rightarrow> message list \<Rightarrow> string list \<Rightarrow> (shm \<Rightarrow> bool) \<Rightarrow> bool" where
  "body_does body bsize ms ls Q \<longleftrightarrow> (\<forall>s. filled bsize ms s \<longrightarrow>
     (\<exists>s'. body bsize s = Some (None, ls, s') \<and> protocol s' = protocol s \<and> (\<forall>h. Q (s'\<lparr>protocol := h\<rparr>))))"

lemma filled_protocol [simp]: "filled bsize ms (s\<lparr>protocol := h\<rparr>) = filled bsize ms s"
  by (simp add: filled_def shm_holds_def)

lemma with_node_joins:
  assumes "works f" and "good_size n" and "queue_at p n ms M" and "body_does body (n - HeaderSize) ms ls Q"
  shows "\<exists>M' ob. with_node ro p n body f t M = Some (ExitCode 0, ls, M') \<and> named M p = Some ob \<and>
    ob < length (lengths M') \<and> length (memory M') = length (lengths M') \<and> lengths M' ! ob = unat n \<and> Q (memory M' ! ob) \<and>
    protocol (memory M' ! ob) = ready_header n \<and> named M' = (if ro = Consumer then (named M)(p := None) else named M)"
proof -
  obtain a where a: "map_at f = Some a" using assms(1) by (auto simp: works_def)
  obtain ob where ob: "named M p = Some ob" "ob < length (lengths M)" "lengths M ! ob = unat n"
    "length (memory M) = length (lengths M)" "filled (n - HeaderSize) ms (memory M ! ob)"
    "protocol (memory M ! ob) = ready_header n"
    using assms(3) by (auto simp: queue_at_def)
  let ?v = "view_at p n (first_free t) a False"
  let ?s = "(memory M ! ob)\<lparr>protocol := count_ref 1 (count_role ro 1 (ready_header n))\<rparr>"
  obtain k where k: "make_node ro p n f (enter t M) = (Inr ?v, k)" "mappings k a = Some (ob, unat n)"
    "sizes k = lengths M" "names k = named M"
    using make_node_opens [OF assms(1,2) _ a, of "enter t M" p ob ro] ob(1) by (simp add: enter_def)
  have n: "unat n \<noteq> 0" using size_of_ring [OF assms(2)] by (simp add: unat_eq_0)
  have c: "construct ro False (unat n) n (memory M ! ob) = Some (Inr ?s)"
    using n ob(6) by (simp add: construct_def Let_def ValidateProtocol_def ready_header_def init_fields_def)
  have "filled (n - HeaderSize) ms ?s" using ob(5) by simp
  then obtain s1 where s1: "body (n - HeaderSize) ?s = Some (None, ls, s1)" "protocol s1 = protocol ?s"
    "\<And>h. Q (s1\<lparr>protocol := h\<rparr>)" using assms(4) unfolding body_does_def by meson
  from s1(2) have pr: "protocol s1 = count_ref 1 (count_role ro 1 (ready_header n))" by simp
  obtain k' where k': "destruct ro ?v f s1 k = (None, s1\<lparr>protocol := ready_header n\<rparr>, k')" "sizes k' = sizes k"
    "names k' = (if ro = Consumer then (names k)(p := None) else names k)"
    using destruct_works [OF assms(1) pr] by blast
  have "with_node ro p n body f t M = Some (ExitCode 0, ls, leave k' ((memory M)[ob := s1\<lparr>protocol := ready_header n\<rparr>]))"
    using k ob c s1(1) k'(1) by (simp add: with_node_def Let_def with_new_def view_at_def IsCreator_def)
  then show ?thesis using ob k k' s1(3) by (simp add: leave_def)
qed

lemma fresh_queue_filled: "protocol s = h \<Longrightarrow> queue s = fresh_queue \<Longrightarrow> length (ring s) = unat bsize \<Longrightarrow> filled bsize [] s"
  by (simp add: filled_def shm_holds_def fresh_queue_def)

lemma with_node_creates:
  assumes "works f" and "good_size n" and "named M p = None" and "length (memory M) = length (lengths M)"
    and "body_does body (n - HeaderSize) [] ls Q"
  shows "\<exists>M' ob. with_node Producer p n body f t M = Some (ExitCode 0, ls, M') \<and> ob = length (lengths M) \<and>
    ob < length (lengths M') \<and> length (memory M') = length (lengths M') \<and> lengths M' ! ob = unat n \<and> Q (memory M' ! ob) \<and>
    protocol (memory M' ! ob) = ready_header n \<and> named M' = (named M)(p \<mapsto> ob)"
proof -
  obtain a where a: "map_at f = Some a" using assms(1) by (auto simp: works_def)
  let ?ob = "length (lengths M)" and ?z = "zero_shm (unat n)"
  let ?v = "view_at p n (first_free t) a True"
  let ?s = "(InitializeIfNeeded n ?z)\<lparr>protocol := count_ref 1 (count_role Producer 1 (ready_header n))\<rparr>"
  obtain k where k: "make_node Producer p n f (enter t M) = (Inr ?v, k)" "mappings k a = Some (?ob, unat n)"
    "sizes k = lengths M @ [unat n]" "names k = (named M)(p \<mapsto> ?ob)"
    using make_node_creates [OF assms(1,2) _ a, of "enter t M" p] assms(3) by (simp add: enter_def)
  have "protocol (InitializeIfNeeded n ?z) = ready_header n"
    by (simp add: InitializeIfNeeded_def ready_header_def init_fields_def fresh_protocol_def)
  then have c: "construct Producer True (unat n) n ?z = Some (Inr ?s)" by (simp add: construct_def Let_def)
  have "unat (n - HeaderSize) = unat n - 128"
    using assms(2) by (simp add: good_size_def HeaderSize_def unat_minus_simple64 word_less_nat_alt)
  then have "filled (n - HeaderSize) [] ?s"
    by (intro fresh_queue_filled) (simp_all add: InitializeIfNeeded_def zero_shm_def)
  then obtain s1 where s1: "body (n - HeaderSize) ?s = Some (None, ls, s1)" "protocol s1 = protocol ?s"
    "\<And>h. Q (s1\<lparr>protocol := h\<rparr>)" using assms(5) unfolding body_does_def by meson
  from s1(2) have pr: "protocol s1 = count_ref 1 (count_role Producer 1 (ready_header n))" by simp
  obtain k' where k': "destruct Producer ?v f s1 k = (None, s1\<lparr>protocol := ready_header n\<rparr>, k')" "sizes k' = sizes k"
    "names k' = names k"
    using destruct_works [OF assms(1) pr] by fastforce
  have "with_node Producer p n body f t M =
      Some (ExitCode 0, ls, leave k' ((memory M @ [?z])[?ob := s1\<lparr>protocol := ready_header n\<rparr>]))"
    using k c s1(1) k'(1) assms(4) by (simp add: with_node_def Let_def with_new_def view_at_def IsCreator_def nth_append)
  then show ?thesis using k k' s1(3) assms(4) by (simp add: leave_def nth_append)
qed

section \<open>The programs on a queue\<close>

lemma producer_body:
  assumes "good_size n" and "\<forall>m \<in> set ms. msg_ok (fst m) (snd m)" and "msgs_size old + msgs_size ms \<le> unat (n - HeaderSize)"
  shows "body_does (\<lambda>bsize s. case send_all bsize ms s of None \<Rightarrow> None
      | Some (None, s1) \<Rightarrow> Some (None, pre @ post, s1) | Some (Some e, s1) \<Rightarrow> Some (Some e, pre, s1))
    (n - HeaderSize) old (pre @ post) (filled (n - HeaderSize) (old @ ms))"
  unfolding body_does_def
proof (intro allI impI)
  fix s assume "filled (n - HeaderSize) old s"
  from send_all_done [OF this _ assms(2,3)] assms(1) obtain s' where
    "send_all (n - HeaderSize) ms s = Some (None, s')" "filled (n - HeaderSize) (old @ ms) s'" "protocol s' = protocol s"
    by (auto simp: good_size_def)
  then show "\<exists>s'. (case send_all (n - HeaderSize) ms s of None \<Rightarrow> None
      | Some (None, s1) \<Rightarrow> Some (None, pre @ post, s1) | Some (Some e, s1) \<Rightarrow> Some (Some e, pre, s1)) = Some (None, pre @ post, s') \<and>
    protocol s' = protocol s \<and> (\<forall>h. filled (n - HeaderSize) (old @ ms) (s'\<lparr>protocol := h\<rparr>))" by simp
qed

lemma producer_runs:
  assumes "works f" and "good_size n" and "producer_args argv = Inr (p, n)" and "\<forall>m \<in> set ms. msg_ok (fst m) (snd m)"
    and "msgs_size old + msgs_size ms \<le> unat (n - HeaderSize)"
    and "queue_at p n old M \<or> old = [] \<and> named M p = None \<and> length (memory M) = length (lengths M)"
  shows "\<exists>M'. producer_main pre ms post argv f t M = Some (ExitCode 0, pre @ post, M') \<and> queue_at p n (old @ ms) M' \<and>
    (named M')(p := None) = (named M)(p := None)"
  using assms(6)
proof
  assume "queue_at p n old M"
  from with_node_joins [OF assms(1,2) this producer_body [OF assms(2,4,5), of pre post], where ro = Producer and t = t] show ?thesis
    using assms(3) by (force simp: producer_main_def queue_at_def)
next
  assume new: "old = [] \<and> named M p = None \<and> length (memory M) = length (lengths M)"
  then have "named M p = None" "length (memory M) = length (lengths M)" "msgs_size [] + msgs_size ms \<le> unat (n - HeaderSize)"
    using assms(5) by simp_all
  from with_node_creates [OF assms(1,2) this(1,2) producer_body [OF assms(2,4) this(3), of pre post], where t = t] new show ?thesis
    using assms(3) by (force simp: producer_main_def queue_at_def)
qed

lemma consumer_runs:
  assumes "works f" and "good_size n" and "consumer_args argv = Inr (p, n, I)" and "queue_at p n (ms @ (Stop, []) # rest) M"
    and "\<forall>m \<in> set ms. \<not> ends_loop (react (encode_msg m))"
  shows "\<exists>M'. consumer_main argv f t M = Some (ExitCode 0,
      [''[CONSUMER]: opened queue''] @ consumer_lines I ms @ [''[CONSUMER]: received Stop, exiting''], M') \<and>
    named M' = (named M)(p := None) \<and> length (memory M') = length (lengths M')"
proof -
  have "body_does (\<lambda>bsize s. case receive_loop bsize I s of None \<Rightarrow> None
      | Some (e, ls, s1) \<Rightarrow> Some (e, ''[CONSUMER]: opened queue'' # ls, s1)) (n - HeaderSize) (ms @ (Stop, []) # rest)
    ([''[CONSUMER]: opened queue''] @ consumer_lines I ms @ [''[CONSUMER]: received Stop, exiting'']) (\<lambda>s. True)"
    unfolding body_does_def
  proof (intro allI impI)
    fix s assume s: "filled (n - HeaderSize) (ms @ (Stop, []) # rest) s"
    from receive_loop_prints [OF conjunct1 [OF s [unfolded filled_def]] _ _ assms(5), of rest I] assms(2) show
      "\<exists>s'. (case receive_loop (n - HeaderSize) I s of None \<Rightarrow> None
        | Some (e, ls, s1) \<Rightarrow> Some (e, ''[CONSUMER]: opened queue'' # ls, s1)) = Some (None,
          [''[CONSUMER]: opened queue''] @ consumer_lines I ms @ [''[CONSUMER]: received Stop, exiting''], s') \<and>
       protocol s' = protocol s \<and> (\<forall>h. True)"
      by (auto simp: good_size_def simp del: msg_recs_simps(1-3))
  qed
  from with_node_joins [OF assms(1,2,4) this, where ro = Consumer and t = t] assms(3) show ?thesis
    by (auto simp: consumer_main_def)
qed

section \<open>Properties\<close>

lemma example_messages:
  "list_all (\<lambda>m. msg_ok (fst m) (snd m)) (producer_first @ producer_second @ producer_stop)"
  "msgs_size producer_first = 88" "msgs_size producer_second = 88" "msgs_size producer_stop = 8"
  "list_all (\<lambda>m. \<not> ends_loop (react (encode_msg m))) (producer_first @ producer_second)"
  by (simp_all add: producer_first_def producer_second_def producer_stop_def msg_ok_def padded_def bytes_of_def react_def
      encode_msg_def BytesToInt64_def)

text \<open>No name: the consumer's \<open>shm_open\<close> fails and the program exits.\<close>

lemma no_queue:
  assumes "consumer_args argv = Inr (p, n, I)" and "named M p = None" and "length (memory M) = length (lengths M)"
  shows "consumer_main argv f t M = Some (ExitCode 1, [], M)"
  using assms
  by (cases M) (simp add: consumer_main_def with_node_def make_node_def SharedMemoryRegion_def open_object_def open_path_def
      enter_def leave_def with_new_def)

text \<open>C23: The example programs of the queue, from command line to exit code: on a name that nobody uses
  and with a size that leaves room for the messages, the two producers, the program that sends
  the stop and then the consumer each end with code 0 and print what they say they do; the
  consumer prints the lines of all messages of the type it was asked for, in the order they
  were sent, ends at the stop, and takes the name with it as the last node, so that a second
  consumer finds no queue and exits with code 1.\<close>
theorem programs_in_turn:
  assumes "\<forall>i. works (f i)" and "stoull sz = Inr n" and "good_size n" and "184 \<le> unat (n - HeaderSize)"
    and "ParseMessageType kind = Inr I" and "named M p = None" and "length (memory M) = length (lengths M)"
  shows "\<exists>M1 M2 M3 M4.
    main_first [prog, p, sz] (f 1) (t 1) M = Some (ExitCode 0, [''[PRODUCER_1]: connected to queue'', ''[PRODUCER_1]: done''], M1) \<and>
    main_second [prog, p, sz] (f 2) (t 2) M1 = Some (ExitCode 0, [''[PRODUCER_2]: connected to queue'', ''[PRODUCER_2]: done''], M2) \<and>
    main_stop [prog, p, sz] (f 3) (t 3) M2 = Some (ExitCode 0, [''[PRODUCER_STOP]: sent Stop''], M3) \<and>
    consumer_main [prog, p, sz, kind] (f 4) (t 4) M3 = Some (ExitCode 0,
      [''[CONSUMER]: opened queue''] @ consumer_lines I (producer_first @ producer_second) @ [''[CONSUMER]: received Stop, exiting''], M4) \<and>
    named M4 = named M \<and>
    consumer_main [prog, p, sz, kind] (f 5) (t 5) M4 = Some (ExitCode 1, [], M4)"
proof -
  have pa: "producer_args [prog, p, sz] = Inr (p, n)" using assms(2) by (simp add: producer_args_def)
  have ca: "consumer_args [prog, p, sz, kind] = Inr (p, n, I)" using assms(2,5) by (simp add: consumer_args_def)
  note ex = example_messages [unfolded list_all_iff]
  note run = producer_runs [OF spec [OF assms(1)] assms(3) pa]
  have ok: "\<forall>m \<in> set producer_first. msg_ok (fst m) (snd m)" "\<forall>m \<in> set producer_second. msg_ok (fst m) (snd m)"
    "\<forall>m \<in> set producer_stop. msg_ok (fst m) (snd m)" using ex(1) by auto
  have room: "msgs_size [] + msgs_size producer_first \<le> unat (n - HeaderSize)"
    "msgs_size ([] @ producer_first) + msgs_size producer_second \<le> unat (n - HeaderSize)"
    "msgs_size (([] @ producer_first) @ producer_second) + msgs_size producer_stop \<le> unat (n - HeaderSize)"
    using ex(2-4) assms(4) by simp_all
  obtain M1 where M1: "main_first [prog, p, sz] (f 1) (t 1) M = Some (ExitCode 0, [''[PRODUCER_1]: connected to queue''] @ [''[PRODUCER_1]: done''], M1)"
    "queue_at p n ([] @ producer_first) M1" "(named M1)(p := None) = (named M)(p := None)"
    unfolding main_first_def using run [OF ok(1) room(1) disjI2] assms(6,7) by blast
  obtain M2 where M2: "main_second [prog, p, sz] (f 2) (t 2) M1 = Some (ExitCode 0, [''[PRODUCER_2]: connected to queue''] @ [''[PRODUCER_2]: done''], M2)"
    "queue_at p n (([] @ producer_first) @ producer_second) M2" "(named M2)(p := None) = (named M1)(p := None)"
    unfolding main_second_def using run [OF ok(2) room(2) disjI1 [OF M1(2)]] by blast
  obtain M3 where M3: "main_stop [prog, p, sz] (f 3) (t 3) M2 = Some (ExitCode 0, [] @ [''[PRODUCER_STOP]: sent Stop''], M3)"
    "queue_at p n ((([] @ producer_first) @ producer_second) @ producer_stop) M3" "(named M3)(p := None) = (named M2)(p := None)"
    unfolding main_stop_def using run [OF ok(3) room(3) disjI1 [OF M2(2)]] by blast
  have "queue_at p n ((producer_first @ producer_second) @ (Stop, []) # []) M3" using M3(2) by (simp add: producer_stop_def)
  from consumer_runs [OF spec [OF assms(1)] assms(3) ca this ex(5)] obtain M4 where
    M4: "consumer_main [prog, p, sz, kind] (f 4) (t 4) M3 = Some (ExitCode 0,
      [''[CONSUMER]: opened queue''] @ consumer_lines I (producer_first @ producer_second) @ [''[CONSUMER]: received Stop, exiting''], M4)"
    "named M4 = (named M3)(p := None)" "length (memory M4) = length (lengths M4)" by blast
  have "named M4 = (named M)(p := None)" using M4(2) M3(3) M2(3) M1(3) by simp
  then have "named M4 = named M" using assms(6) by (simp add: fun_upd_idem)
  with M1(1) M2(1) M3(1) M4(1) no_queue [OF ca _ M4(3)] assms(6) show ?thesis by auto
qed

definition empty_machine :: machine where
  "empty_machine = \<lparr>named = Map.empty, lengths = [], memory = []\<rparr>"

theorem programs_in_turn_witness:
  "\<exists>M3 M4. consumer_main [''program'', ''/q'', digits 312, ''number''] all_works [] M3 =
      Some (ExitCode 0, [''[CONSUMER]: opened queue'', ''[CONSUMER]: Number(111)'', ''[CONSUMER]: Number(222)'',
        ''[CONSUMER]: received Stop, exiting''], M4) \<and> named M4 = Map.empty"
proof -
  have lines: "consumer_lines Number (producer_first @ producer_second) = [''[CONSUMER]: Number(111)'', ''[CONSUMER]: Number(222)'']"
    by (simp add: producer_first_def producer_second_def consumer_lines_def wanted_code_def react_def encode_msg_def
        BytesToInt64_def le_word_le_bytes take_bit_word_id show_int_def digits.simps char_of_eq_iff)
  have "\<forall>i :: nat. works ((\<lambda>i. all_works) i)" by (simp add: works_def all_works_def)
  moreover have "stoull (digits 312) = Inr 312" using stoull_digits [of 312 "[]"] by simp
  moreover have "good_size 312" "184 \<le> unat (312 - HeaderSize)" by (simp_all add: good_size_def HeaderSize_def ring_size_ok_def)
  moreover have "ParseMessageType ''number'' = Inr Number" by (simp add: ParseMessageType_def)
  moreover have "named empty_machine ''/q'' = None" "length (memory empty_machine) = length (lengths empty_machine)"
    by (simp_all add: empty_machine_def)
  ultimately show ?thesis
    using programs_in_turn [of "\<lambda>i. all_works" "digits 312" 312 "''number''" Number empty_machine "''/q''" "''program''" "\<lambda>i. []"] lines
    by (fastforce simp: empty_machine_def)
qed

text \<open>A program that is started with another size than the queue has: it dies of the exception of its
  constructor, and the queue is as it was.\<close>

theorem other_size_refused:
  assumes "works f" and "queue_at p n ms M" and "producer_args argv = Inr (p, m)" and "m \<noteq> n" and "n \<noteq> 0"
  shows "producer_main pre msgs post argv f t M =
    Some (Uncaught (if m = 0 then MmapFailed else if m \<le> 128 then ShmTooSmall else ShmSizeMismatch), [], M)"
proof -
  obtain a where a: "map_at f = Some a" using assms(1) by (auto simp: works_def)
  obtain ob where ob: "named M p = Some ob" "lengths M ! ob = unat n" "length (memory M) = length (lengths M)"
    "protocol (memory M ! ob) = ready_header n"
    using assms(2) by (auto simp: queue_at_def)
  have "construct Producer False (unat n) m (memory M ! ob) = Some (Inl (Threw ShmSizeMismatch))"
    using ob(4) assms(4,5)
    by (simp add: construct_def Let_def ValidateProtocol_def ready_header_def init_fields_def fresh_protocol_def unat_eq_0)
  then show ?thesis
    using assms(1,3) ob a
    by (cases M) (auto simp: producer_main_def with_node_def make_node_def SharedMemoryRegion_def open_object_def open_path_def
      works_def enter_def leave_def with_new_def destroy_region_def GetBufferSizeFromShmSize_def HeaderSize_def Let_def
      IsCreator_def GetMemory_def)
qed

theorem other_size_refused_witness:
  "\<exists>M. producer_main [] [] [] [''program'', ''/q'', digits 400] all_works [] M = Some (Uncaught ShmSizeMismatch, [], M)"
proof -
  have "works all_works" by (simp add: works_def all_works_def)
  moreover have g: "good_size 312" by (simp add: good_size_def HeaderSize_def ring_size_ok_def)
  moreover have "producer_args [''program'', ''/q'', digits 312] = Inr (''/q'', 312)"
    using stoull_digits [of 312 "[]"] by (simp add: producer_args_def)
  moreover have a: "producer_args [''program'', ''/q'', digits 400] = Inr (''/q'', 400)"
    using stoull_digits [of 400 "[]"] by (simp add: producer_args_def)
  ultimately obtain M where M: "queue_at ''/q'' 312 ([] @ []) M"
    using producer_runs [of all_works 312 "[''program'', ''/q'', digits 312]" "''/q''" "[]" "[]" empty_machine "[]" "[]" "[]"]
    by (auto simp: empty_machine_def)
  from other_size_refused [OF \<open>works all_works\<close> M a, of "[]" "[]" "[]" "[]"] show ?thesis by auto
qed

end
