(* ===== verification/Pool_Io.thy ===== *)
theory Pool_Io
  imports Bytes Texts
begin

text \<open>
  \<^verbatim>\<open>hw-6/detail.h\<close>: \<open>WriteExact\<close> and \<open>ReadExact\<close> over the system calls \<open>write\<close> and \<open>read\<close>,
  and the byte buffers of the payloads. The system calls are parameters; what POSIX promises
  of them is the interface \<open>byte_sink\<close> and \<open>byte_source\<close>: short counts, interruption by a
  signal, errors, end of file. A stream socket is a model of both.
\<close>

section \<open>Errors\<close>

datatype errno = EINTR | OtherErrno nat

datatype pool_error =
    SystemError string errno
  | RuntimeError "u8 list"
  | LogicError string
  | InvalidArgument string

section \<open>WriteExact\<close>

text \<open>
  \<open>write fd bytes\<close> acts on a state \<open>'k\<close> of the kernel and returns an error or a count. The
  loop is written with the code's counter; \<open>None\<close> is a loop without end.
\<close>

partial_function (option) WriteExact ::
  "(u8 list \<Rightarrow> 'k \<Rightarrow> (errno + nat) \<times> 'k) \<Rightarrow> u8 list \<Rightarrow> nat \<Rightarrow> 'k
    \<Rightarrow> ((pool_error + unit) \<times> 'k) option" where
  "WriteExact write_fd data written k =
     (if written < length data
      then (case write_fd (drop written data) k of
              (Inl e, k') \<Rightarrow>
                (if e = EINTR then WriteExact write_fd data written k'
                 else Some (Inl (SystemError ''write failed'' e), k'))
            | (Inr rc, k') \<Rightarrow>
                (if rc = 0 then Some (Inl (RuntimeError (bytes_of ''write returned 0'')), k')
                 else WriteExact write_fd data (written + rc) k'))
      else Some (Inr (), k))"

text \<open>Why \<open>WriteExact\<close> throws: its last call failed, or took nothing; \<open>k'\<close> is the state that call left.\<close>

definition failed_write :: "(u8 list \<Rightarrow> 'k \<Rightarrow> (errno + nat) \<times> 'k) \<Rightarrow> pool_error \<Rightarrow> 'k \<Rightarrow> bool" where
  "failed_write write_fd err k' \<longleftrightarrow>
     (\<exists>bs k e. write_fd bs k = (Inl e, k') \<and> e \<noteq> EINTR \<and> err = SystemError ''write failed'' e) \<or>
     (\<exists>bs k. bs \<noteq> [] \<and> write_fd bs k = (Inr 0, k') \<and> err = RuntimeError (bytes_of ''write returned 0''))"

text \<open>
  What \<open>write\<close> promises: it takes at most what it is given, from the front, and nothing when it
  fails; it is not interrupted for ever (\<open>patience\<close> bounds the signals to come).
\<close>

locale byte_sink =
  fixes write_fd :: "u8 list \<Rightarrow> 'k \<Rightarrow> (errno + nat) \<times> 'k"
    and taken_bytes :: "'k \<Rightarrow> u8 list"
    and patience :: "'k \<Rightarrow> nat"
  assumes write_takes: "write_fd bs k = (Inr n, k') \<Longrightarrow>
      n \<le> length bs \<and> taken_bytes k' = taken_bytes k @ take n bs"
    and write_fails: "write_fd bs k = (Inl e, k') \<Longrightarrow> taken_bytes k' = taken_bytes k"
    and write_patience: "write_fd bs k = (Inl EINTR, k') \<Longrightarrow> patience k' < patience k"
begin

lemma WriteExact_from:
  assumes "written \<le> length data"
  shows "\<exists>r k'. WriteExact write_fd data written k = Some (r, k') \<and>
    (case r of
       Inr _ \<Rightarrow> taken_bytes k' = taken_bytes k @ drop written data
     | Inl err \<Rightarrow> failed_write write_fd err k' \<and> (\<exists>n < length data - written.
         taken_bytes k' = taken_bytes k @ take n (drop written data)))"
  using assms
proof (induction "(length data - written, patience k)" arbitrary: written k rule: wf_induct
    [OF wf_lex_prod [OF wf_less_than wf_less_than]])
  case (1 written k)
  show ?case
  proof (cases "written < length data")
    case False
    with 1(2) show ?thesis by (subst WriteExact.simps) simp
  next
    case True
    obtain res k1 where w: "write_fd (drop written data) k = (res, k1)" by (cases "write_fd (drop written data) k")
    show ?thesis
    proof (cases res)
      case (Inl e)
      note fail = write_fails [OF w [unfolded Inl]]
      show ?thesis
      proof (cases "e = EINTR")
        case True
        with w Inl have "patience k1 < patience k" using write_patience by blast
        then have "((length data - written, patience k1), (length data - written, patience k))
            \<in> less_than <*lex*> less_than" by simp
        from 1(1) [rule_format, OF this refl 1(2), unfolded fail] True Inl w \<open>written < length data\<close> show ?thesis
          by (subst WriteExact.simps) simp
      next
        case False
        with w Inl have "failed_write write_fd (SystemError ''write failed'' e) k1" by (auto simp: failed_write_def)
        with False True w Inl fail show ?thesis
          by (subst WriteExact.simps) (auto intro!: exI [of _ 0])
      qed
    next
      case (Inr rc)
      note took = write_takes [OF w [unfolded Inr]]
      show ?thesis
      proof (cases "rc = 0")
        case True
        have "drop written data \<noteq> []" using \<open>written < length data\<close> by simp
        with True w Inr have "failed_write write_fd (RuntimeError (bytes_of ''write returned 0'')) k1"
          unfolding failed_write_def by blast
        with True \<open>written < length data\<close> w Inr took show ?thesis
          by (subst WriteExact.simps) (auto intro!: exI [of _ 0])
      next
        case False
        with took \<open>written < length data\<close> have le: "written + rc \<le> length data" by auto
        have "length data - (written + rc) < length data - written" using False le by linarith
        then have "((length data - (written + rc), patience k1), (length data - written, patience k))
            \<in> less_than <*lex*> less_than" by simp
        from 1(1) [rule_format, OF this refl le] obtain r k' where
          IH: "WriteExact write_fd data (written + rc) k1 = Some (r, k')"
            "case r of Inr _ \<Rightarrow> taken_bytes k' = taken_bytes k1 @ drop (written + rc) data
             | Inl err \<Rightarrow> failed_write write_fd err k' \<and> (\<exists>n < length data - (written + rc).
                 taken_bytes k' = taken_bytes k1 @ take n (drop (written + rc) data))" by blast
        have step: "WriteExact write_fd data written k = Some (r, k')"
          using True w Inr False IH(1) by (subst WriteExact.simps) simp
        have cut: "taken_bytes k1 @ take n (drop (written + rc) data)
            = taken_bytes k @ take (rc + n) (drop written data)" for n
        proof -
          have "drop (written + rc) data = drop rc (drop written data)" by (simp add: add.commute)
          with took show ?thesis by (simp only: take_add append_assoc)
        qed
        show ?thesis
        proof (cases r)
          case (Inl e)
          with IH(2) obtain n where "failed_write write_fd e k'" "n < length data - (written + rc)"
            "taken_bytes k' = taken_bytes k1 @ take n (drop (written + rc) data)" by auto
          with cut [of n] step Inl show ?thesis by (auto intro!: exI [of _ "rc + n"])
        next
          case (Inr u)
          with IH(2) took step show ?thesis
            by (simp add: add.commute flip: drop_drop)
        qed
      qed
    qed
  qed
qed

end

section \<open>ReadExact\<close>

text \<open>
  \<open>read fd n\<close> returns an error or the bytes read; no bytes mean end of file. The result is
  \<open>Some\<close> of the bytes read (the code returns \<open>true\<close>) or \<open>None\<close> (the code returns \<open>false\<close>).
\<close>

partial_function (option) ReadExact ::
  "(nat \<Rightarrow> 'k \<Rightarrow> (errno + u8 list) \<times> 'k) \<Rightarrow> nat \<Rightarrow> u8 list \<Rightarrow> 'k
    \<Rightarrow> ((pool_error + u8 list option) \<times> 'k) option" where
  "ReadExact read_fd wanted got k =
     (if length got < wanted
      then (case read_fd (wanted - length got) k of
              (Inl e, k') \<Rightarrow>
                (if e = EINTR then ReadExact read_fd wanted got k'
                 else Some (Inl (SystemError ''read failed'' e), k'))
            | (Inr bs, k') \<Rightarrow>
                (if bs = [] then Some (Inr None, k')
                 else ReadExact read_fd wanted (got @ bs) k'))
      else Some (Inr (Some got), k))"

text \<open>Why \<open>ReadExact\<close> throws: its last call failed. Why it returns \<open>false\<close>: its last call found the end.\<close>

definition failed_read :: "(nat \<Rightarrow> 'k \<Rightarrow> (errno + u8 list) \<times> 'k) \<Rightarrow> pool_error \<Rightarrow> 'k \<Rightarrow> bool" where
  "failed_read read_fd err k' \<longleftrightarrow>
     (\<exists>n k e. read_fd n k = (Inl e, k') \<and> e \<noteq> EINTR \<and> err = SystemError ''read failed'' e)"

definition ended_read :: "(nat \<Rightarrow> 'k \<Rightarrow> (errno + u8 list) \<times> 'k) \<Rightarrow> 'k \<Rightarrow> bool" where
  "ended_read read_fd k' \<longleftrightarrow> (\<exists>n k. 0 < n \<and> read_fd n k = (Inr [], k'))"

text \<open>
  What \<open>read\<close> promises of the bytes still to come: it returns at most what was asked for, from
  the front, and nothing only at the end.
\<close>

locale byte_source =
  fixes read_fd :: "nat \<Rightarrow> 'k \<Rightarrow> (errno + u8 list) \<times> 'k"
    and coming :: "'k \<Rightarrow> u8 list"
    and patience :: "'k \<Rightarrow> nat"
  assumes read_takes: "read_fd n k = (Inr bs, k') \<Longrightarrow> length bs \<le> n \<and> coming k = bs @ coming k'"
    and read_eof: "read_fd n k = (Inr [], k') \<Longrightarrow> 0 < n \<Longrightarrow> coming k = []"
    and read_fails: "read_fd n k = (Inl e, k') \<Longrightarrow> coming k' = coming k"
    and read_patience: "read_fd n k = (Inl EINTR, k') \<Longrightarrow> patience k' < patience k"
begin

lemma ReadExact_from:
  assumes "length got \<le> wanted"
  shows "\<exists>r k'. ReadExact read_fd wanted got k = Some (r, k') \<and>
    (case r of
       Inr (Some data) \<Rightarrow> length data = wanted \<and> got @ coming k = data @ coming k'
     | Inr None \<Rightarrow> ended_read read_fd k' \<and> length (got @ coming k) < wanted \<and> coming k' = []
     | Inl err \<Rightarrow> failed_read read_fd err k' \<and>
         (\<exists>front. got @ coming k = front @ coming k' \<and> length front < wanted))"
  using assms
proof (induction "(wanted - length got, patience k)" arbitrary: got k rule: wf_induct
    [OF wf_lex_prod [OF wf_less_than wf_less_than]])
  case (1 got k)
  show ?case
  proof (cases "length got < wanted")
    case False
    with 1(2) show ?thesis by (subst ReadExact.simps) simp
  next
    case True
    obtain res k1 where w: "read_fd (wanted - length got) k = (res, k1)" by (cases "read_fd (wanted - length got) k")
    show ?thesis
    proof (cases res)
      case (Inl e)
      note fail = read_fails [OF w [unfolded Inl]]
      show ?thesis
      proof (cases "e = EINTR")
        case True
        with w Inl have "patience k1 < patience k" using read_patience by blast
        then have "((wanted - length got, patience k1), (wanted - length got, patience k))
            \<in> less_than <*lex*> less_than" by simp
        from 1(1) [rule_format, OF this refl 1(2), unfolded fail] True Inl w \<open>length got < wanted\<close> show ?thesis
          by (subst ReadExact.simps) simp
      next
        case False
        with w Inl have "failed_read read_fd (SystemError ''read failed'' e) k1" by (auto simp: failed_read_def)
        with False True w Inl fail \<open>length got < wanted\<close> show ?thesis by (subst ReadExact.simps) auto
      qed
    next
      case (Inr bs)
      note took = read_takes [OF w [unfolded Inr]]
      show ?thesis
      proof (cases "bs = []")
        case True
        have some: "0 < wanted - length got" using \<open>length got < wanted\<close> by simp
        with True w Inr have "ended_read read_fd k1" unfolding ended_read_def by blast
        moreover have "coming k = []" using read_eof [OF w [unfolded Inr True] some] .
        ultimately show ?thesis using True \<open>length got < wanted\<close> w Inr took by (subst ReadExact.simps) simp
      next
        case False
        with took \<open>length got < wanted\<close> have le: "length (got @ bs) \<le> wanted" by auto
        have "0 < length bs" using False by simp
        with le have "wanted - length (got @ bs) < wanted - length got" unfolding length_append by linarith
        then have "((wanted - length (got @ bs), patience k1), (wanted - length got, patience k))
            \<in> less_than <*lex*> less_than" by simp
        note IH = 1(1) [rule_format, OF this refl le]
        have "(got @ bs) @ coming k1 = got @ coming k" using took by simp
        note IH = IH [unfolded this]
        have "ReadExact read_fd wanted got k = ReadExact read_fd wanted (got @ bs) k1"
          using True False w Inr by (subst ReadExact.simps) simp
        with IH show ?thesis by (simp only:)
      qed
    qed
  qed
qed

end

section \<open>A stream socket\<close>

text \<open>
  The bytes in the socket, and what the next calls do: be interrupted, fail, move at most so
  many bytes; when nothing is prescribed a call moves as much as it can. The reading end is
  the one of a peer that has written everything and closed.
\<close>

datatype sock_event = Interrupted | Broken nat | Short nat

record sock =
  stream :: "u8 list"
  events :: "sock_event list"

definition sock_write :: "u8 list \<Rightarrow> sock \<Rightarrow> (errno + nat) \<times> sock" where
  "sock_write bs k =
     (case events k of
        Interrupted # es \<Rightarrow> (Inl EINTR, k\<lparr>events := es\<rparr>)
      | Broken n # es \<Rightarrow> (Inl (OtherErrno n), k\<lparr>events := es\<rparr>)
      | Short m # es \<Rightarrow> (Inr (min m (length bs)), k\<lparr>stream := stream k @ take m bs, events := es\<rparr>)
      | [] \<Rightarrow> (Inr (length bs), k\<lparr>stream := stream k @ bs\<rparr>))"

definition sock_read :: "nat \<Rightarrow> sock \<Rightarrow> (errno + u8 list) \<times> sock" where
  "sock_read n k =
     (case events k of
        Interrupted # es \<Rightarrow> (Inl EINTR, k\<lparr>events := es\<rparr>)
      | Broken e # es \<Rightarrow> (Inl (OtherErrno e), k\<lparr>events := es\<rparr>)
      | Short m # es \<Rightarrow>
          (let c = min n (max 1 m)
           in (Inr (take c (stream k)), k\<lparr>stream := drop c (stream k), events := es\<rparr>))
      | [] \<Rightarrow> (Inr (take n (stream k)), k\<lparr>stream := drop n (stream k)\<rparr>))"

interpretation sock_sink: byte_sink sock_write stream "\<lambda>k. length (events k)"
  by unfold_locales
    (auto simp: sock_write_def min_def split: list.splits sock_event.splits)

interpretation sock_source: byte_source sock_read stream "\<lambda>k. length (events k)"
  by unfold_locales
    (auto simp: sock_read_def Let_def split: list.splits sock_event.splits)

section \<open>Payloads\<close>

text \<open>
  \<open>AppendBytes\<close> and \<open>ReadValue\<close> on the object representation of a trivially copyable type:
  a value is its bytes, a type its size.
\<close>

definition AppendBytes :: "u8 list \<Rightarrow> u8 list \<Rightarrow> u8 list" where
  "AppendBytes buffer value = buffer @ value"

definition ReadValue :: "nat \<Rightarrow> u8 list \<Rightarrow> nat \<Rightarrow> pool_error + (u8 list \<times> nat)" where
  "ReadValue sizeof data offset =
     (if offset + sizeof > length data then Inl (RuntimeError (bytes_of ''invalid serialized payload''))
      else Inr (take sizeof (drop offset data), offset + sizeof))"

end
