(* ===== verification/Pool_Parts.thy ===== *)
theory Pool_Parts
  imports Pool_Io
begin

text \<open>
  The sequential parts of the process pool: the shared state and \<open>Future\<close>
  (\<^verbatim>\<open>hw-6/future.h\<close>), the pending handlers, the two message headers, the typed executor, and
  what one pass of \<open>WorkerLoop\<close> and of \<open>ReaderLoop\<close> does with the bytes of its socket
  (\<^verbatim>\<open>hw-6/process_pool.h\<close>, \<^verbatim>\<open>hw-6/process_pool.cpp\<close>).
\<close>

section \<open>Futures\<close>

text \<open>
  \<open>SharedState<T>\<close>: a result of type \<open>T\<close> is its bytes; the state of a \<open>void\<close> task never has
  a value. An exception is the text of its \<open>runtime_error\<close>.
\<close>

record shared_state =
  st_ready :: bool
  st_value :: "u8 list option"
  st_error :: "u8 list option"

definition MakeState :: shared_state where
  "MakeState = \<lparr>st_ready = False, st_value = None, st_error = None\<rparr>"

text \<open>A \<open>Future\<close> is empty or refers to a shared state; here to the state's current content.\<close>

type_synonym future = "shared_state option"

definition Valid :: "future \<Rightarrow> bool" where
  "Valid f \<longleftrightarrow> f \<noteq> None"

definition EnsureValid :: "future \<Rightarrow> pool_error + shared_state" where
  "EnsureValid f = (case f of None \<Rightarrow> Inl (LogicError ''future has no shared state'') | Some st \<Rightarrow> Inr st)"

text \<open>The flag tells whether \<open>Wait\<close> returns in this state or sleeps.\<close>

definition Wait :: "future \<Rightarrow> pool_error + bool" where
  "Wait f = (case EnsureValid f of Inl e \<Rightarrow> Inl e | Inr st \<Rightarrow> Inr (st_ready st))"

definition IsReady :: "future \<Rightarrow> pool_error + bool" where
  "IsReady f = (case EnsureValid f of Inl e \<Rightarrow> Inl e | Inr st \<Rightarrow> Inr (st_ready st))"

datatype get_result = GetThrew pool_error | GetSleeps | GetReturned "u8 list" | GetUndefined

definition rethrow_or :: "shared_state \<Rightarrow> get_result \<Rightarrow> get_result" where
  "rethrow_or st r = (case st_error st of Some text \<Rightarrow> GetThrew (RuntimeError text) | None \<Rightarrow> r)"

text \<open>\<open>Get\<close> of \<open>Future<T>\<close> (dereferencing an empty \<open>optional\<close> is undefined) and of \<open>Future<void>\<close>.\<close>

definition Get :: "future \<Rightarrow> get_result" where
  "Get f =
     (case Wait f of
        Inl e \<Rightarrow> GetThrew e
      | Inr False \<Rightarrow> GetSleeps
      | Inr True \<Rightarrow> rethrow_or (the f)
          (case st_value (the f) of Some v \<Rightarrow> GetReturned v | None \<Rightarrow> GetUndefined))"

definition GetVoid :: "future \<Rightarrow> get_result" where
  "GetVoid f =
     (case Wait f of
        Inl e \<Rightarrow> GetThrew e
      | Inr False \<Rightarrow> GetSleeps
      | Inr True \<Rightarrow> rethrow_or (the f) (GetReturned []))"

section \<open>Pending handlers\<close>

text \<open>\<open>PendingValue<T>\<close>, by the size of \<open>T\<close>, and \<open>PendingVoid\<close>.\<close>

datatype pending = PendingValue nat | PendingVoid

definition SetException :: "u8 list \<Rightarrow> shared_state \<Rightarrow> shared_state" where
  "SetException text st = st\<lparr>st_error := Some text, st_ready := True\<rparr>"

fun SetValue :: "pending \<Rightarrow> u8 list \<Rightarrow> shared_state \<Rightarrow> shared_state" where
  "SetValue (PendingValue sizeof) payload st =
     (if length payload \<noteq> sizeof
      then SetException (bytes_of ''invalid payload size for result'') st
      else st\<lparr>st_value := Some payload, st_ready := True\<rparr>)"
| "SetValue PendingVoid payload st = st\<lparr>st_ready := True\<rparr>"

section \<open>Headers\<close>

datatype command = RunTask | StopWorker

fun command_code :: "command \<Rightarrow> u32" where
  "command_code RunTask = 1"
| "command_code StopWorker = 2"

datatype result_status = ValueResult | VoidResult | ExceptionResult

fun status_code :: "result_status \<Rightarrow> u32" where
  "status_code ValueResult = 1"
| "status_code VoidResult = 2"
| "status_code ExceptionResult = 3"

record task_header =
  command :: u32
  task_id :: u64
  executor :: u64
  payload_size :: u64

record result_header =
  result_id :: u64
  result_status :: u32
  result_size :: u64

text \<open>
  The object representations: 32 and 24 bytes, with four bytes of padding after the 32-bit
  field. The padding bytes have no defined value: they are a parameter.
\<close>

definition pad4 :: "u8 list \<Rightarrow> u8 list" where
  "pad4 junk = take 4 (junk @ replicate 4 0)"

lemma length_pad4 [simp]: "length (pad4 junk) = 4"
  by (simp add: pad4_def)

definition task_bytes :: "u8 list \<Rightarrow> task_header \<Rightarrow> u8 list" where
  "task_bytes junk h = le_bytes 4 (command h) @ pad4 junk @ le_bytes 8 (task_id h)
     @ le_bytes 8 (executor h) @ le_bytes 8 (payload_size h)"

definition bytes_task :: "u8 list \<Rightarrow> task_header" where
  "bytes_task bs = \<lparr>command = le_word (take 4 bs), task_id = le_word (take 8 (drop 8 bs)),
     executor = le_word (take 8 (drop 16 bs)), payload_size = le_word (take 8 (drop 24 bs))\<rparr>"

definition result_bytes :: "u8 list \<Rightarrow> result_header \<Rightarrow> u8 list" where
  "result_bytes junk h = le_bytes 8 (result_id h) @ le_bytes 4 (result_status h) @ pad4 junk
     @ le_bytes 8 (result_size h)"

definition bytes_result :: "u8 list \<Rightarrow> result_header" where
  "bytes_result bs = \<lparr>result_id = le_word (take 8 bs), result_status = le_word (take 4 (drop 8 bs)),
     result_size = le_word (take 8 (drop 16 bs))\<rparr>"

interpretation task_codec: byte_codec "task_bytes junk" bytes_task 32 for junk
  by unfold_locales
    (simp_all add: task_bytes_def bytes_task_def le_word_le_bytes take_bit_word_id)

interpretation result_codec: byte_codec "result_bytes junk" bytes_result 24 for junk
  by unfold_locales
    (simp_all add: result_bytes_def bytes_result_def le_word_le_bytes take_bit_word_id)

section \<open>The typed executor\<close>

text \<open>
  The task itself is code behind a function pointer: \<open>call fn args\<close> is what the function at
  address \<open>fn\<close> does with the bytes of its arguments: it throws a \<open>std::exception\<close> with a text,
  throws something else, or returns the bytes of its result.
\<close>

datatype thrown = StdException "u8 list" | OtherThrown

fun read_args :: "nat list \<Rightarrow> u8 list \<Rightarrow> nat \<Rightarrow> pool_error + (u8 list list \<times> nat)" where
  "read_args [] data offset = Inr ([], offset)"
| "read_args (n # ns) data offset =
     (case ReadValue n data offset of
        Inl e \<Rightarrow> Inl e
      | Inr (v, offset1) \<Rightarrow>
          (case read_args ns data offset1 of
             Inl e \<Rightarrow> Inl e
           | Inr (vs, offset2) \<Rightarrow> Inr (v # vs, offset2)))"

fun error_text :: "pool_error \<Rightarrow> u8 list" where
  "error_text (RuntimeError text) = text"
| "error_text (LogicError s) = bytes_of s"
| "error_text (InvalidArgument s) = bytes_of s"
| "error_text (SystemError s e) = bytes_of s"

text \<open>\<open>ExecuteTyped<Fn, Result, Args...>\<close>: the sizes of the arguments, whether the result is void.\<close>

definition ExecuteTyped ::
  "nat list \<Rightarrow> bool \<Rightarrow> (u64 \<Rightarrow> u8 list list \<Rightarrow> thrown + u8 list) \<Rightarrow> u8 list \<Rightarrow> u8 list \<times> u8 list" where
  "ExecuteTyped sizes is_void call data =
     (case ReadValue 8 data 0 of
        Inl e \<Rightarrow> ([], error_text e)
      | Inr (fn, offset) \<Rightarrow>
          (case read_args sizes data offset of
             Inl e \<Rightarrow> ([], error_text e)
           | Inr (args, offset') \<Rightarrow>
               (if offset' \<noteq> length data
                then ([], bytes_of ''payload has unexpected tail bytes'')
                else (case call (le_word fn) args of
                        Inl (StdException text) \<Rightarrow> ([], text)
                      | Inl OtherThrown \<Rightarrow> ([], bytes_of ''unknown exception'')
                      | Inr result \<Rightarrow> (if is_void then [] else result, [])))))"

text \<open>The payload \<open>Submit\<close> builds: the function pointer and the arguments.\<close>

definition submit_payload :: "u64 \<Rightarrow> u8 list list \<Rightarrow> u8 list" where
  "submit_payload fn args = fold (\<lambda>arg buffer. AppendBytes buffer arg) args (AppendBytes [] (le_bytes 8 fn))"

section \<open>One pass of the worker and of the reader\<close>

text \<open>
  \<open>exec a payload\<close> is what the executor at address \<open>a\<close> leaves in \<open>result_payload\<close> and
  \<open>error\<close>. A pass of \<open>WorkerLoop\<close>: \<open>None\<close> when the bytes of a whole message are not there
  yet, or the end of the loop, or the response and the remaining bytes.
\<close>

definition response_for :: "u8 list \<Rightarrow> u64 \<Rightarrow> u8 list \<times> u8 list \<Rightarrow> u8 list" where
  "response_for junk i r =
     (case r of (result_payload, error) \<Rightarrow>
        if error \<noteq> []
        then result_bytes junk \<lparr>result_id = i, result_status = status_code ExceptionResult,
               result_size = word_of_nat (length error)\<rparr> @ error
        else if result_payload = []
        then result_bytes junk \<lparr>result_id = i, result_status = status_code VoidResult, result_size = 0\<rparr>
        else result_bytes junk \<lparr>result_id = i, result_status = status_code ValueResult,
               result_size = word_of_nat (length result_payload)\<rparr> @ result_payload)"

datatype worker_pass = WorkerStops | Responds "u8 list"

definition worker_pass ::
  "u8 list \<Rightarrow> (u64 \<Rightarrow> u8 list \<Rightarrow> u8 list \<times> u8 list) \<Rightarrow> u8 list \<Rightarrow> (worker_pass \<times> u8 list) option" where
  "worker_pass junk exec request =
     (if length request < 32 then None
      else (let header = bytes_task (take 32 request); rest = drop 32 request
            in if command header = command_code StopWorker then Some (WorkerStops, rest)
               else let n = unat (payload_size header)
                    in if length rest < n then None
                       else Some (Responds (response_for junk (task_id header)
                                    (exec (executor header) (take n rest))), drop n rest)))"

text \<open>A pass of \<open>ReaderLoop\<close> up to the lookup: the header and the payload.\<close>

definition reader_pass :: "u8 list \<Rightarrow> (result_header \<times> u8 list \<times> u8 list) option" where
  "reader_pass response =
     (if length response < 24 then None
      else (let header = bytes_result (take 24 response); rest = drop 24 response;
                n = unat (result_size header)
            in if length rest < n then None else Some (header, take n rest, drop n rest)))"

text \<open>What the reader does with the handler it has found.\<close>

definition complete :: "pending \<Rightarrow> result_header \<Rightarrow> u8 list \<Rightarrow> shared_state \<Rightarrow> shared_state" where
  "complete p header payload st =
     (if result_status header = status_code ExceptionResult then SetException payload st
      else SetValue p payload st)"

section \<open>Messages come through\<close>

definition run_message :: "u8 list \<Rightarrow> u64 \<Rightarrow> u64 \<Rightarrow> u8 list \<Rightarrow> u8 list" where
  "run_message junk i ex payload =
     task_bytes junk \<lparr>command = command_code RunTask, task_id = i, executor = ex,
       payload_size = word_of_nat (length payload)\<rparr> @ payload"

definition stop_message :: "u8 list \<Rightarrow> u8 list" where
  "stop_message junk = task_bytes junk \<lparr>command = command_code StopWorker, task_id = 0, executor = 0, payload_size = 0\<rparr>"

lemma length_task_bytes [simp]: "length (task_bytes junk h) = 32"
  by (rule task_codec.length_enc)

lemma length_result_bytes [simp]: "length (result_bytes junk h) = 24"
  by (rule result_codec.length_enc)

lemma unat_length: "length bs < 2 ^ 64 \<Longrightarrow> unat (word_of_nat (length bs) :: u64) = length bs"
  by (simp add: unat_of_nat)

lemma worker_pass_run:
  assumes "length payload < 2 ^ 64"
  shows "worker_pass junk exec (run_message junk' i ex payload @ rest)
    = Some (Responds (response_for junk i (exec ex payload)), rest)"
  using assms by (simp add: worker_pass_def run_message_def task_codec.dec_enc unat_length)

lemma worker_pass_stop:
  "worker_pass junk exec (stop_message junk' @ rest) = Some (WorkerStops, rest)"
  by (simp add: worker_pass_def stop_message_def task_codec.dec_enc)

text \<open>The outcome of a task, from what its executor left.\<close>

definition outcome :: "pending \<Rightarrow> u8 list \<times> u8 list \<Rightarrow> shared_state \<Rightarrow> shared_state" where
  "outcome p r st = (case r of (result_payload, error) \<Rightarrow>
     if error \<noteq> [] then SetException error st else SetValue p result_payload st)"

lemma reader_pass_response:
  assumes "length (fst r) < 2 ^ 64" and "length (snd r) < 2 ^ 64"
  shows "\<exists>header payload. reader_pass (response_for junk i r @ rest) = Some (header, payload, rest) \<and>
    result_id header = i \<and> complete p header payload st = outcome p r st"
  using assms
  by (cases r) (auto simp: reader_pass_def response_for_def result_codec.dec_enc unat_length complete_def outcome_def)

lemma reader_pass_nil [simp]: "reader_pass [] = None"
  by (simp add: reader_pass_def)

lemma worker_pass_nil [simp]: "worker_pass junk exec [] = None"
  by (simp add: worker_pass_def)

section \<open>Executing what was submitted\<close>

lemma submit_payload_eq: "submit_payload fn args = le_bytes 8 fn @ concat args"
proof -
  have "fold (\<lambda>arg buffer. AppendBytes buffer arg) args b = b @ concat args" for b
    by (induction args arbitrary: b) (simp_all add: AppendBytes_def)
  then show ?thesis by (simp add: submit_payload_def AppendBytes_def)
qed

lemma read_args_concat:
  "read_args (map length args) (prefix @ concat args @ tail) (length prefix)
    = Inr (args, length prefix + length (concat args))"
proof (induction args arbitrary: prefix)
  case Nil
  then show ?case by simp
next
  case (Cons a args)
  from Cons.IH [of "prefix @ a"] show ?case by (simp add: ReadValue_def add.assoc)
qed

lemma ExecuteTyped_submitted:
  "ExecuteTyped (map length args) is_void call (submit_payload fn args) =
     (case call fn args of
        Inl (StdException text) \<Rightarrow> ([], text)
      | Inl OtherThrown \<Rightarrow> ([], bytes_of ''unknown exception'')
      | Inr result \<Rightarrow> (if is_void then [] else result, []))"
  using read_args_concat [of args "le_bytes 8 fn" "[]"]
  by (simp add: ExecuteTyped_def submit_payload_eq ReadValue_def le_word_le_bytes take_bit_word_id)

end
