(* ===== verification/Pool_System.thy ===== *)
theory Pool_System
  imports Pool_Parts
begin

text \<open>
  The process pool of \<^verbatim>\<open>hw-6/process_pool.h\<close> and \<^verbatim>\<open>hw-6/process_pool.cpp\<close> as a whole: any
  number of threads that call \<open>Submit\<close>, threads that call \<open>Shutdown\<close> (the first one shuts down, the
  others find \<open>stopping_\<close> set and return), the worker processes and the
  reader threads. A socket is the bytes written and not yet read. A message is written in one
  step (\<open>WriteExact\<close> under \<open>write_mutex\<close>, or by the only writer) and read in one step. A write
  to a socket whose peer has exited raises \<open>SIGPIPE\<close>, which the code neither blocks nor
  handles: it ends the process.
\<close>

section \<open>State\<close>

datatype child_pc = Alive | Exited
datatype reader_pc = Reading | ReaderDone

record worker =
  request :: "u8 list"
  response :: "u8 list"
  child :: child_pc
  reader :: reader_pc
  reaped :: bool

text \<open>A task: what its future expects, the address of its executor, its payload.\<close>

record task =
  kind :: pending
  exec_addr :: u64
  payload :: "u8 list"

datatype client_pc =
    ClIdle
  | ClNumbered task u64
  | ClRegistered task u64
  | ClChosen task u64 nat

datatype shutdown_pc = ShNever | ShStop nat | ShJoin nat | ShReap nat | ShFail | ShDone

text \<open>
  Ghosts: \<open>tasks\<close> (what each number was given to), \<open>submitted\<close> (how many numbers), \<open>returned\<close>
  (the numbers whose \<open>Submit\<close> has returned its future), \<open>refused\<close> (whose \<open>Submit\<close> threw),
  \<open>crashed\<close>. \<open>killed\<close>: the parent process has been ended by \<open>SIGPIPE\<close>.
\<close>

record pool =
  workers :: "worker list"
  next_worker :: u64
  stopping :: bool
  next_task_id :: u64
  pending_map :: "u64 \<Rightarrow> pending option"
  futures :: "u64 \<Rightarrow> shared_state option"
  clients :: "client_pc list"
  shutdown :: shutdown_pc
  killed :: bool
  tasks :: "u64 \<Rightarrow> task option"
  submitted :: nat
  returned :: "u64 list"
  refused :: "u64 list"
  crashed :: bool

definition SpawnWorker :: worker where
  "SpawnWorker = \<lparr>request = [], response = [], child = Alive, reader = Reading, reaped = False\<rparr>"

text \<open>The constructor; socket pairs, forks and threads are taken to succeed.\<close>

definition ProcessPool :: "nat \<Rightarrow> nat \<Rightarrow> pool_error + pool" where
  "ProcessPool process_count threads =
     (if process_count = 0 then Inl (InvalidArgument ''process_count must be > 0'')
      else Inr \<lparr>workers = replicate process_count SpawnWorker, next_worker = 0, stopping = False,
        next_task_id = 1, pending_map = Map.empty, futures = Map.empty,
        clients = replicate threads ClIdle, shutdown = ShNever, killed = False,
        tasks = Map.empty, submitted = 0, returned = [], refused = [], crashed = False\<rparr>)"

section \<open>Operations\<close>

definition set_client :: "nat \<Rightarrow> client_pc \<Rightarrow> pool \<Rightarrow> pool" where
  "set_client i c s = s\<lparr>clients := (clients s)[i := c]\<rparr>"

definition set_worker :: "nat \<Rightarrow> worker \<Rightarrow> pool \<Rightarrow> pool" where
  "set_worker w x s = s\<lparr>workers := (workers s)[w := x]\<rparr>"

text \<open>\<open>Submit\<close>: the state and the number; the handler; the choice of a worker.\<close>

definition number_task :: "nat \<Rightarrow> task \<Rightarrow> pool \<Rightarrow> pool" where
  "number_task i t s =
     (let n = next_task_id s
      in (set_client i (ClNumbered t n) s)
           \<lparr>next_task_id := n + 1, futures := (futures s)(n \<mapsto> MakeState),
            tasks := (tasks s)(n \<mapsto> t), submitted := Suc (submitted s)\<rparr>)"

definition register_task :: "nat \<Rightarrow> task \<Rightarrow> u64 \<Rightarrow> pool \<Rightarrow> pool" where
  "register_task i t n s =
     (set_client i (ClRegistered t n) s)\<lparr>pending_map := (pending_map s)(n \<mapsto> kind t)\<rparr>"

definition choose_worker :: "nat \<Rightarrow> task \<Rightarrow> u64 \<Rightarrow> pool \<Rightarrow> pool" where
  "choose_worker i t n s =
     (if stopping s then (set_client i ClIdle s)\<lparr>refused := refused s @ [n]\<rparr>
      else (set_client i (ClChosen t n (unat (next_worker s mod word_of_nat (length (workers s))))) s)
             \<lparr>next_worker := next_worker s + 1\<rparr>)"

text \<open>
  Writing to a worker: with the descriptor closed \<open>write\<close> fails (\<open>EBADF\<close>, \<open>Inl\<close>), with the peer
  gone the process is ended.
\<close>

definition send_to_worker :: "nat \<Rightarrow> u8 list \<Rightarrow> pool \<Rightarrow> pool_error + pool" where
  "send_to_worker w bytes s =
     (let x = workers s ! w
      in if reaped x then Inl (SystemError ''write failed'' (OtherErrno 9))
         else if child x = Exited then Inr (s\<lparr>killed := True\<rparr>)
         else Inr (set_worker w (x\<lparr>request := request x @ bytes\<rparr>) s))"

definition deliver_task :: "u8 list \<Rightarrow> nat \<Rightarrow> task \<Rightarrow> u64 \<Rightarrow> nat \<Rightarrow> pool \<Rightarrow> pool" where
  "deliver_task junk i t n w s =
     (case send_to_worker w (run_message junk n (exec_addr t) (payload t)) s of
        Inl e \<Rightarrow> (set_client i ClIdle s)\<lparr>refused := refused s @ [n]\<rparr>
      | Inr s' \<Rightarrow> (if killed s' then s' else (set_client i ClIdle s')\<lparr>returned := returned s @ [n]\<rparr>))"

text \<open>The reader found a result: take the handler out of the map and complete the future.\<close>

definition take_result :: "result_header \<Rightarrow> u8 list \<Rightarrow> pool \<Rightarrow> pool" where
  "take_result h bytes s =
     (case pending_map s (result_id h) of
        None \<Rightarrow> s
      | Some p \<Rightarrow>
          s\<lparr>pending_map := (pending_map s)(result_id h := None),
            futures := (futures s)(result_id h :=
              map_option (complete p h bytes) (futures s (result_id h)))\<rparr>)"

definition FailAllPending :: "u8 list \<Rightarrow> pool \<Rightarrow> pool" where
  "FailAllPending reason s =
     s\<lparr>pending_map := Map.empty,
       futures := (\<lambda>n. if pending_map s n = None then futures s n
                       else map_option (SetException reason) (futures s n))\<rparr>"

text \<open>\<open>Shutdown\<close>, one step at a time. Sending a stop swallows an exception; a signal it does not.\<close>

definition stop_worker :: "u8 list \<Rightarrow> nat \<Rightarrow> pool \<Rightarrow> pool" where
  "stop_worker junk w s =
     (case send_to_worker w (stop_message junk) s of Inl e \<Rightarrow> s | Inr s' \<Rightarrow> s')\<lparr>shutdown := ShStop (Suc w)\<rparr>"

definition ShutdownReason :: "u8 list" where
  "ShutdownReason = bytes_of ''process pool shutdown''"

section \<open>Steps\<close>

inductive pool_step :: "(u64 \<Rightarrow> u8 list \<Rightarrow> u8 list \<times> u8 list) \<Rightarrow> pool \<Rightarrow> pool \<Rightarrow> bool"
  for exec where
  submit_call:
    "\<not> killed s \<Longrightarrow> i < length (clients s) \<Longrightarrow> clients s ! i = ClIdle \<Longrightarrow> length (payload t) < 2 ^ 64 \<Longrightarrow>
     pool_step exec s (number_task i t s)"
| submit_register:
    "\<not> killed s \<Longrightarrow> i < length (clients s) \<Longrightarrow> clients s ! i = ClNumbered t n \<Longrightarrow>
     pool_step exec s (register_task i t n s)"
| submit_choose:
    "\<not> killed s \<Longrightarrow> i < length (clients s) \<Longrightarrow> clients s ! i = ClRegistered t n \<Longrightarrow>
     pool_step exec s (choose_worker i t n s)"
| submit_deliver:
    "\<not> killed s \<Longrightarrow> i < length (clients s) \<Longrightarrow> clients s ! i = ClChosen t n w \<Longrightarrow>
     pool_step exec s (deliver_task junk i t n w s)"
| worker_responds:
    "w < length (workers s) \<Longrightarrow> workers s ! w = x \<Longrightarrow> child x = Alive \<Longrightarrow>
     worker_pass junk exec (request x) = Some (Responds bytes, rest) \<Longrightarrow>
     pool_step exec s (set_worker w (x\<lparr>request := rest, response := response x @ bytes\<rparr>) s)"
| worker_stops:
    "w < length (workers s) \<Longrightarrow> workers s ! w = x \<Longrightarrow> child x = Alive \<Longrightarrow>
     worker_pass junk exec (request x) = Some (WorkerStops, rest) \<Longrightarrow>
     pool_step exec s (set_worker w (x\<lparr>request := rest, child := Exited\<rparr>) s)"
| worker_crashes:
    "w < length (workers s) \<Longrightarrow> workers s ! w = x \<Longrightarrow> child x = Alive \<Longrightarrow>
     pool_step exec s ((set_worker w (x\<lparr>child := Exited\<rparr>) s)\<lparr>crashed := True\<rparr>)"
| reader_takes:
    "\<not> killed s \<Longrightarrow> w < length (workers s) \<Longrightarrow> workers s ! w = x \<Longrightarrow> reader x = Reading \<Longrightarrow>
     reader_pass (response x) = Some (h, bytes, rest) \<Longrightarrow>
     pool_step exec s (take_result h bytes (set_worker w (x\<lparr>response := rest\<rparr>) s))"
| reader_ends:
    "\<not> killed s \<Longrightarrow> w < length (workers s) \<Longrightarrow> workers s ! w = x \<Longrightarrow> reader x = Reading \<Longrightarrow>
     child x = Exited \<Longrightarrow> reader_pass (response x) = None \<Longrightarrow>
     pool_step exec s (set_worker w (x\<lparr>reader := ReaderDone\<rparr>) s)"
| shutdown_begin:
    "\<not> killed s \<Longrightarrow> \<not> stopping s \<Longrightarrow> pool_step exec s (s\<lparr>stopping := True, shutdown := ShStop 0\<rparr>)"
| shutdown_stop:
    "\<not> killed s \<Longrightarrow> shutdown s = ShStop w \<Longrightarrow> w < length (workers s) \<Longrightarrow>
     pool_step exec s (stop_worker junk w s)"
| shutdown_stopped:
    "\<not> killed s \<Longrightarrow> shutdown s = ShStop w \<Longrightarrow> \<not> w < length (workers s) \<Longrightarrow>
     pool_step exec s (s\<lparr>shutdown := ShJoin 0\<rparr>)"
| shutdown_join:
    "\<not> killed s \<Longrightarrow> shutdown s = ShJoin w \<Longrightarrow> w < length (workers s) \<Longrightarrow> reader (workers s ! w) = ReaderDone \<Longrightarrow>
     pool_step exec s (s\<lparr>shutdown := ShJoin (Suc w)\<rparr>)"
| shutdown_joined:
    "\<not> killed s \<Longrightarrow> shutdown s = ShJoin w \<Longrightarrow> \<not> w < length (workers s) \<Longrightarrow>
     pool_step exec s (s\<lparr>shutdown := ShReap 0\<rparr>)"
| shutdown_reap:
    "\<not> killed s \<Longrightarrow> shutdown s = ShReap w \<Longrightarrow> w < length (workers s) \<Longrightarrow> workers s ! w = x \<Longrightarrow> child x = Exited \<Longrightarrow>
     pool_step exec s ((set_worker w (x\<lparr>reaped := True\<rparr>) s)\<lparr>shutdown := ShReap (Suc w)\<rparr>)"
| shutdown_reaped:
    "\<not> killed s \<Longrightarrow> shutdown s = ShReap w \<Longrightarrow> \<not> w < length (workers s) \<Longrightarrow>
     pool_step exec s (s\<lparr>shutdown := ShFail\<rparr>)"
| shutdown_fail:
    "\<not> killed s \<Longrightarrow> shutdown s = ShFail \<Longrightarrow>
     pool_step exec s ((FailAllPending ShutdownReason s)\<lparr>shutdown := ShDone\<rparr>)"
| shutdown_again:
    "\<not> killed s \<Longrightarrow> stopping s \<Longrightarrow> pool_step exec s s"

lemmas pool_updates [simp] = set_client_def set_worker_def

end
