(* ===== verification/Pool_Invariant.thy ===== *)
theory Pool_Invariant
  imports Pool_System
begin

text \<open>
  The invariant of the process pool and its preservation, in six groups: the numbering of
  tasks, the messages in the sockets, the futures, the threads inside \<open>Submit\<close>, where a task
  that was submitted is, and the phases of the shutdown.
\<close>

section \<open>Messages in the sockets\<close>

text \<open>A request is a task (by its number) or a stop; a response is the number of its task.\<close>

datatype req = ReqRun "u8 list" u64 | ReqStop "u8 list"

fun req_bytes :: "(u64 \<Rightarrow> task option) \<Rightarrow> req \<Rightarrow> u8 list" where
  "req_bytes T (ReqRun junk n) =
     (case T n of None \<Rightarrow> [] | Some t \<Rightarrow> run_message junk n (exec_addr t) (payload t))"
| "req_bytes T (ReqStop junk) = stop_message junk"

fun req_known :: "(u64 \<Rightarrow> task option) \<Rightarrow> req \<Rightarrow> bool" where
  "req_known T (ReqRun junk n) \<longleftrightarrow> T n \<noteq> None"
| "req_known T (ReqStop junk) \<longleftrightarrow> True"

type_synonym executors = "u64 \<Rightarrow> u8 list \<Rightarrow> u8 list \<times> u8 list"

definition result_of :: "executors \<Rightarrow> task \<Rightarrow> u8 list \<times> u8 list" where
  "result_of exec t = exec (exec_addr t) (payload t)"

fun resp_bytes :: "executors \<Rightarrow> (u64 \<Rightarrow> task option) \<Rightarrow> u8 list \<times> u64 \<Rightarrow> u8 list" where
  "resp_bytes exec T (junk, n) =
     (case T n of None \<Rightarrow> [] | Some t \<Rightarrow> response_for junk n (result_of exec t))"

definition worker_ok ::
  "executors \<Rightarrow> (u64 \<Rightarrow> task option) \<Rightarrow> worker \<Rightarrow> req list \<Rightarrow> (u8 list \<times> u64) list \<Rightarrow> bool" where
  "worker_ok exec T x rq rs \<longleftrightarrow>
     request x = concat (map (req_bytes T) rq) \<and> (\<forall>r \<in> set rq. req_known T r) \<and>
     response x = concat (map (resp_bytes exec T) rs) \<and> (\<forall>(junk, n) \<in> set rs. T n \<noteq> None)"

text \<open>
  What a \<open>std::vector\<close> can hold: executors leave fewer than 2^64 bytes.
\<close>

definition exec_small :: "executors \<Rightarrow> bool" where
  "exec_small exec \<longleftrightarrow> (\<forall>a p. length (fst (exec a p)) < 2 ^ 64 \<and> length (snd (exec a p)) < 2 ^ 64)"

section \<open>The groups\<close>

definition numbers_ok :: "pool \<Rightarrow> bool" where
  "numbers_ok s \<longleftrightarrow> next_task_id s = word_of_nat (Suc (submitted s)) \<and>
     (\<forall>n \<in> dom (tasks s). unat n \<le> submitted s) \<and> dom (futures s) = dom (tasks s) \<and>
     (\<forall>n t. tasks s n = Some t \<longrightarrow> length (payload t) < 2 ^ 64) \<and>
     0 < length (workers s) \<and> length (workers s) < 2 ^ 64"

definition streams_ok :: "executors \<Rightarrow> (nat \<Rightarrow> req list) \<Rightarrow> (nat \<Rightarrow> (u8 list \<times> u64) list) \<Rightarrow> pool \<Rightarrow> bool" where
  "streams_ok exec RQ RS s \<longleftrightarrow>
     (\<forall>w < length (workers s). worker_ok exec (tasks s) (workers s ! w) (RQ w) (RS w))"

text \<open>A future is fresh, or has the outcome of its task, or was failed by the shutdown.\<close>

definition futures_ok :: "executors \<Rightarrow> pool \<Rightarrow> bool" where
  "futures_ok exec s \<longleftrightarrow>
     (\<forall>n t. tasks s n = Some t \<longrightarrow>
        futures s n = Some MakeState \<or>
        futures s n = Some (outcome (kind t) (result_of exec t) MakeState) \<or>
        futures s n = Some (SetException ShutdownReason MakeState) \<and> stopping s) \<and>
     (\<forall>n p. pending_map s n = Some p \<longrightarrow>
        futures s n = Some MakeState \<and> (\<exists>t. tasks s n = Some t \<and> kind t = p))"

definition settled :: "pool \<Rightarrow> u64 \<Rightarrow> bool" where
  "settled s n \<longleftrightarrow> (\<exists>st. futures s n = Some st \<and> st_ready st)"

fun client_ok :: "pool \<Rightarrow> client_pc \<Rightarrow> bool" where
  "client_ok s ClIdle \<longleftrightarrow> True"
| "client_ok s (ClNumbered t n) \<longleftrightarrow> tasks s n = Some t \<and> pending_map s n = None \<and> futures s n = Some MakeState"
| "client_ok s (ClRegistered t n) \<longleftrightarrow> tasks s n = Some t \<and> (settled s n \<or> pending_map s n \<noteq> None)"
| "client_ok s (ClChosen t n w) \<longleftrightarrow> tasks s n = Some t \<and> (settled s n \<or> pending_map s n \<noteq> None) \<and>
     w < length (workers s)"

fun numbered :: "client_pc \<Rightarrow> u64 option" where
  "numbered (ClNumbered t n) = Some n"
| "numbered _ = None"

definition clients_ok :: "pool \<Rightarrow> bool" where
  "clients_ok s \<longleftrightarrow> (\<forall>i < length (clients s). client_ok s (clients s ! i)) \<and>
     (\<forall>i j n. i < length (clients s) \<longrightarrow> j < length (clients s) \<longrightarrow>
        numbered (clients s ! i) = Some n \<longrightarrow> numbered (clients s ! j) = Some n \<longrightarrow> i = j)"

text \<open>A task whose \<open>Submit\<close> has returned is settled or still to be found in a socket.\<close>

definition on_its_way :: "(nat \<Rightarrow> req list) \<Rightarrow> (nat \<Rightarrow> (u8 list \<times> u64) list) \<Rightarrow> nat \<Rightarrow> u64 \<Rightarrow> bool" where
  "on_its_way RQ RS k n \<longleftrightarrow>
     (\<exists>w < k. (\<exists>junk. ReqRun junk n \<in> set (RQ w)) \<or> (\<exists>junk. (junk, n) \<in> set (RS w)))"

definition returned_ok :: "(nat \<Rightarrow> req list) \<Rightarrow> (nat \<Rightarrow> (u8 list \<times> u64) list) \<Rightarrow> pool \<Rightarrow> bool" where
  "returned_ok RQ RS s \<longleftrightarrow>
     (\<forall>n \<in> set (returned s). tasks s n \<noteq> None \<and>
        (settled s n \<or> pending_map s n \<noteq> None \<and> on_its_way RQ RS (length (workers s)) n))"

text \<open>Nobody leaves before a stop was sent, unless it crashed; the phases of the shutdown.\<close>

definition quiet_worker :: "worker \<Rightarrow> req list \<Rightarrow> bool" where
  "quiet_worker x rq \<longleftrightarrow> child x = Alive \<and> reader x = Reading \<and> (\<forall>junk. ReqStop junk \<notin> set rq)"

definition phases_ok :: "(nat \<Rightarrow> req list) \<Rightarrow> pool \<Rightarrow> bool" where
  "phases_ok RQ s \<longleftrightarrow>
     (shutdown s = ShNever \<longleftrightarrow> \<not> stopping s) \<and>
     (\<not> stopping s \<and> \<not> crashed s \<longrightarrow> (\<forall>w < length (workers s). quiet_worker (workers s ! w) (RQ w))) \<and>
     (\<not> stopping s \<and> \<not> crashed s \<longrightarrow> \<not> killed s) \<and>
     (\<forall>w < length (workers s). reaped (workers s ! w) \<longrightarrow> child (workers s ! w) = Exited) \<and>
     (\<forall>k. shutdown s = ShReap k \<longrightarrow> (\<forall>w < k. w < length (workers s) \<longrightarrow> reaped (workers s ! w))) \<and>
     (shutdown s = ShFail \<or> shutdown s = ShDone \<longrightarrow> (\<forall>w < length (workers s). reaped (workers s ! w))) \<and>
     (shutdown s = ShDone \<longrightarrow> (\<forall>n \<in> set (returned s). settled s n))"

definition pool_inv :: "executors \<Rightarrow> (nat \<Rightarrow> req list) \<Rightarrow> (nat \<Rightarrow> (u8 list \<times> u64) list) \<Rightarrow> pool \<Rightarrow> bool" where
  "pool_inv exec RQ RS s \<longleftrightarrow> numbers_ok s \<and> streams_ok exec RQ RS s \<and> futures_ok exec s \<and>
     clients_ok s \<and> returned_ok RQ RS s \<and> phases_ok RQ s"

lemmas pool_inv_defs = numbers_ok_def streams_ok_def futures_ok_def clients_ok_def returned_ok_def phases_ok_def

definition pool_good :: "executors \<Rightarrow> pool \<Rightarrow> bool" where
  "pool_good exec s \<longleftrightarrow> (submitted s < 2 ^ 64 \<longrightarrow> (\<exists>RQ RS. pool_inv exec RQ RS s))"

section \<open>Small facts\<close>

lemma outcome_ready [simp]: "st_ready (outcome p r st)"
  by (cases r; cases p) (auto simp: outcome_def SetException_def)

lemma SetException_ready [simp]: "st_ready (SetException text st)"
  by (simp add: SetException_def)

lemma MakeState_not_ready [simp]: "\<not> st_ready MakeState"
  by (simp add: MakeState_def)

lemma worker_ok_cong:
  assumes "worker_ok exec T x rq rs" and "\<And>n. T n \<noteq> None \<Longrightarrow> T' n = T n"
  shows "worker_ok exec T' x rq rs"
proof -
  have "req_bytes T' r = req_bytes T r \<and> req_known T' r" if "r \<in> set rq" for r
    using assms that by (cases r) (auto simp: worker_ok_def)
  moreover have "resp_bytes exec T' r = resp_bytes exec T r \<and> T' (snd r) \<noteq> None" if "r \<in> set rs" for r
    using assms that by (cases r) (fastforce simp: worker_ok_def)
  ultimately show ?thesis
    using assms(1) by (auto simp: worker_ok_def cong: map_cong)
qed

text \<open>The first request and the first response of a worker, in the bytes of its sockets.\<close>

lemma worker_ok_request:
  assumes "worker_ok exec T x rq rs" and "worker_pass junk exec (request x) = Some (r, rest)"
    and "\<forall>n t. T n = Some t \<longrightarrow> length (payload t) < 2 ^ 64"
  obtains (stops) junk' rq' where "rq = ReqStop junk' # rq'" "r = WorkerStops" "rest = concat (map (req_bytes T) rq')"
  | (runs) junk' n t rq' where "rq = ReqRun junk' n # rq'" "T n = Some t"
      "r = Responds (response_for junk n (result_of exec t))" "rest = concat (map (req_bytes T) rq')"
proof (cases rq)
  case Nil
  with assms(1,2) show thesis by (simp add: worker_ok_def)
next
  case (Cons a rq')
  show thesis
  proof (cases a)
    case (ReqStop junk')
    with Cons assms(1,2) stops show thesis by (auto simp: worker_ok_def worker_pass_stop)
  next
    case (ReqRun junk' n)
    with Cons assms(1) obtain t where t: "T n = Some t" by (auto simp: worker_ok_def)
    with ReqRun Cons assms runs show thesis
      by (auto simp: worker_ok_def worker_pass_run result_of_def)
  qed
qed

lemma worker_ok_response:
  assumes "worker_ok exec T x rq rs" and "reader_pass (response x) = Some (h, bytes, rest)" and "exec_small exec"
  obtains junk n t rs' where "rs = (junk, n) # rs'" "T n = Some t" "result_id h = n"
    "rest = concat (map (resp_bytes exec T) rs')"
    "\<And>p st. complete p h bytes st = outcome p (result_of exec t) st"
proof (cases rs)
  case Nil
  with assms(1,2) show thesis by (simp add: worker_ok_def)
next
  case (Cons a rs')
  obtain junk n where a: "a = (junk, n)" by (cases a)
  with Cons assms(1) obtain t where t: "T n = Some t" by (auto simp: worker_ok_def)
  have small: "length (fst (result_of exec t)) < 2 ^ 64" "length (snd (result_of exec t)) < 2 ^ 64"
    using assms(3) by (simp_all add: exec_small_def result_of_def)
  have resp: "response x = response_for junk n (result_of exec t) @ concat (map (resp_bytes exec T) rs')"
    using assms(1) Cons a t by (simp add: worker_ok_def)
  have "result_id h = n \<and> rest = concat (map (resp_bytes exec T) rs') \<and>
    complete p h bytes st = outcome p (result_of exec t) st" for p st
    using reader_pass_response [OF small, of junk n "concat (map (resp_bytes exec T) rs')" p st] assms(2) resp
    by auto
  with that Cons a t show thesis by blast
qed

lemma settled_upd [simp]:
  "settled (s\<lparr>clients := c\<rparr>) n = settled s n" "settled (s\<lparr>workers := x\<rparr>) n = settled s n"
  "settled (s\<lparr>pending_map := p\<rparr>) n = settled s n" "settled (s\<lparr>next_task_id := i\<rparr>) n = settled s n"
  "settled (s\<lparr>returned := r\<rparr>) n = settled s n" "settled (s\<lparr>refused := r\<rparr>) n = settled s n"
  "settled (s\<lparr>shutdown := h\<rparr>) n = settled s n" "settled (s\<lparr>stopping := b\<rparr>) n = settled s n"
  "settled (s\<lparr>crashed := b\<rparr>) n = settled s n" "settled (s\<lparr>killed := b\<rparr>) n = settled s n"
  "settled (s\<lparr>next_worker := v\<rparr>) n = settled s n" "settled (s\<lparr>tasks := T\<rparr>) n = settled s n"
  "settled (s\<lparr>submitted := k\<rparr>) n = settled s n"
  by (simp_all add: settled_def)

text \<open>The groups that do not look at the clients.\<close>

lemma groups_clients [simp]:
  "numbers_ok (s\<lparr>clients := c\<rparr>) = numbers_ok s" "streams_ok exec RQ RS (s\<lparr>clients := c\<rparr>) = streams_ok exec RQ RS s"
  "futures_ok exec (s\<lparr>clients := c\<rparr>) = futures_ok exec s" "returned_ok RQ RS (s\<lparr>clients := c\<rparr>) = returned_ok RQ RS s"
  "phases_ok RQ (s\<lparr>clients := c\<rparr>) = phases_ok RQ s" "client_ok (s\<lparr>clients := c\<rparr>) p = client_ok s p"
  by (simp_all add: numbers_ok_def streams_ok_def futures_ok_def returned_ok_def phases_ok_def) (cases p; simp)

text \<open>The groups that do not look at a field.\<close>

lemma numbers_ok_field [simp]:
  "numbers_ok (s\<lparr>pending_map := p\<rparr>) = numbers_ok s" "numbers_ok (s\<lparr>returned := r\<rparr>) = numbers_ok s"
  "numbers_ok (s\<lparr>refused := r\<rparr>) = numbers_ok s" "numbers_ok (s\<lparr>next_worker := k\<rparr>) = numbers_ok s"
  "numbers_ok (s\<lparr>shutdown := h\<rparr>) = numbers_ok s" "numbers_ok (s\<lparr>stopping := b\<rparr>) = numbers_ok s"
  "numbers_ok (s\<lparr>crashed := b\<rparr>) = numbers_ok s" "numbers_ok (s\<lparr>killed := b\<rparr>) = numbers_ok s"
  "numbers_ok (s\<lparr>workers := (workers s)[w := x]\<rparr>) = numbers_ok s"
  by (simp_all add: numbers_ok_def)

lemma streams_ok_field [simp]:
  "streams_ok exec RQ RS (s\<lparr>pending_map := p\<rparr>) = streams_ok exec RQ RS s"
  "streams_ok exec RQ RS (s\<lparr>futures := f\<rparr>) = streams_ok exec RQ RS s"
  "streams_ok exec RQ RS (s\<lparr>returned := r\<rparr>) = streams_ok exec RQ RS s"
  "streams_ok exec RQ RS (s\<lparr>refused := r\<rparr>) = streams_ok exec RQ RS s"
  "streams_ok exec RQ RS (s\<lparr>next_worker := k\<rparr>) = streams_ok exec RQ RS s"
  "streams_ok exec RQ RS (s\<lparr>shutdown := h\<rparr>) = streams_ok exec RQ RS s"
  "streams_ok exec RQ RS (s\<lparr>stopping := b\<rparr>) = streams_ok exec RQ RS s"
  "streams_ok exec RQ RS (s\<lparr>crashed := b\<rparr>) = streams_ok exec RQ RS s"
  "streams_ok exec RQ RS (s\<lparr>killed := b\<rparr>) = streams_ok exec RQ RS s"
  by (simp_all add: streams_ok_def)

lemma futures_ok_field [simp]:
  "futures_ok exec (s\<lparr>workers := x\<rparr>) = futures_ok exec s" "futures_ok exec (s\<lparr>returned := r\<rparr>) = futures_ok exec s"
  "futures_ok exec (s\<lparr>refused := r\<rparr>) = futures_ok exec s" "futures_ok exec (s\<lparr>next_worker := k\<rparr>) = futures_ok exec s"
  "futures_ok exec (s\<lparr>shutdown := h\<rparr>) = futures_ok exec s" "futures_ok exec (s\<lparr>crashed := b\<rparr>) = futures_ok exec s"
  "futures_ok exec (s\<lparr>killed := b\<rparr>) = futures_ok exec s"
  "futures_ok exec s \<Longrightarrow> futures_ok exec (s\<lparr>stopping := True\<rparr>)"
  by (simp_all add: futures_ok_def) blast

lemma client_ok_field [simp]:
  "client_ok (s\<lparr>workers := (workers s)[w := x]\<rparr>) p = client_ok s p" "client_ok (s\<lparr>returned := r\<rparr>) p = client_ok s p"
  "client_ok (s\<lparr>refused := r\<rparr>) p = client_ok s p" "client_ok (s\<lparr>next_worker := k\<rparr>) p = client_ok s p"
  "client_ok (s\<lparr>shutdown := h\<rparr>) p = client_ok s p" "client_ok (s\<lparr>crashed := b\<rparr>) p = client_ok s p"
  "client_ok (s\<lparr>killed := b\<rparr>) p = client_ok s p" "client_ok (s\<lparr>stopping := b\<rparr>) p = client_ok s p"
  by (cases p; simp)+

lemma clients_ok_field [simp]:
  "clients_ok (s\<lparr>workers := (workers s)[w := x]\<rparr>) = clients_ok s" "clients_ok (s\<lparr>returned := r\<rparr>) = clients_ok s"
  "clients_ok (s\<lparr>refused := r\<rparr>) = clients_ok s" "clients_ok (s\<lparr>next_worker := k\<rparr>) = clients_ok s"
  "clients_ok (s\<lparr>shutdown := h\<rparr>) = clients_ok s" "clients_ok (s\<lparr>crashed := b\<rparr>) = clients_ok s"
  "clients_ok (s\<lparr>killed := b\<rparr>) = clients_ok s" "clients_ok (s\<lparr>stopping := b\<rparr>) = clients_ok s"
  by (simp_all add: clients_ok_def)

lemma returned_ok_field [simp]:
  "returned_ok RQ RS (s\<lparr>refused := r\<rparr>) = returned_ok RQ RS s"
  "returned_ok RQ RS (s\<lparr>next_worker := k\<rparr>) = returned_ok RQ RS s"
  "returned_ok RQ RS (s\<lparr>shutdown := h\<rparr>) = returned_ok RQ RS s"
  "returned_ok RQ RS (s\<lparr>stopping := b\<rparr>) = returned_ok RQ RS s"
  "returned_ok RQ RS (s\<lparr>crashed := b\<rparr>) = returned_ok RQ RS s"
  "returned_ok RQ RS (s\<lparr>killed := b\<rparr>) = returned_ok RQ RS s"
  by (simp_all add: returned_ok_def)

lemma phases_ok_field [simp]:
  "phases_ok RQ (s\<lparr>pending_map := p\<rparr>) = phases_ok RQ s" "phases_ok RQ (s\<lparr>refused := r\<rparr>) = phases_ok RQ s"
  "phases_ok RQ (s\<lparr>next_worker := k\<rparr>) = phases_ok RQ s"
  by (simp_all add: phases_ok_def)

lemma clients_ok_update:
  assumes "clients_ok s" and "\<And>p. client_ok s p \<Longrightarrow> client_ok t p" and "clients t = clients s"
  shows "clients_ok t"
  using assms by (simp add: clients_ok_def)

lemma clients_ok_move:
  assumes "clients_ok s" and "i < length (clients s)" and "numbered c = None" and "client_ok s c"
  shows "clients_ok (s\<lparr>clients := (clients s)[i := c]\<rparr>)"
proof -
  let ?cs = "(clients s)[i := c]"
  have "j = k" if "j < length (clients s)" "k < length (clients s)" "numbered (?cs ! j) = Some n" "numbered (?cs ! k) = Some n"
    for j k n
  proof -
    have "j \<noteq> i" "k \<noteq> i" using that assms(2,3) by auto
    with that have "numbered (clients s ! j) = Some n" "numbered (clients s ! k) = Some n" by auto
    with assms(1) that(1,2) show ?thesis unfolding clients_ok_def by blast
  qed
  moreover have "client_ok s (?cs ! j)" if "j < length (clients s)" for j
    using assms that by (cases "j = i") (auto simp: clients_ok_def)
  ultimately show ?thesis unfolding clients_ok_def by simp
qed

end
