(* ===== verification/Pool_Steps.thy ===== *)
theory Pool_Steps
  imports Pool_Invariant
begin

text \<open>
  Every step of the process pool keeps the invariant: the steps of \<open>Submit\<close>, of the worker
  processes, of the reader threads and of \<open>Shutdown\<close>.
\<close>

section \<open>Submit\<close>

text \<open>
  The future of one number changes; every other future, and what it says of a client or of a
  returned task, stays.
\<close>

lemma client_ok_cong:
  assumes "client_ok s c" and "length (workers t) = length (workers s)"
    and "\<And>n x. tasks s n = Some x \<Longrightarrow> tasks t n = Some x \<and> futures t n = futures s n \<and> pending_map t n = pending_map s n"
  shows "client_ok t c"
  using assms by (cases c) (auto simp: settled_def)

lemma number_task_inv:
  assumes "pool_inv exec RQ RS s" and "i < length (clients s)" and "clients s ! i = ClIdle"
    and "length (payload t) < 2 ^ 64" and "Suc (submitted s) < 2 ^ 64"
  shows "pool_inv exec RQ RS (number_task i t s)"
proof -
  let ?n = "next_task_id s" and ?s' = "number_task i t s"
  have num: "numbers_ok s" and str: "streams_ok exec RQ RS s" and fut: "futures_ok exec s"
    and cli: "clients_ok s" and ret: "returned_ok RQ RS s" and pha: "phases_ok RQ s"
    using assms(1) by (simp_all add: pool_inv_def)
  have n: "unat ?n = Suc (submitted s)" using num assms(5) by (simp add: numbers_ok_def unat_of_nat del: of_nat_Suc)
  have new: "tasks s ?n = None"
  proof (rule ccontr)
    assume "tasks s ?n \<noteq> None"
    with num have "unat ?n \<le> submitted s" unfolding numbers_ok_def by (metis domIff)
    with n show False by simp
  qed
  have pend: "pending_map s ?n = None"
  proof (rule ccontr)
    assume "pending_map s ?n \<noteq> None"
    with fut have "tasks s ?n \<noteq> None" unfolding futures_ok_def by blast
    with new show False by simp
  qed
  have other: "tasks ?s' m = Some x \<and> futures ?s' m = futures s m \<and> pending_map ?s' m = pending_map s m"
    if "tasks s m = Some x" for m x
    using that new by (auto simp: number_task_def Let_def)
  have "numbers_ok ?s'"
  proof -
    from num have old: "tasks s m \<noteq> None \<Longrightarrow> unat m \<le> submitted s" "dom (futures s) = dom (tasks s)"
      "tasks s m = Some x \<Longrightarrow> length (payload x) < 2 ^ 64" for m x
      unfolding numbers_ok_def by (metis domIff, blast, blast)
    have t': "tasks ?s' = (tasks s)(?n \<mapsto> t)" "futures ?s' = (futures s)(?n \<mapsto> MakeState)"
      by (simp_all add: number_task_def Let_def)
    have "unat m \<le> Suc (submitted s)" if "tasks ?s' m \<noteq> None" for m
    proof (cases "m = ?n")
      case True
      with n show ?thesis by simp
    next
      case False
      with that have "tasks s m \<noteq> None" by (simp add: t')
      from old(1) [OF this] show ?thesis by simp
    qed
    then have "\<forall>m \<in> dom (tasks ?s'). unat m \<le> submitted ?s'" by (auto simp: number_task_def Let_def)
    moreover have "dom (futures ?s') = dom (tasks ?s')" using old(2) by (simp add: t')
    moreover have "length (payload x) < 2 ^ 64" if "tasks ?s' m = Some x" for m x
      using that old(3) [of m x] assms(4) by (cases "m = ?n") (simp_all add: t')
    moreover have "next_task_id ?s' = word_of_nat (Suc (submitted ?s'))" "submitted ?s' = Suc (submitted s)"
      "0 < length (workers ?s')" "length (workers ?s') < 2 ^ 64"
      using num by (simp_all add: numbers_ok_def number_task_def Let_def)
    ultimately show ?thesis unfolding numbers_ok_def by blast
  qed
  moreover have "streams_ok exec RQ RS ?s'"
  proof -
    have "worker_ok exec (tasks ?s') (workers s ! w) (RQ w) (RS w)" if "w < length (workers s)" for w
    proof (rule worker_ok_cong)
      show "worker_ok exec (tasks s) (workers s ! w) (RQ w) (RS w)" using str that by (simp add: streams_ok_def)
      show "tasks ?s' m = tasks s m" if "tasks s m \<noteq> None" for m
        using that new by (auto simp: number_task_def Let_def)
    qed
    then show ?thesis by (simp add: streams_ok_def number_task_def Let_def)
  qed
  moreover have "futures_ok exec ?s'"
    using fut new pend by (auto simp: futures_ok_def number_task_def Let_def)
  moreover have "clients_ok ?s'"
  proof -
    have "client_ok ?s' (clients ?s' ! j)" if "j < length (clients s)" for j
    proof (cases "j = i")
      case True
      with assms(2) pend show ?thesis by (simp add: number_task_def Let_def)
    next
      case False
      with cli that client_ok_cong [of s "clients s ! j" ?s'] other show ?thesis
        by (simp add: clients_ok_def number_task_def Let_def)
    qed
    moreover have "numbered (clients s ! j) \<noteq> Some ?n" if "j < length (clients s)" for j
      using cli that new by (cases "clients s ! j") (auto simp: clients_ok_def)
    moreover have "clients ?s' = (clients s)[i := ClNumbered t ?n]" by (simp add: number_task_def Let_def)
    ultimately show ?thesis using cli assms(2) unfolding clients_ok_def
      by (metis length_list_update nth_list_update_eq nth_list_update_neq numbered.simps(1) option.inject)
  qed
  moreover have "returned_ok RQ RS ?s'"
    using ret new by (auto simp: returned_ok_def number_task_def Let_def settled_def)
  moreover have "phases_ok RQ ?s'"
    using pha ret new by (auto simp: phases_ok_def returned_ok_def number_task_def Let_def settled_def)
  ultimately show ?thesis by (simp add: pool_inv_def)
qed

lemma register_task_inv:
  assumes "pool_inv exec RQ RS s" and "i < length (clients s)" and "clients s ! i = ClNumbered t n"
  shows "pool_inv exec RQ RS (register_task i t n s)"
proof -
  let ?s' = "register_task i t n s"
  have fut: "futures_ok exec s" and cli: "clients_ok s" and ret: "returned_ok RQ RS s"
    using assms(1) by (simp_all add: pool_inv_def)
  have c: "tasks s n = Some t" "pending_map s n = None" "futures s n = Some MakeState"
    using cli assms(2,3) by (auto simp: clients_ok_def dest!: spec [of _ i])
  have "futures_ok exec ?s'" using fut c by (auto simp: futures_ok_def register_task_def)
  moreover have "clients_ok ?s'"
  proof -
    have "client_ok ?s' (clients ?s' ! j)" if j: "j < length (clients s)" for j
    proof (cases "j = i")
      case True
      with assms(2) c show ?thesis by (simp add: register_task_def)
    next
      case False
      have ok: "client_ok s (clients s ! j)" using cli j by (simp add: clients_ok_def)
      have "numbered (clients s ! i) = Some n" using assms(3) by simp
      with cli False j assms(2) have "numbered (clients s ! j) \<noteq> Some n" unfolding clients_ok_def by blast
      with ok False show ?thesis by (cases "clients s ! j") (auto simp: register_task_def)
    qed
    moreover have "clients ?s' = (clients s)[i := ClRegistered t n]" by (simp add: register_task_def)
    ultimately show ?thesis using cli assms(2) unfolding clients_ok_def
      by (metis length_list_update nth_list_update_eq nth_list_update_neq numbered.simps(3) option.distinct(1))
  qed
  moreover have "returned_ok RQ RS ?s'" using ret c by (auto simp: returned_ok_def register_task_def)
  ultimately show ?thesis
    using assms(1) by (simp add: pool_inv_def register_task_def)
qed

text \<open>A client that moves on without touching the maps.\<close>

lemma client_move_inv:
  assumes "pool_inv exec RQ RS s" and "i < length (clients s)" and "numbered c = None"
    and "client_ok s c"
  shows "pool_inv exec RQ RS (set_client i c s)"
  using assms(1) clients_ok_move [of s i c] assms(2-4) by (simp add: pool_inv_def)

lemma pool_inv_ghost [simp]:
  "pool_inv exec RQ RS (s\<lparr>refused := r\<rparr>) = pool_inv exec RQ RS s"
  "pool_inv exec RQ RS (s\<lparr>next_worker := k\<rparr>) = pool_inv exec RQ RS s"
  by (simp_all add: pool_inv_def)

lemma choose_worker_inv:
  assumes "pool_inv exec RQ RS s" and "i < length (clients s)" and "clients s ! i = ClRegistered t n"
  shows "pool_inv exec RQ RS (choose_worker i t n s)"
proof -
  have c: "client_ok s (clients s ! i)" using assms(1,2) by (simp add: pool_inv_def clients_ok_def)
  let ?k = "length (workers s)"
  have "0 < ?k" "?k < 2 ^ 64" using assms(1) by (auto simp: pool_inv_def numbers_ok_def)
  then have "unat (next_worker s mod word_of_nat ?k) < ?k"
    by (simp add: unat_mod_distrib unat_of_nat)
  with c assms(3) have "client_ok s (ClChosen t n (unat (next_worker s mod word_of_nat ?k)))" by simp
  with client_move_inv [OF assms(1,2)] show ?thesis
    by (simp add: choose_worker_def del: pool_updates)
qed

section \<open>Changing one worker\<close>

lemma worker_update_inv:
  assumes inv: "pool_inv exec RQ RS s" and w: "w < length (workers s)"
    and ok: "worker_ok exec (tasks s) x rq rs"
    and keeps: "\<And>n. (\<exists>junk. ReqRun junk n \<in> set (RQ w)) \<or> (\<exists>junk. (junk, n) \<in> set (RS w)) \<Longrightarrow>
      (\<exists>junk. ReqRun junk n \<in> set rq) \<or> (\<exists>junk. (junk, n) \<in> set rs)"
    and quiet: "\<not> stopping s \<Longrightarrow> \<not> crashed s \<Longrightarrow> quiet_worker x rq"
    and reaped: "reaped x \<longrightarrow> child x = Exited" "reaped (workers s ! w) \<longrightarrow> reaped x"
  shows "pool_inv exec (RQ(w := rq)) (RS(w := rs)) (s\<lparr>workers := (workers s)[w := x]\<rparr>)"
proof -
  let ?s' = "s\<lparr>workers := (workers s)[w := x]\<rparr>" and ?RQ = "RQ(w := rq)" and ?RS = "RS(w := rs)"
  have str: "streams_ok exec RQ RS s" and ret: "returned_ok RQ RS s" and pha: "phases_ok RQ s"
    using inv by (simp_all add: pool_inv_def)
  have "streams_ok exec ?RQ ?RS ?s'"
    using str ok by (simp add: streams_ok_def nth_list_update)
  moreover have "on_its_way ?RQ ?RS k n" if "on_its_way RQ RS k n" for k n
  proof -
    from that obtain v where v: "v < k" "(\<exists>junk. ReqRun junk n \<in> set (RQ v)) \<or> (\<exists>junk. (junk, n) \<in> set (RS v))"
      unfolding on_its_way_def by blast
    show ?thesis
      unfolding on_its_way_def using v keeps [of n] by (intro exI [of _ v]) (cases "v = w"; simp)
  qed
  then have "returned_ok ?RQ ?RS ?s'" using ret unfolding returned_ok_def by simp blast
  moreover have "phases_ok ?RQ ?s'"
  proof -
    have "quiet_worker (workers ?s' ! v) (?RQ v)" if "\<not> stopping s" "\<not> crashed s" "v < length (workers s)" for v
      using pha that quiet by (cases "v = w") (simp_all add: phases_ok_def)
    moreover have "reaped (workers ?s' ! v) \<longrightarrow> child (workers ?s' ! v) = Exited" if "v < length (workers s)" for v
      using pha that reaped(1) by (cases "v = w") (simp_all add: phases_ok_def)
    moreover have "reaped (workers ?s' ! v)" if "v < length (workers s)" "reaped (workers s ! v)" for v
      using that reaped(2) by (cases "v = w") simp_all
    ultimately show ?thesis using pha unfolding phases_ok_def by simp
  qed
  ultimately show ?thesis using inv by (simp add: pool_inv_def)
qed

lemma pool_inv_worker:
  assumes "pool_inv exec RQ RS s" and "w < length (workers s)"
  shows "worker_ok exec (tasks s) (workers s ! w) (RQ w) (RS w)"
    and "\<not> stopping s \<Longrightarrow> \<not> crashed s \<Longrightarrow> quiet_worker (workers s ! w) (RQ w)"
    and "reaped (workers s ! w) \<longrightarrow> child (workers s ! w) = Exited"
    and "\<forall>n t. tasks s n = Some t \<longrightarrow> length (payload t) < 2 ^ 64"
  using assms unfolding pool_inv_def streams_ok_def phases_ok_def numbers_ok_def by blast+

section \<open>Delivering to a worker\<close>

text \<open>A message that was sent is the last request of its worker.\<close>

lemma send_to_worker_cases:
  assumes "w < length (workers s)"
  obtains e where "send_to_worker w bytes s = Inl e" "reaped (workers s ! w)"
  | "send_to_worker w bytes s = Inr (s\<lparr>killed := True\<rparr>)" "child (workers s ! w) = Exited"
  | "send_to_worker w bytes s = Inr (s\<lparr>workers := (workers s)[w := (workers s ! w)\<lparr>request := request (workers s ! w) @ bytes\<rparr>]\<rparr>)"
      "child (workers s ! w) = Alive" "\<not> reaped (workers s ! w)"
  using that
  by (cases "reaped (workers s ! w)"; cases "child (workers s ! w)") (simp_all add: send_to_worker_def Let_def)

lemma append_request_ok:
  assumes "worker_ok exec T x rq rs" and "req_known T r"
  shows "worker_ok exec T (x\<lparr>request := request x @ req_bytes T r\<rparr>) (rq @ [r]) rs"
  using assms by (simp add: worker_ok_def)

lemma killed_inv:
  assumes "pool_inv exec RQ RS s" and "w < length (workers s)" and "child (workers s ! w) = Exited"
  shows "pool_inv exec RQ RS (s\<lparr>killed := True\<rparr>)"
proof -
  have "\<not> (\<not> stopping s \<and> \<not> crashed s)"
    using pool_inv_worker(2) [OF assms(1,2)] assms(3) by (auto simp: quiet_worker_def)
  with assms(1) show ?thesis by (auto simp: pool_inv_def phases_ok_def)
qed

lemma deliver_task_inv:
  assumes inv: "pool_inv exec RQ RS s" and i: "i < length (clients s)" and pc: "clients s ! i = ClChosen t n w"
    and alive: "\<not> killed s"
  shows "\<exists>RQ RS. pool_inv exec RQ RS (deliver_task junk i t n w s)"
proof -
  let ?msg = "run_message junk n (exec_addr t) (payload t)"
  have c: "tasks s n = Some t" "settled s n \<or> pending_map s n \<noteq> None" "w < length (workers s)"
    using inv i pc unfolding pool_inv_def clients_ok_def by fastforce+
  show ?thesis
  proof (cases rule: send_to_worker_cases [OF c(3), of ?msg])
    case (1 e)
    with client_move_inv [OF inv i, of ClIdle] show ?thesis
      by (auto simp: deliver_task_def)
  next
    case 2
    with killed_inv [OF inv c(3)] show ?thesis by (auto simp: deliver_task_def)
  next
    case 3
    let ?x = "(workers s ! w)\<lparr>request := request (workers s ! w) @ ?msg\<rparr>"
    let ?s1 = "s\<lparr>workers := (workers s)[w := ?x]\<rparr>" and ?r = "ReqRun junk n"
    let ?RQ = "RQ(w := RQ w @ [?r])" and ?RS = "RS(w := RS w)"
    note wk = pool_inv_worker [OF inv c(3)]
    have "pool_inv exec ?RQ ?RS ?s1"
    proof (rule worker_update_inv [OF inv c(3)])
      show "worker_ok exec (tasks s) ?x (RQ w @ [?r]) (RS w)"
        using append_request_ok [OF wk(1), of ?r] c(1) by simp
    qed (use wk(2) 3(2,3) in \<open>auto simp: quiet_worker_def\<close>)
    then have inv2: "pool_inv exec ?RQ ?RS (set_client i ClIdle ?s1)"
      using client_move_inv [of exec ?RQ ?RS ?s1 i ClIdle] i by simp
    have "on_its_way ?RQ ?RS (length (workers s)) n"
      using c(3) by (auto simp: on_its_way_def intro!: exI [of _ w])
    moreover have "shutdown s \<noteq> ShDone"
      using inv c(3) 3(3) by (auto simp: pool_inv_def phases_ok_def)
    ultimately have "pool_inv exec ?RQ ?RS ((set_client i ClIdle ?s1)\<lparr>returned := returned s @ [n]\<rparr>)"
      using inv2 c(1,2) by (auto simp: pool_inv_def returned_ok_def phases_ok_def)
    moreover have "deliver_task junk i t n w s = (set_client i ClIdle ?s1)\<lparr>returned := returned s @ [n]\<rparr>"
      using 3(1) alive by (simp add: deliver_task_def)
    ultimately show ?thesis by auto
  qed
qed

lemma stop_worker_inv:
  assumes inv: "pool_inv exec RQ RS s" and sh: "shutdown s = ShStop w" and w: "w < length (workers s)"
  shows "\<exists>RQ RS. pool_inv exec RQ RS (stop_worker junk w s)"
proof -
  have stop: "stopping s" using inv sh by (auto simp: pool_inv_def phases_ok_def)
  have next_phase: "pool_inv exec Q R (u\<lparr>shutdown := ShStop (Suc w)\<rparr>)"
    if "pool_inv exec Q R u" "stopping u" for u Q R
    using that by (auto simp: pool_inv_def phases_ok_def)
  show ?thesis
  proof (cases rule: send_to_worker_cases [OF w, of "stop_message junk"])
    case (1 e)
    with next_phase [OF inv stop] show ?thesis by (auto simp: stop_worker_def)
  next
    case 2
    with next_phase [OF killed_inv [OF inv w]] stop show ?thesis by (auto simp: stop_worker_def)
  next
    case 3
    note wk = pool_inv_worker [OF inv w]
    let ?x = "(workers s ! w)\<lparr>request := request (workers s ! w) @ stop_message junk\<rparr>"
    have "pool_inv exec (RQ(w := RQ w @ [ReqStop junk])) (RS(w := RS w)) (s\<lparr>workers := (workers s)[w := ?x]\<rparr>)"
    proof (rule worker_update_inv [OF inv w])
      show "worker_ok exec (tasks s) ?x (RQ w @ [ReqStop junk]) (RS w)"
        using append_request_ok [OF wk(1), of "ReqStop junk"] by simp
    qed (use wk(2) 3(2,3) stop in auto)
    from next_phase [OF this] stop 3(1) show ?thesis by (auto simp: stop_worker_def)
  qed
qed

end
