(* ===== verification/Pool_Correct.thy ===== *)
theory Pool_Correct
  imports Pool_Steps
begin

text \<open>
  The remaining steps of the process pool (workers, readers, the end of the shutdown), the
  invariant of the whole system, and its properties: every future gets the result of its own
  task or the failure of the shutdown, once; nothing is lost; and the behaviours of the code
  that are not what it means to do.
\<close>

section \<open>Workers and readers\<close>

lemma worker_responds_inv:
  assumes inv: "pool_inv exec RQ RS s" and w: "w < length (workers s)" and x: "workers s ! w = x"
    and alive: "child x = Alive" and pass: "worker_pass junk exec (request x) = Some (Responds bytes, rest)"
  shows "\<exists>RQ RS. pool_inv exec RQ RS (set_worker w (x\<lparr>request := rest, response := response x @ bytes\<rparr>) s)"
proof -
  note wk = pool_inv_worker [OF inv w, unfolded x]
  show ?thesis
  proof (cases rule: worker_ok_request [OF wk(1) pass wk(4)])
    case (2 junk' n t rq')
    let ?x = "x\<lparr>request := rest, response := response x @ bytes\<rparr>"
    have "pool_inv exec (RQ(w := rq')) (RS(w := RS w @ [(junk, n)])) (s\<lparr>workers := (workers s)[w := ?x]\<rparr>)"
    proof (rule worker_update_inv [OF inv w])
      show "worker_ok exec (tasks s) ?x rq' (RS w @ [(junk, n)])"
        using wk(1) 2 by (auto simp: worker_ok_def)
    qed (use wk(2,3) 2(1) x alive in \<open>auto simp: quiet_worker_def\<close>)
    then show ?thesis by auto
  qed simp
qed

lemma worker_stops_inv:
  assumes inv: "pool_inv exec RQ RS s" and w: "w < length (workers s)" and x: "workers s ! w = x"
    and alive: "child x = Alive" and pass: "worker_pass junk exec (request x) = Some (WorkerStops, rest)"
  shows "\<exists>RQ RS. pool_inv exec RQ RS (set_worker w (x\<lparr>request := rest, child := Exited\<rparr>) s)"
proof -
  note wk = pool_inv_worker [OF inv w, unfolded x]
  show ?thesis
  proof (cases rule: worker_ok_request [OF wk(1) pass wk(4)])
    case (1 junk' rq')
    let ?x = "x\<lparr>request := rest, child := Exited\<rparr>"
    have "pool_inv exec (RQ(w := rq')) (RS(w := RS w)) (s\<lparr>workers := (workers s)[w := ?x]\<rparr>)"
    proof (rule worker_update_inv [OF inv w])
      show "worker_ok exec (tasks s) ?x rq' (RS w)" using wk(1) 1 by (auto simp: worker_ok_def)
    qed (use wk(2,3) 1(1) x alive in \<open>auto simp: quiet_worker_def\<close>)
    then show ?thesis by auto
  qed simp
qed

lemma worker_crashes_inv:
  assumes inv: "pool_inv exec RQ RS s" and w: "w < length (workers s)" and x: "workers s ! w = x"
  shows "pool_inv exec RQ RS ((set_worker w (x\<lparr>child := Exited\<rparr>) s)\<lparr>crashed := True\<rparr>)"
proof -
  have inv': "pool_inv exec RQ RS (s\<lparr>crashed := True\<rparr>)"
    using inv by (auto simp: pool_inv_def phases_ok_def)
  note wk = pool_inv_worker [OF inv w, unfolded x]
  have "pool_inv exec (RQ(w := RQ w)) (RS(w := RS w))
      ((s\<lparr>crashed := True\<rparr>)\<lparr>workers := (workers (s\<lparr>crashed := True\<rparr>))[w := x\<lparr>child := Exited\<rparr>]\<rparr>)"
  proof (rule worker_update_inv [OF inv'])
    show "worker_ok exec (tasks (s\<lparr>crashed := True\<rparr>)) (x\<lparr>child := Exited\<rparr>) (RQ w) (RS w)"
      using wk(1) by (simp add: worker_ok_def)
  qed (use w wk(3) x in auto)
  moreover have "(s\<lparr>crashed := True\<rparr>)\<lparr>workers := (workers (s\<lparr>crashed := True\<rparr>))[w := x\<lparr>child := Exited\<rparr>]\<rparr>
      = (set_worker w (x\<lparr>child := Exited\<rparr>) s)\<lparr>crashed := True\<rparr>" by simp
  ultimately show ?thesis by (simp only: fun_upd_triv)
qed

lemma reader_ends_inv:
  assumes inv: "pool_inv exec RQ RS s" and w: "w < length (workers s)" and x: "workers s ! w = x"
    and gone: "child x = Exited"
  shows "pool_inv exec RQ RS (set_worker w (x\<lparr>reader := ReaderDone\<rparr>) s)"
proof -
  note wk = pool_inv_worker [OF inv w, unfolded x]
  have "pool_inv exec (RQ(w := RQ w)) (RS(w := RS w)) (s\<lparr>workers := (workers s)[w := x\<lparr>reader := ReaderDone\<rparr>]\<rparr>)"
  proof (rule worker_update_inv [OF inv w])
    show "worker_ok exec (tasks s) (x\<lparr>reader := ReaderDone\<rparr>) (RQ w) (RS w)"
      using wk(1) by (simp add: worker_ok_def)
  qed (use wk(2,3) gone x in \<open>auto simp: quiet_worker_def\<close>)
  then show ?thesis by simp
qed

text \<open>Completing one future: the others, and what is known of them, stay.\<close>

lemma settled_mono:
  assumes "settled s m" and "pending_map s n = Some p" and "futures_ok exec s"
  shows "settled (s\<lparr>pending_map := q, futures := (futures s)(n := f)\<rparr>) m"
proof -
  have "futures s n = Some MakeState" using assms(2,3) by (auto simp: futures_ok_def)
  with assms(1) have "m \<noteq> n" by (auto simp: settled_def)
  with assms(1) show ?thesis by (simp add: settled_def)
qed

lemma complete_future_inv:
  assumes num: "numbers_ok s" and fut: "futures_ok exec s" and cli: "clients_ok s"
    and str: "streams_ok exec RQ RS s" and pha: "phases_ok RQ s"
    and p: "pending_map s n = Some p" and t: "tasks s n = Some t"
    and ret: "\<And>m. m \<in> set (returned s) \<Longrightarrow> tasks s m \<noteq> None \<and>
      (settled s m \<or> pending_map s m \<noteq> None \<and> (m \<noteq> n \<longrightarrow> on_its_way RQ RS (length (workers s)) m))"
  shows "pool_inv exec RQ RS (s\<lparr>pending_map := (pending_map s)(n := None),
    futures := (futures s)(n := Some (outcome (kind t) (result_of exec t) MakeState))\<rparr>)"
proof -
  let ?s' = "s\<lparr>pending_map := (pending_map s)(n := None),
    futures := (futures s)(n := Some (outcome (kind t) (result_of exec t) MakeState))\<rparr>"
  have set_n: "settled ?s' n" by (simp add: settled_def)
  have set_m: "settled ?s' m" if "settled s m" for m by (rule settled_mono [OF that p fut])
  have "dom (futures ?s') = dom (tasks s)" using num t by (auto simp: numbers_ok_def)
  then have "numbers_ok ?s'" using num unfolding numbers_ok_def by simp
  moreover have "futures_ok exec ?s'" using fut t by (auto simp: futures_ok_def)
  moreover have "clients_ok ?s'"
  proof (rule clients_ok_update [OF cli])
    show "client_ok ?s' c" if "client_ok s c" for c
    proof (cases c)
      case (ClNumbered t' m)
      with that p show ?thesis by auto
    next
      case (ClRegistered t' m)
      with that set_n set_m [of m] show ?thesis by (cases "m = n") auto
    next
      case (ClChosen t' m w)
      with that set_n set_m [of m] show ?thesis by (cases "m = n") auto
    qed simp
  qed simp
  moreover have "returned_ok RQ RS ?s'"
    unfolding returned_ok_def
  proof
    fix m assume "m \<in> set (returned ?s')"
    then have "m \<in> set (returned s)" by simp
    from ret [OF this] show "tasks ?s' m \<noteq> None \<and>
        (settled ?s' m \<or> pending_map ?s' m \<noteq> None \<and> on_its_way RQ RS (length (workers ?s')) m)"
      using set_n set_m [of m] by (cases "m = n") auto
  qed
  moreover have "phases_ok RQ ?s'" using pha set_m unfolding phases_ok_def by simp
  ultimately show ?thesis using str by (simp add: pool_inv_def streams_ok_def)
qed

lemma reader_takes_inv:
  assumes inv: "pool_inv exec RQ RS s" and small: "exec_small exec"
    and w: "w < length (workers s)" and x: "workers s ! w = x"
    and pass: "reader_pass (response x) = Some (h, bytes, rest)"
  shows "\<exists>RQ RS. pool_inv exec RQ RS (take_result h bytes (set_worker w (x\<lparr>response := rest\<rparr>) s))"
proof -
  note wk = pool_inv_worker [OF inv w, unfolded x]
  obtain junk n t rs' where rs: "RS w = (junk, n) # rs'" and t: "tasks s n = Some t" and h: "result_id h = n"
    and rest: "rest = concat (map (resp_bytes exec (tasks s)) rs')"
    and comp: "\<And>p st. complete p h bytes st = outcome p (result_of exec t) st"
    by (rule worker_ok_response [OF wk(1) pass small]) (rule that; assumption)
  let ?s1 = "s\<lparr>workers := (workers s)[w := x\<lparr>response := rest\<rparr>]\<rparr>" and ?RS = "RS(w := rs')"
  have num: "numbers_ok s" and fut: "futures_ok exec s" and ret: "returned_ok RQ RS s"
    and pha: "phases_ok RQ s" and cli: "clients_ok s" and str: "streams_ok exec RQ RS s"
    using inv by (simp_all add: pool_inv_def)
  have ok: "worker_ok exec (tasks s) (x\<lparr>response := rest\<rparr>) (RQ w) rs'"
    using wk(1) rs rest by (simp add: worker_ok_def)
  have str1: "streams_ok exec RQ ?RS ?s1" using str ok by (simp add: streams_ok_def nth_list_update)
  have drop1: "on_its_way RQ ?RS k m" if "m \<noteq> n" "on_its_way RQ RS k m" for k m
    using that rs unfolding on_its_way_def by (metis fun_upd_apply prod.inject set_ConsD)
  have same: "quiet_worker (x\<lparr>response := rest\<rparr>) q = quiet_worker x q" for q by (simp add: quiet_worker_def)
  have pha1: "phases_ok RQ ?s1"
  proof -
    have f: "child (workers ?s1 ! v) = child (workers s ! v) \<and> reader (workers ?s1 ! v) = reader (workers s ! v)
        \<and> reaped (workers ?s1 ! v) = reaped (workers s ! v)" if "v < length (workers s)" for v
      using x that by (cases "v = w") simp_all
    then have "quiet_worker (workers ?s1 ! v) (RQ v) = quiet_worker (workers s ! v) (RQ v)"
      if "v < length (workers s)" for v using that by (simp add: quiet_worker_def)
    with f pha show ?thesis unfolding phases_ok_def by simp
  qed
  show ?thesis
  proof (cases "pending_map s n")
    case None
    have "returned_ok RQ ?RS ?s1"
      unfolding returned_ok_def
    proof
      fix m assume "m \<in> set (returned ?s1)"
      then have m: "tasks s m \<noteq> None"
        "settled s m \<or> pending_map s m \<noteq> None \<and> on_its_way RQ RS (length (workers s)) m"
        using ret by (auto simp: returned_ok_def)
      show "tasks ?s1 m \<noteq> None \<and>
          (settled ?s1 m \<or> pending_map ?s1 m \<noteq> None \<and> on_its_way RQ ?RS (length (workers ?s1)) m)"
        using m drop1 [of m] None by (cases "m = n") auto
    qed
    then have "pool_inv exec RQ ?RS ?s1" using num fut cli str1 pha1 by (simp add: pool_inv_def)
    moreover have "take_result h bytes (set_worker w (x\<lparr>response := rest\<rparr>) s) = ?s1"
      using None h by (simp add: take_result_def)
    ultimately show ?thesis by auto
  next
    case (Some p)
    with fut have f: "futures s n = Some MakeState" and "\<exists>t. tasks s n = Some t \<and> kind t = p"
      unfolding futures_ok_def by blast+
    with t have k: "kind t = p" by simp
    have "take_result h bytes (set_worker w (x\<lparr>response := rest\<rparr>) s) =
      ?s1\<lparr>pending_map := (pending_map ?s1)(n := None),
        futures := (futures ?s1)(n := Some (outcome (kind t) (result_of exec t) MakeState))\<rparr>"
      using Some h f k comp by (simp add: take_result_def)
    moreover have "pool_inv exec RQ ?RS (?s1\<lparr>pending_map := (pending_map ?s1)(n := None),
        futures := (futures ?s1)(n := Some (outcome (kind t) (result_of exec t) MakeState))\<rparr>)"
    proof (rule complete_future_inv [OF _ _ _ str1 pha1])
      show "tasks ?s1 m \<noteq> None \<and> (settled ?s1 m \<or> pending_map ?s1 m \<noteq> None \<and>
          (m \<noteq> n \<longrightarrow> on_its_way RQ ?RS (length (workers ?s1)) m))" if "m \<in> set (returned ?s1)" for m
        using that ret drop1 [of m] by (auto simp: returned_ok_def)
    qed (use num fut cli Some t in simp_all)
    ultimately show ?thesis by auto
  qed
qed

section \<open>The phases of the shutdown\<close>

lemma shutdown_begin_inv:
  assumes "pool_inv exec RQ RS s" and "\<not> stopping s"
  shows "pool_inv exec RQ RS (s\<lparr>stopping := True, shutdown := ShStop 0\<rparr>)"
  using assms by (simp add: pool_inv_def phases_ok_def)

text \<open>A later phase of the shutdown, entered with what it is entitled to.\<close>

lemma phase_inv:
  assumes "pool_inv exec RQ RS s" and "shutdown s \<noteq> ShNever" and "h \<noteq> ShNever"
    and "\<And>k w. h = ShReap k \<Longrightarrow> w < k \<Longrightarrow> w < length (workers s) \<Longrightarrow> reaped (workers s ! w)"
    and "\<And>w. h = ShFail \<or> h = ShDone \<Longrightarrow> w < length (workers s) \<Longrightarrow> reaped (workers s ! w)"
    and "\<And>n. h = ShDone \<Longrightarrow> n \<in> set (returned s) \<Longrightarrow> settled s n"
  shows "pool_inv exec RQ RS (s\<lparr>shutdown := h\<rparr>)"
proof -
  have "phases_ok RQ s" and "stopping s" using assms(1,2) by (simp_all add: pool_inv_def phases_ok_def)
  then have "phases_ok RQ (s\<lparr>shutdown := h\<rparr>)" using assms(3-6) unfolding phases_ok_def by simp
  with assms(1) show ?thesis by (simp add: pool_inv_def)
qed

lemma shutdown_reap_inv:
  assumes inv: "pool_inv exec RQ RS s" and sh: "shutdown s = ShReap w" and w: "w < length (workers s)"
    and x: "workers s ! w = x" and gone: "child x = Exited"
  shows "pool_inv exec RQ RS ((set_worker w (x\<lparr>reaped := True\<rparr>) s)\<lparr>shutdown := ShReap (Suc w)\<rparr>)"
proof -
  note wk = pool_inv_worker [OF inv w, unfolded x]
  have stop: "stopping s" using inv sh by (auto simp: pool_inv_def phases_ok_def)
  have "pool_inv exec (RQ(w := RQ w)) (RS(w := RS w)) (s\<lparr>workers := (workers s)[w := x\<lparr>reaped := True\<rparr>]\<rparr>)"
  proof (rule worker_update_inv [OF inv w])
    show "worker_ok exec (tasks s) (x\<lparr>reaped := True\<rparr>) (RQ w) (RS w)"
      using wk(1) by (simp add: worker_ok_def)
  qed (use gone stop in auto)
  then have inv1: "pool_inv exec RQ RS (set_worker w (x\<lparr>reaped := True\<rparr>) s)" by simp
  have before: "reaped (workers s ! v)" if "v < w" for v
    using inv sh w that by (auto simp: pool_inv_def phases_ok_def)
  show ?thesis
  proof (rule phase_inv [OF inv1])
    fix k v assume "ShReap (Suc w) = ShReap k" and "v < k"
    then have "v < w \<or> v = w" by auto
    with before w show "reaped (workers (set_worker w (x\<lparr>reaped := True\<rparr>) s) ! v)"
      by (cases "v = w") auto
  qed (use sh in auto)
qed

lemma shutdown_fail_inv:
  assumes inv: "pool_inv exec RQ RS s" and sh: "shutdown s = ShFail"
  shows "pool_inv exec RQ RS ((FailAllPending ShutdownReason s)\<lparr>shutdown := ShDone\<rparr>)"
proof -
  let ?t = "FailAllPending ShutdownReason s"
  have num: "numbers_ok s" and fut: "futures_ok exec s" and cli: "clients_ok s"
    and str: "streams_ok exec RQ RS s" and ret: "returned_ok RQ RS s" and pha: "phases_ok RQ s"
    using inv by (simp_all add: pool_inv_def)
  have fresh: "futures s n = Some MakeState \<and> (\<exists>t. tasks s n = Some t)" if "pending_map s n \<noteq> None" for n
    using fut that unfolding futures_ok_def by blast
  have set_t: "settled ?t n \<longleftrightarrow> settled s n \<or> pending_map s n \<noteq> None" for n
    using fresh [of n] by (cases "pending_map s n") (auto simp: settled_def FailAllPending_def)
  have "dom (futures ?t) = dom (futures s)" by (auto simp: FailAllPending_def split: if_splits)
  then have num': "numbers_ok ?t" using num unfolding numbers_ok_def by (simp add: FailAllPending_def)
  have "futures_ok exec ?t"
    using fut fresh sh pha unfolding futures_ok_def FailAllPending_def phases_ok_def by auto
  moreover have "clients_ok ?t"
  proof (rule clients_ok_update [OF cli])
    show "client_ok ?t c" if "client_ok s c" for c
      using that set_t by (cases c) (auto simp: FailAllPending_def)
  qed (simp add: FailAllPending_def)
  moreover have "returned_ok RQ RS ?t" using ret set_t by (auto simp: returned_ok_def FailAllPending_def)
  moreover have "phases_ok RQ ?t" using pha set_t unfolding phases_ok_def by (simp add: FailAllPending_def)
  moreover have "streams_ok exec RQ RS ?t" using str by (simp add: streams_ok_def FailAllPending_def)
  ultimately have inv1: "pool_inv exec RQ RS ?t" using num' by (simp add: pool_inv_def)
  have all: "reaped (workers s ! w)" if "w < length (workers s)" for w
    using that pha sh by (simp add: phases_ok_def)
  show ?thesis
  proof (rule phase_inv [OF inv1])
    show "settled ?t n" if "n \<in> set (returned ?t)" for n
      using that ret set_t by (auto simp: returned_ok_def FailAllPending_def)
  qed (use sh all in \<open>simp_all add: FailAllPending_def\<close>)
qed

section \<open>Every step\<close>

text \<open>No step takes back a number or a future.\<close>

lemma send_to_worker_frame:
  assumes "send_to_worker w bytes s = Inr s'"
  shows "submitted s' = submitted s" "futures s' = futures s" "pending_map s' = pending_map s"
  using assms by (auto simp: send_to_worker_def Let_def split: if_splits)

lemma deliver_task_frame [simp]:
  "submitted (deliver_task junk i t n w s) = submitted s" "futures (deliver_task junk i t n w s) = futures s"
  by (auto simp: deliver_task_def dest: send_to_worker_frame split: sum.splits)

lemma stop_worker_frame [simp]:
  "submitted (stop_worker junk w s) = submitted s" "futures (stop_worker junk w s) = futures s"
  by (auto simp: stop_worker_def dest: send_to_worker_frame split: sum.splits)

lemma op_submitted [simp]:
  "submitted (number_task i t s) = Suc (submitted s)" "submitted (register_task i t n s) = submitted s"
  "submitted (choose_worker i t n s) = submitted s" "submitted (take_result h bytes s) = submitted s"
  "submitted (FailAllPending text s) = submitted s"
  by (auto simp: number_task_def register_task_def choose_worker_def take_result_def
      FailAllPending_def Let_def split: option.splits)

lemma pool_step_submitted:
  assumes "pool_step exec s t"
  shows "submitted s \<le> submitted t"
  using assms by (cases rule: pool_step.cases) simp_all

lemma pool_step_inv:
  assumes "pool_step exec s t" and "pool_inv exec RQ RS s" and "submitted t < 2 ^ 64" and "exec_small exec"
  shows "\<exists>RQ RS. pool_inv exec RQ RS t"
  using assms(1)
proof (cases rule: pool_step.cases)
  case (submit_call i t)
  with number_task_inv [OF assms(2)] assms(3) show ?thesis by auto
next
  case (submit_register i t n)
  with register_task_inv [OF assms(2)] show ?thesis by blast
next
  case (submit_choose i t n)
  with choose_worker_inv [OF assms(2)] show ?thesis by blast
next
  case (submit_deliver i t n w junk)
  with deliver_task_inv [OF assms(2)] show ?thesis by blast
next
  case (worker_responds w x junk bytes rest)
  with worker_responds_inv [OF assms(2)] show ?thesis by blast
next
  case (worker_stops w x junk rest)
  with worker_stops_inv [OF assms(2)] show ?thesis by blast
next
  case (worker_crashes w x)
  with worker_crashes_inv [OF assms(2)] show ?thesis by blast
next
  case (reader_takes w x h bytes rest)
  with reader_takes_inv [OF assms(2,4)] show ?thesis by blast
next
  case (reader_ends w x)
  with reader_ends_inv [OF assms(2)] show ?thesis by blast
next
  case shutdown_begin
  with shutdown_begin_inv [OF assms(2)] show ?thesis by blast
next
  case (shutdown_stop w junk)
  with stop_worker_inv [OF assms(2)] show ?thesis by blast
next
  case (shutdown_stopped w)
  with phase_inv [OF assms(2), of "ShJoin 0"] show ?thesis by auto
next
  case (shutdown_join w)
  with phase_inv [OF assms(2), of "ShJoin (Suc w)"] show ?thesis by auto
next
  case (shutdown_joined w)
  with phase_inv [OF assms(2), of "ShReap 0"] show ?thesis by auto
next
  case (shutdown_reap w x)
  with shutdown_reap_inv [OF assms(2)] show ?thesis by blast
next
  case (shutdown_reaped w)
  then have "reaped (workers s ! v)" if "v < length (workers s)" for v
    using assms(2) that by (auto simp: pool_inv_def phases_ok_def)
  with shutdown_reaped phase_inv [OF assms(2), of ShFail] show ?thesis by auto
next
  case shutdown_fail
  with shutdown_fail_inv [OF assms(2)] show ?thesis by blast
next
  case shutdown_again
  with assms(2) show ?thesis by blast
qed

section \<open>Reachable states\<close>

definition pool_init :: "pool \<Rightarrow> bool" where
  "pool_init s \<longleftrightarrow> (\<exists>k threads. ProcessPool k threads = Inr s \<and> k < 2 ^ 64)"

lemma pool_init_inv:
  assumes "pool_init s"
  shows "pool_inv exec (\<lambda>w. []) (\<lambda>w. []) s"
  using assms
  by (auto simp: pool_init_def ProcessPool_def pool_inv_def pool_inv_defs worker_ok_def quiet_worker_def
      SpawnWorker_def split: if_splits)

interpretation process_pool: invariant_system "\<lambda>s. pool_init s \<and> exec_small exec"
  "\<lambda>s t. pool_step exec s t \<and> exec_small exec" "pool_good exec" for exec
proof (unfold_locales, goal_cases)
  case (1 s)
  then show ?case using pool_init_inv by (auto simp: pool_good_def)
next
  case (2 s t)
  then show ?case
    using pool_step_submitted [of exec s t] pool_step_inv [of exec s t] by (fastforce simp: pool_good_def)
qed

lemma pool_reachable:
  assumes "pool_init s" and "(pool_step exec)\<^sup>*\<^sup>* s t" and "exec_small exec" and "submitted t < 2 ^ 64"
  obtains RQ RS where "pool_inv exec RQ RS t"
proof -
  have "(\<lambda>s t. pool_step exec s t \<and> exec_small exec) = pool_step exec" using assms(3) by simp
  with assms process_pool.reachable_good [of s exec t] that show thesis by (auto simp: pool_good_def)
qed

end
