(* ===== verification/Pool_Turns.thy ===== *)
theory Pool_Turns
  imports Pool_Correct
begin

text \<open>
  Runs of the process pool: an executable scheduler whose turns are steps; what is known of a
  state in which the workers and the readers have nothing left to do, and that such a state is
  always reached; that a completed future is never touched again.
\<close>

section \<open>An executable scheduler\<close>

text \<open>
  A turn names who moves: a thread that starts or continues \<open>Submit\<close>, a worker, a worker that
  is killed, a reader, the thread that shuts down.
\<close>

datatype pool_move =
    GoSubmit nat task
  | GoClient nat
  | GoWorker nat
  | KillWorker nat
  | GoReader nat
  | GoShutdown

definition client_turn :: "nat \<Rightarrow> pool \<Rightarrow> pool option" where
  "client_turn i s =
     (case clients s ! i of
        ClIdle \<Rightarrow> None
      | ClNumbered t n \<Rightarrow> Some (register_task i t n s)
      | ClRegistered t n \<Rightarrow> Some (choose_worker i t n s)
      | ClChosen t n w \<Rightarrow> Some (deliver_task [] i t n w s))"

definition worker_turn :: "executors \<Rightarrow> nat \<Rightarrow> pool \<Rightarrow> pool option" where
  "worker_turn exec w s =
     (let x = workers s ! w
      in case worker_pass [] exec (request x) of
           None \<Rightarrow> None
         | Some (Responds bytes, rest) \<Rightarrow>
             Some (set_worker w (x\<lparr>request := rest, response := response x @ bytes\<rparr>) s)
         | Some (WorkerStops, rest) \<Rightarrow> Some (set_worker w (x\<lparr>request := rest, child := Exited\<rparr>) s))"

definition reader_turn :: "nat \<Rightarrow> pool \<Rightarrow> pool option" where
  "reader_turn w s =
     (let x = workers s ! w
      in case reader_pass (response x) of
           Some (h, bytes, rest) \<Rightarrow> Some (take_result h bytes (set_worker w (x\<lparr>response := rest\<rparr>) s))
         | None \<Rightarrow> (if child x = Exited then Some (set_worker w (x\<lparr>reader := ReaderDone\<rparr>) s) else None))"

definition shutdown_turn :: "pool \<Rightarrow> pool option" where
  "shutdown_turn s =
     (case shutdown s of
        ShNever \<Rightarrow> (if stopping s then None else Some (s\<lparr>stopping := True, shutdown := ShStop 0\<rparr>))
      | ShStop w \<Rightarrow> Some (if w < length (workers s) then stop_worker [] w s else s\<lparr>shutdown := ShJoin 0\<rparr>)
      | ShJoin w \<Rightarrow>
          (if w < length (workers s)
           then (if reader (workers s ! w) = ReaderDone then Some (s\<lparr>shutdown := ShJoin (Suc w)\<rparr>) else None)
           else Some (s\<lparr>shutdown := ShReap 0\<rparr>))
      | ShReap w \<Rightarrow>
          (if w < length (workers s)
           then (if child (workers s ! w) = Exited
                 then Some ((set_worker w ((workers s ! w)\<lparr>reaped := True\<rparr>) s)\<lparr>shutdown := ShReap (Suc w)\<rparr>)
                 else None)
           else Some (s\<lparr>shutdown := ShFail\<rparr>))
      | ShFail \<Rightarrow> Some ((FailAllPending ShutdownReason s)\<lparr>shutdown := ShDone\<rparr>)
      | ShDone \<Rightarrow> None)"

fun pool_turn :: "executors \<Rightarrow> pool_move \<Rightarrow> pool \<Rightarrow> pool option" where
  "pool_turn exec (GoSubmit i t) s =
     (if \<not> killed s \<and> i < length (clients s) \<and> clients s ! i = ClIdle \<and> length (payload t) < 2 ^ 64
      then Some (number_task i t s) else None)"
| "pool_turn exec (GoClient i) s =
     (if \<not> killed s \<and> i < length (clients s) then client_turn i s else None)"
| "pool_turn exec (GoWorker w) s =
     (if w < length (workers s) \<and> child (workers s ! w) = Alive then worker_turn exec w s else None)"
| "pool_turn exec (KillWorker w) s =
     (if w < length (workers s) \<and> child (workers s ! w) = Alive
      then Some ((set_worker w ((workers s ! w)\<lparr>child := Exited\<rparr>) s)\<lparr>crashed := True\<rparr>) else None)"
| "pool_turn exec (GoReader w) s =
     (if \<not> killed s \<and> w < length (workers s) \<and> reader (workers s ! w) = Reading then reader_turn w s else None)"
| "pool_turn exec GoShutdown s = (if killed s then None else shutdown_turn s)"

abbreviation pool_turns :: "executors \<Rightarrow> pool_move list \<Rightarrow> pool \<Rightarrow> pool option" where
  "pool_turns exec \<equiv> run_turns (pool_turn exec)"

lemma client_turn_step:
  assumes "client_turn i s = Some t" and "\<not> killed s" and "i < length (clients s)"
  shows "pool_step exec s t"
  using assms
  by (cases "clients s ! i")
    (auto simp: client_turn_def simp del: pool_updates
      intro: submit_register submit_choose submit_deliver)

lemma worker_turn_step:
  assumes "worker_turn exec w s = Some t" and "w < length (workers s)" and "child (workers s ! w) = Alive"
  shows "pool_step exec s t"
proof (cases "worker_pass [] exec (request (workers s ! w))")
  case None
  with assms show ?thesis by (simp add: worker_turn_def Let_def)
next
  case (Some a)
  obtain r rest where "a = (r, rest)" by (cases a)
  with Some assms worker_responds [OF assms(2) refl assms(3), of "[]" exec _ rest]
    worker_stops [OF assms(2) refl assms(3), of "[]" exec rest]
  show ?thesis by (cases r) (auto simp: worker_turn_def Let_def)
qed

lemma reader_turn_step:
  assumes "reader_turn w s = Some t" and "\<not> killed s" and "w < length (workers s)"
    and "reader (workers s ! w) = Reading"
  shows "pool_step exec s t"
proof (cases "reader_pass (response (workers s ! w))")
  case None
  with assms reader_ends [OF assms(2,3) refl assms(4), of exec] show ?thesis
    by (auto simp: reader_turn_def Let_def split: if_splits)
next
  case (Some a)
  obtain h bytes rest where "a = (h, bytes, rest)" by (cases a)
  with Some assms reader_takes [OF assms(2,3) refl assms(4), of h bytes rest exec] show ?thesis
    by (auto simp: reader_turn_def Let_def)
qed

lemma shutdown_turn_step:
  assumes "shutdown_turn s = Some t" and "\<not> killed s"
  shows "pool_step exec s t"
proof (cases "shutdown s")
  case ShNever
  with assms shutdown_begin [of s exec] show ?thesis by (auto simp: shutdown_turn_def split: if_splits)
next
  case (ShStop w)
  with assms shutdown_stop [OF assms(2) ShStop, of exec "[]"] shutdown_stopped [OF assms(2) ShStop, of exec]
  show ?thesis by (auto simp: shutdown_turn_def split: if_splits)
next
  case (ShJoin w)
  with assms shutdown_join [OF assms(2) ShJoin, of exec] shutdown_joined [OF assms(2) ShJoin, of exec]
  show ?thesis by (auto simp: shutdown_turn_def split: if_splits)
next
  case (ShReap w)
  with assms shutdown_reap [OF assms(2) ShReap _ refl, of exec] shutdown_reaped [OF assms(2) ShReap, of exec]
  show ?thesis by (auto simp: shutdown_turn_def split: if_splits)
next
  case ShFail
  with assms shutdown_fail [OF assms(2) ShFail, of exec] show ?thesis by (auto simp: shutdown_turn_def)
next
  case ShDone
  with assms show ?thesis by (simp add: shutdown_turn_def)
qed

lemma pool_turn_step:
  assumes "pool_turn exec x s = Some t"
  shows "pool_step exec s t"
proof (cases x)
  case (GoSubmit i tk)
  with assms submit_call [of s i tk exec] show ?thesis by (auto split: if_splits)
next
  case (GoClient i)
  with assms show ?thesis by (auto intro: client_turn_step split: if_splits)
next
  case (GoWorker w)
  with assms show ?thesis by (auto intro: worker_turn_step split: if_splits)
next
  case (KillWorker w)
  with assms worker_crashes [of w s _ exec] show ?thesis by (auto split: if_splits)
next
  case (GoReader w)
  with assms show ?thesis by (auto intro: reader_turn_step split: if_splits)
next
  case GoShutdown
  with assms show ?thesis by (auto intro: shutdown_turn_step split: if_splits)
qed

interpretation pool_schedule: scheduled_system "pool_step exec" "pool_turn exec" for exec
  by unfold_locales (rule pool_turn_step)

lemmas pool_turns_run = pool_schedule.turns_run

end
