(* ===== verification/Pool_Progress.thy ===== *)
theory Pool_Progress
  imports Pool_Turns
begin

text \<open>
  Progress of the process pool. Serving and collecting cannot go on for ever; when a pool that
  is not being shut down has nothing left to serve and to collect, every task that was
  submitted is settled; and what is settled is never touched again.
\<close>

section \<open>Nothing left to do\<close>

definition idle :: "executors \<Rightarrow> pool \<Rightarrow> bool" where
  "idle exec s \<longleftrightarrow> list_all (\<lambda>x. worker_pass [] exec (request x) = None \<and> reader_pass (response x) = None) (workers s)"

definition running :: "pool \<Rightarrow> bool" where
  "running s \<longleftrightarrow> \<not> stopping s \<and> \<not> crashed s"

lemma worker_quiet:
  assumes "pool_inv exec RQ RS s" and "running s" and "w < length (workers s)"
  shows "child (workers s ! w) = Alive" "reader (workers s ! w) = Reading" "ReqStop junk \<notin> set (RQ w)"
  using pool_inv_worker(2) [OF assms(1,3)] assms(2) by (auto simp: running_def quiet_worker_def)

lemma running_not_killed: "pool_inv exec RQ RS s \<Longrightarrow> running s \<Longrightarrow> \<not> killed s"
  by (auto simp: pool_inv_def phases_ok_def running_def)

text \<open>An idle worker has empty sockets.\<close>

lemma idle_streams:
  assumes inv: "pool_inv exec RQ RS s" and small: "exec_small exec" and run: "running s" and idle: "idle exec s"
    and w: "w < length (workers s)"
  shows "RQ w = [] \<and> RS w = []"
proof -
  let ?x = "workers s ! w"
  have none: "worker_pass [] exec (request ?x) = None" "reader_pass (response ?x) = None"
    using idle w by (simp_all add: idle_def list_all_length)
  note ok = pool_inv_worker [OF inv w]
  have "RQ w = []"
  proof (rule ccontr)
    assume "RQ w \<noteq> []"
    then obtain r rq where rq: "RQ w = r # rq" by (cases "RQ w") auto
    then obtain junk n where r: "r = ReqRun junk n" using worker_quiet(3) [OF inv run w] by (cases r) auto
    with ok(1) rq obtain t where t: "tasks s n = Some t" by (auto simp: worker_ok_def)
    with ok(4) have len: "length (payload t) < 2 ^ 64" by blast
    have "request ?x = run_message junk n (exec_addr t) (payload t) @ concat (map (req_bytes (tasks s)) rq)"
      using ok(1) rq r t by (simp add: worker_ok_def)
    with none(1) worker_pass_run [OF len] show False by simp
  qed
  moreover have "RS w = []"
  proof (rule ccontr)
    assume "RS w \<noteq> []"
    then obtain junk n rs where rs: "RS w = (junk, n) # rs" by (cases "RS w") auto
    with ok(1) obtain t where t: "tasks s n = Some t" by (auto simp: worker_ok_def)
    have len: "length (fst (result_of exec t)) < 2 ^ 64" "length (snd (result_of exec t)) < 2 ^ 64"
      using small by (simp_all add: exec_small_def result_of_def)
    have "response ?x = response_for junk n (result_of exec t) @ concat (map (resp_bytes exec (tasks s)) rs)"
      using ok(1) rs t by (simp add: worker_ok_def)
    with none(2) reader_pass_response [OF len, of junk n "concat (map (resp_bytes exec (tasks s)) rs)"]
    show False by auto
  qed
  ultimately show ?thesis ..
qed

text \<open>What a settled future holds while nothing has been failed by the shutdown.\<close>

definition answered :: "executors \<Rightarrow> pool \<Rightarrow> u64 \<Rightarrow> bool" where
  "answered exec s n \<longleftrightarrow>
     (\<exists>t. tasks s n = Some t \<and> futures s n = Some (outcome (kind t) (result_of exec t) MakeState))"

lemma settled_answered:
  assumes "pool_inv exec RQ RS s" and "running s" and "settled s n" and "tasks s n \<noteq> None"
  shows "answered exec s n"
proof -
  have fut: "futures_ok exec s" using assms(1) by (simp add: pool_inv_def)
  from assms(4) obtain t where t: "tasks s n = Some t" by auto
  with fut assms(2) have "futures s n = Some MakeState \<or>
      futures s n = Some (outcome (kind t) (result_of exec t) MakeState)"
    unfolding futures_ok_def running_def by blast
  with t assms(3) show ?thesis by (auto simp: answered_def settled_def)
qed

lemma idle_answered:
  assumes inv: "pool_inv exec RQ RS s" and "exec_small exec" and run: "running s" and "idle exec s"
    and n: "n \<in> set (returned s)"
  shows "answered exec s n"
proof -
  have "\<not> on_its_way RQ RS (length (workers s)) n"
    using idle_streams [OF assms(1-4)] by (auto simp: on_its_way_def)
  with inv n have "settled s n" "tasks s n \<noteq> None" by (auto simp: pool_inv_def returned_ok_def)
  with settled_answered [OF inv run] show ?thesis by blast
qed

section \<open>Serving and collecting comes to an end\<close>

text \<open>The bytes waiting in the request sockets, then those in the response sockets.\<close>

definition backlog :: "pool \<Rightarrow> nat \<times> nat" where
  "backlog s = (sum_list (map (\<lambda>x. length (request x)) (workers s)),
                sum_list (map (\<lambda>x. length (response x)) (workers s)))"

lemma sum_list_update_less:
  assumes "i < length xs" and "f x < f (xs ! i)"
  shows "sum_list (map f (xs[i := x])) < (sum_list (map f xs) :: nat)"
  using assms
proof (induction xs arbitrary: i)
  case (Cons y ys)
  then show ?case by (cases i) auto
qed simp

lemma sum_list_update_same:
  assumes "f x = f (xs ! i)"
  shows "sum_list (map f (xs[i := x])) = (sum_list (map f xs) :: nat)"
  using assms by (metis list_update_id map_update)

lemma worker_pass_shrinks:
  assumes "worker_pass junk exec bs = Some (r, rest)"
  shows "length rest < length bs"
  using assms by (auto simp: worker_pass_def Let_def split: if_splits)

lemma reader_pass_shrinks:
  assumes "reader_pass bs = Some (h, bytes, rest)"
  shows "length rest < length bs"
  using assms by (auto simp: reader_pass_def Let_def split: if_splits)

lemma take_result_frame [simp]:
  "workers (take_result h bytes s) = workers s" "clients (take_result h bytes s) = clients s"
  "shutdown (take_result h bytes s) = shutdown s" "returned (take_result h bytes s) = returned s"
  "stopping (take_result h bytes s) = stopping s" "crashed (take_result h bytes s) = crashed s"
  by (auto simp: take_result_def split: option.splits)

text \<open>
  A step of a worker or of a reader: it leaves the threads inside \<open>Submit\<close> and the shutdown
  where they are, and it is not a crash.
\<close>

definition pool_work :: "executors \<Rightarrow> pool \<Rightarrow> pool \<Rightarrow> bool" where
  "pool_work exec s t \<longleftrightarrow>
     pool_step exec s t \<and> clients t = clients s \<and> shutdown t = shutdown s \<and> crashed t = crashed s"

lemma pool_work_step:
  assumes inv: "pool_inv exec RQ RS s" and small: "exec_small exec" and run: "running s" and "\<not> idle exec s"
  shows "\<exists>t. pool_work exec s t \<and> (backlog t, backlog s) \<in> less_than <*lex*> less_than \<and>
    returned t = returned s \<and> running t \<and> (\<exists>RQ RS. pool_inv exec RQ RS t)"
proof -
  from assms(4) obtain w where w: "w < length (workers s)"
    and todo: "worker_pass [] exec (request (workers s ! w)) \<noteq> None \<or> reader_pass (response (workers s ! w)) \<noteq> None"
    by (auto simp: idle_def list_all_length)
  let ?x = "workers s ! w"
  note quiet = worker_quiet [OF inv run w]
  note wk = pool_inv_worker [OF inv w]
  show ?thesis
  proof (cases "worker_pass [] exec (request ?x)")
    case (Some a)
    obtain r rest where a: "a = (r, rest)" by (cases a)
    with Some have pass: "worker_pass [] exec (request ?x) = Some (r, rest)" by simp
    then obtain bytes where r: "r = Responds bytes"
      by (cases rule: worker_ok_request [OF wk(1) _ wk(4)]) (use quiet(3) in auto)
    let ?t = "set_worker w (?x\<lparr>request := rest, response := response ?x @ bytes\<rparr>) s"
    have "pool_step exec s ?t" using worker_responds [OF w refl quiet(1) pass [unfolded r]] .
    moreover have "(backlog ?t, backlog s) \<in> less_than <*lex*> less_than"
      using sum_list_update_less [OF w, of "\<lambda>x. length (request x)"] worker_pass_shrinks [OF pass]
      by (simp add: backlog_def)
    moreover have "\<exists>RQ RS. pool_inv exec RQ RS ?t"
      using worker_responds_inv [OF inv w refl quiet(1) pass [unfolded r]] .
    ultimately show ?thesis using run by (intro exI [of _ ?t]) (simp add: running_def pool_work_def)
  next
    case None
    with todo obtain h bytes rest where pass: "reader_pass (response ?x) = Some (h, bytes, rest)" by auto
    let ?t = "take_result h bytes (set_worker w (?x\<lparr>response := rest\<rparr>) s)"
    have "pool_step exec s ?t"
      using reader_takes [OF running_not_killed [OF inv run] w refl quiet(2) pass] .
    moreover have "(backlog ?t, backlog s) \<in> less_than <*lex*> less_than"
      using sum_list_update_less [OF w, of "\<lambda>x. length (response x)"] reader_pass_shrinks [OF pass]
        sum_list_update_same [of "\<lambda>x. length (request x)" "?x\<lparr>response := rest\<rparr>" "workers s" w]
      by (simp add: backlog_def)
    moreover have "\<exists>RQ RS. pool_inv exec RQ RS ?t" using reader_takes_inv [OF inv small w refl pass] .
    ultimately show ?thesis using run by (intro exI [of _ ?t]) (simp add: running_def pool_work_def)
  qed
qed

lemma pool_drain:
  assumes "pool_inv exec RQ RS s" and "exec_small exec" and "running s"
  shows "\<exists>t RQ RS. (pool_work exec)\<^sup>*\<^sup>* s t \<and> returned t = returned s \<and> running t \<and> idle exec t \<and> pool_inv exec RQ RS t"
  using assms
proof (induction "backlog s" arbitrary: s RQ RS rule: wf_induct [OF wf_lex_prod [OF wf_less_than wf_less_than]])
  case 1
  show ?case
  proof (cases "idle exec s")
    case True
    with 1 show ?thesis by blast
  next
    case False
    from pool_work_step [OF 1(2-4) False] obtain t RQ' RS' where t: "pool_work exec s t"
      "(backlog t, backlog s) \<in> less_than <*lex*> less_than" "returned t = returned s" "running t"
      "pool_inv exec RQ' RS' t" by blast
    from 1(1) [rule_format, OF t(2) refl t(5) 1(3) t(4)] t(1,3) show ?thesis
      by (metis converse_rtranclp_into_rtranclp)
  qed
qed

section \<open>A settled future stays\<close>

lemma number_task_new:
  assumes "pool_inv exec RQ RS s" and "Suc (submitted s) < 2 ^ 64"
  shows "futures s (next_task_id s) = None"
proof -
  have num: "numbers_ok s" using assms(1) by (simp add: pool_inv_def)
  then have "unat (next_task_id s) = Suc (submitted s)"
    using assms(2) by (simp add: numbers_ok_def unat_of_nat del: of_nat_Suc)
  then have "\<not> unat (next_task_id s) \<le> submitted s" by simp
  with num have "next_task_id s \<notin> dom (tasks s)" unfolding numbers_ok_def by blast
  with num show ?thesis by (auto simp: numbers_ok_def)
qed

lemma pool_step_settled:
  assumes "pool_step exec s t" and "pool_inv exec RQ RS s" and "submitted t < 2 ^ 64"
    and "futures s n = Some st" and "st_ready st"
  shows "futures t n = Some st"
proof -
  have "pending_map s n = None"
  proof (rule ccontr)
    assume "pending_map s n \<noteq> None"
    then have "futures s n = Some MakeState" using assms(2) by (auto simp: pool_inv_def futures_ok_def)
    with assms(4,5) show False by simp
  qed
  note still = this assms(4)
  from assms(1) show ?thesis
  proof (cases rule: pool_step.cases)
    case (submit_call i tk)
    with assms(2,3) number_task_new have "futures s (next_task_id s) = None" by auto
    with still have "n \<noteq> next_task_id s" by auto
    with submit_call still show ?thesis by (simp add: number_task_def Let_def)
  next
    case (reader_takes w x h bytes rest)
    with still show ?thesis by (cases "n = result_id h") (auto simp: take_result_def split: option.splits)
  next
    case shutdown_fail
    with still show ?thesis by (simp add: FailAllPending_def)
  qed (use still in \<open>auto simp: register_task_def choose_worker_def\<close>)
qed

lemma pool_run_settled:
  assumes "(pool_step exec)\<^sup>*\<^sup>* s t" and "pool_init z" and "(pool_step exec)\<^sup>*\<^sup>* z s" and "exec_small exec"
    and "submitted t < 2 ^ 64" and "futures s n = Some st" and "st_ready st"
  shows "futures t n = Some st"
  using assms
proof (induction rule: rtranclp_induct)
  case (step u t)
  from pool_step_submitted [OF step.hyps(2)] step.prems(4) have sub: "submitted u < 2 ^ 64" by simp
  with step have fut: "futures u n = Some st" by simp
  have "(pool_step exec)\<^sup>*\<^sup>* z u" using step.prems(2) step.hyps(1) by simp
  from pool_reachable [OF step.prems(1) this step.prems(3) sub] obtain RQ RS where "pool_inv exec RQ RS u" .
  from pool_step_settled [OF step.hyps(2) this step.prems(4) fut step.prems(6)] show ?case .
qed

section \<open>Who is refused\<close>

text \<open>\<open>Submit\<close> throws only once a shutdown has begun or a worker has crashed.\<close>

lemma deliver_task_refused:
  assumes "pool_inv exec RQ RS s" and "running s" and "i < length (clients s)" and "clients s ! i = ClChosen t n w"
  shows "refused (deliver_task junk i t n w s) = refused s"
proof -
  have w: "w < length (workers s)" using assms(1,3,4) unfolding pool_inv_def clients_ok_def by fastforce
  note alive = worker_quiet(1) [OF assms(1,2) w]
  with pool_inv_worker(3) [OF assms(1) w] have "\<not> reaped (workers s ! w)" by auto
  with alive show ?thesis by (simp add: deliver_task_def send_to_worker_def Let_def)
qed

lemma pool_step_refused:
  assumes "pool_step exec s t" and "pool_inv exec RQ RS s" and "running t"
  shows "running s \<and> refused t = refused s"
  using assms(1)
proof (cases rule: pool_step.cases)
  case (submit_deliver i tk n w junk)
  have same: "running (deliver_task junk i tk n w s) = running s"
    by (auto simp: deliver_task_def send_to_worker_def running_def Let_def split: sum.splits)
  with submit_deliver assms(3) deliver_task_refused [OF assms(2)] show ?thesis by auto
next
  case (shutdown_stop w junk)
  have "stopping s" using assms(2) shutdown_stop by (auto simp: pool_inv_def phases_ok_def)
  moreover have "stopping (stop_worker junk w s) = stopping s"
    by (auto simp: stop_worker_def send_to_worker_def Let_def split: sum.splits)
  ultimately show ?thesis using shutdown_stop assms(3) by (simp add: running_def)
qed (use assms(3) in \<open>auto simp: running_def number_task_def register_task_def choose_worker_def
    take_result_def FailAllPending_def Let_def split: option.splits\<close>)

lemma pool_run_refused:
  assumes "(pool_step exec)\<^sup>*\<^sup>* z t" and "pool_init z" and "exec_small exec"
    and "submitted t < 2 ^ 64" and "running t"
  shows "refused t = []"
  using assms
proof (induction rule: rtranclp_induct)
  case base
  then show ?case by (auto simp: pool_init_def ProcessPool_def split: if_splits)
next
  case (step u t)
  from pool_step_submitted [OF step.hyps(2)] step.prems(3) have sub: "submitted u < 2 ^ 64" by simp
  from pool_reachable [OF step.prems(1) step.hyps(1) step.prems(2) sub] obtain RQ RS where
    "pool_inv exec RQ RS u" .
  from pool_step_refused [OF step.hyps(2) this step.prems(4)] step.IH step.prems sub show ?case by simp
qed

section \<open>The last message of a socket\<close>

lemmas worker_pass_one = worker_pass_run [where rest = "[]", simplified] worker_pass_stop [where rest = "[]", simplified]

end
