(* ===== verification/Pool_Runs.thy ===== *)
theory Pool_Runs
  imports Pool_Progress
begin

text \<open>
  The properties of the process pool: every future gets the outcome of its own task or the
  failure of the shutdown, exactly once; nothing that was submitted is lost; the sockets stay
  well formed; a task run in a worker is a local call; and how a submission that races with the
  shutdown ends the process.
\<close>

section \<open>Concrete runs\<close>

text \<open>One worker and one thread; an executor that doubles a byte; one task.\<close>

definition small_pool :: pool where
  "small_pool = \<lparr>workers = [SpawnWorker], next_worker = 0, stopping = False, next_task_id = 1,
     pending_map = Map.empty, futures = Map.empty, clients = [ClIdle], shutdown = ShNever,
     killed = False, tasks = Map.empty, submitted = 0, returned = [], refused = [], crashed = False\<rparr>"

definition twice :: executors where
  "twice a p = (case p of [] \<Rightarrow> ([], bytes_of ''no argument'') | b # bs \<Rightarrow> ([b + b], []))"

definition task_21 :: task where
  "task_21 = \<lparr>kind = PendingValue 1, exec_addr = 7, payload = [21]\<rparr>"

definition answer_42 :: shared_state where
  "answer_42 = \<lparr>st_ready = True, st_value = Some [42], st_error = None\<rparr>"

definition submit_moves :: "pool_move list" where
  "submit_moves = [GoSubmit 0 task_21, GoClient 0, GoClient 0, GoClient 0]"

definition stop_moves :: "pool_move list" where
  "stop_moves = [GoShutdown, GoShutdown, GoShutdown, GoWorker 0, GoWorker 0, GoReader 0, GoReader 0, GoShutdown, GoShutdown,
     GoShutdown, GoShutdown, GoShutdown]"

lemma small_pool_init: "pool_init small_pool"
  unfolding pool_init_def
  by (rule exI [of _ 1], rule exI [of _ 1]) (simp add: ProcessPool_def small_pool_def)

lemma twice_small: "exec_small twice"
  by (auto simp: exec_small_def twice_def bytes_of_def split: list.splits)

lemmas pool_eval = small_pool_def twice_def task_21_def answer_42_def submit_moves_def stop_moves_def
  SpawnWorker_def number_task_def register_task_def choose_worker_def deliver_task_def send_to_worker_def
  stop_worker_def take_result_def client_turn_def worker_turn_def reader_turn_def shutdown_turn_def
  FailAllPending_def Let_def worker_pass_run worker_pass_one response_for_def reader_pass_def result_codec.dec_enc
  complete_def MakeState_def

lemma answered_run:
  "\<exists>t. pool_turns twice (submit_moves @ [GoWorker 0, GoReader 0]) small_pool = Some t \<and> submitted t = 1 \<and>
    tasks t 1 = Some task_21 \<and> futures t 1 = Some answer_42 \<and> returned t = [1] \<and> running t"
  by (simp add: pool_eval running_def)

lemma waiting_run:
  "\<exists>t. pool_turns twice submit_moves small_pool = Some t \<and> submitted t = 1 \<and> returned t = [1] \<and> running t \<and>
    length (workers t) = 1 \<and> futures t 1 = Some MakeState"
  by (simp add: pool_eval running_def)

lemma stopped_run:
  "\<exists>t. pool_turns twice (submit_moves @ stop_moves) small_pool = Some t \<and> submitted t = 1 \<and>
    shutdown t = ShDone \<and> returned t = [1] \<and> futures t 1 = Some answer_42"
  by (simp add: pool_eval)

section \<open>Futures\<close>

text \<open>C3: A future never gets the result of another task. On every run of any number of workers
  and of threads that call Submit, with crashes and a shutdown at any time, a future that is
  ready holds exactly the outcome of the task it was created for, or, once Shutdown has been
  called, the exception of the shutdown.\<close>
theorem pool_results_correct:
  assumes "pool_init s" and "(pool_step exec)\<^sup>*\<^sup>* s t" and "exec_small exec" and "submitted t < 2 ^ 64"
    and "tasks t n = Some tk" and "futures t n = Some st" and "st_ready st"
  shows "st = outcome (kind tk) (exec (exec_addr tk) (payload tk)) MakeState \<or>
    st = SetException ShutdownReason MakeState \<and> stopping t"
proof -
  from pool_reachable [OF assms(1-4)] obtain RQ RS where "pool_inv exec RQ RS t" .
  with assms(5) have "futures t n = Some MakeState \<or>
      futures t n = Some (outcome (kind tk) (result_of exec tk) MakeState) \<or>
      futures t n = Some (SetException ShutdownReason MakeState) \<and> stopping t"
    unfolding pool_inv_def futures_ok_def by blast
  with assms(6,7) show ?thesis by (auto simp: result_of_def)
qed

theorem pool_results_correct_witness:
  "\<exists>t. (pool_step twice)\<^sup>*\<^sup>* small_pool t \<and> futures t 1 = Some answer_42 \<and>
    (answer_42 = outcome (PendingValue 1) (twice 7 [21]) MakeState \<or>
     answer_42 = SetException ShutdownReason MakeState \<and> stopping t)"
proof -
  from answered_run obtain t where t: "pool_turns twice (submit_moves @ [GoWorker 0, GoReader 0]) small_pool = Some t"
    "submitted t = 1" "tasks t 1 = Some task_21" "futures t 1 = Some answer_42" by blast
  have "st_ready answer_42" by (simp add: answer_42_def)
  from pool_results_correct [OF small_pool_init pool_turns_run [OF t(1)] twice_small _ t(3,4) this] t
  show ?thesis by (auto simp: task_21_def dest: pool_turns_run)
qed

text \<open>A future is completed once: whatever the workers, the readers, other submissions, crashes
  and the shutdown do later, a future that is ready keeps its value or its exception.\<close>
theorem future_completed_once:
  assumes "pool_init z" and "(pool_step exec)\<^sup>*\<^sup>* z s" and "(pool_step exec)\<^sup>*\<^sup>* s t" and "exec_small exec"
    and "submitted t < 2 ^ 64" and "futures s n = Some st" and "st_ready st"
  shows "futures t n = Some st"
  using pool_run_settled [OF assms(3,1,2,4,5,6,7)] .

theorem future_completed_once_witness:
  "\<exists>s t. (pool_step twice)\<^sup>*\<^sup>* small_pool s \<and> (pool_step twice)\<^sup>*\<^sup>* s t \<and> stopping t \<and> futures t 1 = Some answer_42"
proof -
  from answered_run obtain s where s: "pool_turns twice (submit_moves @ [GoWorker 0, GoReader 0]) small_pool = Some s"
    "submitted s = 1" "futures s 1 = Some answer_42" "running s" by blast
  note run = pool_turns_run [OF s(1)]
  from pool_reachable [OF small_pool_init run twice_small] s(2) obtain RQ RS where inv: "pool_inv twice RQ RS s" by auto
  let ?t = "s\<lparr>stopping := True, shutdown := ShStop 0\<rparr>"
  have "\<not> killed s" "\<not> stopping s" using running_not_killed [OF inv s(4)] s(4) by (simp_all add: running_def)
  then have step: "(pool_step twice)\<^sup>*\<^sup>* s ?t" using shutdown_begin by blast
  have "submitted ?t < 2 ^ 64" "st_ready answer_42" using s(2) by (simp_all add: answer_42_def)
  from future_completed_once [OF small_pool_init run step twice_small this(1) s(3) this(2)] run step
  show ?thesis by (intro exI [of _ s] exI [of _ ?t]) simp
qed

section \<open>Nothing is lost\<close>

text \<open>C4: As long as Shutdown has not been called and no worker has crashed, the pool loses
  nothing and refuses nothing: the process is alive, no Submit has thrown, and the workers and
  readers alone, after finitely many steps, bring it to a state in which they have nothing left to
  do, where every future that Submit has returned holds the outcome of its task.\<close>
theorem pool_completes_tasks:
  assumes "pool_init s" and "(pool_step exec)\<^sup>*\<^sup>* s t" and "exec_small exec" and "submitted t < 2 ^ 64"
    and "\<not> stopping t" and "\<not> crashed t"
  shows "\<not> killed t \<and> refused t = [] \<and>
    (\<exists>u. (pool_work exec)\<^sup>*\<^sup>* t u \<and> returned u = returned t \<and> idle exec u \<and>
      set (returned u) \<subseteq> {n. answered exec u n})"
proof -
  from pool_reachable [OF assms(1-4)] obtain RQ RS where inv: "pool_inv exec RQ RS t" .
  have run: "running t" using assms(5,6) by (simp add: running_def)
  from pool_drain [OF inv assms(3) run] obtain u RQ' RS' where u: "(pool_work exec)\<^sup>*\<^sup>* t u"
    "returned u = returned t" "running u" "idle exec u" "pool_inv exec RQ' RS' u" by blast
  with idle_answered [OF u(5) assms(3) u(3,4)] running_not_killed [OF inv run]
    pool_run_refused [OF assms(2,1,3,4) run] show ?thesis by blast
qed

theorem pool_completes_tasks_witness:
  "\<exists>t. (pool_step twice)\<^sup>*\<^sup>* small_pool t \<and> futures t 1 = Some MakeState \<and> returned t = [1] \<and>
    (\<exists>u. (pool_work twice)\<^sup>*\<^sup>* t u \<and> returned u = [1] \<and> answered twice u 1)"
proof -
  from waiting_run obtain t where t: "pool_turns twice submit_moves small_pool = Some t" "submitted t = 1"
    "returned t = [1]" "running t" "futures t 1 = Some MakeState" by blast
  note run = pool_turns_run [OF t(1)]
  have "submitted t < 2 ^ 64" "\<not> stopping t" "\<not> crashed t" using t(2,4) by (simp_all add: running_def)
  from pool_completes_tasks [OF small_pool_init run twice_small this] run t(3,5) show ?thesis
    by (intro exI [of _ t]) auto
qed

text \<open>When the workers and readers of a pool that is not being shut down, and whose workers have
  not crashed, cannot move, every future that Submit has returned is ready with the outcome of its
  own task: no task is forgotten in a socket or in the map of pending handlers.\<close>
theorem pool_quiescent_complete:
  assumes "pool_init s" and "(pool_step exec)\<^sup>*\<^sup>* s t" and "exec_small exec" and "submitted t < 2 ^ 64"
    and "\<not> stopping t" and "\<not> crashed t" and "idle exec t" and "n \<in> set (returned t)"
  shows "\<exists>tk. tasks t n = Some tk \<and>
    futures t n = Some (outcome (kind tk) (exec (exec_addr tk) (payload tk)) MakeState)"
proof -
  from pool_reachable [OF assms(1-4)] obtain RQ RS where "pool_inv exec RQ RS t" .
  from idle_answered [OF this assms(3) _ assms(7,8)] assms(5,6) show ?thesis
    by (simp add: answered_def running_def result_of_def)
qed

theorem pool_quiescent_complete_witness:
  "\<exists>t. (pool_step twice)\<^sup>*\<^sup>* small_pool t \<and> returned t = [1] \<and> (\<exists>tk. tasks t 1 = Some tk \<and>
    futures t 1 = Some (outcome (kind tk) (twice (exec_addr tk) (payload tk)) MakeState))"
proof -
  have "\<exists>t. pool_turns twice (submit_moves @ [GoWorker 0, GoReader 0]) small_pool = Some t \<and> submitted t = 1 \<and>
    returned t = [1] \<and> \<not> stopping t \<and> \<not> crashed t \<and> idle twice t"
    by (simp add: pool_eval idle_def)
  then obtain t where t: "pool_turns twice (submit_moves @ [GoWorker 0, GoReader 0]) small_pool = Some t"
    "submitted t = 1" "returned t = [1]" "\<not> stopping t" "\<not> crashed t" "idle twice t" by blast
  note run = pool_turns_run [OF t(1)]
  from pool_quiescent_complete [OF small_pool_init run twice_small _ t(4-6)] t(2,3) run show ?thesis by auto
qed

text \<open>C16: When Shutdown has returned, every worker process has exited and been waited for, and every
  future that Submit has returned is ready, with the outcome of its task or the exception of the
  shutdown: nobody who holds a future sleeps for ever.\<close>
theorem pool_shutdown_settles:
  assumes "pool_init s" and "(pool_step exec)\<^sup>*\<^sup>* s t" and "exec_small exec" and "submitted t < 2 ^ 64"
    and "shutdown t = ShDone" and "n \<in> set (returned t)"
  shows "list_all (\<lambda>x. child x = Exited \<and> reaped x) (workers t) \<and>
    (\<exists>tk st. tasks t n = Some tk \<and> futures t n = Some st \<and> st_ready st \<and>
      (st = outcome (kind tk) (exec (exec_addr tk) (payload tk)) MakeState \<or>
       st = SetException ShutdownReason MakeState))"
proof -
  from pool_reachable [OF assms(1-4)] obtain RQ RS where inv: "pool_inv exec RQ RS t" .
  then have "list_all (\<lambda>x. child x = Exited \<and> reaped x) (workers t)"
    using assms(5) by (auto simp: pool_inv_def phases_ok_def list_all_length)
  moreover obtain tk where tk: "tasks t n = Some tk"
    using inv assms(6) unfolding pool_inv_def returned_ok_def by blast
  moreover have "settled t n" using inv assms(5,6) unfolding pool_inv_def phases_ok_def by blast
  moreover have "futures t n = Some MakeState \<or>
      futures t n = Some (outcome (kind tk) (result_of exec tk) MakeState) \<or>
      futures t n = Some (SetException ShutdownReason MakeState) \<and> stopping t"
    using inv tk unfolding pool_inv_def futures_ok_def by blast
  ultimately show ?thesis by (auto simp: settled_def result_of_def)
qed

theorem pool_shutdown_settles_witness:
  "\<exists>t. (pool_step twice)\<^sup>*\<^sup>* small_pool t \<and> shutdown t = ShDone \<and>
    list_all (\<lambda>x. child x = Exited \<and> reaped x) (workers t) \<and>
    (\<exists>tk st. tasks t 1 = Some tk \<and> futures t 1 = Some st \<and> st_ready st \<and>
      (st = outcome (kind tk) (twice (exec_addr tk) (payload tk)) MakeState \<or>
       st = SetException ShutdownReason MakeState))"
proof -
  from stopped_run obtain t where t: "pool_turns twice (submit_moves @ stop_moves) small_pool = Some t"
    "submitted t = 1" "shutdown t = ShDone" "returned t = [1]" by blast
  note run = pool_turns_run [OF t(1)]
  from pool_shutdown_settles [OF small_pool_init run twice_small _ t(3)] t(2,3,4) run show ?thesis by auto
qed

section \<open>The sockets\<close>

text \<open>C31: The byte streams stay well formed. Whatever a worker decodes from its request socket is a
  stop or a task with the number, the executor and the payload it was submitted with; whatever a
  reader decodes from its response socket is the result of a submitted task, under its number, and
  completes a handler with the outcome of that task.\<close>
theorem pool_sockets_well_formed:
  assumes "pool_init s" and "(pool_step exec)\<^sup>*\<^sup>* s t" and "exec_small exec" and "submitted t < 2 ^ 64"
    and "w < length (workers t)"
  shows "(case worker_pass junk exec (request (workers t ! w)) of
      None \<Rightarrow> True
    | Some (r, rest) \<Rightarrow> r = WorkerStops \<or>
        (\<exists>n tk. tasks t n = Some tk \<and> r = Responds (response_for junk n (exec (exec_addr tk) (payload tk)))))
    \<and> (case reader_pass (response (workers t ! w)) of
      None \<Rightarrow> True
    | Some (h, bytes, rest) \<Rightarrow>
        (\<exists>tk. tasks t (result_id h) = Some tk \<and>
          (\<forall>p st. complete p h bytes st = outcome p (exec (exec_addr tk) (payload tk)) st)))"
proof -
  from pool_reachable [OF assms(1-4)] obtain RQ RS where inv: "pool_inv exec RQ RS t" .
  note wk = pool_inv_worker [OF inv assms(5)]
  have "r = WorkerStops \<or>
      (\<exists>n tk. tasks t n = Some tk \<and> r = Responds (response_for junk n (exec (exec_addr tk) (payload tk))))"
    if "worker_pass junk exec (request (workers t ! w)) = Some (r, rest)" for r rest
    using worker_ok_request [OF wk(1) that wk(4)] by (metis result_of_def)
  moreover have "\<exists>tk. tasks t (result_id h) = Some tk \<and>
      (\<forall>p st. complete p h bytes st = outcome p (exec (exec_addr tk) (payload tk)) st)"
    if "reader_pass (response (workers t ! w)) = Some (h, bytes, rest)" for h bytes rest
    using worker_ok_response [OF wk(1) that assms(3)] by (metis result_of_def)
  ultimately show ?thesis by (auto split: option.splits)
qed

theorem pool_sockets_well_formed_witness:
  "\<exists>t. (pool_step twice)\<^sup>*\<^sup>* small_pool t \<and> returned t = [1] \<and>
    (case worker_pass [] twice (request (workers t ! 0)) of
      None \<Rightarrow> True
    | Some (r, rest) \<Rightarrow> r = WorkerStops \<or>
        (\<exists>n tk. tasks t n = Some tk \<and> r = Responds (response_for [] n (twice (exec_addr tk) (payload tk)))))"
proof -
  from waiting_run obtain t where t: "pool_turns twice submit_moves small_pool = Some t" "submitted t = 1"
    "returned t = [1]" "length (workers t) = 1" by blast
  note run = pool_turns_run [OF t(1)]
  have "submitted t < 2 ^ 64" "0 < length (workers t)" using t(2,4) by simp_all
  note fact = pool_sockets_well_formed [OF small_pool_init run twice_small this, of "[]", THEN conjunct1]
  show ?thesis by (rule exI [of _ t], intro conjI run t(3) fact)
qed

section \<open>A task in a worker is a local call\<close>

text \<open>C20: Running a task through the pool is calling it. For a function and arguments that Submit
  serialises, what Get finds in the future that ExecuteTyped's result completes is what the call
  returns, byte for byte, or a runtime_error with the text of what it throws, both for a result of
  a trivially copyable type and for void; with one exception: an exception whose text is empty is
  taken for a success by a void task and for a malformed result by the others.\<close>
theorem remote_call_is_local_call:
  assumes "\<forall>v. call fn args = Inr v \<longrightarrow> length v = sizeof" and "0 < sizeof"
  shows "Get (Some (outcome (PendingValue sizeof)
        (ExecuteTyped (map length args) False call (submit_payload fn args)) MakeState)) =
      (case call fn args of
         Inr v \<Rightarrow> GetReturned v
       | Inl OtherThrown \<Rightarrow> GetThrew (RuntimeError (bytes_of ''unknown exception''))
       | Inl (StdException text) \<Rightarrow>
           GetThrew (RuntimeError (if text = [] then bytes_of ''invalid payload size for result'' else text)))
    \<and> GetVoid (Some (outcome PendingVoid
        (ExecuteTyped (map length args) True call (submit_payload fn args)) MakeState)) =
      (case call fn args of
         Inr v \<Rightarrow> GetReturned []
       | Inl OtherThrown \<Rightarrow> GetThrew (RuntimeError (bytes_of ''unknown exception''))
       | Inl (StdException text) \<Rightarrow> (if text = [] then GetReturned [] else GetThrew (RuntimeError text)))"
  using assms
  by (auto simp: ExecuteTyped_submitted outcome_def Get_def GetVoid_def Wait_def EnsureValid_def rethrow_or_def
      SetException_def MakeState_def bytes_of_def split: sum.splits thrown.splits)

theorem remote_call_is_local_call_witness:
  "Get (Some (outcome (PendingValue 1)
      (ExecuteTyped [1, 1] False (\<lambda>fn args. Inr [hd (hd args) + hd (hd (tl args))]) (submit_payload 9 [[20], [22]]))
      MakeState)) = GetReturned [42]"
  using remote_call_is_local_call [of "\<lambda>fn args. Inr [hd (hd args) + hd (hd (tl args))]" 9 "[[20], [22]]" 1]
  by simp

section \<open>A dead peer\<close>

text \<open>
  A worker that has crashed: its task is returned, its reader has ended, and the future is not
  ready; nothing but a shutdown will complete it.
\<close>

lemma crashed_worker_strands_task:
  "\<exists>t. (pool_step twice)\<^sup>*\<^sup>* small_pool t \<and> returned t = [1] \<and> futures t 1 = Some MakeState \<and>
     list_all (\<lambda>x. child x = Exited \<and> reader x = ReaderDone) (workers t)"
proof -
  have "\<exists>t. pool_turns twice (submit_moves @ [KillWorker 0, GoReader 0]) small_pool = Some t \<and> returned t = [1] \<and>
      futures t 1 = Some MakeState \<and> list_all (\<lambda>x. child x = Exited \<and> reader x = ReaderDone) (workers t)"
    by (simp add: pool_eval)
  then show ?thesis using pool_turns_run by blast
qed

text \<open>C17: A write to a worker that has exited ends the whole process: nothing blocks or ignores
  SIGPIPE, so WriteExact never gets to throw. It happens without any crash, when a thread that has
  passed the check of stopping in Submit writes after the worker has obeyed the stop of Shutdown;
  and it happens in Shutdown itself, whose handler around the write is meant to survive it, when a
  worker has crashed before.\<close>
theorem dead_worker_kills_process:
  "(\<exists>t. pool_init small_pool \<and> (pool_step twice)\<^sup>*\<^sup>* small_pool t \<and> killed t \<and> \<not> crashed t \<and> shutdown t = ShJoin 0) \<and>
   (\<exists>t. (pool_step twice)\<^sup>*\<^sup>* small_pool t \<and> killed t \<and> clients t = [ClIdle] \<and> shutdown t = ShStop 1)"
proof -
  have "\<exists>t. pool_turns twice [GoSubmit 0 task_21, GoClient 0, GoClient 0, GoShutdown, GoShutdown, GoShutdown,
      GoWorker 0, GoClient 0] small_pool = Some t \<and> killed t \<and> \<not> crashed t \<and> shutdown t = ShJoin 0"
    by (simp add: pool_eval)
  moreover have "\<exists>t. pool_turns twice [KillWorker 0, GoShutdown, GoShutdown] small_pool = Some t \<and> killed t \<and>
      clients t = [ClIdle] \<and> shutdown t = ShStop 1"
    by (simp add: pool_eval)
  ultimately show ?thesis using pool_turns_run small_pool_init by blast
qed

end
