(* ===== verification/Frames.thy ===== *)
theory Frames
  imports Main
begin

text \<open>
  Messages in a byte stream: a header of fixed length that says how many bytes follow it. Both
  directions of the sockets of the process pool carry such messages. The interface is what a
  receiver needs to know that it never takes the end of one message for the begin of the next.
\<close>

locale framing =
  fixes head :: nat
    and follows :: "'b list \<Rightarrow> nat"
  assumes head_pos: "0 < head"
begin

text \<open>A whole message; what is still missing of a message that has begun.\<close>

definition whole :: "'b list \<Rightarrow> bool" where
  "whole m \<longleftrightarrow> head \<le> length m \<and> length m = head + follows (take head m)"

definition missing :: "'b list \<Rightarrow> nat" where
  "missing g = (if length g < head then head - length g else head + follows (take head g) - length g)"

definition begun :: "'b list \<Rightarrow> bool" where
  "begun g \<longleftrightarrow> length g \<le> head \<or> length g \<le> head + follows (take head g)"

lemma begun_Nil [simp]: "begun []"
  by (simp add: begun_def)

lemma missing_Nil: "0 < missing []"
  using head_pos by (simp add: missing_def)

lemma whole_not_Nil: "whole m \<Longrightarrow> m \<noteq> []"
  using head_pos by (auto simp: whole_def)

lemma begun_append:
  assumes "begun g" and "length bs \<le> missing g"
  shows "begun (g @ bs)"
  using assms by (auto simp: begun_def missing_def split: if_splits)

lemma begun_whole: "begun g \<Longrightarrow> missing g = 0 \<Longrightarrow> whole g"
  by (auto simp: begun_def missing_def whole_def split: if_splits)

lemma whole_missing: "whole g \<Longrightarrow> missing g = 0"
  by (simp add: whole_def missing_def)

lemma same_header:
  assumes "whole a" and "whole b" and "take head a = take head b"
  shows "length a = length b"
  using assms by (simp add: whole_def)

text \<open>A whole message at the begin of a stream of messages is the first of them.\<close>

lemma first_frame:
  assumes "g @ rest = concat ms @ take n t" and "\<forall>m \<in> set ms. whole m" and "whole t" and "n < length t" and "whole g"
  shows "\<exists>ms'. ms = g # ms' \<and> rest = concat ms' @ take n t"
proof (cases ms)
  case Nil
  then have eq: "g @ rest = take n t" using assms(1) by simp
  then have le: "length g \<le> n" by (metis assms(4) length_append length_take le_add1 min.absorb4)
  then have "g = take (length g) t" using eq by (metis append_eq_conv_conj min.absorb1 take_take)
  then have "take head g = take head t" using assms(5) by (metis min.absorb1 take_take whole_def)
  with same_header [OF assms(5,3)] assms(4) le show ?thesis by simp
next
  case (Cons m ms')
  then have m: "whole m" and eq: "g @ rest = m @ concat ms' @ take n t" using assms(1,2) by simp_all
  have "take head (g @ rest) = take head g" "take head (m @ concat ms' @ take n t) = take head m"
    using assms(5) m by (simp_all add: whole_def)
  then have "length g = length m" using same_header [OF assms(5) m] eq by simp
  with eq Cons show ?thesis by simp
qed

text \<open>A stream that has not a whole message to offer is at the begin of one.\<close>

lemma no_frame:
  assumes "concat ms @ part = g" and "\<forall>m \<in> set ms. whole m" and "0 < missing g" and "begun g"
  shows "ms = []"
proof (rule ccontr)
  assume "ms \<noteq> []"
  then obtain m ms' where ms: "ms = m # ms'" by (cases ms) auto
  then have m: "whole m" and g: "g = m @ concat ms' @ part" using assms(1,2) by auto
  then have "take head g = take head m" "length m \<le> length g" "head \<le> length m" by (simp_all add: whole_def)
  then have "missing g = 0" using m by (simp add: missing_def whole_def)
  with assms(3) show False by simp
qed

end

end
