(* ===== verification/Pool_Fine.thy ===== *)
theory Pool_Fine
  imports Pool_Progress Frames
begin

text \<open>
  The process pool with its sockets as they are: a socket has a capacity, one system call moves
  some of the bytes of a message, the worker and the reader collect a message from several calls, a
  thread holds \<open>write_mutex\<close> from the first byte of its message to the last, and a worker can
  crash with a message half read or half written. The state between the calls is that of theory
  \<open>Pool_System\<close>, with these links in the place of its workers.
\<close>

section \<open>State\<close>

text \<open>Who holds \<open>write_mutex\<close>, its message and how many bytes of it have been written.\<close>

datatype sender = SClient nat | SShutdown

record sending =
  who :: sender
  msg :: "u8 list"
  sent :: nat

text \<open>
  A worker collects a request, or it writes a response: the request is kept as a ghost.
\<close>

datatype child_io = ReadsRequest "u8 list" | WritesResponse "u8 list" "u8 list" nat

text \<open>
  The bytes in the two sockets, the lock, the worker, what its reader has collected. The ghost
  \<open>torn\<close> counts the bytes of messages that were given up half written.
\<close>

record link =
  rq_sock :: "u8 list"
  rs_sock :: "u8 list"
  write_lock :: "sending option"
  torn :: nat
  child_io :: child_io
  got :: "u8 list"
  lchild :: child_pc
  lreader :: reader_pc
  lreaped :: bool

definition new_link :: link where
  "new_link = \<lparr>rq_sock = [], rs_sock = [], write_lock = None, torn = 0, child_io = ReadsRequest [],
     got = [], lchild = Alive, lreader = Reading, lreaped = False\<rparr>"

record fine =
  base :: pool
  links :: "link list"

definition set_link :: "nat \<Rightarrow> link \<Rightarrow> fine \<Rightarrow> fine" where
  "set_link w l c = c\<lparr>links := (links c)[w := l]\<rparr>"

definition set_base :: "pool \<Rightarrow> fine \<Rightarrow> fine" where
  "set_base s c = c\<lparr>base := s\<rparr>"

definition fine_init :: "fine \<Rightarrow> bool" where
  "fine_init c \<longleftrightarrow> pool_init (base c) \<and> links c = replicate (length (workers (base c))) new_link"

section \<open>One call\<close>

text \<open>What follows a task header, a result header; the length of both is \<open>sizeof\<close> of the headers.\<close>

definition request_follows :: "u8 list \<Rightarrow> nat" where
  "request_follows h =
     (if command (bytes_task h) = command_code StopWorker then 0 else unat (payload_size (bytes_task h)))"

definition response_follows :: "u8 list \<Rightarrow> nat" where
  "response_follows h = unat (result_size (bytes_result h))"

interpretation rq: framing 32 request_follows
  by unfold_locales simp

interpretation rs: framing 24 response_follows
  by unfold_locales simp

text \<open>
  A call of \<open>write\<close> for a message of two parts, the header and the payload, of which \<open>n\<close> bytes
  are written: it takes at least one byte, no more than there is room for, and nothing beyond the part
  that is being written.
\<close>

definition can_write :: "nat \<Rightarrow> nat \<Rightarrow> u8 list \<Rightarrow> nat \<Rightarrow> u8 list \<Rightarrow> nat \<Rightarrow> bool" where
  "can_write cap header_size m n sock k \<longleftrightarrow>
     0 < k \<and> length sock + k \<le> cap \<and> n + k \<le> (if n < header_size then header_size else length m)"

definition part :: "u8 list \<Rightarrow> nat \<Rightarrow> nat \<Rightarrow> u8 list" where
  "part m n k = take k (drop n m)"

text \<open>A call of \<open>read\<close> for a message of which \<open>m\<close> bytes are missing.\<close>

definition can_read :: "nat \<Rightarrow> u8 list \<Rightarrow> nat \<Rightarrow> bool" where
  "can_read m sock k \<longleftrightarrow> 0 < k \<and> k \<le> m \<and> k \<le> length sock"

text \<open>The message is written, the lock is free, and \<open>Submit\<close> or \<open>Shutdown\<close> goes on; or it cannot be written.\<close>

fun sender_done :: "sender \<Rightarrow> pool \<Rightarrow> pool" where
  "sender_done (SClient i) s =
     (case clients s ! i of
        ClChosen t n w \<Rightarrow> (set_client i ClIdle s)\<lparr>returned := returned s @ [n]\<rparr>
      | _ \<Rightarrow> s)"
| "sender_done SShutdown s = (case shutdown s of ShStop w \<Rightarrow> s\<lparr>shutdown := ShStop (Suc w)\<rparr> | _ \<Rightarrow> s)"

fun sender_fails :: "sender \<Rightarrow> pool \<Rightarrow> pool" where
  "sender_fails (SClient i) s =
     (case clients s ! i of
        ClChosen t n w \<Rightarrow> (set_client i ClIdle s)\<lparr>refused := refused s @ [n]\<rparr>
      | _ \<Rightarrow> s)"
| "sender_fails SShutdown s = (case shutdown s of ShStop w \<Rightarrow> s\<lparr>shutdown := ShStop (Suc w)\<rparr> | _ \<Rightarrow> s)"

text \<open>\<open>SIGPIPE\<close> ends the process in the middle of a write.\<close>

fun sender_killed :: "sender \<Rightarrow> pool \<Rightarrow> pool" where
  "sender_killed (SClient i) s = s\<lparr>killed := True\<rparr>"
| "sender_killed SShutdown s =
     (case shutdown s of ShStop w \<Rightarrow> s\<lparr>killed := True, shutdown := ShStop (Suc w)\<rparr> | _ \<Rightarrow> s)"

section \<open>Steps\<close>

text \<open>
  The threads and processes at their sockets: the thread that has the lock, the workers, the readers.
\<close>

inductive fine_io :: "nat \<Rightarrow> executors \<Rightarrow> fine \<Rightarrow> fine \<Rightarrow> bool" for cap exec where
  f_write:
    "\<not> killed (base c) \<Longrightarrow> w < length (links c) \<Longrightarrow> links c ! w = l \<Longrightarrow> write_lock l = Some x \<Longrightarrow>
     \<not> lreaped l \<Longrightarrow> lchild l = Alive \<Longrightarrow> can_write cap 32 (msg x) (sent x) (rq_sock l) k \<Longrightarrow>
     sent x + k < length (msg x) \<Longrightarrow>
     fine_io cap exec c
       (set_link w (l\<lparr>rq_sock := rq_sock l @ part (msg x) (sent x) k, write_lock := Some (x\<lparr>sent := sent x + k\<rparr>)\<rparr>) c)"
| f_write_last:
    "\<not> killed (base c) \<Longrightarrow> w < length (links c) \<Longrightarrow> links c ! w = l \<Longrightarrow> write_lock l = Some x \<Longrightarrow>
     \<not> lreaped l \<Longrightarrow> lchild l = Alive \<Longrightarrow> can_write cap 32 (msg x) (sent x) (rq_sock l) k \<Longrightarrow>
     sent x + k = length (msg x) \<Longrightarrow>
     fine_io cap exec c
       (set_base (sender_done (who x) (base c))
         (set_link w (l\<lparr>rq_sock := rq_sock l @ part (msg x) (sent x) k, write_lock := None\<rparr>) c))"
| f_write_fails:
    "\<not> killed (base c) \<Longrightarrow> w < length (links c) \<Longrightarrow> links c ! w = l \<Longrightarrow> write_lock l = Some x \<Longrightarrow> lreaped l \<Longrightarrow>
     fine_io cap exec c
       (set_base (sender_fails (who x) (base c)) (set_link w (l\<lparr>write_lock := None, torn := torn l + sent x\<rparr>) c))"
| f_child_reads:
    "w < length (links c) \<Longrightarrow> links c ! w = l \<Longrightarrow> lchild l = Alive \<Longrightarrow> child_io l = ReadsRequest g \<Longrightarrow>
     can_read (rq.missing g) (rq_sock l) k \<Longrightarrow>
     fine_io cap exec c
       (set_link w (l\<lparr>child_io := ReadsRequest (g @ take k (rq_sock l)), rq_sock := drop k (rq_sock l)\<rparr>) c)"
| f_child_stops:
    "w < length (links c) \<Longrightarrow> links c ! w = l \<Longrightarrow> lchild l = Alive \<Longrightarrow> child_io l = ReadsRequest g \<Longrightarrow>
     worker_pass junk exec g = Some (WorkerStops, []) \<Longrightarrow>
     fine_io cap exec c (set_link w (l\<lparr>child_io := ReadsRequest [], lchild := Exited\<rparr>) c)"
| f_child_runs:
    "w < length (links c) \<Longrightarrow> links c ! w = l \<Longrightarrow> lchild l = Alive \<Longrightarrow> child_io l = ReadsRequest g \<Longrightarrow>
     worker_pass junk exec g = Some (Responds r, []) \<Longrightarrow>
     fine_io cap exec c (set_link w (l\<lparr>child_io := WritesResponse g r 0\<rparr>) c)"
| f_child_writes:
    "w < length (links c) \<Longrightarrow> links c ! w = l \<Longrightarrow> lchild l = Alive \<Longrightarrow> child_io l = WritesResponse m r n \<Longrightarrow>
     can_write cap 24 r n (rs_sock l) k \<Longrightarrow> n + k < length r \<Longrightarrow>
     fine_io cap exec c
       (set_link w (l\<lparr>rs_sock := rs_sock l @ part r n k, child_io := WritesResponse m r (n + k)\<rparr>) c)"
| f_child_writes_last:
    "w < length (links c) \<Longrightarrow> links c ! w = l \<Longrightarrow> lchild l = Alive \<Longrightarrow> child_io l = WritesResponse m r n \<Longrightarrow>
     can_write cap 24 r n (rs_sock l) k \<Longrightarrow> n + k = length r \<Longrightarrow>
     fine_io cap exec c (set_link w (l\<lparr>rs_sock := rs_sock l @ part r n k, child_io := ReadsRequest []\<rparr>) c)"
| f_reader_reads:
    "\<not> killed (base c) \<Longrightarrow> w < length (links c) \<Longrightarrow> links c ! w = l \<Longrightarrow> lreader l = Reading \<Longrightarrow>
     can_read (rs.missing (got l)) (rs_sock l) k \<Longrightarrow>
     fine_io cap exec c (set_link w (l\<lparr>got := got l @ take k (rs_sock l), rs_sock := drop k (rs_sock l)\<rparr>) c)"
| f_reader_takes:
    "\<not> killed (base c) \<Longrightarrow> w < length (links c) \<Longrightarrow> links c ! w = l \<Longrightarrow> lreader l = Reading \<Longrightarrow>
     reader_pass (got l) = Some (h, bytes, []) \<Longrightarrow>
     fine_io cap exec c (set_base (take_result h bytes (base c)) (set_link w (l\<lparr>got := []\<rparr>) c))"
| f_reader_ends:
    "\<not> killed (base c) \<Longrightarrow> w < length (links c) \<Longrightarrow> links c ! w = l \<Longrightarrow> lreader l = Reading \<Longrightarrow>
     lchild l = Exited \<Longrightarrow> rs_sock l = [] \<Longrightarrow> 0 < rs.missing (got l) \<Longrightarrow>
     fine_io cap exec c (set_link w (l\<lparr>lreader := ReaderDone\<rparr>) c)"

text \<open>Everything else: the calls, the lock, a crash, the signal, the shutdown.\<close>

inductive fine_step :: "nat \<Rightarrow> executors \<Rightarrow> fine \<Rightarrow> fine \<Rightarrow> bool" for cap exec where
  f_io: "fine_io cap exec c d \<Longrightarrow> fine_step cap exec c d"
| f_call:
    "\<not> killed (base c) \<Longrightarrow> i < length (clients (base c)) \<Longrightarrow> clients (base c) ! i = ClIdle \<Longrightarrow>
     length (payload t) < 2 ^ 64 \<Longrightarrow> fine_step cap exec c (set_base (number_task i t (base c)) c)"
| f_register:
    "\<not> killed (base c) \<Longrightarrow> i < length (clients (base c)) \<Longrightarrow> clients (base c) ! i = ClNumbered t n \<Longrightarrow>
     fine_step cap exec c (set_base (register_task i t n (base c)) c)"
| f_choose:
    "\<not> killed (base c) \<Longrightarrow> i < length (clients (base c)) \<Longrightarrow> clients (base c) ! i = ClRegistered t n \<Longrightarrow>
     fine_step cap exec c (set_base (choose_worker i t n (base c)) c)"
| f_lock_task:
    "\<not> killed (base c) \<Longrightarrow> i < length (clients (base c)) \<Longrightarrow> clients (base c) ! i = ClChosen t n w \<Longrightarrow>
     w < length (links c) \<Longrightarrow> links c ! w = l \<Longrightarrow> write_lock l = None \<Longrightarrow>
     fine_step cap exec c
       (set_link w (l\<lparr>write_lock := Some \<lparr>who = SClient i, msg = run_message junk n (exec_addr t) (payload t), sent = 0\<rparr>\<rparr>) c)"
| f_lock_stop:
    "\<not> killed (base c) \<Longrightarrow> shutdown (base c) = ShStop w \<Longrightarrow> w < length (links c) \<Longrightarrow> links c ! w = l \<Longrightarrow>
     write_lock l = None \<Longrightarrow>
     fine_step cap exec c (set_link w (l\<lparr>write_lock := Some \<lparr>who = SShutdown, msg = stop_message junk, sent = 0\<rparr>\<rparr>) c)"
| f_write_killed:
    "\<not> killed (base c) \<Longrightarrow> w < length (links c) \<Longrightarrow> links c ! w = l \<Longrightarrow> write_lock l = Some x \<Longrightarrow>
     \<not> lreaped l \<Longrightarrow> lchild l = Exited \<Longrightarrow>
     fine_step cap exec c (set_base (sender_killed (who x) (base c)) c)"
| f_child_crashes:
    "w < length (links c) \<Longrightarrow> links c ! w = l \<Longrightarrow> lchild l = Alive \<Longrightarrow>
     fine_step cap exec c
       (set_base ((base c)\<lparr>crashed := True\<rparr>) (set_link w (l\<lparr>lchild := Exited\<rparr>) c))"
| f_shutdown_begin:
    "\<not> killed (base c) \<Longrightarrow> \<not> stopping (base c) \<Longrightarrow>
     fine_step cap exec c (set_base ((base c)\<lparr>stopping := True, shutdown := ShStop 0\<rparr>) c)"
| f_shutdown_stopped:
    "\<not> killed (base c) \<Longrightarrow> shutdown (base c) = ShStop w \<Longrightarrow> \<not> w < length (links c) \<Longrightarrow>
     fine_step cap exec c (set_base ((base c)\<lparr>shutdown := ShJoin 0\<rparr>) c)"
| f_shutdown_join:
    "\<not> killed (base c) \<Longrightarrow> shutdown (base c) = ShJoin w \<Longrightarrow> w < length (links c) \<Longrightarrow> lreader (links c ! w) = ReaderDone \<Longrightarrow>
     fine_step cap exec c (set_base ((base c)\<lparr>shutdown := ShJoin (Suc w)\<rparr>) c)"
| f_shutdown_joined:
    "\<not> killed (base c) \<Longrightarrow> shutdown (base c) = ShJoin w \<Longrightarrow> \<not> w < length (links c) \<Longrightarrow>
     fine_step cap exec c (set_base ((base c)\<lparr>shutdown := ShReap 0\<rparr>) c)"
| f_shutdown_reap:
    "\<not> killed (base c) \<Longrightarrow> shutdown (base c) = ShReap w \<Longrightarrow> w < length (links c) \<Longrightarrow> links c ! w = l \<Longrightarrow> lchild l = Exited \<Longrightarrow>
     fine_step cap exec c
       (set_base ((base c)\<lparr>shutdown := ShReap (Suc w)\<rparr>) (set_link w (l\<lparr>lreaped := True\<rparr>) c))"
| f_shutdown_reaped:
    "\<not> killed (base c) \<Longrightarrow> shutdown (base c) = ShReap w \<Longrightarrow> \<not> w < length (links c) \<Longrightarrow>
     fine_step cap exec c (set_base ((base c)\<lparr>shutdown := ShFail\<rparr>) c)"
| f_shutdown_fail:
    "\<not> killed (base c) \<Longrightarrow> shutdown (base c) = ShFail \<Longrightarrow>
     fine_step cap exec c (set_base ((FailAllPending ShutdownReason (base c))\<lparr>shutdown := ShDone\<rparr>) c)"
| f_shutdown_again:
    "\<not> killed (base c) \<Longrightarrow> stopping (base c) \<Longrightarrow> fine_step cap exec c c"

lemmas fine_updates [simp] = set_link_def set_base_def

section \<open>The pool this is\<close>

text \<open>What a worker and its reader have collected belongs to the streams; what is only half written does not.\<close>

fun consumed :: "child_io \<Rightarrow> u8 list" where
  "consumed (ReadsRequest g) = g"
| "consumed (WritesResponse m r n) = m"

fun half_response :: "child_io \<Rightarrow> u8 list" where
  "half_response (ReadsRequest g) = []"
| "half_response (WritesResponse m r n) = take n r"

definition half_sent :: "sending option \<Rightarrow> nat" where
  "half_sent x = (case x of None \<Rightarrow> 0 | Some x \<Rightarrow> sent x)"

definition without_last :: "nat \<Rightarrow> u8 list \<Rightarrow> u8 list" where
  "without_last n bs = take (length bs - n) bs"

definition as_worker :: "link \<Rightarrow> worker" where
  "as_worker l =
     \<lparr>request = without_last (torn l + half_sent (write_lock l)) (consumed (child_io l) @ rq_sock l),
      response = without_last (length (half_response (child_io l))) (got l @ rs_sock l),
      child = lchild l, reader = lreader l, reaped = lreaped l\<rparr>"

definition as_pool :: "fine \<Rightarrow> pool" where
  "as_pool c = (base c)\<lparr>workers := map as_worker (links c)\<rparr>"

end
