(* ===== verification/Pool_Fine_Sim.thy ===== *)
theory Pool_Fine_Sim
  imports Pool_Fine
begin

text \<open>
  The pool with partial reads and writes behaves as the pool of theory \<open>Pool_System\<close>: every step
  leaves that pool where it is or is a step of it. A message counts as sent with its last byte, a
  response as given with its last byte, and what is half written is not there yet. The two
  streams are whole messages and the part of one that is being written, so a receiver never mixes two.
\<close>

section \<open>Whole messages\<close>

lemma run_message_whole: "length bs < 2 ^ 64 \<Longrightarrow> rq.whole (run_message junk n ex bs)"
  by (simp add: rq.whole_def run_message_def request_follows_def task_codec.dec_enc unat_length)

lemma stop_message_whole: "rq.whole (stop_message junk)"
  by (simp add: rq.whole_def stop_message_def request_follows_def task_codec.dec_enc)

lemma response_for_whole:
  assumes "length (fst r) < 2 ^ 64" and "length (snd r) < 2 ^ 64"
  shows "rs.whole (response_for junk i r)"
  using assms
  by (cases r) (auto simp: rs.whole_def response_for_def response_follows_def result_codec.dec_enc unat_length)

lemma worker_pass_whole:
  assumes "worker_pass junk exec g = Some (r, [])"
  shows "rq.whole g"
  using assms by (auto simp: worker_pass_def rq.whole_def request_follows_def Let_def split: if_splits)

lemma worker_pass_append:
  assumes "worker_pass junk exec g = Some (r, [])"
  shows "worker_pass junk exec (g @ rest) = Some (r, rest)"
  using assms by (auto simp: worker_pass_def Let_def split: if_splits)

lemma reader_pass_whole:
  assumes "reader_pass g = Some (h, bytes, [])"
  shows "rs.whole g"
  using assms by (auto simp: reader_pass_def rs.whole_def response_follows_def Let_def split: if_splits)

lemma reader_pass_append:
  assumes "reader_pass g = Some (h, bytes, [])"
  shows "reader_pass (g @ rest) = Some (h, bytes, rest)"
  using assms by (auto simp: reader_pass_def Let_def split: if_splits)

lemma worker_ok_frames:
  assumes "worker_ok exec T x rq rs" and "exec_small exec" and "\<And>n t. T n = Some t \<Longrightarrow> length (payload t) < 2 ^ 64"
  shows "(\<exists>ms. request x = concat ms \<and> (\<forall>m \<in> set ms. rq.whole m)) \<and>
    (\<exists>ms. response x = concat ms \<and> (\<forall>m \<in> set ms. rs.whole m))"
proof
  have "rq.whole (req_bytes T r)" if "r \<in> set rq" for r
  proof (cases r)
    case (ReqRun junk n)
    have "req_known T r" using assms(1) that by (simp add: worker_ok_def)
    with ReqRun obtain t where "T n = Some t" by auto
    with ReqRun assms(3) run_message_whole show ?thesis by simp
  qed (simp add: stop_message_whole)
  then show "\<exists>ms. request x = concat ms \<and> (\<forall>m \<in> set ms. rq.whole m)"
    using assms(1) by (intro exI [of _ "map (req_bytes T) rq"]) (simp add: worker_ok_def)
  have "rs.whole (resp_bytes exec T r)" if "r \<in> set rs" for r
  proof -
    obtain junk n where r: "r = (junk, n)" by (cases r)
    have "\<forall>(junk, n) \<in> set rs. T n \<noteq> None" using assms(1) by (simp add: worker_ok_def)
    with r that obtain t where "T n = Some t" by fastforce
    with r assms(2) response_for_whole [of "result_of exec t"] show ?thesis
      by (simp add: exec_small_def result_of_def)
  qed
  then show "\<exists>ms. response x = concat ms \<and> (\<forall>m \<in> set ms. rs.whole m)"
    using assms(1) by (intro exI [of _ "map (resp_bytes exec T) rs"]) (simp add: worker_ok_def)
qed

section \<open>The invariant of a link\<close>

definition half_text :: "sending option \<Rightarrow> u8 list" where
  "half_text x = (case x of None \<Rightarrow> [] | Some x \<Rightarrow> take (sent x) (msg x))"

fun ahead :: "link \<Rightarrow> child_io \<Rightarrow> u8 list" where
  "ahead l (ReadsRequest g) = g @ rq_sock l"
| "ahead l (WritesResponse m r n) = rq_sock l"

fun child_io_ok :: "executors \<Rightarrow> child_io \<Rightarrow> bool" where
  "child_io_ok exec (ReadsRequest g) \<longleftrightarrow> rq.begun g"
| "child_io_ok exec (WritesResponse m r n) \<longleftrightarrow> rs.whole r \<and> n < length r \<and>
     (\<exists>junk. worker_pass junk exec m = Some (Responds r, []))"

definition link_ok :: "executors \<Rightarrow> link \<Rightarrow> bool" where
  "link_ok exec l \<longleftrightarrow>
     (\<forall>x. write_lock l = Some x \<longrightarrow> sent x < length (msg x) \<and> rq.whole (msg x)) \<and>
     torn l + half_sent (write_lock l) \<le> length (consumed (child_io l) @ rq_sock l) \<and>
     (lchild l = Alive \<longrightarrow> torn l = 0 \<and> \<not> lreaped l \<and> (\<exists>pre. ahead l (child_io l) = pre @ half_text (write_lock l))) \<and>
     child_io_ok exec (child_io l) \<and>
     rs.begun (got l) \<and> (\<exists>pre. got l @ rs_sock l = pre @ half_response (child_io l))"

definition sender_ok :: "pool \<Rightarrow> nat \<Rightarrow> sending \<Rightarrow> bool" where
  "sender_ok s w x \<longleftrightarrow>
     (case who x of
        SClient i \<Rightarrow> i < length (clients s) \<and> (\<exists>t n junk. clients s ! i = ClChosen t n w \<and>
          msg x = run_message junk n (exec_addr t) (payload t))
      | SShutdown \<Rightarrow> shutdown s = ShStop w \<and> (\<exists>junk. msg x = stop_message junk))"

definition fine_inv :: "executors \<Rightarrow> fine \<Rightarrow> bool" where
  "fine_inv exec c \<longleftrightarrow> length (workers (base c)) = length (links c) \<and>
     (\<forall>w < length (links c). link_ok exec (links c ! w) \<and>
        (\<forall>x. write_lock (links c ! w) = Some x \<longrightarrow> \<not> killed (base c) \<longrightarrow> sender_ok (base c) w x))"

lemma fine_invD:
  assumes "fine_inv exec c" and "w < length (links c)"
  shows "link_ok exec (links c ! w)"
    "write_lock (links c ! w) = Some x \<Longrightarrow> \<not> killed (base c) \<Longrightarrow> sender_ok (base c) w x"
  using assms by (auto simp: fine_inv_def)

lemma fine_inv_base:
  assumes "fine_inv exec c" and "links d = links c" and "length (workers (base d)) = length (workers (base c))"
    and "\<And>w x. \<not> killed (base d) \<Longrightarrow> \<not> killed (base c) \<and> (sender_ok (base c) w x \<longrightarrow> sender_ok (base d) w x)"
  shows "fine_inv exec d"
  using assms by (simp add: fine_inv_def)

lemma fine_inv_link:
  assumes "fine_inv exec c" and "w < length (links c)" and "links d = (links c)[w := l]"
    and "length (workers (base d)) = length (workers (base c))" and "link_ok exec l"
    and "\<not> killed (base d) \<Longrightarrow> \<not> killed (base c)"
    and "\<And>x. write_lock l = Some x \<Longrightarrow> \<not> killed (base d) \<Longrightarrow> sender_ok (base d) w x"
    and "\<And>v x. v \<noteq> w \<Longrightarrow> \<not> killed (base d) \<Longrightarrow> sender_ok (base c) v x \<Longrightarrow> sender_ok (base d) v x"
  shows "fine_inv exec d"
  unfolding fine_inv_def
proof (intro conjI allI impI)
  show "length (workers (base d)) = length (links d)" using assms(1,3,4) by (simp add: fine_inv_def)
  fix v assume v: "v < length (links d)"
  have "link_ok exec (links c ! v)" if "v \<noteq> w" using fine_invD(1) [OF assms(1)] v assms(3) by simp
  with assms(3,5) v show "link_ok exec (links d ! v)" by (cases "v = w") auto
  fix x assume x: "write_lock (links d ! v) = Some x" and alive: "\<not> killed (base d)"
  show "sender_ok (base d) v x"
  proof (cases "v = w")
    case True
    with assms(2,3,7) x alive show ?thesis by simp
  next
    case False
    with x assms(3) have "write_lock (links c ! v) = Some x" by simp
    with False fine_invD(2) [OF assms(1)] v assms(3,6,8) alive show ?thesis by simp
  qed
qed

text \<open>The bytes of a stream without what is half written.\<close>

lemma without_last_append [simp]: "without_last (a + length b) (xs @ b) = without_last a xs"
  by (simp add: without_last_def)

lemma without_last_0 [simp]: "without_last 0 xs = xs"
  by (simp add: without_last_def)

lemma without_last_front: "a \<le> length ys \<Longrightarrow> without_last a (xs @ ys) = xs @ without_last a ys"
  by (simp add: without_last_def)

lemma without_tail: "xs = pre @ b \<Longrightarrow> without_last (length b) xs = pre"
  by (simp add: without_last_def)

lemma half_sent_text: "link_ok exec l \<Longrightarrow> length (half_text (write_lock l)) = half_sent (write_lock l)"
  by (auto simp: link_ok_def half_text_def half_sent_def split: option.splits)

lemma length_part: "can_write cap hs m n sock k \<Longrightarrow> n < length m \<Longrightarrow> hs \<le> length m \<Longrightarrow> length (part m n k) = k \<and> n + k \<le> length m"
  by (auto simp: can_write_def part_def split: if_splits)

lemma part_step: "take n m @ part m n k = take (n + k) m"
  by (simp add: part_def take_add)

section \<open>The streams of a link\<close>

text \<open>While the worker is alive, both streams in terms of whole messages.\<close>

lemma request_stream:
  assumes ok: "link_ok exec l" and alive: "lchild l = Alive" and io: "child_io l = ReadsRequest g"
    and frames: "request (as_worker l) = concat ms" "\<forall>m \<in> set ms. rq.whole m" and g: "rq.whole g"
  shows "\<exists>ms'. ms = g # ms' \<and> rq_sock l = concat ms' @ half_text (write_lock l)"
proof -
  obtain pre where pre: "g @ rq_sock l = pre @ half_text (write_lock l)" using ok alive io by (auto simp: link_ok_def)
  have "torn l = 0" using ok alive by (simp add: link_ok_def)
  then have "concat ms = pre"
    using frames(1) without_tail [OF pre] half_sent_text [OF ok] io by (simp add: as_worker_def)
  then have eq: "g @ rq_sock l = concat ms @ half_text (write_lock l)" using pre by simp
  show ?thesis
  proof (cases "write_lock l")
    case None
    with eq rq.first_frame [OF _ frames(2) g _ g, of "rq_sock l" 0] rq.whole_not_Nil [OF g] show ?thesis
      by (simp add: half_text_def)
  next
    case (Some x)
    then have "rq.whole (msg x)" "sent x < length (msg x)" using ok by (auto simp: link_ok_def)
    with eq Some rq.first_frame [OF _ frames(2) _ _ g] show ?thesis by (simp add: half_text_def)
  qed
qed

lemma response_stream:
  assumes ok: "link_ok exec l" and frames: "response (as_worker l) = concat ms"
  shows "got l @ rs_sock l = concat ms @ half_response (child_io l)"
proof -
  obtain pre where pre: "got l @ rs_sock l = pre @ half_response (child_io l)" using ok by (auto simp: link_ok_def)
  with frames without_tail [OF pre] show ?thesis by (simp add: as_worker_def)
qed

lemma response_first:
  assumes ok: "link_ok exec l" and frames: "response (as_worker l) = concat ms" "\<forall>m \<in> set ms. rs.whole m"
    and g: "rs.whole (got l)"
  shows "\<exists>ms'. ms = got l # ms' \<and> rs_sock l = concat ms' @ half_response (child_io l)"
proof (cases "child_io l")
  case (ReadsRequest g)
  with response_stream [OF ok frames(1)] rs.first_frame [OF _ frames(2) assms(4) _ assms(4), of "rs_sock l" 0]
    rs.whole_not_Nil [OF assms(4)] show ?thesis by simp
next
  case (WritesResponse m r n)
  then have "rs.whole r" "n < length r" using ok by (simp_all add: link_ok_def)
  with response_stream [OF ok frames(1)] WritesResponse rs.first_frame [OF _ frames(2) _ _ g] show ?thesis by simp
qed

section \<open>What a call does to a link\<close>

text \<open>While a worker lives, the bytes on the way to it end with the part that has been written.\<close>

lemma request_bytes:
  assumes ok: "link_ok exec l" and alive: "lchild l = Alive"
  shows "torn l = 0 \<and> consumed (child_io l) @ rq_sock l = request (as_worker l) @ half_text (write_lock l)"
proof -
  obtain pre where "consumed (child_io l) @ rq_sock l = pre @ half_text (write_lock l)"
    using ok alive by (cases "child_io l") (auto simp: link_ok_def)
  moreover have "torn l = 0" using ok alive by (simp add: link_ok_def)
  ultimately show ?thesis
    using without_tail [of _ pre "half_text (write_lock l)"] half_sent_text [OF ok] by (simp add: as_worker_def)
qed

lemma request_is:
  assumes "link_ok exec l" and "lchild l = Alive" and "consumed (child_io l) @ rq_sock l = pre @ half_text (write_lock l)"
  shows "request (as_worker l) = pre"
  using request_bytes [OF assms(1,2)] assms(3) by simp

lemma link_write:
  assumes ok: "link_ok exec l" and alive: "lchild l = Alive" and x: "write_lock l = Some x"
    and k: "can_write cap 32 (msg x) (sent x) (rq_sock l) k" and more: "sent x + k < length (msg x)"
  defines "l' \<equiv> l\<lparr>rq_sock := rq_sock l @ part (msg x) (sent x) k, write_lock := Some (x\<lparr>sent := sent x + k\<rparr>)\<rparr>"
  shows "link_ok exec l' \<and> as_worker l' = as_worker l"
proof -
  have p: "length (part (msg x) (sent x) k) = k" using more by (simp add: part_def)
  obtain pre where pre: "ahead l (child_io l) = pre @ take (sent x) (msg x)"
    using ok alive x by (auto simp: link_ok_def half_text_def)
  have "ahead l' (child_io l) = pre @ take (sent x + k) (msg x)"
    using pre part_step [of "sent x" "msg x" k, symmetric] by (cases "child_io l") (simp_all add: l'_def)
  then have ok': "link_ok exec l'"
    using ok alive x more p by (auto simp: link_ok_def half_sent_def half_text_def l'_def)
  have "consumed (child_io l') @ rq_sock l' = request (as_worker l) @ half_text (write_lock l')"
    using request_bytes [OF ok alive] x part_step [of "sent x" "msg x" k]
    by (simp add: l'_def half_text_def) (metis append_assoc)
  then have "request (as_worker l') = request (as_worker l)"
    using request_is [OF ok'] alive by (simp add: l'_def)
  then have "as_worker l' = as_worker l" by (simp add: as_worker_def l'_def)
  with ok' show ?thesis by simp
qed

lemma link_write_last:
  assumes ok: "link_ok exec l" and alive: "lchild l = Alive" and x: "write_lock l = Some x"
    and last: "sent x + k = length (msg x)"
  defines "l' \<equiv> l\<lparr>rq_sock := rq_sock l @ part (msg x) (sent x) k, write_lock := None\<rparr>"
  shows "link_ok exec l' \<and> as_worker l' = (as_worker l)\<lparr>request := request (as_worker l) @ msg x\<rparr>"
proof -
  have p: "take (sent x) (msg x) @ part (msg x) (sent x) k = msg x" using last part_step [of "sent x" "msg x" k] by simp
  have ok': "link_ok exec l'"
    using ok alive x by (cases "child_io l") (auto simp: link_ok_def half_sent_def half_text_def l'_def)
  have "consumed (child_io l') @ rq_sock l' = (request (as_worker l) @ msg x) @ half_text (write_lock l')"
    using request_bytes [OF ok alive] x p by (simp add: l'_def half_text_def) (metis append_assoc)
  then have "request (as_worker l') = request (as_worker l) @ msg x"
    using request_is [OF ok'] alive by (simp add: l'_def)
  then have "as_worker l' = (as_worker l)\<lparr>request := request (as_worker l) @ msg x\<rparr>" by (simp add: as_worker_def l'_def)
  with ok' show ?thesis by simp
qed

lemma link_give_up:
  assumes "link_ok exec l" and "lreaped l" and "write_lock l = Some x"
  shows "link_ok exec (l\<lparr>write_lock := None, torn := torn l + sent x\<rparr>) \<and>
    as_worker (l\<lparr>write_lock := None, torn := torn l + sent x\<rparr>) = as_worker l"
  using assms by (auto simp: link_ok_def as_worker_def half_sent_def)

lemma link_child_reads:
  assumes ok: "link_ok exec l" and io: "child_io l = ReadsRequest g" and k: "can_read (rq.missing g) (rq_sock l) k"
  defines "l' \<equiv> l\<lparr>child_io := ReadsRequest (g @ take k (rq_sock l)), rq_sock := drop k (rq_sock l)\<rparr>"
  shows "link_ok exec l' \<and> as_worker l' = as_worker l"
proof
  have "rq.begun (g @ take k (rq_sock l))"
    using rq.begun_append [of g "take k (rq_sock l)"] ok io k by (simp add: link_ok_def can_read_def)
  with ok io show "link_ok exec l'" by (auto simp: link_ok_def l'_def)
  show "as_worker l' = as_worker l" using io by (simp add: as_worker_def l'_def)
qed

lemma link_child_takes:
  assumes ok: "link_ok exec l" and alive: "lchild l = Alive" and io: "child_io l = ReadsRequest g"
    and frames: "request (as_worker l) = concat ms" "\<forall>m \<in> set ms. rq.whole m"
    and pass: "worker_pass junk exec g = Some (r, [])"
  shows "\<exists>rest. rq_sock l = rest @ half_text (write_lock l) \<and> request (as_worker l) = g @ rest \<and>
    worker_pass junk exec (request (as_worker l)) = Some (r, rest)"
proof -
  obtain ms' where ms: "ms = g # ms'" "rq_sock l = concat ms' @ half_text (write_lock l)"
    using request_stream [OF ok alive io frames worker_pass_whole [OF pass]] by blast
  with worker_pass_append [OF pass, of "concat ms'"] frames(1) show ?thesis
    by (intro exI [of _ "concat ms'"]) simp
qed

lemma link_child_stops:
  assumes ok: "link_ok exec l" and alive: "lchild l = Alive" and io: "child_io l = ReadsRequest g"
    and frames: "request (as_worker l) = concat ms" "\<forall>m \<in> set ms. rq.whole m"
    and pass: "worker_pass junk exec g = Some (WorkerStops, [])"
  defines "l' \<equiv> l\<lparr>child_io := ReadsRequest [], lchild := Exited\<rparr>"
  shows "link_ok exec l' \<and> (\<exists>rest. worker_pass junk exec (request (as_worker l)) = Some (WorkerStops, rest) \<and>
    as_worker l' = (as_worker l)\<lparr>request := rest, child := Exited\<rparr>)"
proof -
  obtain rest where rest: "rq_sock l = rest @ half_text (write_lock l)" "request (as_worker l) = g @ rest"
    "worker_pass junk exec (request (as_worker l)) = Some (WorkerStops, rest)"
    using link_child_takes [OF ok alive io frames pass] by blast
  have t: "torn l = 0" using ok alive by (simp add: link_ok_def)
  have "link_ok exec l'" using ok io rest(1) t half_sent_text [OF ok] by (auto simp: link_ok_def l'_def)
  moreover have "as_worker l' = (as_worker l)\<lparr>request := rest, child := Exited\<rparr>"
    using io t without_tail [OF rest(1)] half_sent_text [OF ok] by (simp add: as_worker_def l'_def)
  ultimately show ?thesis using rest(3) by blast
qed

lemma worker_pass_response:
  assumes "worker_pass junk exec g = Some (Responds r, rest)" and "exec_small exec"
  shows "rs.whole r"
proof -
  have "rs.whole (response_for junk i (exec a p))" for i a p
    using response_for_whole [of "exec a p"] assms(2) by (simp add: exec_small_def)
  with assms(1) show ?thesis by (auto simp: worker_pass_def Let_def split: if_splits)
qed

lemma link_child_runs:
  assumes ok: "link_ok exec l" and alive: "lchild l = Alive" and io: "child_io l = ReadsRequest g"
    and frames: "request (as_worker l) = concat ms" "\<forall>m \<in> set ms. rq.whole m"
    and pass: "worker_pass junk exec g = Some (Responds r, [])" and small: "exec_small exec"
  defines "l' \<equiv> l\<lparr>child_io := WritesResponse g r 0\<rparr>"
  shows "link_ok exec l' \<and> as_worker l' = as_worker l"
proof
  have r: "rs.whole r" using worker_pass_response [OF pass small] .
  obtain rest where "rq_sock l = rest @ half_text (write_lock l)"
    using link_child_takes [OF ok alive io frames pass] by blast
  with ok io alive r pass rs.whole_not_Nil [OF r] show "link_ok exec l'"
    by (auto simp: link_ok_def l'_def)
  show "as_worker l' = as_worker l" using io by (simp add: as_worker_def l'_def)
qed

lemma link_child_writes:
  assumes ok: "link_ok exec l" and io: "child_io l = WritesResponse m r n" and more: "n + k < length r"
  defines "l' \<equiv> l\<lparr>rs_sock := rs_sock l @ part r n k, child_io := WritesResponse m r (n + k)\<rparr>"
  shows "link_ok exec l' \<and> as_worker l' = as_worker l"
proof -
  obtain pre where pre: "got l @ rs_sock l = pre @ take n r" using ok io by (auto simp: link_ok_def)
  then have pre': "got l' @ rs_sock l' = pre @ take (n + k) r"
    using part_step [of n r k] by (simp add: l'_def) (metis append_assoc)
  then have "link_ok exec l'" using ok io more by (auto simp: link_ok_def l'_def)
  moreover have "response (as_worker l') = response (as_worker l)"
    using without_tail [OF pre'] without_tail [OF pre] io by (simp add: as_worker_def l'_def del: length_take)
  then have "as_worker l' = as_worker l" using io by (simp add: as_worker_def l'_def)
  ultimately show ?thesis by simp
qed

lemma link_child_writes_last:
  assumes ok: "link_ok exec l" and alive: "lchild l = Alive" and io: "child_io l = WritesResponse m r n"
    and last: "n + k = length r"
  defines "l' \<equiv> l\<lparr>rs_sock := rs_sock l @ part r n k, child_io := ReadsRequest []\<rparr>"
  shows "link_ok exec l' \<and> (\<exists>junk rest. worker_pass junk exec (request (as_worker l)) = Some (Responds r, rest) \<and>
    as_worker l' = (as_worker l)\<lparr>request := rest, response := response (as_worker l) @ r\<rparr>)"
proof -
  obtain pre where pre: "got l @ rs_sock l = pre @ take n r" using ok io by (auto simp: link_ok_def)
  then have out: "got l' @ rs_sock l' = pre @ r"
    using part_step [of n r k] last by (simp add: l'_def) (metis append_assoc)
  have resp: "response (as_worker l) = pre" using without_tail [OF pre] io by (simp add: as_worker_def del: length_take)
  obtain rest where rest: "rq_sock l = rest @ half_text (write_lock l)" using ok alive io by (auto simp: link_ok_def)
  obtain junk where pass: "worker_pass junk exec m = Some (Responds r, [])" using ok io by (auto simp: link_ok_def)
  have t: "torn l = 0" using ok alive by (simp add: link_ok_def)
  have "request (as_worker l) = m @ rest"
    using request_is [OF ok alive, of "m @ rest"] rest io by simp
  with worker_pass_append [OF pass] have "worker_pass junk exec (request (as_worker l)) = Some (Responds r, rest)" by simp
  moreover have "link_ok exec l'"
    using ok io rest t half_sent_text [OF ok] by (auto simp: link_ok_def l'_def)
  moreover have "as_worker l' = (as_worker l)\<lparr>request := rest, response := response (as_worker l) @ r\<rparr>"
    using out resp t without_tail [OF rest] half_sent_text [OF ok] by (simp add: as_worker_def l'_def)
  ultimately show ?thesis by blast
qed

lemma link_child_crashes:
  assumes "link_ok exec l"
  shows "link_ok exec (l\<lparr>lchild := Exited\<rparr>) \<and> as_worker (l\<lparr>lchild := Exited\<rparr>) = (as_worker l)\<lparr>child := Exited\<rparr>"
  using assms by (simp add: link_ok_def as_worker_def)

lemma link_reader_reads:
  assumes ok: "link_ok exec l" and k: "can_read (rs.missing (got l)) (rs_sock l) k"
  defines "l' \<equiv> l\<lparr>got := got l @ take k (rs_sock l), rs_sock := drop k (rs_sock l)\<rparr>"
  shows "link_ok exec l' \<and> as_worker l' = as_worker l"
proof
  have "rs.begun (got l @ take k (rs_sock l))"
    using rs.begun_append [of "got l" "take k (rs_sock l)"] ok k by (simp add: link_ok_def can_read_def)
  with ok show "link_ok exec l'" by (cases "child_io l") (auto simp: link_ok_def l'_def)
  show "as_worker l' = as_worker l" by (simp add: as_worker_def l'_def)
qed

lemma link_reader_takes:
  assumes ok: "link_ok exec l" and frames: "response (as_worker l) = concat ms" "\<forall>m \<in> set ms. rs.whole m"
    and pass: "reader_pass (got l) = Some (h, bytes, [])"
  shows "link_ok exec (l\<lparr>got := []\<rparr>) \<and> (\<exists>rest. reader_pass (response (as_worker l)) = Some (h, bytes, rest) \<and>
    as_worker (l\<lparr>got := []\<rparr>) = (as_worker l)\<lparr>response := rest\<rparr>)"
proof -
  obtain ms' where ms: "ms = got l # ms'" "rs_sock l = concat ms' @ half_response (child_io l)"
    using response_first [OF ok frames reader_pass_whole [OF pass]] by blast
  have "reader_pass (response (as_worker l)) = Some (h, bytes, concat ms')"
    using reader_pass_append [OF pass, of "concat ms'"] frames(1) ms(1) by simp
  moreover have "link_ok exec (l\<lparr>got := []\<rparr>)" using ok ms(2) by (cases "child_io l") (auto simp: link_ok_def)
  moreover have "as_worker (l\<lparr>got := []\<rparr>) = (as_worker l)\<lparr>response := concat ms'\<rparr>"
    using without_tail [OF ms(2)] by (simp add: as_worker_def)
  ultimately show ?thesis by blast
qed

lemma link_reader_ends:
  assumes ok: "link_ok exec l" and frames: "response (as_worker l) = concat ms" "\<forall>m \<in> set ms. rs.whole m"
    and "rs_sock l = []" and "0 < rs.missing (got l)"
  shows "link_ok exec (l\<lparr>lreader := ReaderDone\<rparr>) \<and> reader_pass (response (as_worker l)) = None \<and>
    as_worker (l\<lparr>lreader := ReaderDone\<rparr>) = (as_worker l)\<lparr>reader := ReaderDone\<rparr>"
proof -
  have "concat ms @ half_response (child_io l) = got l" using response_stream [OF ok frames(1)] assms(4) by simp
  then have "ms = []" using rs.no_frame [OF _ frames(2) assms(5)] ok by (simp add: link_ok_def)
  moreover have "link_ok exec (l\<lparr>lreader := ReaderDone\<rparr>)" using ok by (cases "child_io l") (auto simp: link_ok_def)
  ultimately show ?thesis using frames(1) by (simp add: as_worker_def)
qed

lemma link_reaped:
  assumes "link_ok exec l" and "lchild l = Exited"
  shows "link_ok exec (l\<lparr>lreaped := True\<rparr>) \<and> as_worker (l\<lparr>lreaped := True\<rparr>) = (as_worker l)\<lparr>reaped := True\<rparr>"
  using assms by (auto simp: link_ok_def as_worker_def)

lemma link_locked:
  assumes "link_ok exec l" and "write_lock l = None" and "rq.whole m"
  shows "link_ok exec (l\<lparr>write_lock := Some \<lparr>who = v, msg = m, sent = 0\<rparr>\<rparr>) \<and>
    as_worker (l\<lparr>write_lock := Some \<lparr>who = v, msg = m, sent = 0\<rparr>\<rparr>) = as_worker l"
  using assms rq.whole_not_Nil [OF assms(3)]
  by (cases "child_io l") (auto simp: link_ok_def as_worker_def half_sent_def half_text_def)

end
