(* ===== verification/Pool_Fine_Steps.thy ===== *)
theory Pool_Fine_Steps
  imports Pool_Fine_Sim
begin

text \<open>
  Every step of the pool with partial reads and writes, one lemma per rule: the invariant is kept,
  and the pool of theory \<open>Pool_System\<close> behind the state stays where it is or makes a step.
\<close>

definition simulated :: "executors \<Rightarrow> fine \<Rightarrow> fine \<Rightarrow> bool" where
  "simulated exec c d \<longleftrightarrow> fine_inv exec d \<and> (as_pool d = as_pool c \<or> pool_step exec (as_pool c) (as_pool d))"

section \<open>The pool behind a state\<close>

lemma as_pool_fields [simp]:
  "workers (as_pool c) = map as_worker (links c)" "clients (as_pool c) = clients (base c)"
  "shutdown (as_pool c) = shutdown (base c)" "stopping (as_pool c) = stopping (base c)"
  "killed (as_pool c) = killed (base c)" "submitted (as_pool c) = submitted (base c)"
  "next_worker (as_pool c) = next_worker (base c)" "returned (as_pool c) = returned (base c)"
  "refused (as_pool c) = refused (base c)" "crashed (as_pool c) = crashed (base c)"
  "futures (as_pool c) = futures (base c)" "tasks (as_pool c) = tasks (base c)"
  "pending_map (as_pool c) = pending_map (base c)" "next_task_id (as_pool c) = next_task_id (base c)"
  by (simp_all add: as_pool_def)

lemma as_worker_fields [simp]:
  "child (as_worker l) = lchild l" "reader (as_worker l) = lreader l" "reaped (as_worker l) = lreaped l"
  by (simp_all add: as_worker_def)

lemma as_pool_link: "links d = (links c)[w := l] \<Longrightarrow> base d = base c \<Longrightarrow> as_pool d = set_worker w (as_worker l) (as_pool c)"
  by (simp add: as_pool_def map_update)

lemma op_workers [simp]:
  "(number_task i t s)\<lparr>workers := x\<rparr> = number_task i t (s\<lparr>workers := x\<rparr>)"
  "(register_task i t n s)\<lparr>workers := x\<rparr> = register_task i t n (s\<lparr>workers := x\<rparr>)"
  "length x = length (workers s) \<Longrightarrow> (choose_worker i t n s)\<lparr>workers := x\<rparr> = choose_worker i t n (s\<lparr>workers := x\<rparr>)"
  "(take_result h bytes s)\<lparr>workers := x\<rparr> = take_result h bytes (s\<lparr>workers := x\<rparr>)"
  "(FailAllPending text s)\<lparr>workers := x\<rparr> = FailAllPending text (s\<lparr>workers := x\<rparr>)"
  by (auto simp: number_task_def register_task_def choose_worker_def take_result_def FailAllPending_def Let_def
      split: option.split cong: if_cong)

section \<open>Steps of the callers\<close>

lemma simulated_base:
  assumes inv: "fine_inv exec c" and alive: "\<not> killed (base c)"
    and same: "length (workers s) = length (workers (base c))"
    and senders: "\<And>w x. sender_ok (base c) w x \<Longrightarrow> sender_ok s w x"
    and step: "pool_step exec (as_pool c) (s\<lparr>workers := map as_worker (links c)\<rparr>)"
  shows "simulated exec c (set_base s c)"
  using fine_inv_base [OF inv, of "set_base s c"] assms by (simp add: simulated_def as_pool_def)

lemma sender_ok_client:
  assumes "sender_ok s w x" and "clients s ! i = p" and "\<And>t n v. p \<noteq> ClChosen t n v"
    and "clients s' = (clients s)[i := q]" and "shutdown s' = shutdown s"
  shows "sender_ok s' w x"
proof (cases "who x")
  case (SClient j)
  then have "j \<noteq> i" using assms(1-3) by (auto simp: sender_ok_def)
  with SClient assms show ?thesis by (simp add: sender_ok_def)
qed (use assms in \<open>simp add: sender_ok_def\<close>)

lemma sender_ok_shutdown:
  assumes "sender_ok s w x" and "\<And>v. shutdown s = ShStop v \<Longrightarrow> v \<noteq> w" and "clients s' = clients s"
  shows "sender_ok s' w x"
  using assms by (cases "who x") (auto simp: sender_ok_def)

lemma op_frames:
  "clients (number_task i t s) = (clients s)[i := ClNumbered t (next_task_id s)]"
  "clients (register_task i t n s) = (clients s)[i := ClRegistered t n]"
  "shutdown (number_task i t s) = shutdown s" "shutdown (register_task i t n s) = shutdown s"
  "shutdown (choose_worker i t n s) = shutdown s" "clients (take_result h bytes s) = clients s"
  "shutdown (take_result h bytes s) = shutdown s" "killed (take_result h bytes s) = killed s"
  "workers (number_task i t s) = workers s" "workers (register_task i t n s) = workers s"
  "workers (choose_worker i t n s) = workers s" "workers (take_result h bytes s) = workers s"
  "workers (FailAllPending text s) = workers s" "clients (FailAllPending text s) = clients s"
  "\<exists>q. clients (choose_worker i t n s) = (clients s)[i := q]"
  by (auto simp: number_task_def register_task_def choose_worker_def take_result_def FailAllPending_def Let_def
      split: option.split)

lemma sim_call:
  assumes "fine_inv exec c" and "\<not> killed (base c)" and "i < length (clients (base c))"
    and "clients (base c) ! i = ClIdle" and "length (payload t) < 2 ^ 64"
  shows "simulated exec c (set_base (number_task i t (base c)) c)"
proof (rule simulated_base [OF assms(1,2)])
  show "sender_ok (number_task i t (base c)) w x" if "sender_ok (base c) w x" for w x
    by (rule sender_ok_client [OF that assms(4)]) (simp_all add: op_frames)
  show "pool_step exec (as_pool c) ((number_task i t (base c))\<lparr>workers := map as_worker (links c)\<rparr>)"
    using submit_call [of "as_pool c" i t] assms by (simp add: as_pool_def)
qed (simp add: op_frames)

lemma sim_register:
  assumes "fine_inv exec c" and "\<not> killed (base c)" and "i < length (clients (base c))"
    and "clients (base c) ! i = ClNumbered t n"
  shows "simulated exec c (set_base (register_task i t n (base c)) c)"
proof (rule simulated_base [OF assms(1,2)])
  show "sender_ok (register_task i t n (base c)) w x" if "sender_ok (base c) w x" for w x
    by (rule sender_ok_client [OF that assms(4)]) (simp_all add: op_frames)
  show "pool_step exec (as_pool c) ((register_task i t n (base c))\<lparr>workers := map as_worker (links c)\<rparr>)"
    using submit_register [of "as_pool c" i t n] assms by (simp add: as_pool_def)
qed (simp add: op_frames)

lemma sim_choose:
  assumes "fine_inv exec c" and "\<not> killed (base c)" and "i < length (clients (base c))"
    and "clients (base c) ! i = ClRegistered t n"
  shows "simulated exec c (set_base (choose_worker i t n (base c)) c)"
proof (rule simulated_base [OF assms(1,2)])
  obtain q where q: "clients (choose_worker i t n (base c)) = (clients (base c))[i := q]"
    using op_frames(15) by blast
  show "sender_ok (choose_worker i t n (base c)) w x" if "sender_ok (base c) w x" for w x
    by (rule sender_ok_client [OF that assms(4) _ q]) (simp_all add: op_frames)
  have "length (links c) = length (workers (base c))" using assms(1) by (simp add: fine_inv_def)
  then show "pool_step exec (as_pool c) ((choose_worker i t n (base c))\<lparr>workers := map as_worker (links c)\<rparr>)"
    using submit_choose [of "as_pool c" i t n] assms by (simp add: as_pool_def)
qed (simp add: op_frames)

section \<open>Steps of the shutdown that write nothing\<close>

lemma sim_shutdown:
  assumes inv: "fine_inv exec c" and alive: "\<not> killed (base c)" and "clients s = clients (base c)"
    and "workers s = workers (base c)"
    and "\<And>v. shutdown (base c) = ShStop v \<Longrightarrow> \<not> v < length (links c)"
    and step: "pool_step exec (as_pool c) (as_pool (set_base s c))"
  shows "simulated exec c (set_base s c)"
proof -
  have "fine_inv exec (set_base s c)"
    unfolding fine_inv_def
  proof (intro conjI allI impI)
    show "length (workers (base (set_base s c))) = length (links (set_base s c))"
      using inv assms(4) by (simp add: fine_inv_def)
    fix w assume w: "w < length (links (set_base s c))"
    show "link_ok exec (links (set_base s c) ! w)" using fine_invD(1) [OF inv] w by simp
    fix x assume "write_lock (links (set_base s c) ! w) = Some x"
    then have "sender_ok (base c) w x" using fine_invD(2) [OF inv] w alive by simp
    then show "sender_ok (base (set_base s c)) w x"
      using assms(3,5) w by (auto intro: sender_ok_shutdown)
  qed
  with step show ?thesis by (simp add: simulated_def)
qed

lemma as_pool_shutdown [simp]:
  "as_pool (c\<lparr>base := (base c)\<lparr>shutdown := h\<rparr>\<rparr>) = (as_pool c)\<lparr>shutdown := h\<rparr>"
  "as_pool (c\<lparr>base := (base c)\<lparr>stopping := b, shutdown := h\<rparr>\<rparr>) = (as_pool c)\<lparr>stopping := b, shutdown := h\<rparr>"
  "as_pool (c\<lparr>base := (FailAllPending text (base c))\<lparr>shutdown := h\<rparr>\<rparr>) = (FailAllPending text (as_pool c))\<lparr>shutdown := h\<rparr>"
  by (rule pool.equality; simp add: as_pool_def FailAllPending_def cong: if_cong)+

lemma sim_reap:
  assumes inv: "fine_inv exec c" and alive: "\<not> killed (base c)" and sh: "shutdown (base c) = ShReap w"
    and w: "w < length (links c)" "links c ! w = l" and l: "lchild l = Exited"
  shows "simulated exec c (set_base ((base c)\<lparr>shutdown := ShReap (Suc w)\<rparr>) (set_link w (l\<lparr>lreaped := True\<rparr>) c))"
    (is "simulated exec c ?d")
proof -
  have ok: "link_ok exec (l\<lparr>lreaped := True\<rparr>)" "as_worker (l\<lparr>lreaped := True\<rparr>) = (as_worker l)\<lparr>reaped := True\<rparr>"
    using link_reaped [OF _ l] fine_invD(1) [OF inv w(1)] w(2) by blast+
  have same: "sender_ok (base ?d) v x" if "sender_ok (base c) v x" for v x
    by (rule sender_ok_shutdown [OF that]) (use sh in simp_all)
  have "fine_inv exec ?d"
    by (rule fine_inv_link [OF inv w(1) _ _ ok(1)]) (use same fine_invD(2) [OF inv w(1)] w(2) in auto)
  moreover have "as_pool ?d = (set_worker w ((as_worker l)\<lparr>reaped := True\<rparr>) (as_pool c))\<lparr>shutdown := ShReap (Suc w)\<rparr>"
    using ok(2) by (simp add: as_pool_def map_update)
  moreover have "pool_step exec (as_pool c)
    ((set_worker w ((as_worker l)\<lparr>reaped := True\<rparr>) (as_pool c))\<lparr>shutdown := ShReap (Suc w)\<rparr>)"
    by (rule shutdown_reap) (use sh w l alive in simp_all)
  ultimately show ?thesis by (simp add: simulated_def)
qed

section \<open>Steps of the workers and the readers\<close>

lemma link_frames:
  assumes "pool_inv exec RQ RS (as_pool c)" and "exec_small exec" and "w < length (links c)" and "links c ! w = l"
  obtains ms ns where "request (as_worker l) = concat ms" "\<forall>m \<in> set ms. rq.whole m"
    "response (as_worker l) = concat ns" "\<forall>m \<in> set ns. rs.whole m"
proof -
  have "worker_ok exec (tasks (base c)) (as_worker l) (RQ w) (RS w)"
    using assms(1,3,4) by (auto simp: pool_inv_def streams_ok_def)
  moreover have "length (payload t) < 2 ^ 64" if "tasks (base c) n = Some t" for n t
    using assms(1) that by (simp add: pool_inv_def numbers_ok_def)
  ultimately show thesis using worker_ok_frames [OF _ assms(2)] that by metis
qed

lemma simulated_link:
  assumes inv: "fine_inv exec c" and w: "w < length (links c)" and ok: "link_ok exec l'"
    and lock: "write_lock l' = write_lock (links c ! w)"
    and s: "workers s = workers (base c)" "killed s = killed (base c)" "clients s = clients (base c)"
      "shutdown s = shutdown (base c)"
    and d: "d = set_base s (set_link w l' c)"
    and step: "as_pool d = as_pool c \<or> pool_step exec (as_pool c) (as_pool d)"
  shows "simulated exec c d"
proof -
  have same: "sender_ok s v x = sender_ok (base c) v x" for v x
    using s by (simp add: sender_ok_def split: sender.split)
  have "fine_inv exec d"
    using fine_inv_link [OF inv w, of d l'] ok lock s d same fine_invD(2) [OF inv w] by simp
  with step show ?thesis by (simp add: simulated_def)
qed

lemma simulated_stutter:
  assumes "fine_inv exec c" and "w < length (links c)" and "links c ! w = l" and "write_lock l' = write_lock l"
    and "link_ok exec l' \<and> as_worker l' = as_worker l"
  shows "simulated exec c (set_link w l' c)"
proof (rule simulated_link [OF assms(1,2), where l' = l' and s = "base c"])
  have "(map as_worker (links c))[w := as_worker l] = map as_worker (links c)"
    using assms(2,3) by (metis list_update_id length_map nth_map)
  then show "as_pool (set_link w l' c) = as_pool c \<or> pool_step exec (as_pool c) (as_pool (set_link w l' c))"
    using assms(5) by (simp add: as_pool_def map_update)
qed (use assms in simp_all)

lemma simulated_worker:
  assumes "fine_inv exec c" and "w < length (links c)" and "links c ! w = l" and "write_lock l' = write_lock l"
    and "link_ok exec l'" and "as_worker l' = y" and "pool_step exec (as_pool c) (set_worker w y (as_pool c))"
  shows "simulated exec c (set_link w l' c)"
proof (rule simulated_link [OF assms(1,2), where l' = l' and s = "base c"])
  show "as_pool (set_link w l' c) = as_pool c \<or> pool_step exec (as_pool c) (as_pool (set_link w l' c))"
    using assms(6,7) by (simp add: as_pool_def map_update)
qed (use assms in simp_all)

lemma sim_child_stops:
  assumes inv: "fine_inv exec c" and p: "pool_inv exec RQ RS (as_pool c)" "exec_small exec"
    and w: "w < length (links c)" "links c ! w = l" and l: "lchild l = Alive" "child_io l = ReadsRequest g"
    and pass: "worker_pass junk exec g = Some (WorkerStops, [])"
  shows "simulated exec c (set_link w (l\<lparr>child_io := ReadsRequest [], lchild := Exited\<rparr>) c)"
proof -
  have ok: "link_ok exec l" using fine_invD(1) [OF inv] w by blast
  obtain ms where frames: "request (as_worker l) = concat ms" "\<forall>m \<in> set ms. rq.whole m"
    by (rule link_frames [OF p w])
  obtain rest where rest: "link_ok exec (l\<lparr>child_io := ReadsRequest [], lchild := Exited\<rparr>)"
    "worker_pass junk exec (request (as_worker l)) = Some (WorkerStops, rest)"
    "as_worker (l\<lparr>child_io := ReadsRequest [], lchild := Exited\<rparr>) = (as_worker l)\<lparr>request := rest, child := Exited\<rparr>"
    using link_child_stops [OF ok l frames pass] by blast
  have "pool_step exec (as_pool c) (set_worker w ((as_worker l)\<lparr>request := rest, child := Exited\<rparr>) (as_pool c))"
    by (rule worker_stops [where junk = junk]) (use w l rest(2) in simp_all)
  with simulated_worker [OF inv w _ rest(1,3)] show ?thesis by simp
qed

lemma sim_child_runs:
  assumes inv: "fine_inv exec c" and p: "pool_inv exec RQ RS (as_pool c)" "exec_small exec"
    and w: "w < length (links c)" "links c ! w = l" and l: "lchild l = Alive" "child_io l = ReadsRequest g"
    and pass: "worker_pass junk exec g = Some (Responds r, [])"
  shows "simulated exec c (set_link w (l\<lparr>child_io := WritesResponse g r 0\<rparr>) c)"
proof -
  have ok: "link_ok exec l" using fine_invD(1) [OF inv] w by blast
  obtain ms where frames: "request (as_worker l) = concat ms" "\<forall>m \<in> set ms. rq.whole m"
    by (rule link_frames [OF p w])
  show ?thesis
    by (rule simulated_stutter [OF inv w _ link_child_runs [OF ok l frames pass p(2)]]) simp
qed

lemma sim_child_writes_last:
  assumes inv: "fine_inv exec c" and w: "w < length (links c)" "links c ! w = l"
    and l: "lchild l = Alive" "child_io l = WritesResponse m r n" and last: "n + k = length r"
  shows "simulated exec c (set_link w (l\<lparr>rs_sock := rs_sock l @ part r n k, child_io := ReadsRequest []\<rparr>) c)"
proof -
  have ok: "link_ok exec l" using fine_invD(1) [OF inv] w by blast
  obtain junk rest where rest: "link_ok exec (l\<lparr>rs_sock := rs_sock l @ part r n k, child_io := ReadsRequest []\<rparr>)"
    "worker_pass junk exec (request (as_worker l)) = Some (Responds r, rest)"
    "as_worker (l\<lparr>rs_sock := rs_sock l @ part r n k, child_io := ReadsRequest []\<rparr>) =
      (as_worker l)\<lparr>request := rest, response := response (as_worker l) @ r\<rparr>"
    using link_child_writes_last [OF ok l last] by blast
  have "pool_step exec (as_pool c)
    (set_worker w ((as_worker l)\<lparr>request := rest, response := response (as_worker l) @ r\<rparr>) (as_pool c))"
    by (rule worker_responds [where junk = junk]) (use w l rest(2) in simp_all)
  with simulated_worker [OF inv w _ rest(1,3)] show ?thesis by simp
qed

lemma sim_child_crashes:
  assumes inv: "fine_inv exec c" and w: "w < length (links c)" "links c ! w = l" and l: "lchild l = Alive"
  shows "simulated exec c (set_base ((base c)\<lparr>crashed := True\<rparr>) (set_link w (l\<lparr>lchild := Exited\<rparr>) c))"
proof -
  have ok: "link_ok exec (l\<lparr>lchild := Exited\<rparr>)" "as_worker (l\<lparr>lchild := Exited\<rparr>) = (as_worker l)\<lparr>child := Exited\<rparr>"
    using link_child_crashes fine_invD(1) [OF inv w(1)] w(2) by blast+
  let ?d = "set_base ((base c)\<lparr>crashed := True\<rparr>) (set_link w (l\<lparr>lchild := Exited\<rparr>) c)"
  have "as_pool ?d = (set_worker w ((as_worker l)\<lparr>child := Exited\<rparr>) (as_pool c))\<lparr>crashed := True\<rparr>"
    using ok(2) by (simp add: as_pool_def map_update)
  moreover have "pool_step exec (as_pool c) ((set_worker w ((as_worker l)\<lparr>child := Exited\<rparr>) (as_pool c))\<lparr>crashed := True\<rparr>)"
    by (rule worker_crashes) (use w l in simp_all)
  ultimately show ?thesis
    by (intro simulated_link [OF inv w(1) ok(1), where s = "(base c)\<lparr>crashed := True\<rparr>"]) (use w in simp_all)
qed

lemma sim_reader_takes:
  assumes inv: "fine_inv exec c" and p: "pool_inv exec RQ RS (as_pool c)" "exec_small exec" and alive: "\<not> killed (base c)"
    and w: "w < length (links c)" "links c ! w = l" and l: "lreader l = Reading"
    and pass: "reader_pass (got l) = Some (h, bytes, [])"
  shows "simulated exec c (set_base (take_result h bytes (base c)) (set_link w (l\<lparr>got := []\<rparr>) c))"
proof -
  have ok: "link_ok exec l" using fine_invD(1) [OF inv] w by blast
  obtain ms where frames: "response (as_worker l) = concat ms" "\<forall>m \<in> set ms. rs.whole m"
    by (rule link_frames [OF p w])
  obtain rest where rest: "link_ok exec (l\<lparr>got := []\<rparr>)"
    "reader_pass (response (as_worker l)) = Some (h, bytes, rest)"
    "as_worker (l\<lparr>got := []\<rparr>) = (as_worker l)\<lparr>response := rest\<rparr>"
    using link_reader_takes [OF ok frames pass] by blast
  let ?d = "set_base (take_result h bytes (base c)) (set_link w (l\<lparr>got := []\<rparr>) c)"
  have "as_pool ?d = take_result h bytes (set_worker w ((as_worker l)\<lparr>response := rest\<rparr>) (as_pool c))"
    using rest(3) by (simp add: as_pool_def map_update)
  moreover have "pool_step exec (as_pool c) (take_result h bytes (set_worker w ((as_worker l)\<lparr>response := rest\<rparr>) (as_pool c)))"
    by (rule reader_takes) (use w l rest(2) alive in simp_all)
  ultimately show ?thesis
    by (intro simulated_link [OF inv w(1) rest(1), where s = "take_result h bytes (base c)"])
      (use w in \<open>simp_all add: op_frames\<close>)
qed

lemma sim_reader_ends:
  assumes inv: "fine_inv exec c" and p: "pool_inv exec RQ RS (as_pool c)" "exec_small exec" and alive: "\<not> killed (base c)"
    and w: "w < length (links c)" "links c ! w = l" and l: "lreader l = Reading" "lchild l = Exited"
    and "rs_sock l = []" and "0 < rs.missing (got l)"
  shows "simulated exec c (set_link w (l\<lparr>lreader := ReaderDone\<rparr>) c)"
proof -
  have ok: "link_ok exec l" using fine_invD(1) [OF inv] w by blast
  obtain ms where frames: "response (as_worker l) = concat ms" "\<forall>m \<in> set ms. rs.whole m"
    by (rule link_frames [OF p w])
  have fin: "link_ok exec (l\<lparr>lreader := ReaderDone\<rparr>)" "reader_pass (response (as_worker l)) = None"
    "as_worker (l\<lparr>lreader := ReaderDone\<rparr>) = (as_worker l)\<lparr>reader := ReaderDone\<rparr>"
    using link_reader_ends [OF ok frames assms(9,10)] by blast+
  have "pool_step exec (as_pool c) (set_worker w ((as_worker l)\<lparr>reader := ReaderDone\<rparr>) (as_pool c))"
    by (rule reader_ends) (use w l fin(2) alive in simp_all)
  with simulated_worker [OF inv w _ fin(1,3)] show ?thesis by simp
qed

section \<open>Steps of a thread that writes\<close>

lemma sim_lock:
  assumes inv: "fine_inv exec c" and w: "w < length (links c)" "links c ! w = l" and free: "write_lock l = None"
    and m: "rq.whole m" and ok: "sender_ok (base c) w \<lparr>who = v, msg = m, sent = 0\<rparr>"
  shows "simulated exec c (set_link w (l\<lparr>write_lock := Some \<lparr>who = v, msg = m, sent = 0\<rparr>\<rparr>) c)"
proof -
  let ?l = "l\<lparr>write_lock := Some \<lparr>who = v, msg = m, sent = 0\<rparr>\<rparr>"
  have l: "link_ok exec ?l" "as_worker ?l = as_worker l"
    using link_locked [OF _ free m] fine_invD(1) [OF inv w(1)] w(2) by blast+
  have "fine_inv exec (set_link w ?l c)"
    using ok by (intro fine_inv_link [OF inv w(1) _ _ l(1)]) auto
  moreover have "as_pool (set_link w ?l c) = as_pool c"
    using l(2) w by (auto simp: as_pool_def map_update list_update_same_conv)
  ultimately show ?thesis by (simp add: simulated_def)
qed

lemma sender_ok_sent [simp]: "sender_ok s w (x\<lparr>sent := n\<rparr>) = sender_ok s w x"
  by (simp add: sender_ok_def split: sender.split)

lemma sim_write:
  assumes inv: "fine_inv exec c" and w: "w < length (links c)" "links c ! w = l" and x: "write_lock l = Some x"
    and alive: "lchild l = Alive" and k: "can_write cap 32 (msg x) (sent x) (rq_sock l) k"
    and more: "sent x + k < length (msg x)"
  shows "simulated exec c (set_link w
    (l\<lparr>rq_sock := rq_sock l @ part (msg x) (sent x) k, write_lock := Some (x\<lparr>sent := sent x + k\<rparr>)\<rparr>) c)"
proof -
  let ?l = "l\<lparr>rq_sock := rq_sock l @ part (msg x) (sent x) k, write_lock := Some (x\<lparr>sent := sent x + k\<rparr>)\<rparr>"
  have l: "link_ok exec ?l" "as_worker ?l = as_worker l"
    using link_write [OF _ alive x k more] fine_invD(1) [OF inv w(1)] w(2) by blast+
  have "sender_ok (base c) w x" if "\<not> killed (base c)" using fine_invD(2) [OF inv w(1)] w(2) x that by simp
  then have "fine_inv exec (set_link w ?l c)"
    by (intro fine_inv_link [OF inv w(1) _ _ l(1)]) auto
  moreover have "as_pool (set_link w ?l c) = as_pool c"
    using l(2) w by (auto simp: as_pool_def map_update list_update_same_conv)
  ultimately show ?thesis by (simp add: simulated_def)
qed

lemma sender_other:
  assumes "sender_ok s w x" and "sender_ok s v y" and "v \<noteq> w"
  shows "sender_ok (sender_done (who x) s) v y" "sender_ok (sender_fails (who x) s) v y"
  using assms by (cases "who x"; cases "who y"; auto simp: sender_ok_def nth_list_update)+

lemma sender_frames [simp]:
  "workers (sender_done v s) = workers s" "workers (sender_fails v s) = workers s"
  "workers (sender_killed v s) = workers s" "killed (sender_done v s) = killed s" "killed (sender_fails v s) = killed s"
  by (cases v; auto split: client_pc.split shutdown_pc.split)+

lemma killed_sender_killed:
  assumes "sender_ok s w x"
  shows "killed (sender_killed (who x) s)"
  using assms by (cases "who x") (auto simp: sender_ok_def)

lemma sim_write_last:
  assumes inv: "fine_inv exec c" and live: "\<not> killed (base c)" and w: "w < length (links c)" "links c ! w = l"
    and x: "write_lock l = Some x" and alive: "\<not> lreaped l" "lchild l = Alive" and last: "sent x + k = length (msg x)"
  shows "simulated exec c (set_base (sender_done (who x) (base c))
    (set_link w (l\<lparr>rq_sock := rq_sock l @ part (msg x) (sent x) k, write_lock := None\<rparr>) c))" (is "simulated exec c ?d")
proof -
  let ?l = "l\<lparr>rq_sock := rq_sock l @ part (msg x) (sent x) k, write_lock := None\<rparr>"
  have l: "link_ok exec ?l" "as_worker ?l = (as_worker l)\<lparr>request := request (as_worker l) @ msg x\<rparr>"
    using link_write_last [OF _ alive(2) x last] fine_invD(1) [OF inv w(1)] w(2) by blast+
  have s: "sender_ok (base c) w x" using fine_invD(2) [OF inv w(1)] w(2) x live by simp
  have "fine_inv exec ?d"
    by (rule fine_inv_link [OF inv w(1) _ _ l(1)]) (use s live sender_other in auto)
  moreover have "pool_step exec (as_pool c) (as_pool ?d)"
  proof (cases "who x")
    case (SClient i)
    then obtain t n junk where i: "i < length (clients (base c))" "clients (base c) ! i = ClChosen t n w"
      and m: "msg x = run_message junk n (exec_addr t) (payload t)" using s by (auto simp: sender_ok_def)
    have "as_pool ?d = deliver_task junk i t n w (as_pool c)"
      using SClient i l(2) live alive w m
      by (simp add: as_pool_def deliver_task_def send_to_worker_def Let_def map_update)
    then show ?thesis using submit_deliver [of "as_pool c" i t n w exec junk] live i by simp
  next
    case SShutdown
    then obtain junk where sh: "shutdown (base c) = ShStop w" and m: "msg x = stop_message junk"
      using s by (auto simp: sender_ok_def)
    have "as_pool ?d = stop_worker junk w (as_pool c)"
      using SShutdown sh l(2) alive w m
      by (simp add: as_pool_def stop_worker_def send_to_worker_def Let_def map_update)
    then show ?thesis using shutdown_stop [of "as_pool c" w exec junk] live sh w(1) by simp
  qed
  ultimately show ?thesis by (simp add: simulated_def)
qed

lemma sim_write_fails:
  assumes inv: "fine_inv exec c" and live: "\<not> killed (base c)" and w: "w < length (links c)" "links c ! w = l"
    and x: "write_lock l = Some x" and gone: "lreaped l"
  shows "simulated exec c (set_base (sender_fails (who x) (base c))
    (set_link w (l\<lparr>write_lock := None, torn := torn l + sent x\<rparr>) c))" (is "simulated exec c ?d")
proof -
  let ?l = "l\<lparr>write_lock := None, torn := torn l + sent x\<rparr>"
  have l: "link_ok exec ?l" "as_worker ?l = as_worker l"
    using link_give_up [OF _ gone x] fine_invD(1) [OF inv w(1)] w(2) by blast+
  have s: "sender_ok (base c) w x" using fine_invD(2) [OF inv w(1)] w(2) x live by simp
  have ws: "(map as_worker (links c))[w := as_worker l] = map as_worker (links c)"
    using w by (simp add: list_update_same_conv)
  have "fine_inv exec ?d"
    by (rule fine_inv_link [OF inv w(1) _ _ l(1)]) (use s live sender_other in auto)
  moreover have "pool_step exec (as_pool c) (as_pool ?d)"
  proof (cases "who x")
    case (SClient i)
    then obtain t n where i: "i < length (clients (base c))" "clients (base c) ! i = ClChosen t n w"
      using s by (auto simp: sender_ok_def)
    have "as_pool ?d = deliver_task [] i t n w (as_pool c)"
      using SClient i l(2) gone w ws
      by (simp add: as_pool_def deliver_task_def send_to_worker_def Let_def map_update)
    then show ?thesis using submit_deliver [of "as_pool c" i t n w exec "[]"] live i by simp
  next
    case SShutdown
    then have sh: "shutdown (base c) = ShStop w" using s by (auto simp: sender_ok_def)
    have "as_pool ?d = stop_worker [] w (as_pool c)"
      using SShutdown sh l(2) gone w ws
      by (simp add: as_pool_def stop_worker_def send_to_worker_def Let_def map_update)
    then show ?thesis using shutdown_stop [of "as_pool c" w exec "[]"] live sh w(1) by simp
  qed
  ultimately show ?thesis by (simp add: simulated_def)
qed

lemma sim_write_killed:
  assumes inv: "fine_inv exec c" and live: "\<not> killed (base c)" and w: "w < length (links c)" "links c ! w = l"
    and x: "write_lock l = Some x" and gone: "\<not> lreaped l" "lchild l = Exited"
  shows "simulated exec c (set_base (sender_killed (who x) (base c)) c)" (is "simulated exec c ?d")
proof -
  have s: "sender_ok (base c) w x" using fine_invD(2) [OF inv w(1)] w(2) x live by simp
  have "fine_inv exec ?d"
    using killed_sender_killed [OF s] by (intro fine_inv_base [OF inv]) simp_all
  moreover have "pool_step exec (as_pool c) (as_pool ?d)"
  proof (cases "who x")
    case (SClient i)
    then obtain t n where i: "i < length (clients (base c))" "clients (base c) ! i = ClChosen t n w"
      using s by (auto simp: sender_ok_def)
    have "as_pool ?d = deliver_task [] i t n w (as_pool c)"
      using SClient gone w by (simp add: as_pool_def deliver_task_def send_to_worker_def Let_def)
    then show ?thesis using submit_deliver [of "as_pool c" i t n w exec "[]"] live i by simp
  next
    case SShutdown
    then have sh: "shutdown (base c) = ShStop w" using s by (auto simp: sender_ok_def)
    have "as_pool ?d = stop_worker [] w (as_pool c)"
      using SShutdown sh gone w by (simp add: as_pool_def stop_worker_def send_to_worker_def Let_def)
    then show ?thesis using shutdown_stop [of "as_pool c" w exec "[]"] live sh w(1) by simp
  qed
  ultimately show ?thesis by (simp add: simulated_def)
qed

section \<open>Every step\<close>

lemma fine_io_simulated:
  assumes step: "fine_io cap exec c d" and inv: "fine_inv exec c" and p: "pool_inv exec RQ RS (as_pool c)" "exec_small exec"
  shows "simulated exec c d"
  using step
proof cases
  case (f_write w l x k)
  then show ?thesis using sim_write [OF inv] by blast
next
  case (f_write_last w l x k)
  then show ?thesis using sim_write_last [OF inv] by blast
next
  case (f_write_fails w l x)
  then show ?thesis using sim_write_fails [OF inv] by blast
next
  case (f_child_reads w l g k)
  have ok: "link_ok exec l" using fine_invD(1) [OF inv] f_child_reads by blast
  show ?thesis
    unfolding f_child_reads(1)
    by (rule simulated_stutter [OF inv f_child_reads(2,3) _ link_child_reads [OF ok f_child_reads(5,6)]]) simp
next
  case (f_child_stops w l g junk)
  then show ?thesis using sim_child_stops [OF inv p] by blast
next
  case (f_child_runs w l g junk r)
  then show ?thesis using sim_child_runs [OF inv p] by blast
next
  case (f_child_writes w l m r n k)
  have ok: "link_ok exec l" using fine_invD(1) [OF inv] f_child_writes by blast
  show ?thesis
    unfolding f_child_writes(1)
    by (rule simulated_stutter [OF inv f_child_writes(2,3) _ link_child_writes [OF ok f_child_writes(5,7)]]) simp
next
  case (f_child_writes_last w l m r n k)
  then show ?thesis using sim_child_writes_last [OF inv] by blast
next
  case (f_reader_reads w l k)
  have ok: "link_ok exec l" using fine_invD(1) [OF inv] f_reader_reads by blast
  show ?thesis
    unfolding f_reader_reads(1)
    by (rule simulated_stutter [OF inv f_reader_reads(3,4) _ link_reader_reads [OF ok f_reader_reads(6)]]) simp
next
  case (f_reader_takes w l h bytes)
  then show ?thesis using sim_reader_takes [OF inv p] by blast
next
  case (f_reader_ends w l)
  then show ?thesis using sim_reader_ends [OF inv p] by blast
qed

lemma fine_step_simulated:
  assumes step: "fine_step cap exec c d" and inv: "fine_inv exec c" and p: "pool_inv exec RQ RS (as_pool c)" "exec_small exec"
  shows "simulated exec c d"
  using step
proof cases
  case f_io
  then show ?thesis using fine_io_simulated [OF _ inv p] by blast
next
  case (f_call i t)
  then show ?thesis using sim_call [OF inv] by blast
next
  case (f_register i t n)
  then show ?thesis using sim_register [OF inv] by blast
next
  case (f_choose i t n)
  then show ?thesis using sim_choose [OF inv] by blast
next
  case (f_lock_task i t n w l junk)
  have "length (payload t) < 2 ^ 64"
    using p(1) f_lock_task(4) f_lock_task(3) unfolding pool_inv_def numbers_ok_def clients_ok_def
    by (metis as_pool_fields(2) client_ok.simps(4))
  then have m: "rq.whole (run_message junk n (exec_addr t) (payload t))" by (rule run_message_whole)
  show ?thesis
    unfolding f_lock_task(1) by (rule sim_lock [OF inv f_lock_task(5-7) m]) (use f_lock_task in \<open>auto simp: sender_ok_def\<close>)
next
  case (f_lock_stop w l junk)
  show ?thesis
    unfolding f_lock_stop(1)
    by (rule sim_lock [OF inv f_lock_stop(4-6) stop_message_whole]) (use f_lock_stop in \<open>auto simp: sender_ok_def\<close>)
next
  case (f_write_killed w l x)
  then show ?thesis using sim_write_killed [OF inv] by blast
next
  case (f_child_crashes w l)
  then show ?thesis using sim_child_crashes [OF inv] by blast
next
  case f_shutdown_begin
  have never: "shutdown (base c) = ShNever" using p(1) f_shutdown_begin by (simp add: pool_inv_def phases_ok_def)
  show ?thesis
    unfolding f_shutdown_begin(1)
    by (rule sim_shutdown [OF inv f_shutdown_begin(2)])
      (use never f_shutdown_begin shutdown_begin [of "as_pool c" exec] in simp_all)
next
  case (f_shutdown_stopped w)
  show ?thesis
    unfolding f_shutdown_stopped(1)
    by (rule sim_shutdown [OF inv f_shutdown_stopped(2)])
      (use f_shutdown_stopped shutdown_stopped [of "as_pool c" w exec] in simp_all)
next
  case (f_shutdown_join w)
  show ?thesis
    unfolding f_shutdown_join(1)
    by (rule sim_shutdown [OF inv f_shutdown_join(2)])
      (use f_shutdown_join shutdown_join [of "as_pool c" w exec] in simp_all)
next
  case (f_shutdown_joined w)
  show ?thesis
    unfolding f_shutdown_joined(1)
    by (rule sim_shutdown [OF inv f_shutdown_joined(2)])
      (use f_shutdown_joined shutdown_joined [of "as_pool c" w exec] in simp_all)
next
  case (f_shutdown_reap w l)
  then show ?thesis using sim_reap [OF inv] by blast
next
  case (f_shutdown_reaped w)
  show ?thesis
    unfolding f_shutdown_reaped(1)
    by (rule sim_shutdown [OF inv f_shutdown_reaped(2)])
      (use f_shutdown_reaped shutdown_reaped [of "as_pool c" w exec] in simp_all)
next
  case f_shutdown_fail
  show ?thesis
    unfolding f_shutdown_fail(1)
    by (rule sim_shutdown [OF inv f_shutdown_fail(2)])
      (use f_shutdown_fail shutdown_fail [of "as_pool c" exec] in \<open>simp_all add: op_frames\<close>)
next
  case f_shutdown_again
  with inv show ?thesis by (simp add: simulated_def)
qed

end
