(* ===== verification/Pool_Fine_Runs.thy ===== *)
theory Pool_Fine_Runs
  imports Pool_Fine_Steps Pool_Runs
begin

text \<open>
  The properties of the process pool with partial reads and writes: its runs are runs of the pool of
  theory \<open>Pool_System\<close>, so that everything proved there holds of it; reading and writing always comes
  to an end; and with sockets that hold one byte or more it does not end before every future that
  \<open>Submit\<close> has returned is answered.
\<close>

section \<open>Reachable states\<close>

lemma sender_submitted [simp]:
  "submitted (sender_done v s) = submitted s" "submitted (sender_fails v s) = submitted s"
  "submitted (sender_killed v s) = submitted s"
  by (cases v; auto split: client_pc.split shutdown_pc.split)+

lemma fine_io_submitted:
  assumes "fine_io cap exec c d"
  shows "submitted (base d) = submitted (base c)"
  using assms by cases auto

lemma fine_step_submitted:
  assumes "fine_step cap exec c d"
  shows "submitted (base c) \<le> submitted (base d)"
  using assms by cases (auto simp: fine_io_submitted)

lemma as_pool_init:
  assumes "fine_init z"
  shows "as_pool z = base z"
proof -
  have "workers (base z) = replicate (length (workers (base z))) SpawnWorker"
    using assms unfolding fine_init_def pool_init_def ProcessPool_def
    by (metis (no_types, lifting) Inr_inject Inl_Inr_False length_replicate pool.select_convs(1))
  moreover have "as_worker new_link = SpawnWorker"
    by (simp add: as_worker_def new_link_def SpawnWorker_def half_sent_def)
  ultimately have "map as_worker (links z) = workers (base z)" using assms by (simp add: fine_init_def map_replicate)
  then show ?thesis by (simp add: as_pool_def)
qed

lemma fine_init_inv:
  assumes "fine_init z"
  shows "fine_inv exec z"
proof -
  have "link_ok exec new_link" by (simp add: link_ok_def new_link_def half_sent_def half_text_def)
  moreover have "write_lock new_link = None" by (simp add: new_link_def)
  ultimately show ?thesis using assms by (simp add: fine_inv_def fine_init_def)
qed

text \<open>The invariant of a run: the run so far, seen as a run of the pool.\<close>

definition fine_good :: "executors \<Rightarrow> fine \<Rightarrow> fine \<Rightarrow> bool" where
  "fine_good exec z c \<longleftrightarrow>
     (submitted (base c) < 2 ^ 64 \<longrightarrow> fine_inv exec c \<and> (pool_step exec)\<^sup>*\<^sup>* (as_pool z) (as_pool c))"

interpretation fine_pool: invariant_system "\<lambda>c. c = z \<and> fine_init z"
  "\<lambda>c d. fine_step cap exec c d \<and> fine_init z \<and> exec_small exec" "fine_good exec z" for cap exec z
proof (unfold_locales, goal_cases)
  case (1 c)
  then show ?case using fine_init_inv by (simp add: fine_good_def)
next
  case (2 c d)
  show ?case
    unfolding fine_good_def
  proof
    assume "submitted (base d) < 2 ^ 64"
    then have sub: "submitted (base c) < 2 ^ 64" using 2 fine_step_submitted [of cap exec c d] by simp
    with 2 have inv: "fine_inv exec c" and run: "(pool_step exec)\<^sup>*\<^sup>* (as_pool z) (as_pool c)" by (simp_all add: fine_good_def)
    have "pool_init (as_pool z)" using 2 as_pool_init by (simp add: fine_init_def)
    from pool_reachable [OF this run] 2 sub obtain RQ RS where "pool_inv exec RQ RS (as_pool c)" by auto
    with fine_step_simulated [OF _ inv] 2 have "simulated exec c d" by blast
    with run show "fine_inv exec d \<and> (pool_step exec)\<^sup>*\<^sup>* (as_pool z) (as_pool d)"
      unfolding simulated_def by (metis rtranclp.rtrancl_into_rtrancl)
  qed
qed

lemma fine_reachable:
  assumes "fine_init z" and "(fine_step cap exec)\<^sup>*\<^sup>* z c" and "exec_small exec" and "submitted (base c) < 2 ^ 64"
  obtains RQ RS where "fine_inv exec c" "(pool_step exec)\<^sup>*\<^sup>* (base z) (as_pool c)" "pool_inv exec RQ RS (as_pool c)"
proof -
  have "(\<lambda>c d. fine_step cap exec c d \<and> fine_init z \<and> exec_small exec) = fine_step cap exec" using assms by simp
  with assms fine_pool.reachable_good [of z z cap exec c]
  have good: "fine_inv exec c" "(pool_step exec)\<^sup>*\<^sup>* (base z) (as_pool c)"
    by (simp_all add: fine_good_def as_pool_init)
  moreover have "pool_init (base z)" using assms(1) by (simp add: fine_init_def)
  ultimately show thesis using pool_reachable [of "base z" exec "as_pool c"] assms(3,4) that by auto
qed

section \<open>Reading and writing ends\<close>

lemma measures_list_update:
  assumes "(l, xs ! w) \<in> measures gs" and "w < length xs"
  shows "(xs[w := l], xs) \<in> measures (map (\<lambda>g xs. sum_list (map g xs)) gs)"
  using assms(1)
proof (induction gs)
  case (Cons g gs)
  have "sum_list (map g (xs[w := l])) + g (xs ! w) = sum_list (map g xs) + g l"
    using sum_list_move [OF assms(2)] .
  then show ?case using Cons by (cases "g l < g (xs ! w)") auto
qed simp

text \<open>
  What is left to do on a link: bytes to be sent, bytes in the request socket, a request to be run,
  bytes of the response to be written, bytes in the response socket, a response to be taken.
\<close>

definition unsent :: "link \<Rightarrow> nat" where
  "unsent l = (case write_lock l of None \<Rightarrow> 0 | Some x \<Rightarrow> Suc (length (msg x) - sent x))"

fun unserved :: "child_io \<Rightarrow> nat" where
  "unserved (ReadsRequest g) = length g"
| "unserved (WritesResponse m r n) = 0"

fun unwritten :: "child_io \<Rightarrow> nat" where
  "unwritten (ReadsRequest g) = 0"
| "unwritten (WritesResponse m r n) = Suc (length r - n)"

definition left_to_do :: "(link \<Rightarrow> nat) list" where
  "left_to_do = [unsent, \<lambda>l. length (rq_sock l), \<lambda>l. unserved (child_io l), \<lambda>l. unwritten (child_io l),
     \<lambda>l. length (rs_sock l), \<lambda>l. length (got l), \<lambda>l. if lreader l = Reading then 1 else 0]"

lemma on_linkI:
  assumes "w < length (links c)" and "(l, links c ! w) \<in> measures left_to_do"
  shows "d = set_link w l c \<Longrightarrow> (links d, links c) \<in> measures (map (\<lambda>g xs. sum_list (map g xs)) left_to_do)"
    "d = set_base s (set_link w l c) \<Longrightarrow> (links d, links c) \<in> measures (map (\<lambda>g xs. sum_list (map g xs)) left_to_do)"
  using measures_list_update [OF assms(2,1)] by simp_all

lemma fine_io_less:
  assumes "fine_io cap exec c d"
  shows "(links d, links c) \<in> measures (map (\<lambda>g xs. sum_list (map g xs)) left_to_do)"
  using assms
  by cases (erule on_linkI [rotated 2], assumption,
      force simp: left_to_do_def unsent_def can_write_def can_read_def worker_pass_def reader_pass_def split: if_splits)+

lemma fine_io_wf: "wf {(d, c). fine_io cap exec c d}"
proof (rule wf_subset)
  show "wf (inv_image (measures (map (\<lambda>g xs. sum_list (map g xs)) left_to_do)) links)" by simp
  show "{(d, c). fine_io cap exec c d} \<subseteq> inv_image (measures (map (\<lambda>g xs. sum_list (map g xs)) left_to_do)) links"
    using fine_io_less by (auto simp: inv_image_def)
qed

section \<open>Where it ends\<close>

text \<open>A message that has been collected can be served.\<close>

lemma whole_served:
  assumes "rq.begun g" and "rq.missing g = 0"
  shows "\<exists>r. worker_pass junk exec g = Some (r, [])"
proof -
  define n where "n = request_follows (take 32 g)"
  have len: "length g = 32 + n" using rq.begun_whole [OF assms] by (simp add: rq.whole_def n_def)
  show ?thesis
  proof (cases "command (bytes_task (take 32 g)) = command_code StopWorker")
    case True
    then have "n = 0" by (simp add: n_def request_follows_def)
    with True len show ?thesis by (simp add: worker_pass_def Let_def)
  next
    case False
    then have "n = unat (payload_size (bytes_task (take 32 g)))" by (simp add: n_def request_follows_def)
    with False len show ?thesis by (simp add: worker_pass_def Let_def)
  qed
qed

lemma whole_taken:
  assumes "rs.begun g" and "rs.missing g = 0"
  shows "\<exists>h bytes. reader_pass g = Some (h, bytes, [])"
proof -
  define n where "n = response_follows (take 24 g)"
  have "length g = 24 + n" using rs.begun_whole [OF assms] by (simp add: rs.whole_def n_def)
  moreover have "unat (result_size (bytes_result (take 24 g))) = n" by (simp add: n_def response_follows_def)
  ultimately show ?thesis by (simp add: reader_pass_def Let_def)
qed

text \<open>A reader, a worker and a writer that cannot move, one after the other.\<close>

lemma stuck_reader:
  assumes stuck: "\<And>d. \<not> fine_io cap exec c d" and ok: "link_ok exec l" and live: "\<not> killed (base c)"
    and w: "w < length (links c)" "links c ! w = l" and r: "lreader l = Reading"
  shows "0 < rs.missing (got l) \<and> rs_sock l = []"
proof -
  have m: "0 < rs.missing (got l)"
  proof (rule ccontr)
    assume "\<not> 0 < rs.missing (got l)"
    moreover have "rs.begun (got l)" using ok by (simp add: link_ok_def)
    ultimately obtain h bytes where "reader_pass (got l) = Some (h, bytes, [])"
      using whole_taken [of "got l"] by blast
    with stuck f_reader_takes [OF live w r] show False by blast
  qed
  moreover have "rs_sock l = []"
  proof (rule ccontr)
    assume "rs_sock l \<noteq> []"
    with m have "can_read (rs.missing (got l)) (rs_sock l) 1" by (cases "rs_sock l") (simp_all add: can_read_def)
    with stuck f_reader_reads [OF live w r] show False by blast
  qed
  ultimately show ?thesis ..
qed

lemma stuck_worker:
  assumes stuck: "\<And>d. \<not> fine_io cap exec c d" and ok: "link_ok exec l" and cap: "0 < cap"
    and w: "w < length (links c)" "links c ! w = l" and alive: "lchild l = Alive" and room: "rs_sock l = []"
  shows "\<exists>g. child_io l = ReadsRequest g \<and> 0 < rq.missing g \<and> rq_sock l = []"
proof (cases "child_io l")
  case (ReadsRequest g)
  have m: "0 < rq.missing g"
  proof (rule ccontr)
    assume "\<not> 0 < rq.missing g"
    then obtain r where "worker_pass [] exec g = Some (r, [])"
      using whole_served [of g "[]" exec] ok ReadsRequest by (auto simp: link_ok_def)
    with stuck f_child_stops [OF w alive ReadsRequest] f_child_runs [OF w alive ReadsRequest] show False
      by (cases r) blast+
  qed
  moreover have "rq_sock l = []"
  proof (rule ccontr)
    assume "rq_sock l \<noteq> []"
    with m have "can_read (rq.missing g) (rq_sock l) 1" by (cases "rq_sock l") (simp_all add: can_read_def)
    with stuck f_child_reads [OF w alive ReadsRequest] show False by blast
  qed
  ultimately show ?thesis using ReadsRequest by blast
next
  case (WritesResponse m r n)
  then have n: "n < length r" using ok by (simp add: link_ok_def)
  with cap room have k: "can_write cap 24 r n (rs_sock l) 1" by (simp add: can_write_def)
  have "\<exists>d. fine_io cap exec c d"
  proof (cases "n + 1 = length r")
    case True
    with f_child_writes_last [OF w alive WritesResponse k] show ?thesis by blast
  next
    case False
    with n f_child_writes [OF w alive WritesResponse k] show ?thesis by fastforce
  qed
  with stuck show ?thesis by blast
qed

lemma stuck_writer:
  assumes stuck: "\<And>d. \<not> fine_io cap exec c d" and ok: "link_ok exec l" and cap: "0 < cap" and live: "\<not> killed (base c)"
    and w: "w < length (links c)" "links c ! w = l" and alive: "lchild l = Alive" and room: "rq_sock l = []"
  shows "write_lock l = None"
proof (cases "write_lock l")
  case (Some x)
  then have n: "sent x < length (msg x)" using ok by (simp add: link_ok_def)
  with cap room have k: "can_write cap 32 (msg x) (sent x) (rq_sock l) 1" by (simp add: can_write_def)
  have gone: "\<not> lreaped l" using ok alive by (simp add: link_ok_def)
  have "\<exists>d. fine_io cap exec c d"
  proof (cases "sent x + 1 = length (msg x)")
    case True
    with f_write_last [OF live w Some gone alive k] show ?thesis by blast
  next
    case False
    with n f_write [OF live w Some gone alive k] show ?thesis by fastforce
  qed
  with stuck show ?thesis by blast
qed

lemma stuck_idle:
  assumes stuck: "\<And>d. \<not> fine_io cap exec c d" and inv: "fine_inv exec c"
    and p: "pool_inv exec RQ RS (as_pool c)" "exec_small exec" and cap: "0 < cap" and run: "running (as_pool c)"
    and w: "w < length (links c)" and l: "links c ! w = l"
  shows "write_lock l = None \<and> request (as_worker l) = [] \<and> response (as_worker l) = []"
proof -
  have ok: "link_ok exec l" using fine_invD(1) [OF inv w] l by simp
  have live: "\<not> killed (base c)" using running_not_killed [OF p(1) run] by simp
  have quiet: "lchild l = Alive" "lreader l = Reading"
    using worker_quiet(1,2) [OF p(1) run, of w] w l by simp_all
  note rd = stuck_reader [OF stuck ok live w l quiet(2)]
  obtain g where g: "child_io l = ReadsRequest g" "0 < rq.missing g" "rq_sock l = []"
    using stuck_worker [OF stuck ok cap w l quiet(1)] rd by blast
  note free = stuck_writer [OF stuck ok cap live w l quiet(1) g(3)]
  obtain ms ns where frames: "request (as_worker l) = concat ms" "\<forall>m \<in> set ms. rq.whole m"
    "response (as_worker l) = concat ns" "\<forall>m \<in> set ns. rs.whole m"
    by (rule link_frames [OF p w l])
  have "request (as_worker l) = g" by (rule request_is [OF ok quiet(1)]) (simp add: g free half_text_def)
  then have "ms = []" using rq.no_frame [of ms "[]" g] frames ok g by (simp add: link_ok_def)
  moreover have "ns = []"
    using rs.no_frame [of ns "half_response (child_io l)" "got l"] response_stream [OF ok frames(3)] frames(4) rd ok
    by (simp add: link_ok_def)
  ultimately show ?thesis using free frames by simp
qed

text \<open>The steps of the sockets neither begin a shutdown nor crash a worker.\<close>

lemma fine_io_running:
  assumes "fine_io cap exec c d"
  shows "stopping (base d) = stopping (base c) \<and> crashed (base d) = crashed (base c)"
proof -
  have [simp]: "stopping (sender_done v s) = stopping s" "crashed (sender_done v s) = crashed s"
    "stopping (sender_fails v s) = stopping s" "crashed (sender_fails v s) = crashed s" for v s
    by (cases v; auto split: client_pc.split shutdown_pc.split)+
  have [simp]: "stopping (take_result h bytes s) = stopping s" "crashed (take_result h bytes s) = crashed s" for h bytes s
    by (simp_all add: take_result_def split: option.split)
  from assms show ?thesis by cases auto
qed

lemma fine_io_run:
  assumes "(fine_io cap exec)\<^sup>*\<^sup>* c d"
  shows "(fine_step cap exec)\<^sup>*\<^sup>* c d \<and> submitted (base d) = submitted (base c) \<and>
    stopping (base d) = stopping (base c) \<and> crashed (base d) = crashed (base c)"
  using assms
proof (induction rule: rtranclp_induct)
  case (step d e)
  then show ?case
    using fine_io_submitted fine_io_running f_io by (metis rtranclp.rtrancl_into_rtrancl)
qed simp

lemma fine_io_ends: "\<exists>d. (fine_io cap exec)\<^sup>*\<^sup>* c d \<and> (\<forall>e. \<not> fine_io cap exec d e)"
  using fine_io_wf [of cap exec]
proof (induction c rule: wf_induct_rule)
  case (less c)
  show ?case
  proof (cases "\<exists>d. fine_io cap exec c d")
    case True
    then obtain d where "fine_io cap exec c d" by blast
    with less [of d] show ?thesis by (auto intro: converse_rtranclp_into_rtranclp)
  qed auto
qed

lemma fine_end:
  assumes "fine_init z" and "(fine_step cap exec)\<^sup>*\<^sup>* z c" and "exec_small exec" and "submitted (base c) < 2 ^ 64"
    and "0 < cap" and "\<not> stopping (base c)" and "\<not> crashed (base c)" and stuck: "\<And>d. \<not> fine_io cap exec c d"
  shows "list_all (\<lambda>l. write_lock l = None) (links c) \<and> set (returned (base c)) \<subseteq> {n. answered exec (base c) n}"
proof -
  from fine_reachable [OF assms(1-4)] obtain RQ RS where inv: "fine_inv exec c" and p: "pool_inv exec RQ RS (as_pool c)" .
  have run: "running (as_pool c)" using assms(6,7) by (simp add: running_def)
  note idle_link = stuck_idle [OF stuck inv p assms(3,5) run _ refl]
  then have "idle exec (as_pool c)" by (simp add: idle_def list_all_length)
  with idle_answered [OF p assms(3) run] have "answered exec (as_pool c) n" if "n \<in> set (returned (base c))" for n
    using that by simp
  then have "answered exec (base c) n" if "n \<in> set (returned (base c))" for n using that by (simp add: answered_def)
  with idle_link show ?thesis by (auto simp: list_all_length)
qed

section \<open>An executable scheduler\<close>

text \<open>A turn names who moves and how many bytes its call of \<open>read\<close> or \<open>write\<close> moves.\<close>

datatype fine_move =
    FineSubmit nat task
  | FineClient nat
  | FineSender nat nat
  | FineChild nat nat
  | FineReader nat nat

definition fine_client :: "nat \<Rightarrow> fine \<Rightarrow> fine option" where
  "fine_client i c =
     (case clients (base c) ! i of
        ClIdle \<Rightarrow> None
      | ClNumbered t n \<Rightarrow> Some (set_base (register_task i t n (base c)) c)
      | ClRegistered t n \<Rightarrow> Some (set_base (choose_worker i t n (base c)) c)
      | ClChosen t n w \<Rightarrow>
          (if w < length (links c) \<and> write_lock (links c ! w) = None
           then Some (set_link w ((links c ! w)\<lparr>write_lock :=
             Some \<lparr>who = SClient i, msg = run_message [] n (exec_addr t) (payload t), sent = 0\<rparr>\<rparr>) c)
           else None))"

definition fine_sender :: "nat \<Rightarrow> nat \<Rightarrow> nat \<Rightarrow> fine \<Rightarrow> fine option" where
  "fine_sender cap w k c =
     (let l = links c ! w
      in case write_lock l of
           None \<Rightarrow> None
         | Some x \<Rightarrow>
             (if \<not> lreaped l \<and> lchild l = Alive \<and> can_write cap 32 (msg x) (sent x) (rq_sock l) k
              then let s = rq_sock l @ part (msg x) (sent x) k
                   in if sent x + k < length (msg x)
                      then Some (set_link w (l\<lparr>rq_sock := s, write_lock := Some (x\<lparr>sent := sent x + k\<rparr>)\<rparr>) c)
                      else if sent x + k = length (msg x)
                      then Some (set_base (sender_done (who x) (base c)) (set_link w (l\<lparr>rq_sock := s, write_lock := None\<rparr>) c))
                      else None
              else None))"

definition fine_child :: "nat \<Rightarrow> executors \<Rightarrow> nat \<Rightarrow> nat \<Rightarrow> fine \<Rightarrow> fine option" where
  "fine_child cap exec w k c =
     (let l = links c ! w
      in case child_io l of
           ReadsRequest g \<Rightarrow>
             (case worker_pass [] exec g of
                Some (Responds r, []) \<Rightarrow> Some (set_link w (l\<lparr>child_io := WritesResponse g r 0\<rparr>) c)
              | Some (WorkerStops, []) \<Rightarrow> Some (set_link w (l\<lparr>child_io := ReadsRequest [], lchild := Exited\<rparr>) c)
              | _ \<Rightarrow>
                (if can_read (rq.missing g) (rq_sock l) k
                 then Some (set_link w (l\<lparr>child_io := ReadsRequest (g @ take k (rq_sock l)), rq_sock := drop k (rq_sock l)\<rparr>) c)
                 else None))
         | WritesResponse m r n \<Rightarrow>
             (if can_write cap 24 r n (rs_sock l) k
              then if n + k < length r
                then Some (set_link w (l\<lparr>rs_sock := rs_sock l @ part r n k, child_io := WritesResponse m r (n + k)\<rparr>) c)
                else if n + k = length r
                then Some (set_link w (l\<lparr>rs_sock := rs_sock l @ part r n k, child_io := ReadsRequest []\<rparr>) c)
                else None
              else None))"

definition fine_reader :: "nat \<Rightarrow> nat \<Rightarrow> fine \<Rightarrow> fine option" where
  "fine_reader w k c =
     (let l = links c ! w
      in case reader_pass (got l) of
           Some (h, bytes, []) \<Rightarrow> Some (set_base (take_result h bytes (base c)) (set_link w (l\<lparr>got := []\<rparr>) c))
         | _ \<Rightarrow>
           (if can_read (rs.missing (got l)) (rs_sock l) k
            then Some (set_link w (l\<lparr>got := got l @ take k (rs_sock l), rs_sock := drop k (rs_sock l)\<rparr>) c)
            else None))"

fun fine_turn :: "nat \<Rightarrow> executors \<Rightarrow> fine_move \<Rightarrow> fine \<Rightarrow> fine option" where
  "fine_turn cap exec (FineSubmit i t) c =
     (if \<not> killed (base c) \<and> i < length (clients (base c)) \<and> clients (base c) ! i = ClIdle \<and> length (payload t) < 2 ^ 64
      then Some (set_base (number_task i t (base c)) c) else None)"
| "fine_turn cap exec (FineClient i) c =
     (if \<not> killed (base c) \<and> i < length (clients (base c)) then fine_client i c else None)"
| "fine_turn cap exec (FineSender w k) c =
     (if \<not> killed (base c) \<and> w < length (links c) then fine_sender cap w k c else None)"
| "fine_turn cap exec (FineChild w k) c =
     (if w < length (links c) \<and> lchild (links c ! w) = Alive then fine_child cap exec w k c else None)"
| "fine_turn cap exec (FineReader w k) c =
     (if \<not> killed (base c) \<and> w < length (links c) \<and> lreader (links c ! w) = Reading then fine_reader w k c else None)"

lemma fine_client_step:
  assumes "fine_client i c = Some d" and "\<not> killed (base c)" and "i < length (clients (base c))"
  shows "fine_step cap exec c d"
proof (cases "clients (base c) ! i")
  case (ClChosen t n w)
  with assms(1) have "w < length (links c)" "write_lock (links c ! w) = None"
    "d = set_link w ((links c ! w)\<lparr>write_lock :=
       Some \<lparr>who = SClient i, msg = run_message [] n (exec_addr t) (payload t), sent = 0\<rparr>\<rparr>) c"
    by (simp_all add: fine_client_def split: if_splits)
  with f_lock_task [OF assms(2,3) ClChosen _ refl, of cap exec "[]"] show ?thesis by simp
qed (use assms f_register [OF assms(2,3)] f_choose [OF assms(2,3)] in \<open>auto simp: fine_client_def\<close>)

lemma fine_sender_step:
  assumes "fine_sender cap w k c = Some d" and "\<not> killed (base c)" and "w < length (links c)"
  shows "fine_io cap exec c d"
proof -
  let ?l = "links c ! w"
  obtain x where x: "write_lock ?l = Some x"
    using assms(1) by (auto simp: fine_sender_def Let_def split: option.splits)
  then have ok: "\<not> lreaped ?l" "lchild ?l = Alive" "can_write cap 32 (msg x) (sent x) (rq_sock ?l) k"
    using assms(1) by (auto simp: fine_sender_def Let_def split: if_splits)
  from assms(1) x ok f_write [OF assms(2,3) refl x ok, of exec] f_write_last [OF assms(2,3) refl x ok, of exec]
  show ?thesis by (auto simp: fine_sender_def Let_def split: if_splits)
qed

lemma fine_child_step:
  assumes "fine_child cap exec w k c = Some d" and "w < length (links c)" and "lchild (links c ! w) = Alive"
  shows "fine_io cap exec c d"
proof (cases "child_io (links c ! w)")
  case (ReadsRequest g)
  note pass = f_child_runs [OF assms(2) refl assms(3) ReadsRequest] f_child_stops [OF assms(2) refl assms(3) ReadsRequest]
    f_child_reads [OF assms(2) refl assms(3) ReadsRequest]
  from assms(1) ReadsRequest pass show ?thesis
    by (auto simp: fine_child_def Let_def split: if_splits option.splits worker_pass.splits list.splits)
next
  case (WritesResponse m r n)
  note out = f_child_writes [OF assms(2) refl assms(3) WritesResponse] f_child_writes_last [OF assms(2) refl assms(3) WritesResponse]
  from assms(1) WritesResponse out show ?thesis
    by (auto simp: fine_child_def Let_def split: if_splits)
qed

lemma fine_reader_step:
  assumes "fine_reader w k c = Some d" and "\<not> killed (base c)" and "w < length (links c)" and "lreader (links c ! w) = Reading"
  shows "fine_io cap exec c d"
  using assms(1) f_reader_takes [OF assms(2,3) refl assms(4)] f_reader_reads [OF assms(2,3) refl assms(4)]
  by (auto simp: fine_reader_def Let_def split: if_splits option.splits list.splits)

lemma fine_turn_step:
  assumes "fine_turn cap exec x c = Some d"
  shows "fine_step cap exec c d"
proof (cases x)
  case (FineSubmit i t)
  with assms f_call [of c i t cap exec] show ?thesis by (auto split: if_splits)
qed (use assms in \<open>auto intro: fine_client_step f_io fine_sender_step fine_child_step fine_reader_step split: if_splits\<close>)

interpretation fine_schedule: scheduled_system "fine_step cap exec" "fine_turn cap exec" for cap exec
  by unfold_locales (rule fine_turn_step)

abbreviation fine_turns :: "nat \<Rightarrow> executors \<Rightarrow> fine_move list \<Rightarrow> fine \<Rightarrow> fine option" where
  "fine_turns cap exec \<equiv> run_turns (fine_turn cap exec)"

section \<open>A concrete run\<close>

text \<open>
  The pool of \<open>small_pool\<close> with sockets of 32 bytes: the header of the task fills the socket, so its
  payload waits until the worker has read.
\<close>

definition small_fine :: fine where
  "small_fine = \<lparr>base = small_pool, links = [new_link]\<rparr>"

definition fine_submit :: "fine_move list" where
  "fine_submit = [FineSubmit 0 task_21, FineClient 0, FineClient 0, FineClient 0, FineSender 0 32,
     FineChild 0 32, FineSender 0 1]"

definition fine_serve :: "fine_move list" where
  "fine_serve = [FineChild 0 1, FineChild 0 0, FineChild 0 24, FineReader 0 24, FineChild 0 1, FineReader 0 1, FineReader 0 0]"

lemma small_fine_init: "fine_init small_fine"
  using small_pool_init by (simp add: fine_init_def small_fine_def small_pool_def)

lemmas fine_eval = fine_submit_def fine_serve_def small_fine_def new_link_def fine_client_def fine_sender_def fine_child_def
  fine_reader_def can_write_def can_read_def part_def rq.missing_def rs.missing_def request_follows_def response_follows_def
  task_codec.dec_enc run_message_def worker_pass_def

lemma fine_waiting_run:
  "\<exists>c. fine_turns 32 twice fine_submit small_fine = Some c \<and> submitted (base c) = 1 \<and> returned (base c) = [1] \<and>
    \<not> stopping (base c) \<and> \<not> crashed (base c) \<and> futures (base c) 1 = Some MakeState"
  by (simp add: pool_eval fine_eval)

lemma fine_answered_run:
  "\<exists>c. fine_turns 32 twice (fine_submit @ fine_serve) small_fine = Some c \<and> submitted (base c) = 1 \<and>
    futures (base c) 1 = Some answer_42"
  by (simp add: pool_eval fine_eval)

section \<open>Properties\<close>

text \<open>C5: The byte-wise pool refines the pool that moves whole messages. Whatever the capacity of the
  sockets, however the calls of read and write cut the messages into pieces, however the writers
  wait for each other's lock, and wherever in a message a worker crashes: each run is a run of the
  pool in which a message is sent with its last byte and a response given with its last byte, so
  no receiver ever takes the end of one message for the begin of another.\<close>
theorem fine_refines_pool:
  assumes "fine_init z" and "(fine_step cap exec)\<^sup>*\<^sup>* z c" and "exec_small exec" and "submitted (base c) < 2 ^ 64"
  shows "pool_init (base z) \<and> (pool_step exec)\<^sup>*\<^sup>* (base z) (as_pool c)"
  using fine_reachable [OF assms] assms(1) by (auto simp: fine_init_def)

theorem fine_refines_pool_witness:
  "\<exists>c. (fine_step 32 twice)\<^sup>*\<^sup>* small_fine c \<and> futures (base c) 1 = Some answer_42 \<and>
    (pool_step twice)\<^sup>*\<^sup>* small_pool (as_pool c)"
proof -
  from fine_answered_run obtain c where c: "fine_turns 32 twice (fine_submit @ fine_serve) small_fine = Some c"
    "submitted (base c) = 1" "futures (base c) 1 = Some answer_42" by blast
  note run = fine_schedule.turns_run [OF c(1)]
  have "base small_fine = small_pool" by (simp add: small_fine_def)
  with fine_refines_pool [OF small_fine_init run twice_small] c(2,3) run show ?thesis by auto
qed

text \<open>Reading and writing comes to an end: there is no infinite sequence of calls of read and write
  by the writers, the workers and the readers, in any state and with sockets of any capacity.\<close>
theorem fine_io_terminates: "wf {(d, c). fine_io cap exec c d}"
  by (rule fine_io_wf)

text \<open>C13: A message larger than the sockets does not stop the pool. With sockets that hold one byte or
  more, while Shutdown has not been called and no worker has crashed, the writers, workers and
  readers alone reach a state in which none of them can move; and in every such state no lock is
  held and every future that Submit has returned holds the outcome of its task.\<close>
theorem fine_pool_completes:
  assumes "fine_init z" and "(fine_step cap exec)\<^sup>*\<^sup>* z c" and "exec_small exec" and "submitted (base c) < 2 ^ 64"
    and "0 < cap" and "\<not> stopping (base c)" and "\<not> crashed (base c)"
  shows "(\<exists>d. (fine_io cap exec)\<^sup>*\<^sup>* c d \<and> (\<forall>e. \<not> fine_io cap exec d e)) \<and>
    (\<forall>d. (fine_io cap exec)\<^sup>*\<^sup>* c d \<longrightarrow> (\<forall>e. \<not> fine_io cap exec d e) \<longrightarrow>
      list_all (\<lambda>l. write_lock l = None) (links d) \<and> set (returned (base d)) \<subseteq> {n. answered exec (base d) n})"
proof -
  have "list_all (\<lambda>l. write_lock l = None) (links d) \<and> set (returned (base d)) \<subseteq> {n. answered exec (base d) n}"
    if d: "(fine_io cap exec)\<^sup>*\<^sup>* c d" "\<And>e. \<not> fine_io cap exec d e" for d
  proof -
    note same = fine_io_run [OF d(1)]
    then have "(fine_step cap exec)\<^sup>*\<^sup>* z d" using assms(2) by (meson rtranclp_trans)
    from fine_end [OF assms(1) this assms(3) _ assms(5) _ _ d(2)] same assms(4,6,7) show ?thesis by simp
  qed
  with fine_io_ends show ?thesis by blast
qed

theorem fine_pool_completes_witness:
  "\<exists>c d. (fine_step 32 twice)\<^sup>*\<^sup>* small_fine c \<and> futures (base c) 1 = Some MakeState \<and> returned (base c) = [1] \<and>
    (fine_io 32 twice)\<^sup>*\<^sup>* c d \<and> set (returned (base d)) \<subseteq> {n. answered twice (base d) n}"
proof -
  from fine_waiting_run obtain c where c: "fine_turns 32 twice fine_submit small_fine = Some c" "submitted (base c) = 1"
    "returned (base c) = [1]" "\<not> stopping (base c)" "\<not> crashed (base c)" "futures (base c) 1 = Some MakeState" by blast
  note run = fine_schedule.turns_run [OF c(1)]
  have "submitted (base c) < 2 ^ 64" using c(2) by simp
  from fine_pool_completes [OF small_fine_init run twice_small this _ c(4,5)] run c(3,6) show ?thesis by auto
qed

end
