(* ===== verification/Pool_Futures.thy ===== *)
theory Pool_Futures
  imports Pool_Parts Owners
begin

text \<open>
  The \<open>Future\<close> objects of \<^verbatim>\<open>hw-6/future.h\<close> and the pending handlers of \<^verbatim>\<open>hw-6/process_pool.h\<close>
  with the shared states between them: a \<open>std::shared_ptr\<close> is an address with a count of its owners,
  and the state is freed when the last owner lets go. Theory \<open>Pool_Parts\<close> has what the
  operations do with the content of a state, here is who can reach it and how long.
\<close>

section \<open>State\<close>

record counted =
  result_kind :: pending
  content :: shared_state
  use_count :: nat

text \<open>
  The heap of shared states; the \<open>Future\<close> objects with their \<open>state_\<close>; the handlers, each with the
  kind of result it was made for. \<open>broken\<close>: an owner's state was already gone.
\<close>

record future_sys =
  heap :: "nat \<Rightarrow> counted option"
  next_state :: nat
  future_objects :: "nat option option list"
  handlers :: "(pending \<times> nat) list"
  broken :: bool

definition future_init :: "future_sys \<Rightarrow> bool" where
  "future_init t \<longleftrightarrow> t = \<lparr>heap = Map.empty, next_state = 0, future_objects = [], handlers = [], broken = False\<rparr>"

section \<open>Shared pointers\<close>

definition share :: "nat \<Rightarrow> future_sys \<Rightarrow> future_sys" where
  "share a t = (case heap t a of
      None \<Rightarrow> t\<lparr>broken := True\<rparr>
    | Some c \<Rightarrow> t\<lparr>heap := (heap t)(a \<mapsto> c\<lparr>use_count := Suc (use_count c)\<rparr>)\<rparr>)"

definition let_go :: "nat \<Rightarrow> future_sys \<Rightarrow> future_sys" where
  "let_go a t = (case heap t a of
      None \<Rightarrow> t\<lparr>broken := True\<rparr>
    | Some c \<Rightarrow>
        (if use_count c \<le> 1 then t\<lparr>heap := (heap t)(a := None)\<rparr>
         else t\<lparr>heap := (heap t)(a \<mapsto> c\<lparr>use_count := use_count c - 1\<rparr>)\<rparr>))"

definition let_go_of :: "nat option \<Rightarrow> future_sys \<Rightarrow> future_sys" where
  "let_go_of p t = (case p of None \<Rightarrow> t | Some a \<Rightarrow> let_go a t)"

section \<open>Futures\<close>

definition state_of :: "nat \<Rightarrow> future_sys \<Rightarrow> nat option" where
  "state_of i t = (case future_objects t ! i of None \<Rightarrow> None | Some p \<Rightarrow> p)"

definition set_state :: "nat \<Rightarrow> nat option \<Rightarrow> future_sys \<Rightarrow> future_sys" where
  "set_state i p t = t\<lparr>future_objects := (future_objects t)[i := Some p]\<rparr>"

text \<open>The constructors: from a shared pointer that is moved in, the default one, the move; move assignment; destructor.\<close>

definition Future_new :: "nat option \<Rightarrow> future_sys \<Rightarrow> future_sys" where
  "Future_new p t = t\<lparr>future_objects := future_objects t @ [Some p]\<rparr>"

definition Future_move :: "nat \<Rightarrow> future_sys \<Rightarrow> future_sys" where
  "Future_move i t = set_state i None (Future_new (state_of i t) t)"

definition Future_assign :: "nat \<Rightarrow> nat \<Rightarrow> future_sys \<Rightarrow> future_sys" where
  "Future_assign i other t =
     (if i = other then t
      else let_go_of (state_of i t) (set_state i (state_of other t) (set_state other None t)))"

definition Future_end :: "nat \<Rightarrow> future_sys \<Rightarrow> future_sys" where
  "Future_end i t = let_go_of (state_of i t) (t\<lparr>future_objects := (future_objects t)[i := None]\<rparr>)"

text \<open>A \<open>Future\<close> as the operations of \<open>Pool_Parts\<close> see it.\<close>

definition future_at :: "nat \<Rightarrow> future_sys \<Rightarrow> future" where
  "future_at i t = (case state_of i t of None \<Rightarrow> None | Some a \<Rightarrow> map_option content (heap t a))"

definition get_at :: "nat \<Rightarrow> future_sys \<Rightarrow> get_result" where
  "get_at i t =
     (case state_of i t of
        None \<Rightarrow> Get None
      | Some a \<Rightarrow>
          (case heap t a of
             None \<Rightarrow> GetUndefined
           | Some c \<Rightarrow> (if result_kind c = PendingVoid then GetVoid (Some (content c)) else Get (Some (content c)))))"

section \<open>Submitting and completing\<close>

text \<open>\<open>MakeState\<close>: the pool has the only pointer; \<open>MakePending\<close>: the handler has a copy.\<close>

definition make_state :: "pending \<Rightarrow> future_sys \<Rightarrow> nat \<times> future_sys" where
  "make_state p t = (next_state t, t\<lparr>heap := (heap t)(next_state t \<mapsto> \<lparr>result_kind = p, content = MakeState, use_count = 1\<rparr>),
     next_state := Suc (next_state t)\<rparr>)"

definition MakePending :: "pending \<Rightarrow> nat \<Rightarrow> future_sys \<Rightarrow> future_sys" where
  "MakePending p a t = (share a t)\<lparr>handlers := handlers (share a t) @ [(p, a)]\<rparr>"

text \<open>\<open>Submit\<close>, from the state to the future it returns; when it throws, the state's pointer is let go.\<close>

definition submit_future :: "pending \<Rightarrow> future_sys \<Rightarrow> future_sys" where
  "submit_future p t = (case make_state p t of (a, t1) \<Rightarrow> Future_new (Some a) (MakePending p a t1))"

definition submit_throws :: "pending \<Rightarrow> future_sys \<Rightarrow> future_sys" where
  "submit_throws p t = (case make_state p t of (a, t1) \<Rightarrow> let_go a (MakePending p a t1))"

text \<open>The reader, or the shutdown, takes handler \<open>k\<close>, completes its state with \<open>f\<close> and destroys the handler.\<close>

definition complete_at :: "nat \<Rightarrow> (shared_state \<Rightarrow> shared_state) \<Rightarrow> future_sys \<Rightarrow> future_sys" where
  "complete_at a f t = (case heap t a of
      None \<Rightarrow> t\<lparr>broken := True\<rparr>
    | Some c \<Rightarrow> t\<lparr>heap := (heap t)(a \<mapsto> c\<lparr>content := f (content c)\<rparr>)\<rparr>)"

definition take_handler :: "nat \<Rightarrow> (pending \<Rightarrow> shared_state \<Rightarrow> shared_state) \<Rightarrow> future_sys \<Rightarrow> future_sys" where
  "take_handler k f t =
     (case handlers t ! k of (p, a) \<Rightarrow>
        let_go a (complete_at a (f p) (t\<lparr>handlers := take k (handlers t) @ drop (Suc k) (handlers t)\<rparr>)))"

definition is_future :: "nat \<Rightarrow> future_sys \<Rightarrow> bool" where
  "is_future i t \<longleftrightarrow> i < length (future_objects t) \<and> future_objects t ! i \<noteq> None"

inductive future_step :: "future_sys \<Rightarrow> future_sys \<Rightarrow> bool" where
  fu_submit: "future_step t (submit_future p t)"
| fu_refuse: "future_step t (submit_throws p t)"
| fu_default: "future_step t (Future_new None t)"
| fu_move: "is_future i t \<Longrightarrow> future_step t (Future_move i t)"
| fu_assign: "is_future i t \<Longrightarrow> is_future j t \<Longrightarrow> future_step t (Future_assign i j t)"
| fu_end: "is_future i t \<Longrightarrow> future_step t (Future_end i t)"
| fu_result: "k < length (handlers t) \<Longrightarrow> future_step t (take_handler k (\<lambda>p. complete p h bytes) t)"
| fu_fail: "k < length (handlers t) \<Longrightarrow> future_step t (take_handler k (\<lambda>p. SetException reason) t)"

section \<open>The counts are right\<close>

text \<open>All owners, and those the code has in hand.\<close>

definition owners :: "future_sys \<Rightarrow> nat list" where
  "owners t = handles (future_objects t) @ map snd (handlers t)"

definition refs :: "nat list \<Rightarrow> future_sys \<Rightarrow> nat \<Rightarrow> nat" where
  "refs hs t a = count (mset (owners t) + mset hs) a"

fun count_ok :: "counted option \<Rightarrow> nat \<Rightarrow> bool" where
  "count_ok None n \<longleftrightarrow> n = 0"
| "count_ok (Some c) n \<longleftrightarrow> 0 < use_count c \<and> use_count c = n"

definition counts :: "nat list \<Rightarrow> future_sys \<Rightarrow> bool" where
  "counts hs t \<longleftrightarrow> \<not> broken t \<and> (\<forall>a \<ge> next_state t. heap t a = None) \<and> (\<forall>a. count_ok (heap t a) (refs hs t a))"

lemma owners_heap [simp]:
  "owners (t\<lparr>heap := h\<rparr>) = owners t" "owners (t\<lparr>heap := h, next_state := n\<rparr>) = owners t" "owners (t\<lparr>broken := b\<rparr>) = owners t"
  by (simp_all add: owners_def)

lemma counts_cong:
  assumes "counts hs t" and "heap t' = heap t" and "next_state t' = next_state t" and "broken t' = broken t"
    and "mset (owners t') + mset hs' = mset (owners t) + mset hs"
  shows "counts hs' t'"
  using assms(1-4) by (simp add: counts_def refs_def assms(5) del: count_union)

lemma states_at: "is_future i t \<Longrightarrow> handles [future_objects t ! i] = opt (state_of i t)"
  by (auto simp: is_future_def state_of_def)

lemma counts_new: "counts (opt p @ hs) t \<Longrightarrow> counts hs (Future_new p t)"
  by (erule counts_cong; cases p) (simp_all add: owners_def Future_new_def)

lemma counts_set:
  assumes "is_future i t" and "counts (opt p @ hs) t"
  shows "counts (opt (state_of i t) @ hs) (set_state i p t)"
  by (rule counts_cong [OF assms(2)])
    (use handles_update [of i "future_objects t" "Some p"] states_at [OF assms(1)] assms(1)
      in \<open>auto simp: owners_def set_state_def is_future_def ac_simps\<close>)

lemma counts_end_object:
  assumes "is_future i t" and "counts hs t"
  shows "counts (opt (state_of i t) @ hs) (t\<lparr>future_objects := (future_objects t)[i := None]\<rparr>)"
  by (rule counts_cong [OF assms(2)])
    (use handles_update [of i "future_objects t" None] states_at [OF assms(1)] assms(1)
      in \<open>auto simp: owners_def is_future_def ac_simps\<close>)

lemma counts_handler: "counts (a # hs) t \<Longrightarrow> counts hs (t\<lparr>handlers := handlers t @ [(p, a)]\<rparr>)"
  by (erule counts_cong) (simp_all add: owners_def)

lemma counts_take:
  assumes "k < length (handlers t)" and "handlers t ! k = (p, a)" and "counts hs t"
  shows "counts (a # hs) (t\<lparr>handlers := take k (handlers t) @ drop (Suc k) (handlers t)\<rparr>)"
proof (rule counts_cong [OF assms(3)])
  have "handlers t = take k (handlers t) @ (p, a) # drop (Suc k) (handlers t)"
    using id_take_nth_drop [OF assms(1)] assms(2) by simp
  then have "map snd (handlers t) = map snd (take k (handlers t)) @ a # map snd (drop (Suc k) (handlers t))"
    by (metis list.simps(9) map_append snd_conv)
  then have "mset (map snd (handlers t)) =
      add_mset a (mset (map snd (take k (handlers t))) + mset (map snd (drop (Suc k) (handlers t))))"
    by (simp del: mset_map)
  then show "mset (owners (t\<lparr>handlers := take k (handlers t) @ drop (Suc k) (handlers t)\<rparr>)) + mset (a # hs) =
      mset (owners t) + mset hs"
    by (simp add: owners_def del: mset_map)
qed simp_all

lemma counts_at:
  assumes "counts (a # hs) t"
  obtains c where "heap t a = Some c" "use_count c = Suc (refs hs t a)"
proof -
  have "count_ok (heap t a) (refs (a # hs) t a)" using assms by (simp add: counts_def)
  then have "count_ok (heap t a) (Suc (refs hs t a))" by (simp add: refs_def)
  with that show thesis by (cases "heap t a") auto
qed

lemma counts_heap:
  assumes ok: "counts (a # hs) t" and c: "heap t a = Some c"
    and other: "\<And>b. b \<noteq> a \<Longrightarrow> count (mset hs') b = count (mset hs) b"
    and t': "heap t' = (heap t)(a := x)" "next_state t' = next_state t" "broken t' = broken t" "owners t' = owners t"
    and x: "count_ok x (refs hs' t a)"
  shows "counts hs' t'"
proof -
  have a: "a < next_state t" using ok c by (metis counts_def leI option.distinct(1))
  have "count_ok (heap t' b) (refs hs' t' b)" for b
  proof (cases "b = a")
    case True
    with x t' show ?thesis by (simp add: refs_def)
  next
    case False
    then have "refs hs' t' b = refs (a # hs) t b" using other t' by (simp add: refs_def)
    with ok False t' show ?thesis by (simp add: counts_def)
  qed
  with ok a t' show ?thesis by (simp add: counts_def)
qed

lemma counts_share:
  assumes ok: "counts (a # hs) t"
  shows "counts (a # a # hs) (share a t)"
proof -
  obtain c where c: "heap t a = Some c" "use_count c = Suc (refs hs t a)" by (rule counts_at [OF ok])
  show ?thesis
    by (rule counts_heap [OF ok c(1), where x = "Some (c\<lparr>use_count := Suc (use_count c)\<rparr>)"])
      (use c in \<open>simp_all add: share_def refs_def\<close>)
qed

lemma counts_let_go:
  assumes ok: "counts (a # hs) t"
  shows "counts hs (let_go a t)"
proof -
  obtain c where c: "heap t a = Some c" "use_count c = Suc (refs hs t a)" by (rule counts_at [OF ok])
  show ?thesis
    by (rule counts_heap [OF ok c(1), where x = "if use_count c \<le> 1 then None else Some (c\<lparr>use_count := use_count c - 1\<rparr>)"])
      (use c in \<open>simp_all add: let_go_def\<close>)
qed

lemma counts_let_go_of: "counts (opt p @ hs) t \<Longrightarrow> counts hs (let_go_of p t)"
  by (cases p) (simp_all add: let_go_of_def counts_let_go)

lemma counts_complete:
  assumes ok: "counts (a # hs) t"
  shows "counts (a # hs) (complete_at a f t)"
proof -
  obtain c where c: "heap t a = Some c" "use_count c = Suc (refs hs t a)" by (rule counts_at [OF ok])
  show ?thesis
    by (rule counts_heap [OF ok c(1), where x = "Some (c\<lparr>content := f (content c)\<rparr>)"])
      (use c in \<open>simp_all add: complete_at_def refs_def\<close>)
qed

lemma counts_make:
  assumes "counts hs t" and "make_state p t = (a, t')"
  shows "counts (a # hs) t'"
proof -
  have a: "a = next_state t" and heap: "heap t' = (heap t)(a \<mapsto> \<lparr>result_kind = p, content = MakeState, use_count = 1\<rparr>)"
    and rest: "next_state t' = Suc (next_state t)" "broken t' = broken t" "owners t' = owners t"
    using assms(2) by (auto simp: make_state_def owners_def)
  have "heap t a = None" using assms(1) a by (simp add: counts_def)
  moreover have "count_ok (heap t a) (refs hs t a)" using assms(1) by (simp add: counts_def)
  ultimately have new: "refs hs t a = 0" by simp
  have "count_ok (heap t' b) (refs (a # hs) t' b)" for b
  proof (cases "b = a")
    case True
    with new heap rest show ?thesis by (simp add: refs_def)
  next
    case False
    with assms(1) heap rest show ?thesis by (simp add: counts_def refs_def)
  qed
  with assms(1) a heap rest show ?thesis by (simp add: counts_def)
qed

section \<open>The operations keep them\<close>

lemma MakePending_counts: "counts (a # hs) t \<Longrightarrow> counts (a # hs) (MakePending p a t)"
  by (simp add: MakePending_def counts_handler counts_share)

lemma submit_future_counts: "counts hs t \<Longrightarrow> counts hs (submit_future p t)"
  by (cases "make_state p t") (simp add: submit_future_def counts_new MakePending_counts counts_make)

lemma submit_throws_counts: "counts hs t \<Longrightarrow> counts hs (submit_throws p t)"
  by (cases "make_state p t") (simp add: submit_throws_def counts_let_go MakePending_counts counts_make)

lemma Future_move_counts:
  assumes "is_future i t" and "counts hs t"
  shows "counts hs (Future_move i t)"
proof -
  have "Future_move i t = Future_new (state_of i t) (set_state i None t)"
    using assms(1) by (simp add: Future_move_def Future_new_def set_state_def is_future_def list_update_append)
  then show ?thesis using counts_set [OF assms(1), of None hs] assms(2) by (simp add: counts_new)
qed

lemma Future_assign_counts:
  assumes "is_future i t" and "is_future j t" and "counts hs t"
  shows "counts hs (Future_assign i j t)"
proof (cases "i = j")
  case True
  with assms(3) show ?thesis by (simp add: Future_assign_def)
next
  case False
  let ?t = "set_state j None t"
  have "counts (opt (state_of j t) @ hs) ?t" using counts_set [OF assms(2), of None hs] assms(3) by simp
  moreover have "is_future i ?t" "state_of i ?t = state_of i t"
    using False assms(1) by (simp_all add: is_future_def set_state_def state_of_def)
  ultimately have "counts (opt (state_of i t) @ hs) (set_state i (state_of j t) ?t)" using counts_set by metis
  with False show ?thesis by (simp add: Future_assign_def counts_let_go_of)
qed

lemma Future_end_counts: "is_future i t \<Longrightarrow> counts hs t \<Longrightarrow> counts hs (Future_end i t)"
  by (simp add: Future_end_def counts_let_go_of counts_end_object)

lemma take_handler_counts:
  assumes "k < length (handlers t)" and "counts hs t"
  shows "counts hs (take_handler k f t)"
proof -
  obtain p a where h: "handlers t ! k = (p, a)" by (cases "handlers t ! k")
  with counts_take [OF assms(1) h assms(2)] show ?thesis by (simp add: take_handler_def counts_let_go counts_complete)
qed

interpretation shared_states: invariant_system future_init future_step "counts []"
proof (unfold_locales, goal_cases)
  case (1 t)
  then show ?case by (simp add: future_init_def counts_def refs_def owners_def)
next
  case (2 t u)
  from 2(1) show ?case
    by cases (use 2(2) in \<open>simp_all add: submit_future_counts submit_throws_counts counts_new Future_move_counts
      Future_assign_counts Future_end_counts take_handler_counts\<close>)
qed

section \<open>What an owner sees\<close>

lemma owner_in_heap:
  assumes "counts [] t"
  shows "heap t a \<noteq> None \<longleftrightarrow> a \<in> set (owners t)"
proof -
  have "count_ok (heap t a) (refs [] t a)" using assms by (simp add: counts_def)
  then show ?thesis by (cases "heap t a") (auto simp: refs_def count_eq_zero_iff simp flip: set_mset_mset)
qed

lemma state_in_owners:
  assumes "is_future i t" and "state_of i t = Some a"
  shows "a \<in> set (handles (future_objects t))"
proof -
  have "i < length (future_objects t)" "future_objects t ! i = Some (Some a)"
    using assms by (auto simp: is_future_def state_of_def)
  then show ?thesis by (metis handles.simps(2) handles_append id_take_nth_drop in_set_conv_decomp)
qed

text \<open>Letting a pointer go leaves the content of a state that somebody else owns.\<close>

lemma let_go_content:
  assumes "counts (a # hs) t" and "b \<in> set (owners t @ hs)"
  shows "map_option content (heap (let_go a t) b) = map_option content (heap t b) \<and>
    map_option result_kind (heap (let_go a t) b) = map_option result_kind (heap t b)"
proof -
  obtain c where c: "heap t a = Some c" "use_count c = Suc (refs hs t a)" by (rule counts_at [OF assms(1)])
  have "0 < refs hs t b" using assms(2) by (auto simp: refs_def simp flip: set_mset_mset)
  with c show ?thesis by (cases "b = a") (auto simp: let_go_def)
qed

lemma get_at_eq: "get_at i t =
    (case state_of i t of
       None \<Rightarrow> Get None
     | Some a \<Rightarrow>
         (case map_option result_kind (heap t a) of
            None \<Rightarrow> GetUndefined
          | Some p \<Rightarrow> (if p = PendingVoid then GetVoid (map_option content (heap t a)) else Get (map_option content (heap t a)))))"
  by (auto simp: get_at_def split: option.split)

lemma Get_None [simp]: "Get None = GetThrew (LogicError ''future has no shared state'')"
  by (simp add: Get_def Wait_def EnsureValid_def)

lemma Future_move_get:
  assumes "is_future i t"
  shows "get_at (length (future_objects t)) (Future_move i t) = get_at i t \<and>
    get_at i (Future_move i t) = GetThrew (LogicError ''future has no shared state'')"
proof -
  have i: "i < length (future_objects t)" using assms by (simp add: is_future_def)
  then have "heap (Future_move i t) = heap t" "state_of (length (future_objects t)) (Future_move i t) = state_of i t"
    "state_of i (Future_move i t) = None"
    by (simp_all add: Future_move_def Future_new_def set_state_def state_of_def nth_list_update nth_append)
  then show ?thesis by (simp add: get_at_def split: option.split)
qed

lemma Future_assign_get:
  assumes "is_future i t" and "is_future j t" and "i \<noteq> j" and "counts [] t"
  shows "get_at i (Future_assign i j t) = get_at j t \<and>
    get_at j (Future_assign i j t) = GetThrew (LogicError ''future has no shared state'')"
proof -
  let ?t = "set_state i (state_of j t) (set_state j None t)"
  have objs: "is_future i (set_state j None t)" "state_of i (set_state j None t) = state_of i t"
    "is_future i ?t" "state_of i ?t = state_of j t" "state_of j ?t = None" "heap ?t = heap t"
    using assms(1-3) by (simp_all add: is_future_def set_state_def state_of_def)
  have "counts (opt (state_of j t) @ []) (set_state j None t)" using counts_set [OF assms(2), of None "[]"] assms(4) by simp
  from counts_set [OF objs(1) this] have c: "counts (opt (state_of i t)) ?t" using objs(2) by simp
  have keep: "future_objects (let_go_of p u) = future_objects u" for p u
    by (auto simp: let_go_of_def let_go_def split: option.split)
  have st: "state_of n (let_go_of p u) = state_of n u" for n p u by (simp add: state_of_def keep)
  have "map_option content (heap (let_go_of (state_of i t) ?t) b) = map_option content (heap t b) \<and>
      map_option result_kind (heap (let_go_of (state_of i t) ?t) b) = map_option result_kind (heap t b)"
    if "state_of j t = Some b" for b
  proof (cases "state_of i t")
    case None
    with objs(6) show ?thesis by (simp add: let_go_of_def)
  next
    case (Some a)
    have "b \<in> set (owners ?t)" using state_in_owners [OF objs(3)] objs(4) that by (simp add: owners_def)
    with let_go_content [of a "[]" ?t b] c Some objs(6) show ?thesis by (simp add: let_go_of_def)
  qed
  with assms(3) st objs show ?thesis by (auto simp: Future_assign_def get_at_eq split: option.split)
qed

lemma take_handler_content:
  assumes "counts [] t" and "is_future i t" and "state_of i t = Some a" and "k < length (handlers t)" and "handlers t ! k = (p, a)"
  shows "\<exists>c. heap t a = Some c \<and> future_at i (take_handler k f t) = Some (f p (content c))"
proof -
  let ?t = "t\<lparr>handlers := take k (handlers t) @ drop (Suc k) (handlers t)\<rparr>"
  have own: "a \<in> set (handles (future_objects t))" by (rule state_in_owners [OF assms(2,3)])
  note held = counts_take [OF assms(4,5,1)]
  obtain c where c: "heap ?t a = Some c" by (rule counts_at [OF held])
  note held' = counts_complete [OF held, of "f p"]
  have "a \<in> set (owners (complete_at a (f p) ?t) @ [])" using own c by (simp add: complete_at_def owners_def)
  from let_go_content [OF held' this] have "map_option content (heap (take_handler k f t) a) = Some (f p (content c))"
    using assms(5) c by (simp add: take_handler_def complete_at_def)
  moreover have "future_objects (take_handler k f t) = future_objects t"
    using assms(5) by (simp add: take_handler_def let_go_def complete_at_def split: option.split)
  ultimately show ?thesis using assms(3) c by (simp add: future_at_def state_of_def)
qed

section \<open>Properties\<close>

text \<open>C39: Shared states live exactly as long as somebody can use them. Whatever is submitted, refused,
  answered or failed, and however Future objects are made, moved, assigned and destroyed, no owner ever
  finds its state gone, and a state without an owner has been freed: neither a dangling pointer nor
  a leak.\<close>
theorem shared_states_exact:
  assumes "future_init z" and "future_step\<^sup>*\<^sup>* z t"
  shows "\<not> broken t \<and> dom (heap t) = set (handles (future_objects t)) \<union> snd ` set (handlers t)"
proof -
  have ok: "counts [] t" by (rule shared_states.reachable_good [OF assms])
  from owner_in_heap [OF this] have "dom (heap t) = set (owners t)" by auto
  with ok show ?thesis by (simp add: owners_def counts_def)
qed

text \<open>Submit twice, move the first future, assign it over the second, answer the first task.\<close>

definition no_futures :: future_sys where
  "no_futures = \<lparr>heap = Map.empty, next_state = 0, future_objects = [], handlers = [], broken = False\<rparr>"

definition two_submitted :: future_sys where
  "two_submitted = submit_future (PendingValue 1) (submit_future PendingVoid no_futures)"

definition assigned_future :: future_sys where
  "assigned_future = Future_assign 0 1 two_submitted"

lemma no_futures_init: "future_init no_futures"
  by (simp add: future_init_def no_futures_def)

lemma assigned_future_run: "future_step\<^sup>*\<^sup>* no_futures two_submitted" "future_step\<^sup>*\<^sup>* no_futures assigned_future"
proof -
  show two: "future_step\<^sup>*\<^sup>* no_futures two_submitted"
    unfolding two_submitted_def by (meson fu_submit rtranclp.rtrancl_into_rtrancl rtranclp.rtrancl_refl)
  have "is_future 0 two_submitted" "is_future 1 two_submitted"
    by (simp_all add: two_submitted_def no_futures_def submit_future_def make_state_def MakePending_def share_def
        Future_new_def is_future_def)
  then have "future_step two_submitted assigned_future" unfolding assigned_future_def by (rule fu_assign)
  with two show "future_step\<^sup>*\<^sup>* no_futures assigned_future" by simp
qed

lemmas future_eval = two_submitted_def no_futures_def submit_future_def make_state_def MakePending_def share_def
  Future_new_def Future_assign_def set_state_def state_of_def let_go_of_def let_go_def

theorem shared_states_exact_witness:
  "dom (heap assigned_future) = {0, 1} \<and> handles (future_objects assigned_future) = [1] \<and> \<not> broken assigned_future"
proof -
  have "future_objects assigned_future = [Some (Some 1), Some None]" "handlers assigned_future = [(PendingVoid, 0), (PendingValue 1, 1)]"
    by (simp_all add: assigned_future_def future_eval)
  with shared_states_exact [OF no_futures_init assigned_future_run(2)] show ?thesis by auto
qed

text \<open>C40: A future's result goes where the future goes. Get on the target of a move or of an assignment is
  what Get on its source was, the source throws "future has no shared state" from then on, and
  when the handler of a state is completed, whichever Future object owns the state sees it.\<close>
theorem futures_follow_moves:
  assumes "future_init z" and "future_step\<^sup>*\<^sup>* z t" and "is_future i t"
  shows "get_at (length (future_objects t)) (Future_move i t) = get_at i t \<and>
    get_at i (Future_move i t) = GetThrew (LogicError ''future has no shared state'') \<and>
    (\<forall>j. is_future j t \<and> j \<noteq> i \<longrightarrow> get_at j (Future_assign j i t) = get_at i t \<and>
      get_at i (Future_assign j i t) = GetThrew (LogicError ''future has no shared state'')) \<and>
    (\<forall>k p a. k < length (handlers t) \<and> handlers t ! k = (p, a) \<and> state_of i t = Some a \<longrightarrow>
      (\<exists>c. heap t a = Some c \<and> future_at i (take_handler k f t) = Some (f p (content c))))"
proof -
  have ok: "counts [] t" by (rule shared_states.reachable_good [OF assms(1,2)])
  show ?thesis
    using Future_move_get [OF assms(3)] Future_assign_get [OF _ assms(3) _ ok] take_handler_content [OF ok assms(3)] by blast
qed

theorem futures_follow_moves_witness:
  "get_at 0 (Future_assign 0 1 two_submitted) = get_at 1 two_submitted \<and>
    future_at 1 (take_handler 1 (\<lambda>p. SetException [7]) two_submitted) = Some (SetException [7] MakeState)"
proof -
  have fut: "is_future 1 two_submitted" "is_future 0 two_submitted" and h: "handlers two_submitted ! 1 = (PendingValue 1, 1)"
    and len: "1 < length (handlers two_submitted)" and st: "state_of 1 two_submitted = Some 1"
    and heap1: "heap two_submitted 1 = Some \<lparr>result_kind = PendingValue 1, content = MakeState, use_count = 2\<rparr>"
    by (simp_all add: future_eval is_future_def)
  note all = futures_follow_moves [OF no_futures_init assigned_future_run(1) fut(1), of "\<lambda>p. SetException [7]"]
  have "\<exists>c. heap two_submitted 1 = Some c \<and>
      future_at 1 (take_handler 1 (\<lambda>p. SetException [7]) two_submitted) = Some (SetException [7] (content c))"
    using all h len st by blast
  moreover have "get_at 0 (Future_assign 0 1 two_submitted) = get_at 1 two_submitted" using all fut(2) by simp
  ultimately show ?thesis using heap1 by auto
qed

end
