(* ===== verification/Pool_Exact.thy ===== *)
theory Pool_Exact
  imports Pool_Io
begin

text \<open>
  \<open>WriteExact\<close> and \<open>ReadExact\<close> over any system calls that keep to POSIX: they always return, what they
  have moved, and what the errors and the end of file they report stand for.
\<close>

text \<open>C34: WriteExact and ReadExact always return, whatever the calls of write and read do within what
  POSIX promises (take or return a part from the front, be interrupted finitely often, fail, end).
  WriteExact has written all of its data when it returns normally; it throws only because a
  call failed or took nothing, and then a proper prefix was written. ReadExact returns true with
  exactly the next bytes, in order, and leaves those behind them; it returns false only at
  the end of the file, with fewer bytes to come than were asked for; and it throws only because a
  call failed, before it had all bytes. So the bytes of WriteExact, where they arrive, are what
  ReadExact returns, unless a call fails.\<close>
theorem exact_io:
  assumes "byte_sink write_fd taken_bytes patience" and "byte_source read_fd coming patience'"
  shows "(\<exists>r k'. WriteExact write_fd data 0 k = Some (r, k') \<and>
      (case r of
         Inr _ \<Rightarrow> taken_bytes k' = taken_bytes k @ data
       | Inl err \<Rightarrow> failed_write write_fd err k' \<and> (\<exists>m < length data. taken_bytes k' = taken_bytes k @ take m data)))
    \<and> (\<exists>r l'. ReadExact read_fd n [] l = Some (r, l') \<and>
      (case r of
         Inr (Some bytes) \<Rightarrow> length bytes = n \<and> coming l = bytes @ coming l'
       | Inr None \<Rightarrow> ended_read read_fd l' \<and> length (coming l) < n \<and> coming l' = []
       | Inl err \<Rightarrow> failed_read read_fd err l' \<and> (\<exists>front. coming l = front @ coming l' \<and> length front < n)))
    \<and> (coming l = data @ rest \<longrightarrow> (\<exists>r l'. ReadExact read_fd (length data) [] l = Some (r, l') \<and>
      (r = Inr (Some data) \<and> coming l' = rest \<or> (\<exists>err. r = Inl err \<and> failed_read read_fd err l'))))"
proof (intro conjI impI)
  have reads: "\<exists>r l'. ReadExact read_fd n [] l = Some (r, l') \<and>
      (case r of
         Inr (Some bytes) \<Rightarrow> length bytes = n \<and> coming l = bytes @ coming l'
       | Inr None \<Rightarrow> ended_read read_fd l' \<and> length (coming l) < n \<and> coming l' = []
       | Inl err \<Rightarrow> failed_read read_fd err l' \<and> (\<exists>front. coming l = front @ coming l' \<and> length front < n))" for n
    using byte_source.ReadExact_from [OF assms(2), of "[]" n l, unfolded append_Nil] by simp
  show "\<exists>r k'. WriteExact write_fd data 0 k = Some (r, k') \<and>
      (case r of
         Inr _ \<Rightarrow> taken_bytes k' = taken_bytes k @ data
       | Inl err \<Rightarrow> failed_write write_fd err k' \<and> (\<exists>m < length data. taken_bytes k' = taken_bytes k @ take m data))"
    using byte_sink.WriteExact_from [OF assms(1), of 0 data k, unfolded drop_0 minus_nat.diff_0] by simp
  show "\<exists>r l'. ReadExact read_fd n [] l = Some (r, l') \<and>
      (case r of
         Inr (Some bytes) \<Rightarrow> length bytes = n \<and> coming l = bytes @ coming l'
       | Inr None \<Rightarrow> ended_read read_fd l' \<and> length (coming l) < n \<and> coming l' = []
       | Inl err \<Rightarrow> failed_read read_fd err l' \<and> (\<exists>front. coming l = front @ coming l' \<and> length front < n))"
    by (rule reads)
  assume rest: "coming l = data @ rest"
  obtain r l' where r: "ReadExact read_fd (length data) [] l = Some (r, l')"
    "case r of
       Inr (Some bytes) \<Rightarrow> length bytes = length data \<and> coming l = bytes @ coming l'
     | Inr None \<Rightarrow> ended_read read_fd l' \<and> length (coming l) < length data \<and> coming l' = []
     | Inl err \<Rightarrow> failed_read read_fd err l' \<and> (\<exists>front. coming l = front @ coming l' \<and> length front < length data)"
    using reads by blast
  have "r = Inr (Some data) \<and> coming l' = rest \<or> (\<exists>err. r = Inl err \<and> failed_read read_fd err l')"
  proof (cases r)
    case (Inr x)
    then obtain bytes where x: "x = Some bytes" using r(2) rest by (cases x) simp_all
    with Inr r(2) rest have "length bytes = length data" "bytes @ coming l' = data @ rest" by simp_all
    with Inr x show ?thesis by simp
  qed (use r(2) in simp)
  with r(1) show "\<exists>r l'. ReadExact read_fd (length data) [] l = Some (r, l') \<and>
      (r = Inr (Some data) \<and> coming l' = rest \<or> (\<exists>err. r = Inl err \<and> failed_read read_fd err l'))"
    by blast
qed

text \<open>Calls that are cut short and interrupted; a read that finds the end; a write that fails after two bytes.\<close>

theorem exact_io_witness:
  "(\<exists>r k'. WriteExact sock_write [1, 2, 3] 0 \<lparr>stream = [9], events = [Short 1, Interrupted, Short 5]\<rparr> = Some (r, k') \<and>
      r = Inr () \<and> stream k' = [9] @ [1, 2, 3]) \<and>
   (\<exists>err k'. WriteExact sock_write [1, 2, 3] 0 \<lparr>stream = [9], events = [Short 2, Broken 5]\<rparr> = Some (Inl err, k') \<and>
      failed_write sock_write err k' \<and> stream k' = [9, 1, 2]) \<and>
   (\<exists>l'. ReadExact sock_read 3 [] \<lparr>stream = [1, 2, 3, 4], events = [Interrupted, Short 2]\<rparr> = Some (Inr (Some [1, 2, 3]), l') \<and>
      stream l' = [4]) \<and>
   (\<exists>l'. ReadExact sock_read 3 [] \<lparr>stream = [1, 2], events = []\<rparr> = Some (Inr None, l') \<and> ended_read sock_read l')"
proof -
  note io = exact_io [OF sock_sink.byte_sink_axioms sock_source.byte_source_axioms]
  have w: "\<exists>k'. WriteExact sock_write [1, 2, 3] 0 \<lparr>stream = [9], events = [Short 1, Interrupted, Short 5]\<rparr> = Some (Inr (), k')"
    "\<exists>err k'. WriteExact sock_write [1, 2, 3] 0 \<lparr>stream = [9], events = [Short 2, Broken 5]\<rparr> = Some (Inl err, k') \<and> stream k' = [9, 1, 2]"
    and r: "\<exists>l'. ReadExact sock_read 3 [] \<lparr>stream = [1, 2, 3, 4], events = [Interrupted, Short 2]\<rparr> = Some (Inr (Some [1, 2, 3]), l') \<and> stream l' = [4]"
    "\<exists>l'. ReadExact sock_read 3 [] \<lparr>stream = [1, 2], events = []\<rparr> = Some (Inr None, l')"
    by (simp_all add: WriteExact.simps ReadExact.simps sock_write_def sock_read_def)
  show ?thesis
  proof (intro conjI)
    show "\<exists>r k'. WriteExact sock_write [1, 2, 3] 0 \<lparr>stream = [9], events = [Short 1, Interrupted, Short 5]\<rparr> = Some (r, k') \<and>
        r = Inr () \<and> stream k' = [9] @ [1, 2, 3]"
      using w(1) io [of "[1, 2, 3]" "\<lparr>stream = [9], events = [Short 1, Interrupted, Short 5]\<rparr>", THEN conjunct1] by auto
    show "\<exists>err k'. WriteExact sock_write [1, 2, 3] 0 \<lparr>stream = [9], events = [Short 2, Broken 5]\<rparr> = Some (Inl err, k') \<and>
        failed_write sock_write err k' \<and> stream k' = [9, 1, 2]"
      using w(2) io [of "[1, 2, 3]" "\<lparr>stream = [9], events = [Short 2, Broken 5]\<rparr>", THEN conjunct1] by auto
    show "\<exists>l'. ReadExact sock_read 3 [] \<lparr>stream = [1, 2], events = []\<rparr> = Some (Inr None, l') \<and> ended_read sock_read l'"
      using r(2) io [of _ _ 3 "\<lparr>stream = [1, 2], events = []\<rparr>", THEN conjunct2, THEN conjunct1] by auto
  qed (rule r(1))
qed

end
