(* ===== verification/Pool_Spawn.thy ===== *)
theory Pool_Spawn
  imports Prelude Descriptors
begin

text \<open>
  The descriptors and processes behind the pool (\<^verbatim>\<open>hw-6/process_pool.cpp\<close>): \<open>SpawnWorker\<close>, the
  constructor and the part of \<open>Shutdown\<close> that closes and reaps, call by call, with every call that
  can fail. Theory \<open>Pool_System\<close> starts where the constructor has succeeded; here are the paths on which
  it has not, and what the processes inherit from each other.
\<close>

section \<open>Descriptors\<close>

text \<open>What a descriptor refers to: one side of a socket pair, or something from before.\<close>

datatype open_file = Opened nat | Socket nat nat

type_synonym fd_table = "open_file option list"

section \<open>The calls\<close>

record child_proc =
  cpid :: nat
  cfds :: fd_table
  crequest :: nat
  cresponse :: nat

record kernel =
  fds :: fd_table
  pairs :: nat
  last_pid :: nat
  procs :: "child_proc list"

definition socketpair :: "kernel \<Rightarrow> (nat \<times> nat) \<times> kernel" where
  "socketpair k =
     (let t = open_fd (Socket (pairs k) 0) (fds k)
      in ((first_free (fds k), first_free t), k\<lparr>fds := open_fd (Socket (pairs k) 1) t, pairs := pairs k + 1\<rparr>))"

definition close_file :: "nat \<Rightarrow> kernel \<Rightarrow> kernel" where
  "close_file n k = k\<lparr>fds := close_fd n (fds k)\<rparr>"

text \<open>\<open>fork\<close>: the child starts with a copy of the table.\<close>

definition fork_child :: "(fd_table \<Rightarrow> fd_table) \<Rightarrow> nat \<Rightarrow> nat \<Rightarrow> kernel \<Rightarrow> kernel" where
  "fork_child closes rq rs k =
     k\<lparr>last_pid := last_pid k + 1,
       procs := procs k @ [\<lparr>cpid = last_pid k + 1, cfds = closes (fds k), crequest = rq, cresponse = rs\<rparr>]\<rparr>"

section \<open>SpawnWorker, the constructor, Shutdown\<close>

record worker_desc =
  wpid :: int
  request_fd :: int
  response_fd :: int
  joinable :: bool

datatype spawn_error = InvalidCount | SystemError string | ThreadError

text \<open>
  Which of the two \<open>socketpair\<close> and the \<open>fork\<close> succeed. A \<open>SystemError\<close> has the text given to
  \<open>ThrowSystemError\<close>, without the text of \<open>errno\<close> that it appends.
\<close>

record spawn_fate =
  request_ok :: bool
  response_ok :: bool
  fork_ok :: bool

definition SpawnWorker_calls :: "spawn_fate \<Rightarrow> kernel \<Rightarrow> (spawn_error + worker_desc) \<times> kernel" where
  "SpawnWorker_calls fate k =
     (if \<not> request_ok fate then (Inl (SystemError ''socketpair(request) failed''), k)
      else (case socketpair k of ((rq0, rq1), k1) \<Rightarrow>
        if \<not> response_ok fate
        then (Inl (SystemError ''socketpair(response) failed''), close_file rq1 (close_file rq0 k1))
        else (case socketpair k1 of ((rs0, rs1), k2) \<Rightarrow>
          if \<not> fork_ok fate
          then (Inl (SystemError ''fork failed''),
                close_file rs1 (close_file rs0 (close_file rq1 (close_file rq0 k2))))
          else (let k3 = fork_child (\<lambda>t. close_fd rs0 (close_fd rq0 t)) rq1 rs1 k2
                in (Inr \<lparr>wpid = int (last_pid k3), request_fd = int rq0, response_fd = int rs0, joinable = False\<rparr>,
                    close_file rs1 (close_file rq1 k3))))))"

text \<open>The first loop of the constructor, from worker \<open>i\<close> on.\<close>

function spawn_workers ::
  "(nat \<Rightarrow> spawn_fate) \<Rightarrow> nat \<Rightarrow> nat \<Rightarrow> worker_desc list \<Rightarrow> kernel \<Rightarrow> (spawn_error + worker_desc list) \<times> kernel"
where
  "spawn_workers fate process_count i ws k =
     (if i < process_count
      then (case SpawnWorker_calls (fate i) k of
              (Inl e, k') \<Rightarrow> (Inl e, k')
            | (Inr w, k') \<Rightarrow> spawn_workers fate process_count (i + 1) (ws @ [w]) k')
      else (Inr ws, k))"
  by pat_completeness auto
termination
  by (relation "measure (\<lambda>(fate, n, i, ws, k). n - i)") auto

declare spawn_workers.simps [simp del]

text \<open>
  The second loop: the readers of the workers from \<open>i\<close> on. \<open>None\<close>: \<open>std::thread\<close> has thrown; the
  workers are as they are then.
\<close>

function start_readers :: "(nat \<Rightarrow> bool) \<Rightarrow> nat \<Rightarrow> worker_desc list \<Rightarrow> bool \<times> worker_desc list" where
  "start_readers thread_ok i ws =
     (if i < length ws
      then (if thread_ok i then start_readers thread_ok (i + 1) (ws[i := (ws ! i)\<lparr>joinable := True\<rparr>]) else (False, ws))
      else (True, ws))"
  by pat_completeness auto
termination
  by (relation "measure (\<lambda>(thread_ok, i, ws). length ws - i)") auto

declare start_readers.simps [simp del]

text \<open>
  The constructor. When it throws, \<open>~ProcessPool\<close> does not run; the members are destroyed, and
  destroying a joinable \<open>std::thread\<close> is \<open>std::terminate\<close>. Nothing closes the descriptors of
  a \<open>Worker\<close> that is destroyed.
\<close>

datatype construction = Constructed "worker_desc list" | ThrewOut spawn_error | Terminates

definition ProcessPool_calls ::
  "(nat \<Rightarrow> spawn_fate) \<Rightarrow> (nat \<Rightarrow> bool) \<Rightarrow> nat \<Rightarrow> kernel \<Rightarrow> construction \<times> kernel" where
  "ProcessPool_calls fate thread_ok process_count k =
     (if process_count = 0 then (ThrewOut InvalidCount, k)
      else (case spawn_workers fate process_count 0 [] k of
              (Inl e, k') \<Rightarrow> (ThrewOut e, k')
            | (Inr ws, k') \<Rightarrow>
                (case start_readers thread_ok 0 ws of
                   (True, ws') \<Rightarrow> (Constructed ws', k')
                 | (False, ws') \<Rightarrow>
                     (if list_ex joinable ws' then Terminates else ThrewOut ThreadError, k'))))"

text \<open>The last loop of \<open>Shutdown\<close>: \<open>waitpid\<close> takes the child out of the table of processes.\<close>

definition release_worker :: "worker_desc \<Rightarrow> kernel \<Rightarrow> worker_desc \<times> kernel" where
  "release_worker w k =
     (let (w1, k1) = (if request_fd w \<ge> 0 then (w\<lparr>request_fd := -1\<rparr>, close_file (nat (request_fd w)) k) else (w, k));
          (w2, k2) = (if response_fd w1 \<ge> 0 then (w1\<lparr>response_fd := -1\<rparr>, close_file (nat (response_fd w1)) k1) else (w1, k1))
      in if wpid w2 > 0
         then (w2\<lparr>wpid := -1\<rparr>, k2\<lparr>procs := filter (\<lambda>c. int (cpid c) \<noteq> wpid w2) (procs k2)\<rparr>)
         else (w2, k2))"

fun release_workers :: "worker_desc list \<Rightarrow> kernel \<Rightarrow> worker_desc list \<times> kernel" where
  "release_workers [] k = ([], k)"
| "release_workers (w # ws) k =
     (let (w', k1) = release_worker w k; (ws', k2) = release_workers ws k1 in (w' # ws', k2))"

section \<open>One worker\<close>

definition holds_file :: "fd_table \<Rightarrow> open_file \<Rightarrow> bool" where
  "holds_file t f \<longleftrightarrow> Some f \<in> set t"

lemma holds_file_at: "holds_file t f \<longleftrightarrow> (\<exists>n. file_at t n = Some f)"
  by (auto simp: holds_file_def file_at_def in_set_conv_nth)

lemma socketpair_fresh:
  assumes "socketpair k = ((a, b), k')"
  shows "a \<noteq> b" "file_at (fds k) a = None" "file_at (fds k) b = None"
    "file_at (fds k') = (file_at (fds k))(a \<mapsto> Socket (pairs k) 0, b \<mapsto> Socket (pairs k) 1)"
    "pairs k' = pairs k + 1" "procs k' = procs k" "last_pid k' = last_pid k"
proof -
  let ?t = "open_fd (Socket (pairs k) 0) (fds k)"
  have ab: "a = first_free (fds k)" "b = first_free ?t" "k' = k\<lparr>fds := open_fd (Socket (pairs k) 1) ?t, pairs := pairs k + 1\<rparr>"
    using assms by (auto simp: socketpair_def Let_def)
  have "file_at ?t b = None" unfolding ab(2) by (rule first_free_none)
  then have b: "((file_at (fds k))(a \<mapsto> Socket (pairs k) 0)) b = None" by (simp only: file_at_open ab(1))
  then show "a \<noteq> b" by auto
  then show "file_at (fds k) b = None" using b by simp
qed (use assms in \<open>auto simp: socketpair_def Let_def\<close>)

lemma spawn_fails:
  assumes "SpawnWorker_calls fate k = (Inl e, k')"
  shows "file_at (fds k') = file_at (fds k) \<and> procs k' = procs k \<and> last_pid k' = last_pid k"
proof (cases "request_ok fate")
  case True
  obtain a b k1 where p1: "socketpair k = ((a, b), k1)" by (metis prod.exhaust)
  obtain c d k2 where p2: "socketpair k1 = ((c, d), k2)" by (metis prod.exhaust)
  note f = socketpair_fresh [OF p1] socketpair_fresh [OF p2]
  from assms True p1 p2 have "k' = close_file b (close_file a k1) \<or>
      k' = close_file d (close_file c (close_file b (close_file a k2)))"
    by (auto simp: SpawnWorker_calls_def Let_def split: if_splits)
  then show ?thesis using f by (elim disjE) (auto simp: close_file_def fun_eq_iff)
qed (use assms in \<open>simp add: SpawnWorker_calls_def\<close>)

text \<open>A worker that was spawned: two more descriptors in the parent, and the table of the child.\<close>

lemma spawn_succeeds:
  assumes "SpawnWorker_calls fate k = (Inr w, k')"
  obtains rq rs c where
    "request_fd w = int rq" "response_fd w = int rs" "wpid w = int (last_pid k + 1)" "\<not> joinable w" "rq \<noteq> rs"
    "file_at (fds k) rq = None" "file_at (fds k) rs = None"
    "file_at (fds k') = (file_at (fds k))(rq \<mapsto> Socket (pairs k) 0, rs \<mapsto> Socket (pairs k + 1) 0)"
    "pairs k' = pairs k + 2" "last_pid k' = last_pid k + 1" "procs k' = procs k @ [c]" "cpid c = last_pid k + 1"
    "crequest c \<noteq> cresponse c" "file_at (fds k) (crequest c) = None" "file_at (fds k) (cresponse c) = None"
    "file_at (cfds c) = (file_at (fds k))(crequest c \<mapsto> Socket (pairs k) 1, cresponse c \<mapsto> Socket (pairs k + 1) 1)"
proof -
  obtain a b k1 where p1: "socketpair k = ((a, b), k1)" by (metis prod.exhaust)
  obtain c d k2 where p2: "socketpair k1 = ((c, d), k2)" by (metis prod.exhaust)
  note f = socketpair_fresh [OF p1] socketpair_fresh [OF p2]
  let ?c = "\<lparr>cpid = last_pid k + 1, cfds = close_fd c (close_fd a (fds k2)), crequest = b, cresponse = d\<rparr>"
  have w: "w = \<lparr>wpid = int (last_pid k + 1), request_fd = int a, response_fd = int c, joinable = False\<rparr>"
    and k': "k' = close_file d (close_file b (fork_child (\<lambda>t. close_fd c (close_fd a t)) b d k2))"
    using assms p1 p2 f by (auto simp: SpawnWorker_calls_def Let_def fork_child_def split: if_splits)
  have ne: "c \<noteq> a" "c \<noteq> b" "d \<noteq> a" "d \<noteq> b" "c \<noteq> d" "a \<noteq> b" and free: "file_at (fds k) c = None" "file_at (fds k) d = None"
    using f by (auto split: if_splits)
  show thesis
    by (rule that [of a c ?c]) (use w k' f ne free in \<open>auto simp: close_file_def fork_child_def fun_eq_iff\<close>)
qed

section \<open>All workers\<close>

definition fd_nums :: "worker_desc list \<Rightarrow> nat list" where
  "fd_nums ws = concat (map (\<lambda>w. [nat (request_fd w), nat (response_fd w)]) ws)"

lemma fd_nums_simps [simp]:
  "fd_nums [] = []" "fd_nums (w # ws) = nat (request_fd w) # nat (response_fd w) # fd_nums ws"
  "fd_nums (ws @ ws') = fd_nums ws @ fd_nums ws'" "length (fd_nums ws) = 2 * length ws"
  by (simp_all add: fd_nums_def) (induction ws, simp_all)

text \<open>The files of the workers: the side the parent keeps and the side of the child.\<close>

definition kept :: "nat \<Rightarrow> nat \<Rightarrow> open_file set" where
  "kept p i = {Socket (p + 2 * i) 0, Socket (p + 2 * i + 1) 0}"

definition handed :: "nat \<Rightarrow> nat \<Rightarrow> open_file set" where
  "handed p i = {Socket (p + 2 * i) 1, Socket (p + 2 * i + 1) 1}"

definition child_ok :: "kernel \<Rightarrow> nat \<Rightarrow> child_proc \<Rightarrow> bool" where
  "child_ok k0 i c \<longleftrightarrow> cpid c = last_pid k0 + i + 1 \<and>
     file_at (cfds c) (crequest c) = Some (Socket (pairs k0 + 2 * i) 1) \<and>
     file_at (cfds c) (cresponse c) = Some (Socket (pairs k0 + 2 * i + 1) 1) \<and>
     Collect (holds_file (cfds c)) =
       Collect (holds_file (fds k0)) \<union> handed (pairs k0) i \<union> (\<Union>j < i. kept (pairs k0) j)"

definition spawned :: "kernel \<Rightarrow> worker_desc list \<Rightarrow> child_proc list \<Rightarrow> kernel \<Rightarrow> bool" where
  "spawned k0 ws cs k \<longleftrightarrow>
     distinct (fd_nums ws) \<and> (\<forall>n \<in> set (fd_nums ws). file_at (fds k0) n = None) \<and>
     (\<forall>n. n \<notin> set (fd_nums ws) \<longrightarrow> file_at (fds k) n = file_at (fds k0) n) \<and>
     map (file_at (fds k)) (fd_nums ws) =
       concat (map (\<lambda>i. [Some (Socket (pairs k0 + 2 * i) 0), Some (Socket (pairs k0 + 2 * i + 1) 0)]) [0..<length ws]) \<and>
     (\<forall>w \<in> set ws. 0 \<le> request_fd w \<and> 0 \<le> response_fd w) \<and>
     pairs k = pairs k0 + 2 * length ws \<and> last_pid k = last_pid k0 + length ws \<and>
     procs k = procs k0 @ cs \<and> length cs = length ws \<and>
     (\<forall>i < length ws. child_ok k0 i (cs ! i) \<and> wpid (ws ! i) = int (cpid (cs ! i)) \<and> \<not> joinable (ws ! i))"

lemma spawned_start: "spawned k [] [] k"
  by (simp add: spawned_def)

lemma spawned_holds:
  assumes "spawned k0 ws cs k"
  shows "Collect (holds_file (fds k)) = Collect (holds_file (fds k0)) \<union> (\<Union>j < length ws. kept (pairs k0) j)"
proof -
  have new: "Some ` (\<Union>j < length ws. kept (pairs k0) j) = file_at (fds k) ` set (fd_nums ws)"
  proof -
    have "file_at (fds k) ` set (fd_nums ws) = set (map (file_at (fds k)) (fd_nums ws))" by simp
    also have "\<dots> = set (concat (map (\<lambda>i. [Some (Socket (pairs k0 + 2 * i) 0), Some (Socket (pairs k0 + 2 * i + 1) 0)])
        [0..<length ws]))"
      using assms by (simp only: spawned_def)
    also have "\<dots> = Some ` (\<Union>j < length ws. kept (pairs k0) j)"
      by (simp add: kept_def image_UN atLeast0LessThan)
    finally show ?thesis by simp
  qed
  have "holds_file (fds k) f \<longleftrightarrow> holds_file (fds k0) f \<or> f \<in> (\<Union>j < length ws. kept (pairs k0) j)" for f
  proof -
    have "holds_file (fds k) f \<longleftrightarrow>
        (\<exists>n. n \<notin> set (fd_nums ws) \<and> file_at (fds k) n = Some f) \<or> Some f \<in> file_at (fds k) ` set (fd_nums ws)"
      unfolding holds_file_at by (auto simp: image_iff) metis
    also have "(\<exists>n. n \<notin> set (fd_nums ws) \<and> file_at (fds k) n = Some f) \<longleftrightarrow> holds_file (fds k0) f"
      using assms unfolding holds_file_at spawned_def by (metis option.distinct(1))
    finally show ?thesis unfolding new [symmetric] by auto
  qed
  then show ?thesis by auto
qed

lemma spawned_step:
  assumes "spawned k0 ws cs k" and "SpawnWorker_calls fate k = (Inr w, k')"
  shows "\<exists>c. spawned k0 (ws @ [w]) (cs @ [c]) k'"
proof -
  from assms(2) obtain rq rs c where
    s: "request_fd w = int rq" "response_fd w = int rs" "wpid w = int (last_pid k + 1)" "\<not> joinable w" "rq \<noteq> rs"
    "file_at (fds k) rq = None" "file_at (fds k) rs = None"
    "file_at (fds k') = (file_at (fds k))(rq \<mapsto> Socket (pairs k) 0, rs \<mapsto> Socket (pairs k + 1) 0)"
    "pairs k' = pairs k + 2" "last_pid k' = last_pid k + 1" "procs k' = procs k @ [c]" "cpid c = last_pid k + 1"
    "crequest c \<noteq> cresponse c" "file_at (fds k) (crequest c) = None" "file_at (fds k) (cresponse c) = None"
    "file_at (cfds c) = (file_at (fds k))(crequest c \<mapsto> Socket (pairs k) 1, cresponse c \<mapsto> Socket (pairs k + 1) 1)"
    by (rule spawn_succeeds)
  note sp = assms(1) [unfolded spawned_def]
  have old: "None \<notin> file_at (fds k) ` set (fd_nums ws)"
  proof -
    have "file_at (fds k) ` set (fd_nums ws) = set (map (file_at (fds k)) (fd_nums ws))" by simp
    then show ?thesis using sp by (simp only:) auto
  qed
  then have new: "rq \<notin> set (fd_nums ws)" "rs \<notin> set (fd_nums ws)" using s(6,7) by (metis image_eqI)+
  then have "map (file_at (fds k')) (fd_nums ws) = map (file_at (fds k)) (fd_nums ws)" by (auto simp: s(8))
  moreover have "file_at (fds k0) rq = None" "file_at (fds k0) rs = None" using sp new s(6,7) by metis+
  moreover have "child_ok k0 (length ws) c"
  proof -
    have "holds_file (cfds c) f \<longleftrightarrow> holds_file (fds k) f \<or> f = Socket (pairs k) 1 \<or> f = Socket (pairs k + 1) 1" for f
    proof -
      have "ran (file_at (cfds c)) = insert (Socket (pairs k + 1) 1) (insert (Socket (pairs k) 1) (ran (file_at (fds k))))"
        unfolding s(16) using s(13-15) by (simp add: ran_map_upd)
      then show ?thesis by (auto simp: holds_file_at ran_def)
    qed
    then have "Collect (holds_file (cfds c)) = Collect (holds_file (fds k)) \<union> handed (pairs k0) (length ws)"
      using sp by (auto simp: handed_def)
    with spawned_holds [OF assms(1)] s(12,13,16) sp show ?thesis by (simp add: child_ok_def Un_ac)
  qed
  ultimately have "spawned k0 (ws @ [w]) (cs @ [c]) k'"
    using sp s(1-5,8-12) new by (auto simp: spawned_def nth_append less_Suc_eq)
  then show ?thesis ..
qed

definition all_ok :: "spawn_fate \<Rightarrow> bool" where
  "all_ok fate \<longleftrightarrow> request_ok fate \<and> response_ok fate \<and> fork_ok fate"

lemma spawn_by_fate:
  "all_ok fate \<Longrightarrow> \<exists>w k'. SpawnWorker_calls fate k = (Inr w, k')"
  "\<not> all_ok fate \<Longrightarrow> \<exists>e k'. SpawnWorker_calls fate k = (Inl (SystemError e), k')"
  by (auto simp: SpawnWorker_calls_def all_ok_def Let_def split: prod.splits)

text \<open>The loop of the constructor that spawns: up to the first call that fails, or to its end.\<close>

lemma spawn_workers_run:
  assumes "spawned k0 ws cs k" and "length ws \<le> m" and "m \<le> n" and "\<forall>i < m. all_ok (fate i)"
  shows "\<exists>ws' cs' k'. spawned k0 ws' cs' k' \<and> length ws' = m \<and>
    spawn_workers fate n (length ws) ws k = spawn_workers fate n m ws' k'"
  using assms(1,2)
proof (induction "m - length ws" arbitrary: ws cs k)
  case 0
  then show ?case by (intro exI [of _ ws]) auto
next
  case (Suc x)
  then have less: "length ws < m" by simp
  obtain w k' where w: "SpawnWorker_calls (fate (length ws)) k = (Inr w, k')"
    using spawn_by_fate(1) assms(4) less by blast
  then have unfold: "spawn_workers fate n (length ws) ws k = spawn_workers fate n (length (ws @ [w])) (ws @ [w]) k'"
    using less assms(3) by (subst spawn_workers.simps) simp
  obtain c where "spawned k0 (ws @ [w]) (cs @ [c]) k'" using spawned_step [OF Suc.prems(1) w] by blast
  from Suc.hyps(1) [OF _ this] Suc.hyps(2) less unfold show ?case by simp
qed

lemma spawn_all_ok:
  assumes "\<forall>i < n. all_ok (fate i)"
  obtains ws cs k' where "spawn_workers fate n 0 [] k = (Inr ws, k')" "spawned k ws cs k'" "length ws = n"
  using spawn_workers_run [OF spawned_start _ order_refl assms, of k]
  by (auto simp: spawn_workers.simps [of fate n n])

lemma spawn_first_failure:
  assumes "j < n" and "\<forall>i < j. all_ok (fate i)" and "\<not> all_ok (fate j)"
  obtains e ws cs k1 k' where "spawn_workers fate n 0 [] k = (Inl (SystemError e), k')"
    "spawned k ws cs k1" "length ws = j" "file_at (fds k') = file_at (fds k1)" "procs k' = procs k1"
proof -
  from spawn_workers_run [OF spawned_start _ less_imp_le [OF assms(1)] assms(2), of k]
  obtain ws cs k1 where sp: "spawned k ws cs k1" "length ws = j" "spawn_workers fate n 0 [] k = spawn_workers fate n j ws k1"
    by auto
  obtain e k' where e: "SpawnWorker_calls (fate j) k1 = (Inl (SystemError e), k')" using spawn_by_fate(2) [OF assms(3)] by blast
  have "spawn_workers fate n 0 [] k = (Inl (SystemError e), k')"
    using sp(3) e assms(1) by (subst (asm) (2) spawn_workers.simps) simp
  with that sp(1,2) spawn_fails [OF e] show thesis by blast
qed

text \<open>The loop that starts the readers, from worker \<open>i\<close> on, up to \<open>m\<close>.\<close>

lemma start_readers_run:
  assumes "i \<le> m" and "m \<le> length ws" and "\<forall>j < m. thread_ok j"
  shows "start_readers thread_ok i ws =
    start_readers thread_ok m (map (\<lambda>j. if i \<le> j \<and> j < m then (ws ! j)\<lparr>joinable := True\<rparr> else ws ! j) [0..<length ws])"
  using assms(1,2)
proof (induction "m - i" arbitrary: i ws)
  case 0
  then have "(\<lambda>j. if i \<le> j \<and> j < m then (ws ! j)\<lparr>joinable := True\<rparr> else ws ! j) = (!) ws"
    by (intro ext) auto
  then have "map (\<lambda>j. if i \<le> j \<and> j < m then (ws ! j)\<lparr>joinable := True\<rparr> else ws ! j) [0..<length ws] = ws"
    by (simp only: map_nth)
  then show ?case using 0 by simp
next
  case (Suc x)
  then have less: "i < m" by simp
  then have "start_readers thread_ok i ws = start_readers thread_ok (Suc i) (ws[i := (ws ! i)\<lparr>joinable := True\<rparr>])"
    using Suc.prems(2) assms(3) by (subst start_readers.simps) simp
  also have "\<dots> = start_readers thread_ok m (map (\<lambda>j. if Suc i \<le> j \<and> j < m
      then (ws[i := (ws ! i)\<lparr>joinable := True\<rparr>] ! j)\<lparr>joinable := True\<rparr> else ws[i := (ws ! i)\<lparr>joinable := True\<rparr>] ! j)
      [0..<length ws])"
    using Suc.hyps(1) [of "Suc i" "ws[i := (ws ! i)\<lparr>joinable := True\<rparr>]"] Suc.hyps(2) Suc.prems(2) less by simp
  also have "map (\<lambda>j. if Suc i \<le> j \<and> j < m
      then (ws[i := (ws ! i)\<lparr>joinable := True\<rparr>] ! j)\<lparr>joinable := True\<rparr> else ws[i := (ws ! i)\<lparr>joinable := True\<rparr>] ! j)
      [0..<length ws] = map (\<lambda>j. if i \<le> j \<and> j < m then (ws ! j)\<lparr>joinable := True\<rparr> else ws ! j) [0..<length ws]"
    using less Suc.prems(2) by (auto simp: nth_list_update)
  finally show ?case .
qed

definition with_readers :: "nat \<Rightarrow> worker_desc list \<Rightarrow> worker_desc list" where
  "with_readers m ws = map (\<lambda>j. if j < m then (ws ! j)\<lparr>joinable := True\<rparr> else ws ! j) [0..<length ws]"

lemma start_readers_all: "\<forall>i < length ws. thread_ok i \<Longrightarrow> start_readers thread_ok 0 ws = (True, with_readers (length ws) ws)"
  using start_readers_run [of 0 "length ws" ws thread_ok]
  by (simp add: start_readers.simps [of thread_ok "length ws"] with_readers_def)

lemma start_readers_failure:
  "m < length ws \<Longrightarrow> \<forall>i < m. thread_ok i \<Longrightarrow> \<not> thread_ok m \<Longrightarrow> start_readers thread_ok 0 ws = (False, with_readers m ws)"
  using start_readers_run [of 0 m ws thread_ok]
  by (simp add: start_readers.simps [of thread_ok m] with_readers_def)

lemma with_readers_fds [simp]: "fd_nums (with_readers m ws) = fd_nums ws"
proof -
  have "fd_nums (with_readers m ws) = concat (map (\<lambda>j. [nat (request_fd (ws ! j)), nat (response_fd (ws ! j))]) [0..<length ws])"
    unfolding fd_nums_def with_readers_def by (auto intro!: arg_cong [of _ _ concat])
  also have "\<dots> = fd_nums ws"
    unfolding fd_nums_def by (rule arg_cong [of _ _ concat]) (rule nth_equalityI, simp_all)
  finally show ?thesis .
qed

lemma with_readers_length [simp]: "length (with_readers m ws) = length ws"
  by (simp add: with_readers_def)

lemma with_readers_joinable:
  "j < length ws \<Longrightarrow> joinable (with_readers m ws ! j) \<longleftrightarrow> j < m \<or> joinable (ws ! j)"
  by (simp add: with_readers_def)

lemma ProcessPool_ok:
  assumes "0 < n" and "\<forall>i < n. all_ok (fate i) \<and> thread_ok i"
  obtains ws cs k' where "ProcessPool_calls fate thread_ok n k = (Constructed (with_readers n ws), k')"
    "spawned k ws cs k'" "length ws = n"
proof -
  from assms(2) have "\<forall>i < n. all_ok (fate i)" by blast
  then obtain ws cs k' where s: "spawn_workers fate n 0 [] k = (Inr ws, k')" "spawned k ws cs k'" "length ws = n"
    by (rule spawn_all_ok)
  moreover have "start_readers thread_ok 0 ws = (True, with_readers n ws)"
    using start_readers_all [of ws thread_ok] assms(2) s(3) by simp
  ultimately show thesis using that assms(1) by (simp add: ProcessPool_calls_def)
qed

lemma ProcessPool_spawn_fails:
  assumes "j < n" and "\<forall>i < j. all_ok (fate i)" and "\<not> all_ok (fate j)"
  obtains e ws cs k1 k' where "ProcessPool_calls fate thread_ok n k = (ThrewOut (SystemError e), k')"
    "spawned k ws cs k1" "length ws = j" "file_at (fds k') = file_at (fds k1)" "procs k' = procs k1"
proof -
  obtain e ws cs k1 k' where "spawn_workers fate n 0 [] k = (Inl (SystemError e), k')"
    and s: "spawned k ws cs k1" "length ws = j" "file_at (fds k') = file_at (fds k1)" "procs k' = procs k1"
    by (rule spawn_first_failure [OF assms])
  then have "ProcessPool_calls fate thread_ok n k = (ThrewOut (SystemError e), k')"
    using assms(1) by (simp add: ProcessPool_calls_def)
  with that s show thesis by blast
qed

text \<open>The descriptors in use beyond those of before are those of the workers.\<close>

lemma spawned_differs:
  assumes "spawned k0 ws cs k"
  shows "file_at (fds k) m \<noteq> file_at (fds k0) m \<longleftrightarrow> m \<in> set (fd_nums ws)"
proof -
  have "file_at (fds k) ` set (fd_nums ws) = set (map (file_at (fds k)) (fd_nums ws))" by simp
  then have "None \<notin> file_at (fds k) ` set (fd_nums ws)" using assms unfolding spawned_def by (simp only:) auto
  then have "file_at (fds k) m \<noteq> None" if "m \<in> set (fd_nums ws)" using that by (metis image_eqI)
  moreover have "m \<in> set (fd_nums ws) \<longrightarrow> file_at (fds k0) m = None" "m \<notin> set (fd_nums ws) \<longrightarrow> file_at (fds k) m = file_at (fds k0) m"
    using assms by (simp_all add: spawned_def)
  ultimately show ?thesis by auto
qed

section \<open>Shutdown gives everything back\<close>

definition released :: "worker_desc \<Rightarrow> worker_desc" where
  "released w = w\<lparr>wpid := -1, request_fd := -1, response_fd := -1\<rparr>"

lemma release_workers_spec:
  assumes "\<forall>w \<in> set ws. 0 \<le> request_fd w \<and> 0 \<le> response_fd w \<and> 0 < wpid w"
  shows "\<exists>k'. release_workers ws k = (map released ws, k') \<and>
    file_at (fds k') = (\<lambda>n. if n \<in> set (fd_nums ws) then None else file_at (fds k) n) \<and>
    procs k' = filter (\<lambda>c. int (cpid c) \<notin> wpid ` set ws) (procs k)"
  using assms
proof (induction ws arbitrary: k)
  case (Cons w ws)
  obtain k1 where k1: "release_worker w k = (released w, k1)"
    "file_at (fds k1) = (file_at (fds k))(nat (request_fd w) := None, nat (response_fd w) := None)"
    "procs k1 = filter (\<lambda>c. int (cpid c) \<noteq> wpid w) (procs k)"
    using Cons.prems by (auto simp: release_worker_def released_def close_file_def)
  from Cons.IH [of k1] Cons.prems k1 show ?case by (auto simp: fun_eq_iff intro!: filter_cong)
qed simp

lemma release_again: "release_workers (map released ws) k = (map released ws, k)"
  by (induction ws) (auto simp: release_worker_def released_def)

section \<open>Processes without a parent\<close>

text \<open>
  A worker leaves its loop when nobody holds the other side of its request socket: \<open>ReadExact\<close> sees
  the end of the stream. \<open>tables\<close> are the tables of all processes that are alive.
\<close>

definition sees_eof :: "fd_table list \<Rightarrow> child_proc \<Rightarrow> bool" where
  "sees_eof tables c =
     (case file_at (cfds c) (crequest c) of
        Some (Socket p side) \<Rightarrow> side = 1 \<and> \<not> list_ex (\<lambda>t. holds_file t (Socket p 0)) tables
      | _ \<Rightarrow> False)"

text \<open>After the death of the parent: a worker that sees the end of the stream exits.\<close>

inductive orphan_step :: "child_proc list \<Rightarrow> child_proc list \<Rightarrow> bool" where
  orphan_exits: "c \<in> set cs \<Longrightarrow> sees_eof (map cfds cs) c \<Longrightarrow> orphan_step cs (remove1 c cs)"

lemma spawned_child: "spawned k0 ws cs k \<Longrightarrow> i < length cs \<Longrightarrow> child_ok k0 i (cs ! i)"
  by (simp add: spawned_def)

lemma kept_first [simp]: "Socket (p + 2 * i) 0 \<in> kept p j \<longleftrightarrow> i = j"
  by (auto simp: kept_def)

lemma child_holds:
  "child_ok k0 i c \<Longrightarrow> holds_file (cfds c) f \<longleftrightarrow>
     holds_file (fds k0) f \<or> f \<in> handed (pairs k0) i \<or> (\<exists>j < i. f \<in> kept (pairs k0) j)"
  by (auto simp: child_ok_def)

lemma child_eof:
  assumes "child_ok k0 i c"
  shows "sees_eof tables c \<longleftrightarrow> \<not> list_ex (\<lambda>t. holds_file t (Socket (pairs k0 + 2 * i) 0)) tables"
  using assms by (simp add: sees_eof_def child_ok_def)

lemma orphan_turn:
  assumes "spawned k0 ws cs k" and "\<forall>p side. holds_file (fds k0) (Socket p side) \<longrightarrow> p < pairs k0" and "m \<le> length cs"
  shows "orphan_step (take m cs) cs' \<longleftrightarrow> 0 < m \<and> cs' = take (m - 1) cs"
proof -
  have child: "child_ok k0 i (cs ! i)" if "i < length cs" for i using assms(1) that by (rule spawned_child)
  have eof: "sees_eof (map cfds (take m cs)) (cs ! i) \<longleftrightarrow> Suc i = m" if "i < m" for i
  proof -
    have old: "\<not> holds_file (fds k0) (Socket (pairs k0 + 2 * i) 0)" using assms(2) by fastforce
    have "holds_file (cfds (cs ! j)) (Socket (pairs k0 + 2 * i) 0) \<longleftrightarrow> i < j" if "j < m" for j
      using child_holds [OF child, of j] old that assms(3) by (auto simp: handed_def)
    moreover have "take m cs = map ((!) cs) [0..<m]" using assms(3) by (intro nth_equalityI) simp_all
    ultimately have "list_ex (\<lambda>t. holds_file t (Socket (pairs k0 + 2 * i) 0)) (map cfds (take m cs)) \<longleftrightarrow> (\<exists>j < m. i < j)"
      by (auto simp: list_ex_iff)
    moreover have "(\<exists>j < m. i < j) \<longleftrightarrow> Suc i \<noteq> m" using that by (metis Suc_lessI lessI not_less_eq)
    ultimately show ?thesis using child_eof [OF child, of i] that assms(3) by simp
  qed
  have last: "take m cs = take (m - 1) cs @ [cs ! (m - 1)]" "cs ! (m - 1) \<notin> set (take (m - 1) cs)" if "0 < m"
  proof -
    show "take m cs = take (m - 1) cs @ [cs ! (m - 1)]"
      using that assms(3) take_Suc_conv_app_nth [of "m - 1" cs] by simp
    have "cpid (cs ! j) = last_pid k0 + j + 1" if "j < length cs" for j using child [OF that] by (simp add: child_ok_def)
    then show "cs ! (m - 1) \<notin> set (take (m - 1) cs)"
      using that assms(3) by (auto simp: in_set_conv_nth dest: arg_cong [of _ _ cpid])
  qed
  show ?thesis
  proof
    assume "orphan_step (take m cs) cs'"
    then obtain c where c: "c \<in> set (take m cs)" "sees_eof (map cfds (take m cs)) c" "cs' = remove1 c (take m cs)"
      by cases
    then obtain i where i: "i < m" "c = cs ! i" by (auto simp: in_set_conv_nth)
    with c(2) eof have "m = Suc i" by simp
    with last i c(3) show "0 < m \<and> cs' = take (m - 1) cs" by (simp add: remove1_append)
  next
    assume m: "0 < m \<and> cs' = take (m - 1) cs"
    then have "sees_eof (map cfds (take m cs)) (cs ! (m - 1))" using eof [of "m - 1"] by simp
    moreover have "cs ! (m - 1) \<in> set (take m cs)" using last m by simp
    ultimately have "orphan_step (take m cs) (remove1 (cs ! (m - 1)) (take m cs))" by (rule orphan_exits [rotated])
    with last m show "orphan_step (take m cs) cs'" by (simp add: remove1_append)
  qed
qed

section \<open>Properties\<close>

text \<open>C25: The descriptors and processes of a pool: when all calls succeed, the constructor makes one
  process per worker and opens two descriptors for each, all different, and changes no other;
  the last loop of \<open>Shutdown\<close> closes exactly these and reaps exactly these processes, so that
  table and processes are those of before the constructor, and once more it does nothing.\<close>
theorem pool_descriptors_balanced:
  assumes "0 < n" and "\<forall>i < n. all_ok (fate i) \<and> thread_ok i" and "\<forall>c \<in> set (procs k0). cpid c \<le> last_pid k0"
  shows "\<exists>ws k ws' k2. ProcessPool_calls fate thread_ok n k0 = (Constructed ws, k) \<and>
    length ws = n \<and> list_all joinable ws \<and> length (procs k) = length (procs k0) + n \<and>
    distinct (fd_nums ws) \<and> (\<forall>m. file_at (fds k) m \<noteq> file_at (fds k0) m \<longleftrightarrow> m \<in> set (fd_nums ws)) \<and>
    release_workers ws k = (ws', k2) \<and> file_at (fds k2) = file_at (fds k0) \<and> procs k2 = procs k0 \<and>
    release_workers ws' k2 = (ws', k2)"
proof -
  obtain us cs k where p: "ProcessPool_calls fate thread_ok n k0 = (Constructed (with_readers n us), k)"
    and sp: "spawned k0 us cs k" and n: "length us = n"
    by (rule ProcessPool_ok [OF assms(1,2)])
  let ?ws = "with_readers n us"
  have pids: "wpid (us ! i) = int (cpid (cs ! i))" "cpid (cs ! i) = last_pid k0 + i + 1" if "i < n" for i
    using sp that n by (simp_all add: spawned_def child_ok_def)
  have ws: "?ws = map (\<lambda>i. (us ! i)\<lparr>joinable := True\<rparr>) [0..<n]" using n by (simp add: with_readers_def)
  have "\<forall>w \<in> set ?ws. 0 \<le> request_fd w \<and> 0 \<le> response_fd w \<and> 0 < wpid w"
    using sp pids n by (auto simp: ws spawned_def)
  from release_workers_spec [OF this, of k] obtain k2 where k2: "release_workers ?ws k = (map released ?ws, k2)"
    "file_at (fds k2) = (\<lambda>m. if m \<in> set (fd_nums us) then None else file_at (fds k) m)"
    "procs k2 = filter (\<lambda>c. int (cpid c) \<notin> wpid ` set ?ws) (procs k)" by auto
  have "wpid ` set ?ws = int ` {last_pid k0 + 1 ..< last_pid k0 + n + 1}"
  proof -
    have "wpid ` set ?ws = (\<lambda>i. int (last_pid k0 + i + 1)) ` {0..<n}"
      using pids by (auto simp: ws image_image)
    also have "\<dots> = int ` (\<lambda>i. last_pid k0 + i + 1) ` {0..<n}" by (simp add: image_image)
    also have "(\<lambda>i. last_pid k0 + i + 1) ` {0..<n} = {last_pid k0 + 1 ..< last_pid k0 + n + 1}"
      using image_add_atLeastLessThan [of "last_pid k0 + 1" 0 n] by (simp add: add.commute add.left_commute)
    finally show ?thesis .
  qed
  moreover have "cpid c \<in> {last_pid k0 + 1 ..< last_pid k0 + n + 1}" if "c \<in> set cs" for c
    using that pids(2) sp n by (auto simp: in_set_conv_nth spawned_def)
  moreover have "procs k = procs k0 @ cs" "length cs = n" using sp n by (simp_all add: spawned_def)
  ultimately have procs: "procs k2 = procs k0" "length (procs k) = length (procs k0) + n"
    using assms(3) by (auto simp: k2(3) filter_id_conv image_iff inj_image_mem_iff [OF inj_of_nat])
  have "file_at (fds k2) = file_at (fds k0)" using sp by (auto simp: k2(2) fun_eq_iff spawned_def)
  moreover have "distinct (fd_nums ?ws)" using sp by (simp add: spawned_def)
  moreover have "list_all joinable ?ws" by (simp add: ws list_all_iff)
  ultimately show ?thesis
    using p k2(1) procs spawned_differs [OF sp] release_again [of ?ws k2] n by (intro exI conjI) auto
qed

text \<open>C26: A constructor that fails half-way leaks what it has made: when a call for worker \<open>j\<close> fails,
  what it had opened for this worker is closed again and the constructor throws a
  system error, but the two descriptors of each earlier worker stay open for ever, and so do their
  processes: none of them sees the end of its request stream, because the parent still holds it.\<close>
theorem failed_construction_leaks:
  assumes "j < n" and "\<forall>i < j. all_ok (fate i)" and "\<not> all_ok (fate j)"
  shows "\<exists>e k nums cs. ProcessPool_calls fate thread_ok n k0 = (ThrewOut (SystemError e), k) \<and>
    distinct nums \<and> length nums = 2 * j \<and> (\<forall>m. file_at (fds k) m \<noteq> file_at (fds k0) m \<longleftrightarrow> m \<in> set nums) \<and>
    procs k = procs k0 @ cs \<and> length cs = j \<and> (\<forall>c \<in> set cs. \<not> sees_eof (fds k # map cfds (procs k)) c)"
proof -
  obtain e ws cs k1 k where p: "ProcessPool_calls fate thread_ok n k0 = (ThrewOut (SystemError e), k)"
    and sp: "spawned k0 ws cs k1" and j: "length ws = j"
    and same: "file_at (fds k) = file_at (fds k1)" "procs k = procs k1"
    by (rule ProcessPool_spawn_fails [OF assms])
  have "\<not> sees_eof (fds k # map cfds (procs k)) (cs ! i)" if "i < length cs" for i
  proof -
    have "Socket (pairs k0 + 2 * i) 0 \<in> Collect (holds_file (fds k1))"
      unfolding spawned_holds [OF sp] using that sp by (auto simp: spawned_def)
    then have "holds_file (fds k) (Socket (pairs k0 + 2 * i) 0)" by (simp add: holds_file_at same)
    then show ?thesis using child_eof [OF spawned_child [OF sp that]] by simp
  qed
  then have "\<forall>c \<in> set cs. \<not> sees_eof (fds k # map cfds (procs k)) c" by (auto simp: in_set_conv_nth)
  moreover have "distinct (fd_nums ws)" "procs k1 = procs k0 @ cs" "length cs = j"
    using sp j by (simp_all add: spawned_def)
  ultimately show ?thesis
    using p j same spawned_differs [OF sp] by (intro exI [of _ e] exI [of _ k] exI [of _ "fd_nums ws"] exI [of _ cs]) simp
qed

text \<open>When \<open>std::thread\<close> throws, the first reader's failure leaves the constructor like the failures
  above; a later one ends the program, as the readers already started are joinable.\<close>
theorem reader_start_fails:
  assumes "m < n" and "\<forall>i < n. all_ok (fate i)" and "\<forall>i < m. thread_ok i" and "\<not> thread_ok m"
  shows "fst (ProcessPool_calls fate thread_ok n k) = (if m = 0 then ThrewOut ThreadError else Terminates)"
proof -
  obtain ws cs k' where s: "spawn_workers fate n 0 [] k = (Inr ws, k')" "spawned k ws cs k'" "length ws = n"
    by (rule spawn_all_ok [OF assms(2)])
  have readers: "start_readers thread_ok 0 ws = (False, with_readers m ws)"
    using start_readers_failure assms(1,3,4) s(3) by simp
  have "\<not> joinable (ws ! i)" if "i < n" for i using s(2,3) that by (simp add: spawned_def)
  moreover have "0 < length ws" using s(3) assms(1) by simp
  ultimately have joined: "list_ex joinable (with_readers m ws) \<longleftrightarrow> 0 < m"
    using s(3) by (auto simp: with_readers_joinable list_ex_length intro!: exI [of _ 0])
  with s(1) assms(1) readers show ?thesis by (simp add: ProcessPool_calls_def)
qed

text \<open>C27: When the parent dies, all workers end, one after the other and the last spawned first: each
  worker has inherited the request sockets of all workers before it, so that none of these sees
  the end of its stream while it is alive. (A worker that is still busy keeps all workers
  before it.)\<close>
theorem orphans_exit_in_turn:
  assumes "0 < n" and "\<forall>i < n. all_ok (fate i) \<and> thread_ok i" and "procs k0 = []"
    and "\<forall>p side. holds_file (fds k0) (Socket p side) \<longrightarrow> p < pairs k0"
    and "ProcessPool_calls fate thread_ok n k0 = (Constructed ws, k)"
  shows "length (procs k) = n \<and>
    (\<forall>m cs'. m \<le> n \<longrightarrow> (orphan_step (take m (procs k)) cs' \<longleftrightarrow> 0 < m \<and> cs' = take (m - 1) (procs k))) \<and>
    orphan_step\<^sup>*\<^sup>* (procs k) []"
proof -
  obtain us cs where sp: "spawned k0 us cs k" "length us = n"
    using ProcessPool_ok [OF assms(1,2), of k0] assms(5) by (metis prod.inject)
  then have cs: "procs k = cs" "length cs = n" using assms(3) by (simp_all add: spawned_def)
  note turn = orphan_turn [OF sp(1) assms(4)]
  have "orphan_step\<^sup>*\<^sup>* (take m cs) []" if "m \<le> n" for m
    using that
  proof (induction m)
    case (Suc m)
    have "orphan_step (take (Suc m) cs) (take m cs)" using turn [of "Suc m"] Suc.prems cs by simp
    with Suc show ?case by (meson Suc_leD converse_rtranclp_into_rtranclp)
  qed simp
  from this [of n] turn cs show ?thesis by simp
qed

text \<open>A process with the three standard descriptors and a pool of three workers.\<close>

definition fine :: spawn_fate where
  "fine = \<lparr>request_ok = True, response_ok = True, fork_ok = True\<rparr>"

definition fresh_kernel :: kernel where
  "fresh_kernel = \<lparr>fds = [Some (Opened 0), None, Some (Opened 2)], pairs = 0, last_pid = 41, procs = []\<rparr>"

lemmas spawn_eval = fine_def fresh_kernel_def all_ok_def

theorem pool_descriptors_balanced_witness:
  "\<exists>ws k ws' k2. ProcessPool_calls (\<lambda>i. fine) (\<lambda>i. True) 3 fresh_kernel = (Constructed ws, k) \<and> length ws = 3 \<and>
    release_workers ws k = (ws', k2) \<and> file_at (fds k2) = file_at (fds fresh_kernel) \<and> procs k2 = []"
  using pool_descriptors_balanced [of 3 "\<lambda>i. fine" "\<lambda>i. True" fresh_kernel] by (auto simp: spawn_eval)

theorem failed_construction_leaks_witness:
  "\<exists>e k nums. ProcessPool_calls (\<lambda>i. fine\<lparr>fork_ok := i < 2\<rparr>) (\<lambda>i. True) 3 fresh_kernel = (ThrewOut (SystemError e), k) \<and>
    length nums = 4 \<and> (\<forall>m. file_at (fds k) m \<noteq> file_at (fds fresh_kernel) m \<longleftrightarrow> m \<in> set nums) \<and> length (procs k) = 2"
proof -
  have "2 < (3 :: nat)" "\<forall>i < 2. all_ok (fine\<lparr>fork_ok := i < 2\<rparr>)" "\<not> all_ok (fine\<lparr>fork_ok := 2 < (2 :: nat)\<rparr>)"
    by (simp_all add: spawn_eval)
  from failed_construction_leaks [where fate = "\<lambda>i. fine\<lparr>fork_ok := i < 2\<rparr>", OF this, of "\<lambda>i. True" fresh_kernel]
  obtain e k nums cs where
    "ProcessPool_calls (\<lambda>i. fine\<lparr>fork_ok := i < 2\<rparr>) (\<lambda>i. True) 3 fresh_kernel = (ThrewOut (SystemError e), k)"
    "length nums = 2 * 2" "\<forall>m. file_at (fds k) m \<noteq> file_at (fds fresh_kernel) m \<longleftrightarrow> m \<in> set nums"
    "procs k = procs fresh_kernel @ cs" "length cs = 2" by blast
  moreover have "procs fresh_kernel = []" by (simp add: fresh_kernel_def)
  ultimately show ?thesis by (intro exI [of _ e] exI [of _ k] exI [of _ nums]) simp
qed

theorem orphans_exit_in_turn_witness:
  "\<exists>ws k. ProcessPool_calls (\<lambda>i. fine) (\<lambda>i. True) 3 fresh_kernel = (Constructed ws, k) \<and> length (procs k) = 3 \<and>
    orphan_step (procs k) (take 2 (procs k)) \<and> orphan_step\<^sup>*\<^sup>* (procs k) []"
proof -
  have k0: "procs fresh_kernel = []" "\<forall>p side. holds_file (fds fresh_kernel) (Socket p side) \<longrightarrow> p < pairs fresh_kernel"
    and ok: "0 < (3 :: nat)" "\<forall>i < (3 :: nat). all_ok fine \<and> True" by (simp_all add: spawn_eval holds_file_def)
  obtain ws k where p: "ProcessPool_calls (\<lambda>i. fine) (\<lambda>i. True) 3 fresh_kernel = (Constructed ws, k)"
    by (rule ProcessPool_ok [where fate = "\<lambda>i. fine" and thread_ok = "\<lambda>i. True" and k = fresh_kernel, OF ok])
  note turns = orphans_exit_in_turn [where fate = "\<lambda>i. fine" and thread_ok = "\<lambda>i. True", OF ok k0 p]
  then have "orphan_step (take 3 (procs k)) cs' \<longleftrightarrow> 0 < (3 :: nat) \<and> cs' = take (3 - 1) (procs k)" for cs' by blast
  from this [of "take 2 (procs k)"] turns p show ?thesis by simp
qed

end
