(* ===== verification/Pool_Client.thy ===== *)
theory Pool_Client
  imports Pool_Progress
begin

text \<open>
  A program that uses the process pool: it makes a pool, and in each round submits a batch of
  tasks and then calls \<open>Get\<close> on their futures, in order. \<^verbatim>\<open>hw-6/main.cpp\<close> is one round of four
  tasks, the benchmarks of \<^verbatim>\<open>hw-6/benchmark.cpp\<close> are many equal rounds. The program's thread is the
  only client of the pool; its steps interleave with the steps of the workers and readers.
\<close>

section \<open>The program\<close>

text \<open>
  A call is a task and whether its \<open>Get\<close> is inside a \<open>try\<close> block. \<open>Escaped\<close>: an exception has left
  the program's function.
\<close>

type_synonym call = "task \<times> bool"

datatype session_at =
    Submitting "call list" "(u64 \<times> call) list"
  | Inside u64 call "call list" "(u64 \<times> call) list"
  | Getting "(u64 \<times> call) list"
  | Ended
  | Escaped

record session =
  spool :: pool
  at :: session_at
  batches :: "call list list"
  got :: "get_result list"

definition session_start :: "pool \<Rightarrow> call list list \<Rightarrow> session" where
  "session_start p prog = \<lparr>spool = p, at = Getting [], batches = prog, got = []\<rparr>"

fun get_future :: "pending \<Rightarrow> future \<Rightarrow> get_result" where
  "get_future (PendingValue sizeof) f = Get f"
| "get_future PendingVoid f = GetVoid f"

fun threw_out :: "get_result \<Rightarrow> bool" where
  "threw_out (GetThrew e) = True"
| "threw_out _ = False"

inductive session_step :: "executors \<Rightarrow> session \<Rightarrow> session \<Rightarrow> bool" for exec where
  round_begins:
    "\<not> killed (spool s) \<Longrightarrow> at s = Getting [] \<Longrightarrow> batches s = b # bs \<Longrightarrow>
     session_step exec s (s\<lparr>at := Submitting b [], batches := bs\<rparr>)"
| program_ends:
    "\<not> killed (spool s) \<Longrightarrow> at s = Getting [] \<Longrightarrow> batches s = [] \<Longrightarrow>
     session_step exec s (s\<lparr>at := Ended\<rparr>)"
| submit_called:
    "\<not> killed (spool s) \<Longrightarrow> at s = Submitting ((t, c) # cs) ids \<Longrightarrow> length (payload t) < 2 ^ 64 \<Longrightarrow>
     0 < length (clients (spool s)) \<Longrightarrow> clients (spool s) ! 0 = ClIdle \<Longrightarrow>
     session_step exec s
       (s\<lparr>spool := number_task 0 t (spool s), at := Inside (next_task_id (spool s)) (t, c) cs ids\<rparr>)"
| submit_returned:
    "\<not> killed (spool s) \<Longrightarrow> at s = Inside n call cs ids \<Longrightarrow> clients (spool s) ! 0 = ClIdle \<Longrightarrow>
     n \<in> set (returned (spool s)) \<Longrightarrow>
     session_step exec s (s\<lparr>at := Submitting cs (ids @ [(n, call)])\<rparr>)"
| submit_threw:
    "\<not> killed (spool s) \<Longrightarrow> at s = Inside n call cs ids \<Longrightarrow> clients (spool s) ! 0 = ClIdle \<Longrightarrow>
     n \<in> set (refused (spool s)) \<Longrightarrow>
     session_step exec s (s\<lparr>at := Escaped\<rparr>)"
| round_submitted:
    "\<not> killed (spool s) \<Longrightarrow> at s = Submitting [] ids \<Longrightarrow> session_step exec s (s\<lparr>at := Getting ids\<rparr>)"
| get_returned:
    "\<not> killed (spool s) \<Longrightarrow> at s = Getting ((n, (t, c)) # ids) \<Longrightarrow>
     get_future (kind t) (futures (spool s) n) = r \<Longrightarrow> r \<noteq> GetSleeps \<Longrightarrow> \<not> threw_out r \<or> c \<Longrightarrow>
     session_step exec s (s\<lparr>at := Getting ids, got := got s @ [r]\<rparr>)"
| get_escaped:
    "\<not> killed (spool s) \<Longrightarrow> at s = Getting ((n, (t, c)) # ids) \<Longrightarrow>
     get_future (kind t) (futures (spool s) n) = r \<Longrightarrow> threw_out r \<Longrightarrow> \<not> c \<Longrightarrow>
     session_step exec s (s\<lparr>at := Escaped, got := got s @ [r]\<rparr>)"
| pool_moves:
    "pool_step exec (spool s) p \<Longrightarrow> submitted p = submitted (spool s) \<Longrightarrow> stopping p = stopping (spool s) \<Longrightarrow>
     session_step exec s (s\<lparr>spool := p\<rparr>)"

section \<open>The invariant\<close>

text \<open>What \<open>Get\<close> returns or throws for a call that has been executed.\<close>

definition expected :: "executors \<Rightarrow> call \<Rightarrow> get_result" where
  "expected exec call =
     (case call of (t, c) \<Rightarrow> get_future (kind t) (Some (outcome (kind t) (result_of exec t) MakeState)))"

text \<open>The calls of the current round whose result has not been taken yet.\<close>

fun open_calls :: "session_at \<Rightarrow> call list" where
  "open_calls (Submitting cs ids) = map snd ids @ cs"
| "open_calls (Inside n call cs ids) = map snd ids @ call # cs"
| "open_calls (Getting ids) = map snd ids"
| "open_calls Ended = []"
| "open_calls Escaped = []"

fun not_submitted :: "session_at \<Rightarrow> nat" where
  "not_submitted (Submitting cs ids) = length cs"
| "not_submitted (Inside n call cs ids) = length cs"
| "not_submitted _ = 0"

definition ids_known :: "pool \<Rightarrow> (u64 \<times> call) list \<Rightarrow> bool" where
  "ids_known p ids \<longleftrightarrow> (\<forall>(n, (t, c)) \<in> set ids. tasks p n = Some t \<and> n \<in> set (returned p))"

definition in_submit :: "pool \<Rightarrow> u64 \<Rightarrow> task \<Rightarrow> bool" where
  "in_submit p n t \<longleftrightarrow> tasks p n = Some t \<and>
     (case clients p ! 0 of
        ClIdle \<Rightarrow> n \<in> set (returned p) \<or> n \<in> set (refused p)
      | ClNumbered t' m \<Rightarrow> t' = t \<and> m = n
      | ClRegistered t' m \<Rightarrow> t' = t \<and> m = n
      | ClChosen t' m w \<Rightarrow> t' = t \<and> m = n)"

fun at_ok :: "pool \<Rightarrow> session_at \<Rightarrow> bool" where
  "at_ok p (Submitting cs ids) \<longleftrightarrow> ids_known p ids \<and> clients p ! 0 = ClIdle"
| "at_ok p (Inside n call cs ids) \<longleftrightarrow> ids_known p ids \<and> in_submit p n (fst call)"
| "at_ok p (Getting ids) \<longleftrightarrow> ids_known p ids \<and> clients p ! 0 = ClIdle"
| "at_ok p a \<longleftrightarrow> clients p ! 0 = ClIdle"

definition reached :: "executors \<Rightarrow> pool \<Rightarrow> bool" where
  "reached exec p \<longleftrightarrow> (\<exists>z. pool_init z \<and> (pool_step exec)\<^sup>*\<^sup>* z p)"

definition session_ok :: "executors \<Rightarrow> call list list \<Rightarrow> session \<Rightarrow> bool" where
  "session_ok exec prog s \<longleftrightarrow>
     reached exec (spool s) \<and> \<not> stopping (spool s) \<and> length (clients (spool s)) = 1 \<and>
     at_ok (spool s) (at s) \<and>
     (at s \<noteq> Escaped \<longrightarrow>
        submitted (spool s) + not_submitted (at s) + length (concat (batches s)) = length (concat prog) \<and>
        (\<exists>past. concat prog = past @ open_calls (at s) @ concat (batches s) \<and> got s = map (expected exec) past)) \<and>
     (at s = Escaped \<longrightarrow> submitted (spool s) \<le> length (concat prog) \<and>
        (\<exists>past rest. concat prog = past @ rest \<and> got s = map (expected exec) past)) \<and>
     (at s = Ended \<longrightarrow> batches s = [])"

section \<open>What a step of the pool leaves alone\<close>

lemmas pool_ops = number_task_def register_task_def choose_worker_def deliver_task_def send_to_worker_def
  stop_worker_def take_result_def FailAllPending_def Let_def

lemma pool_frame:
  assumes "pool_step exec p p'" and "submitted p' = submitted p"
  shows "tasks p' = tasks p" "set (returned p) \<subseteq> set (returned p')" "set (refused p) \<subseteq> set (refused p')"
    "length (clients p') = length (clients p)"
  using assms by (cases rule: pool_step.cases; auto simp: pool_ops split: sum.splits option.splits if_splits)+

lemma pool_client_frame:
  assumes "pool_step exec p p'" and "submitted p' = submitted p" and "length (clients p) = 1"
  shows "clients p ! 0 = ClIdle \<Longrightarrow> clients p' ! 0 = ClIdle"
    and "in_submit p n t \<Longrightarrow> in_submit p' n t"
  using assms
  by (cases rule: pool_step.cases;
      auto simp: pool_ops in_submit_def split: sum.splits option.splits if_splits client_pc.splits)+

lemma ids_known_mono:
  assumes "ids_known p ids" and "tasks p' = tasks p" and "set (returned p) \<subseteq> set (returned p')"
  shows "ids_known p' ids"
  using assms by (auto simp: ids_known_def)

lemma at_ok_pool:
  assumes "pool_step exec p p'" and "submitted p' = submitted p" and "length (clients p) = 1" and "at_ok p a"
  shows "at_ok p' a"
  using assms(4) pool_frame [OF assms(1,2)] pool_client_frame [OF assms(1-3)] ids_known_mono [of p _ p']
  by (cases a) auto

lemma reached_step: "reached exec p \<Longrightarrow> pool_step exec p p' \<Longrightarrow> reached exec p'"
  by (meson reached_def rtranclp.rtrancl_into_rtrancl)

lemma reached_inv:
  assumes "reached exec p" and "exec_small exec" and "submitted p < 2 ^ 64"
  obtains RQ RS where "pool_inv exec RQ RS p"
  using assms pool_reachable unfolding reached_def by metis

text \<open>A fresh number is not among those in use.\<close>

lemma number_task_known:
  assumes "pool_inv exec RQ RS p" and "Suc (submitted p) < 2 ^ 64" and "ids_known p ids"
  shows "ids_known (number_task 0 t p) ids"
proof -
  have "futures p (next_task_id p) = None" by (rule number_task_new [OF assms(1,2)])
  moreover have "dom (futures p) = dom (tasks p)" using assms(1) by (simp add: pool_inv_def numbers_ok_def)
  ultimately have "tasks p (next_task_id p) = None" by (metis domIff)
  with assms(3) show ?thesis by (fastforce simp: ids_known_def number_task_def Let_def)
qed

text \<open>A future that does not let \<open>Get\<close> sleep has the outcome of its task.\<close>

lemma get_expected:
  assumes "pool_inv exec RQ RS p" and "\<not> stopping p" and "tasks p n = Some t"
    and "get_future (kind t) (futures p n) \<noteq> GetSleeps"
  shows "get_future (kind t) (futures p n) = expected exec (t, c)"
proof -
  have "futures p n = Some MakeState \<or> futures p n = Some (outcome (kind t) (result_of exec t) MakeState)"
    using assms(1-3) unfolding pool_inv_def futures_ok_def by blast
  moreover have "get_future (kind t) (Some MakeState) = GetSleeps"
    by (cases "kind t") (simp_all add: Get_def GetVoid_def Wait_def EnsureValid_def MakeState_def)
  ultimately show ?thesis using assms(4) by (auto simp: expected_def)
qed

section \<open>Every step keeps the invariant\<close>

lemma session_okD:
  assumes "session_ok exec prog s"
  shows "reached exec (spool s)" "\<not> stopping (spool s)" "length (clients (spool s)) = 1"
    "at_ok (spool s) (at s)" "submitted (spool s) \<le> length (concat prog)"
    "at s \<noteq> Escaped \<Longrightarrow> submitted (spool s) + not_submitted (at s) + length (concat (batches s)) = length (concat prog)"
    "at s \<noteq> Escaped \<Longrightarrow> \<exists>past. concat prog = past @ open_calls (at s) @ concat (batches s) \<and>
       got s = map (expected exec) past"
  using assms unfolding session_ok_def by (cases "at s = Escaped"; simp)+

lemma session_get:
  assumes ok: "session_ok exec prog s" and small: "exec_small exec" "length (concat prog) < 2 ^ 64"
    and "at s = Getting ((n, (t, c)) # ids)" and "get_future (kind t) (futures (spool s) n) \<noteq> GetSleeps"
  shows "\<exists>past. concat prog = past @ map snd ids @ concat (batches s) \<and>
    got s @ [get_future (kind t) (futures (spool s) n)] = map (expected exec) past"
proof -
  note d = session_okD [OF ok]
  have "submitted (spool s) < 2 ^ 64" using d(5) small(2) by simp
  with reached_inv [OF d(1) small(1)] obtain RQ RS where inv: "pool_inv exec RQ RS (spool s)" .
  have "tasks (spool s) n = Some t" using d(4) assms(4) by (simp add: ids_known_def)
  from get_expected [OF inv d(2) this assms(5), of c]
  have r: "get_future (kind t) (futures (spool s) n) = expected exec (t, c)" .
  from d(7) assms(4) obtain past where "concat prog = past @ (t, c) # map snd ids @ concat (batches s)"
    "got s = map (expected exec) past" by auto
  then show ?thesis using r by (intro exI [of _ "past @ [(t, c)]"]) simp
qed

lemma session_step_ok:
  assumes "session_step exec s s'" and ok: "session_ok exec prog s"
    and small: "exec_small exec" "length (concat prog) < 2 ^ 64"
  shows "session_ok exec prog s'"
  using assms(1)
proof (cases rule: session_step.cases)
  case (round_begins b bs)
  with ok show ?thesis by (auto simp: session_ok_def ids_known_def)
next
  case program_ends
  with ok show ?thesis by (auto simp: session_ok_def)
next
  case (submit_called t c cs ids)
  note d = session_okD [OF ok]
  have bound: "Suc (submitted (spool s)) < 2 ^ 64" using d(6) submit_called small(2) by simp
  then have "submitted (spool s) < 2 ^ 64" by simp
  with reached_inv [OF d(1) small(1)] obtain RQ RS where inv: "pool_inv exec RQ RS (spool s)" .
  have "pool_step exec (spool s) (number_task 0 t (spool s))"
    using submit_called by (intro submit_call) auto
  with d(1) have "reached exec (number_task 0 t (spool s))" by (rule reached_step)
  moreover have "ids_known (number_task 0 t (spool s)) ids"
    using number_task_known [OF inv bound] d(4) submit_called by simp
  moreover have "in_submit (number_task 0 t (spool s)) (next_task_id (spool s)) t"
    using d(3) by (simp add: in_submit_def number_task_def Let_def)
  moreover have "stopping (number_task 0 t (spool s)) = stopping (spool s)"
    "length (clients (number_task 0 t (spool s))) = length (clients (spool s))"
    by (simp_all add: number_task_def Let_def)
  ultimately show ?thesis using submit_called ok by (auto simp: session_ok_def)
next
  case (submit_returned n call cs ids)
  with ok show ?thesis by (auto simp: session_ok_def ids_known_def in_submit_def split: prod.splits)
next
  case (submit_threw n call cs ids)
  with ok show ?thesis by (auto simp: session_ok_def)
next
  case (round_submitted ids)
  with ok show ?thesis by (auto simp: session_ok_def)
next
  case (get_returned n t c ids r)
  from session_get [OF ok small get_returned(3)] get_returned have
    "\<exists>past. concat prog = past @ map snd ids @ concat (batches s) \<and> got s @ [r] = map (expected exec) past" by simp
  with get_returned ok show ?thesis by (simp add: session_ok_def ids_known_def)
next
  case (get_escaped n t c ids r)
  then have "r \<noteq> GetSleeps" by auto
  with session_get [OF ok small get_escaped(3)] get_escaped have
    "\<exists>past. concat prog = past @ map snd ids @ concat (batches s) \<and> got s @ [r] = map (expected exec) past" by simp
  with get_escaped session_okD(5) [OF ok] ok show ?thesis by (auto simp: session_ok_def)
next
  case (pool_moves p)
  note d = session_okD [OF ok]
  from reached_step [OF d(1) pool_moves(2)] at_ok_pool [OF pool_moves(2,3) d(3,4)]
    pool_frame(4) [OF pool_moves(2,3)] pool_moves ok show ?thesis
    by (auto simp: session_ok_def)
qed

text \<open>The pool of a program: one client thread.\<close>

lemma session_start_ok:
  assumes "ProcessPool k 1 = Inr p" and "k < 2 ^ 64"
  shows "session_ok exec prog (session_start p prog)"
proof -
  have "pool_init p" using assms by (auto simp: pool_init_def)
  then have "reached exec p" unfolding reached_def by blast
  then show ?thesis using assms(1)
    by (auto simp: session_ok_def session_start_def ids_known_def ProcessPool_def split: if_splits)
qed

interpretation session: invariant_system
  "\<lambda>s. \<exists>k p. ProcessPool k 1 = Inr p \<and> k < 2 ^ 64 \<and> s = session_start p prog"
  "\<lambda>s t. session_step exec s t \<and> exec_small exec \<and> length (concat prog) < 2 ^ 64"
  "session_ok exec prog" for exec prog
  by unfold_locales (auto intro: session_start_ok session_step_ok)

lemma session_reachable:
  assumes "ProcessPool k 1 = Inr p" and "k < 2 ^ 64" and "exec_small exec" and "length (concat prog) < 2 ^ 64"
    and "(session_step exec)\<^sup>*\<^sup>* (session_start p prog) s"
  shows "session_ok exec prog s"
proof -
  have "(\<lambda>s t. session_step exec s t \<and> exec_small exec \<and> length (concat prog) < 2 ^ 64) = session_step exec"
    using assms(3,4) by simp
  with session.reachable_good [of "session_start p prog" prog exec s] assms show ?thesis by auto
qed

section \<open>The program comes to its end\<close>

fun submit_left :: "client_pc \<Rightarrow> nat" where
  "submit_left (ClNumbered t n) = 6"
| "submit_left (ClRegistered t n) = 5"
| "submit_left (ClChosen t n w) = 4"
| "submit_left ClIdle = 3"

fun at_left :: "client_pc \<Rightarrow> session_at \<Rightarrow> nat" where
  "at_left p (Submitting cs ids) = 9 * length cs + length ids + 2"
| "at_left p (Inside n call cs ids) = 9 * length cs + length ids + 2 + submit_left p"
| "at_left p (Getting ids) = length ids + 1"
| "at_left p _ = 0"

definition session_left :: "session \<Rightarrow> nat" where
  "session_left s = at_left (clients (spool s) ! 0) (at s) + sum_list (map (\<lambda>b. 9 * length b + 3) (batches s))"

lemma pool_work_frame:
  assumes "pool_work exec p p'" and "pool_inv exec RQ RS p" and "\<not> stopping p"
  shows "submitted p' = submitted p" "\<not> stopping p'"
proof -
  from assms(1) have step: "pool_step exec p p'" and same: "clients p' = clients p" "shutdown p' = shutdown p"
    by (simp_all add: pool_work_def)
  have never: "shutdown p = ShNever" using assms(2,3) by (simp add: pool_inv_def phases_ok_def)
  show "submitted p' = submitted p"
    using step
  proof (cases rule: pool_step.cases)
    case (submit_call i t)
    have "clients p' ! i = ClNumbered t (next_task_id p)"
      using submit_call by (simp add: number_task_def Let_def)
    with submit_call same show ?thesis by simp
  qed simp_all
  show "\<not> stopping p'"
    using step never same(2) assms(3)
    by (cases rule: pool_step.cases) (auto simp: pool_ops split: sum.splits option.splits if_splits)
qed

lemma session_works:
  assumes "(pool_work exec)\<^sup>*\<^sup>* (spool s) p" and "reached exec (spool s)" and "exec_small exec"
    and "submitted (spool s) < 2 ^ 64" and "\<not> stopping (spool s)"
  shows "(session_step exec)\<^sup>*\<^sup>* s (s\<lparr>spool := p\<rparr>) \<and> reached exec p \<and>
    submitted p = submitted (spool s) \<and> \<not> stopping p"
  using assms(1)
proof (induction rule: rtranclp_induct)
  case base
  then show ?case using assms by simp
next
  case (step q r)
  from step.IH assms(4) have q: "reached exec q" "submitted q < 2 ^ 64" "\<not> stopping q" by simp_all
  from reached_inv [OF q(1) assms(3) q(2)] obtain RQ RS where "pool_inv exec RQ RS q" .
  note frame = pool_work_frame [OF step.hyps(2) this q(3)]
  have ps: "pool_step exec q r" using step.hyps(2) by (simp add: pool_work_def)
  have "session_step exec (s\<lparr>spool := q\<rparr>) (s\<lparr>spool := r\<rparr>)"
    using pool_moves [of exec "s\<lparr>spool := q\<rparr>" r] ps frame q(3) by simp
  with step.IH frame reached_step [OF q(1) ps] show ?case by (auto intro: rtranclp.rtrancl_into_rtrancl)
qed

text \<open>One step of the program's thread inside \<open>Submit\<close>.\<close>

lemma submit_advances:
  assumes ok: "session_ok exec prog s" and small: "exec_small exec" "length (concat prog) < 2 ^ 64"
    and "\<not> crashed (spool s)" and "at s = Inside n call cs ids"
  shows "\<exists>s'. session_step exec s s' \<and> session_left s' < session_left s \<and> \<not> crashed (spool s') \<and> at s' \<noteq> Escaped"
proof -
  note d = session_okD [OF ok]
  let ?p = "spool s"
  have bound: "submitted ?p < 2 ^ 64" using d(5) small(2) by simp
  have run: "running ?p" using d(2) assms(4) by (simp add: running_def)
  from reached_inv [OF d(1) small(1) bound] obtain RQ RS where inv: "pool_inv exec RQ RS ?p" .
  have alive: "\<not> killed ?p" by (rule running_not_killed [OF inv run])
  have client: "0 < length (clients ?p)" using d(3) by simp
  have pool: ?thesis if "pool_step exec ?p p" "submitted p = submitted ?p" "stopping p = stopping ?p"
    "submit_left (clients p ! 0) < submit_left (clients ?p ! 0)" "crashed p = crashed ?p" for p
    using pool_moves [OF that(1-3)] that(4,5) assms(4,5)
    by (intro exI [of _ "s\<lparr>spool := p\<rparr>"]) (simp add: session_left_def)
  show ?thesis
  proof (cases "clients ?p ! 0")
    case ClIdle
    obtain z where "pool_init z" "(pool_step exec)\<^sup>*\<^sup>* z ?p" using d(1) by (auto simp: reached_def)
    from pool_run_refused [OF this(2,1) small(1) bound run] have "refused ?p = []" .
    with d(4) assms(5) ClIdle have "n \<in> set (returned ?p)" by (simp add: in_submit_def)
    from submit_returned [OF alive assms(5) ClIdle this] assms(4,5) ClIdle show ?thesis
      by (intro exI [of _ "s\<lparr>at := Submitting cs (ids @ [(n, call)])\<rparr>"]) (simp add: session_left_def)
  next
    case (ClNumbered t m)
    show ?thesis
      by (rule pool [OF submit_register [OF alive client ClNumbered]])
        (use client ClNumbered in \<open>auto simp: pool_ops\<close>)
  next
    case (ClRegistered t m)
    show ?thesis
      by (rule pool [OF submit_choose [OF alive client ClRegistered]])
        (use client ClRegistered d(2) in \<open>auto simp: pool_ops\<close>)
  next
    case (ClChosen t m w)
    have w: "w < length (workers ?p)" using inv client ClChosen unfolding pool_inv_def clients_ok_def by fastforce
    note up = worker_quiet(1) [OF inv run w]
    with pool_inv_worker(3) [OF inv w] have "\<not> reaped (workers ?p ! w)" by auto
    with up show ?thesis
      by (intro pool [OF submit_deliver [OF alive client ClChosen, of exec "[]"]])
        (use client ClChosen alive in \<open>auto simp: pool_ops\<close>)
  qed
qed

text \<open>\<open>Get\<close> on a future that is not ready: the workers and readers make it ready.\<close>

lemma get_advances:
  assumes ok: "session_ok exec prog s" and small: "exec_small exec" "length (concat prog) < 2 ^ 64"
    and "\<not> crashed (spool s)" and "at s = Getting ((n, (t, c)) # ids)"
    and quiet: "\<not> threw_out (expected exec (t, c)) \<or> c"
  shows "\<exists>s'. (session_step exec)\<^sup>*\<^sup>* s s' \<and> session_left s' < session_left s \<and> \<not> crashed (spool s') \<and> at s' \<noteq> Escaped"
proof -
  note d = session_okD [OF ok]
  have bound: "submitted (spool s) < 2 ^ 64" using d(5) small(2) by simp
  have run: "running (spool s)" using d(2) assms(4) by (simp add: running_def)
  from reached_inv [OF d(1) small(1) bound] obtain RQ RS where inv: "pool_inv exec RQ RS (spool s)" .
  from pool_drain [OF inv small(1) run] obtain p RQ' RS' where p: "(pool_work exec)\<^sup>*\<^sup>* (spool s) p"
    "returned p = returned (spool s)" "running p" "idle exec p" "pool_inv exec RQ' RS' p" by blast
  from session_works [OF p(1) d(1) small(1) bound d(2)] have works: "(session_step exec)\<^sup>*\<^sup>* s (s\<lparr>spool := p\<rparr>)" by simp
  let ?s = "s\<lparr>spool := p\<rparr>"
  have ok': "session_ok exec prog ?s"
    using session.run_good [of exec prog s ?s] works ok small by simp
  have known: "tasks p n = Some t" "n \<in> set (returned p)"
    using session_okD(4) [OF ok'] assms(5) by (simp_all add: ids_known_def)
  from idle_answered [OF p(5) small(1) p(3,4) known(2)] known(1)
  have fut: "futures p n = Some (outcome (kind t) (result_of exec t) MakeState)" by (simp add: answered_def)
  let ?r = "get_future (kind t) (futures p n)"
  have r: "?r = expected exec (t, c)" by (simp add: expected_def fut)
  have "?r \<noteq> GetSleeps"
    by (cases "kind t") (auto simp: fut Get_def GetVoid_def Wait_def EnsureValid_def rethrow_or_def split: option.splits)
  then have "session_step exec ?s (?s\<lparr>at := Getting ids, got := got ?s @ [?r]\<rparr>)"
    using get_returned [of ?s n t c ids ?r exec] running_not_killed [OF p(5,3)] assms(5) quiet r by simp
  then have "(session_step exec)\<^sup>*\<^sup>* s (?s\<lparr>at := Getting ids, got := got ?s @ [?r]\<rparr>)" using works by simp
  moreover have "session_left (?s\<lparr>at := Getting ids, got := got ?s @ [?r]\<rparr>) < session_left s"
    using assms(5) by (simp add: session_left_def)
  moreover have "\<not> crashed (spool (?s\<lparr>at := Getting ids, got := got ?s @ [?r]\<rparr>)) \<and>
      at (?s\<lparr>at := Getting ids, got := got ?s @ [?r]\<rparr>) \<noteq> Escaped"
    using p(3) by (simp add: running_def)
  ultimately show ?thesis by blast
qed

lemma session_advances:
  assumes ok: "session_ok exec prog s" and small: "exec_small exec" "length (concat prog) < 2 ^ 64"
    and "\<not> crashed (spool s)" and "at s \<noteq> Ended" "at s \<noteq> Escaped"
    and calls: "\<forall>(t, c) \<in> set (concat prog). length (payload t) < 2 ^ 64 \<and> (threw_out (expected exec (t, c)) \<longrightarrow> c)"
  shows "\<exists>s'. (session_step exec)\<^sup>*\<^sup>* s s' \<and> session_left s' < session_left s \<and> \<not> crashed (spool s') \<and> at s' \<noteq> Escaped"
proof -
  note d = session_okD [OF ok]
  have bound: "submitted (spool s) < 2 ^ 64" using d(5) small(2) by simp
  from reached_inv [OF d(1) small(1) bound] obtain RQ RS where inv: "pool_inv exec RQ RS (spool s)" .
  have alive: "\<not> killed (spool s)" using running_not_killed [OF inv] d(2) assms(4) by (simp add: running_def)
  have step: ?thesis if "session_step exec s s'" "session_left s' < session_left s"
    "\<not> crashed (spool s')" "at s' \<noteq> Escaped" for s'
    using that by blast
  obtain past where "concat prog = past @ open_calls (at s) @ concat (batches s)" using d(7) assms(6) by blast
  then have here: "set (open_calls (at s)) \<subseteq> set (concat prog)" by (auto simp del: set_concat)
  show ?thesis
  proof (cases "at s")
    case (Submitting cs ids)
    show ?thesis
    proof (cases cs)
      case Nil
      with Submitting round_submitted [OF alive, of ids] assms(4) show ?thesis
        by (intro step [of "s\<lparr>at := Getting ids\<rparr>"]) (simp_all add: session_left_def)
    next
      case (Cons call cs')
      obtain t c where call: "call = (t, c)" by (cases call)
      then have "length (payload t) < 2 ^ 64" using here Submitting Cons calls by auto
      from submit_called [OF alive Submitting [unfolded Cons call] this] d(3,4) Submitting
      have "session_step exec s (s\<lparr>spool := number_task 0 t (spool s),
          at := Inside (next_task_id (spool s)) (t, c) cs' ids\<rparr>)" by simp
      then show ?thesis
        by (rule step) (use d(3) Submitting Cons assms(4) in \<open>auto simp: session_left_def number_task_def Let_def\<close>)
    qed
  next
    case (Inside n call cs ids)
    from submit_advances [OF ok small assms(4) this] show ?thesis by blast
  next
    case (Getting ids)
    show ?thesis
    proof (cases ids)
      case Nil
      show ?thesis
      proof (cases "batches s")
        case b: Nil
        show ?thesis
          by (rule step [OF program_ends [OF alive Getting [unfolded Nil] b]])
            (use Getting assms(4) in \<open>auto simp: session_left_def\<close>)
      next
        case (Cons b bs)
        show ?thesis
          by (rule step [OF round_begins [OF alive Getting [unfolded Nil] Cons]])
            (use Getting Cons assms(4) in \<open>auto simp: session_left_def\<close>)
      qed
    next
      case (Cons x ids')
      obtain n t c where x: "x = (n, (t, c))" by (cases x) auto
      then have "\<not> threw_out (expected exec (t, c)) \<or> c" using here Getting Cons calls by auto
      from get_advances [OF ok small assms(4) Getting [unfolded Cons x] this] show ?thesis .
    qed
  qed (use assms(5,6) in auto)
qed

lemma session_ends:
  assumes "session_ok exec prog s" and small: "exec_small exec" "length (concat prog) < 2 ^ 64"
    and "\<not> crashed (spool s)" and "at s \<noteq> Escaped"
    and calls: "\<forall>(t, c) \<in> set (concat prog). length (payload t) < 2 ^ 64 \<and> (threw_out (expected exec (t, c)) \<longrightarrow> c)"
  shows "\<exists>s'. (session_step exec)\<^sup>*\<^sup>* s s' \<and> at s' = Ended \<and> got s' = map (expected exec) (concat prog)"
  using assms(1,4,5)
proof (induction "session_left s" arbitrary: s rule: less_induct)
  case less
  show ?case
  proof (cases "at s = Ended")
    case True
    with less.prems(1) show ?thesis by (intro exI [of _ s]) (auto simp: session_ok_def)
  next
    case False
    from session_advances [OF less.prems(1) small less.prems(2) False less.prems(3) calls] obtain s1 where
      s1: "(session_step exec)\<^sup>*\<^sup>* s s1" "session_left s1 < session_left s" "\<not> crashed (spool s1)" "at s1 \<noteq> Escaped"
      by blast
    have ok1: "session_ok exec prog s1"
      using session.run_good [of exec prog s s1] s1(1) less.prems(1) small by simp
    from less.hyps [OF s1(2) ok1 s1(3,4)] s1(1) show ?thesis by (meson rtranclp_trans)
  qed
qed

section \<open>No exception leaves the program\<close>

definition calls_ok :: "executors \<Rightarrow> call list list \<Rightarrow> bool" where
  "calls_ok exec prog \<longleftrightarrow> length (concat prog) < 2 ^ 64 \<and>
     (\<forall>(t, c) \<in> set (concat prog). length (payload t) < 2 ^ 64 \<and> (threw_out (expected exec (t, c)) \<longrightarrow> c))"

lemma crashed_stays: "pool_step exec p p' \<Longrightarrow> crashed p \<Longrightarrow> crashed p'"
  by (cases rule: pool_step.cases) (auto simp: pool_ops split: sum.splits option.splits if_splits)

lemma session_crashed: "session_step exec s s' \<Longrightarrow> crashed (spool s) \<Longrightarrow> crashed (spool s')"
  by (cases rule: session_step.cases) (auto simp: number_task_def Let_def dest: crashed_stays)

lemma session_step_escape:
  assumes "session_step exec s s'" and ok: "session_ok exec prog s" and small: "exec_small exec"
    and "calls_ok exec prog" and "\<not> crashed (spool s')" and "at s \<noteq> Escaped"
  shows "at s' \<noteq> Escaped"
  using assms(1)
proof (cases rule: session_step.cases)
  case (submit_threw n call cs ids)
  note d = session_okD [OF ok]
  obtain z where z: "pool_init z" "(pool_step exec)\<^sup>*\<^sup>* z (spool s)" using d(1) by (auto simp: reached_def)
  have "submitted (spool s) < 2 ^ 64" "running (spool s)"
    using d(2,5) assms(4,5) submit_threw by (simp_all add: calls_ok_def running_def)
  from pool_run_refused [OF z(2,1) small this] submit_threw show ?thesis by simp
next
  case (get_escaped n t c ids r)
  note d = session_okD [OF ok]
  have len: "length (concat prog) < 2 ^ 64" using assms(4) by (simp add: calls_ok_def)
  then have "submitted (spool s) < 2 ^ 64" using d(5) by simp
  with reached_inv [OF d(1) small] obtain RQ RS where inv: "pool_inv exec RQ RS (spool s)" .
  have "tasks (spool s) n = Some t" using d(4) get_escaped(3) by (simp add: ids_known_def)
  from get_expected [OF inv d(2) this] get_escaped have "threw_out (expected exec (t, c))" by force
  moreover obtain past where "concat prog = past @ open_calls (at s) @ concat (batches s)"
    using d(7) assms(6) by blast
  then have "(t, c) \<in> set (concat prog)" using get_escaped(3) by (simp del: set_concat)
  ultimately have c using assms(4) by (auto simp: calls_ok_def simp del: set_concat)
  with get_escaped show ?thesis by simp
qed (use assms(6) in simp_all)

lemma session_not_escaped:
  assumes "(session_step exec)\<^sup>*\<^sup>* s s'" and "session_ok exec prog s" and small: "exec_small exec"
    and calls: "calls_ok exec prog" and "\<not> crashed (spool s')" and "at s \<noteq> Escaped"
  shows "at s' \<noteq> Escaped"
  using assms(1,5)
proof (induction rule: rtranclp_induct)
  case base
  show ?case by (rule assms(6))
next
  case (step u v)
  have "session_ok exec prog u"
    using session.run_good [of exec prog s u] step.hyps(1) assms(2,3) calls by (simp add: calls_ok_def)
  moreover have "\<not> crashed (spool u)" using session_crashed [OF step.hyps(2)] step.prems by blast
  ultimately show ?case
    using session_step_escape [OF step.hyps(2) _ small calls step.prems] step.IH by blast
qed

lemma session_results:
  assumes "ProcessPool process_count 1 = Inr p" and "process_count < 2 ^ 64" and "exec_small exec"
    and "calls_ok exec prog" and "(session_step exec)\<^sup>*\<^sup>* (session_start p prog) s"
  shows "(\<exists>rest. got s @ rest = map (expected exec) (concat prog)) \<and>
    (at s = Ended \<longrightarrow> got s = map (expected exec) (concat prog)) \<and>
    (\<not> crashed (spool s) \<longrightarrow> at s \<noteq> Escaped \<and>
      (\<exists>s'. (session_step exec)\<^sup>*\<^sup>* s s' \<and> at s' = Ended \<and> got s' = map (expected exec) (concat prog)))"
proof -
  have len: "length (concat prog) < 2 ^ 64" using assms(4) by (simp add: calls_ok_def)
  have ok0: "session_ok exec prog (session_start p prog)" by (rule session_start_ok [OF assms(1,2)])
  have ok: "session_ok exec prog s" by (rule session_reachable [OF assms(1-3) len assms(5)])
  then have "\<exists>rest. got s @ rest = map (expected exec) (concat prog)"
    unfolding session_ok_def by (metis map_append)
  moreover have "at s = Ended \<longrightarrow> got s = map (expected exec) (concat prog)"
    using ok by (auto simp: session_ok_def)
  moreover have "at s \<noteq> Escaped" if "\<not> crashed (spool s)"
    using session_not_escaped [OF assms(5) ok0 assms(3,4) that] by (simp add: session_start_def)
  ultimately show ?thesis
    using session_ends [OF ok assms(3) len] assms(4) by (auto simp: calls_ok_def)
qed

section \<open>Property\<close>

text \<open>A small program: one round of two equal calls, and an executor that always leaves the byte 7.\<close>

definition seven :: executors where
  "seven a data = ([7], [])"

definition two_calls :: "call list list" where
  "two_calls = (let c = (\<lparr>kind = PendingValue 1, exec_addr = 1, payload = []\<rparr>, False) in [[c, c]])"

lemma two_calls_ok: "exec_small seven \<and> calls_ok seven two_calls"
  by (simp add: exec_small_def seven_def calls_ok_def two_calls_def Let_def expected_def result_of_def
      outcome_def Get_def Wait_def EnsureValid_def rethrow_or_def MakeState_def)

lemma two_calls_expected: "map (expected seven) (concat two_calls) = [GetReturned [7], GetReturned [7]]"
  by (simp add: seven_def two_calls_def Let_def expected_def result_of_def
      outcome_def Get_def Wait_def EnsureValid_def rethrow_or_def MakeState_def)

text \<open>Any program that makes a pool and round after round submits tasks and gets their results
  gets, call by call and in order, what each function returns or throws when it is called
  locally: after every step the results so far are a prefix of the list of these, whatever
  crashes; and as long as no worker has crashed, no exception has left the program (each throwing
  call is inside a \<open>try\<close> block) and the program can be brought to its end.\<close>
theorem pool_program_results:
  assumes "ProcessPool process_count 1 = Inr p" and "process_count < 2 ^ 64" and "exec_small exec"
    and "calls_ok exec prog" and "(session_step exec)\<^sup>*\<^sup>* (session_start p prog) s"
  shows "(\<exists>rest. got s @ rest = map (expected exec) (concat prog)) \<and>
    (at s = Ended \<longrightarrow> got s = map (expected exec) (concat prog)) \<and>
    (\<not> crashed (spool s) \<longrightarrow> at s \<noteq> Escaped \<and>
      (\<exists>s'. (session_step exec)\<^sup>*\<^sup>* s s' \<and> at s' = Ended \<and> got s' = map (expected exec) (concat prog)))"
  by (rule session_results [OF assms])

theorem pool_program_results_witness:
  "\<exists>p s. ProcessPool 3 1 = Inr p \<and> (session_step seven)\<^sup>*\<^sup>* (session_start p two_calls) s \<and> at s = Ended \<and>
    got s = [GetReturned [7], GetReturned [7]]"
proof -
  obtain p where p: "ProcessPool 3 1 = Inr p" by (simp add: ProcessPool_def)
  then have "\<not> crashed (spool (session_start p two_calls))" by (auto simp: session_start_def ProcessPool_def)
  with pool_program_results [OF p _ two_calls_ok [THEN conjunct1] two_calls_ok [THEN conjunct2] rtranclp.rtrancl_refl]
    two_calls_expected p show ?thesis by auto
qed

end
