(* ===== verification/Pool_Main.thy ===== *)
theory Pool_Main
  imports Pool_Client
begin

text \<open>
  The programs around the process pool: the task functions of \<^verbatim>\<open>hw-6/main.cpp\<close> and
  \<^verbatim>\<open>hw-6/benchmark.cpp\<close>, the calls that submit them, what \<open>main\<close> prints and the rounds of the
  benchmarks.
\<close>

section \<open>The task functions\<close>

text \<open>\<open>int\<close> and \<open>int64_t\<close>: a signed overflow is undefined, which is \<open>None\<close>.\<close>

definition in_int :: "int \<Rightarrow> bool" where
  "in_int x \<longleftrightarrow> - (2 ^ 31) \<le> x \<and> x < 2 ^ 31"

definition in_int64 :: "int \<Rightarrow> bool" where
  "in_int64 x \<longleftrightarrow> - (2 ^ 63) \<le> x \<and> x < 2 ^ 63"

definition Square :: "int \<Rightarrow> int option" where
  "Square value = (if in_int (value * value) then Some (value * value) else None)"

definition Add :: "int \<Rightarrow> int \<Rightarrow> int option" where
  "Add a b = (if in_int (a + b) then Some (a + b) else None)"

text \<open>The loop of \<open>SumRange\<close>: \<open>for (i = from; i <= to; ++i) sum += i\<close>.\<close>

function sum_loop :: "int \<Rightarrow> int \<Rightarrow> int \<Rightarrow> int option" where
  "sum_loop i to acc =
     (if i \<le> to
      then (if in_int64 (acc + i) \<and> in_int (i + 1) then sum_loop (i + 1) to (acc + i) else None)
      else Some acc)"
  by auto
termination by (relation "measure (\<lambda>(i, to, acc). nat (to + 1 - i))") auto

declare sum_loop.simps [simp del]

definition SumRange :: "int \<Rightarrow> int \<Rightarrow> int option" where
  "SumRange from_i to = sum_loop from_i to 0"

definition ValidatePositive :: "int \<Rightarrow> thrown + unit" where
  "ValidatePositive value =
     (if value < 0 then Inl (StdException (bytes_of ''value must be non-negative'')) else Inr ())"

text \<open>
  The loop computes the sum, for every upper end but the largest \<open>int\<close>, where the increment
  overflows.
\<close>

lemma sum_loop_value:
  assumes "- (2 ^ 31) \<le> lo" and "lo \<le> i" and "i \<le> to + 1" and "to < 2 ^ 31 - 1"
    and "2 * acc = i * (i - 1) - lo * (lo - 1)"
  shows "\<exists>r. sum_loop i to acc = Some r \<and> 2 * r = to * (to + 1) - lo * (lo - 1)"
  using assms
proof (induction "nat (to + 1 - i)" arbitrary: i acc rule: less_induct)
  case less
  show ?case
  proof (cases "i \<le> to")
    case True
    have next_sum: "2 * (acc + i) = (i + 1) * i - lo * (lo - 1)"
      using less.prems(5) by (simp add: algebra_simps)
    have "\<bar>(i + 1) * i\<bar> \<le> 2 ^ 31 * 2 ^ 31"
      unfolding abs_mult using less.prems True by (intro mult_mono) auto
    moreover have "\<bar>lo * (lo - 1)\<bar> \<le> (2 ^ 31) * (2 ^ 31 + 1)"
      unfolding abs_mult using less.prems True by (intro mult_mono) auto
    ultimately have "in_int64 (acc + i)" using next_sum by (simp add: in_int64_def abs_le_iff)
    moreover have "in_int (i + 1)" using less.prems True by (simp add: in_int_def)
    ultimately have "sum_loop i to acc = sum_loop (i + 1) to (acc + i)"
      using True by (simp add: sum_loop.simps [of i])
    with less.hyps [of "i + 1" "acc + i"] less.prems True next_sum show ?thesis
      by (simp add: algebra_simps)
  next
    case False
    with less.prems have "i = to + 1" by simp
    moreover have "sum_loop i to acc = Some acc" using False by (simp add: sum_loop.simps [of i])
    ultimately show ?thesis using less.prems(5) by (simp add: algebra_simps)
  qed
qed

lemma SumRange_value:
  assumes "- (2 ^ 31) \<le> from_i" and "from_i \<le> to" and "to < 2 ^ 31 - 1"
  shows "SumRange from_i to = Some ((from_i + to) * (to - from_i + 1) div 2)"
proof -
  from sum_loop_value [of from_i from_i to 0] assms obtain r where
    r: "SumRange from_i to = Some r" "2 * r = to * (to + 1) - from_i * (from_i - 1)"
    by (auto simp: SumRange_def)
  then have "(from_i + to) * (to - from_i + 1) = 2 * r" by (simp add: algebra_simps)
  with r(1) show ?thesis by simp
qed

lemma SumRange_overflows:
  assumes "in_int i"
  shows "sum_loop i (2 ^ 31 - 1) acc = None"
  using assms
proof (induction "nat (2 ^ 31 - i)" arbitrary: i acc rule: less_induct)
  case less
  then show ?case
    by (cases "in_int64 (acc + i) \<and> in_int (i + 1)")
      (simp_all add: sum_loop.simps [of i] in_int_def)
qed

section \<open>The calls\<close>

text \<open>
  The addresses of the functions and of the instances of \<open>ExecuteTyped\<close> they are submitted with
  (\<open>Square\<close> is the only function of one \<open>int\<close> that returns an \<open>int\<close>, and so on). Different
  functions have different addresses. \<open>undef\<close> is what a call with undefined behaviour does, and
  \<open>other\<close> what is at any other address; no call of the programs depends on them.
\<close>

record addresses =
  fn_square :: u64
  fn_add :: u64
  fn_sum :: u64
  fn_validate :: u64
  ex_square :: u64
  ex_add :: u64
  ex_sum :: u64
  ex_validate :: u64

definition addresses_ok :: "addresses \<Rightarrow> bool" where
  "addresses_ok A \<longleftrightarrow> distinct [fn_square A, fn_add A, fn_sum A, fn_validate A] \<and>
     distinct [ex_square A, ex_add A, ex_sum A, ex_validate A]"

definition int_bytes :: "int \<Rightarrow> u8 list" where
  "int_bytes x = le_bytes 4 (word_of_int x :: u32)"

definition bytes_int :: "u8 list \<Rightarrow> int" where
  "bytes_int bs = sint (le_word bs :: u32)"

definition int64_bytes :: "int \<Rightarrow> u8 list" where
  "int64_bytes x = le_bytes 8 (word_of_int x :: u64)"

definition bytes_int64 :: "u8 list \<Rightarrow> int" where
  "bytes_int64 bs = sint (le_word bs :: u64)"

definition task_call ::
  "addresses \<Rightarrow> (thrown + u8 list) \<Rightarrow> u64 \<Rightarrow> u8 list list \<Rightarrow> thrown + u8 list" where
  "task_call A undef fn args =
     (let returns = (\<lambda>enc r. case r of Some v \<Rightarrow> Inr (enc v) | None \<Rightarrow> undef) in
      if fn = fn_square A then returns int_bytes (Square (bytes_int (args ! 0)))
      else if fn = fn_add A then returns int_bytes (Add (bytes_int (args ! 0)) (bytes_int (args ! 1)))
      else if fn = fn_sum A then returns int64_bytes (SumRange (bytes_int (args ! 0)) (bytes_int (args ! 1)))
      else if fn = fn_validate A
        then (case ValidatePositive (bytes_int (args ! 0)) of Inl e \<Rightarrow> Inl e | Inr _ \<Rightarrow> Inr [])
      else undef)"

definition task_exec :: "addresses \<Rightarrow> (thrown + u8 list) \<Rightarrow> executors \<Rightarrow> executors" where
  "task_exec A undef other a data =
     (if a = ex_square A then ExecuteTyped [4] False (task_call A undef) data
      else if a = ex_add A then ExecuteTyped [4, 4] False (task_call A undef) data
      else if a = ex_sum A then ExecuteTyped [4, 4] False (task_call A undef) data
      else if a = ex_validate A then ExecuteTyped [4] True (task_call A undef) data
      else other a data)"

text \<open>\<open>pool.Submit(&Square, value)\<close> and the others.\<close>

definition square_task :: "addresses \<Rightarrow> int \<Rightarrow> task" where
  "square_task A value =
     \<lparr>kind = PendingValue 4, exec_addr = ex_square A, payload = submit_payload (fn_square A) [int_bytes value]\<rparr>"

definition add_task :: "addresses \<Rightarrow> int \<Rightarrow> int \<Rightarrow> task" where
  "add_task A a b =
     \<lparr>kind = PendingValue 4, exec_addr = ex_add A, payload = submit_payload (fn_add A) [int_bytes a, int_bytes b]\<rparr>"

definition sum_task :: "addresses \<Rightarrow> int \<Rightarrow> int \<Rightarrow> task" where
  "sum_task A from_i to =
     \<lparr>kind = PendingValue 8, exec_addr = ex_sum A, payload = submit_payload (fn_sum A) [int_bytes from_i, int_bytes to]\<rparr>"

definition validate_task :: "addresses \<Rightarrow> int \<Rightarrow> task" where
  "validate_task A value =
     \<lparr>kind = PendingVoid, exec_addr = ex_validate A, payload = submit_payload (fn_validate A) [int_bytes value]\<rparr>"

section \<open>The programs\<close>

text \<open>\<open>main\<close>: four submissions, four results, of which the last is taken in a \<open>try\<close> block.\<close>

definition main_prog :: "addresses \<Rightarrow> call list list" where
  "main_prog A = [[(square_task A 12, False), (sum_task A 1 1000000, False),
     (validate_task A 42, False), (validate_task A (-1), True)]]"

text \<open>What \<open>main\<close> prints after its \<open>k\<close>-th \<open>Get\<close> (without the line end).\<close>

definition main_line :: "nat \<Rightarrow> get_result \<Rightarrow> string list" where
  "main_line k r =
     (case r of
        GetReturned v \<Rightarrow>
          (if k = 0 then [''Square(12) = '' @ show_int (bytes_int v)]
           else if k = 1 then [''SumRange(1, 1'' @ [CHR 0x27] @ ''000'' @ [CHR 0x27] @ ''000) = '' @ show_int (bytes_int64 v)]
           else if k = 2 then [''ValidatePositive(42) completed successfully'']
           else [])
      | GetThrew e \<Rightarrow> (if k = 3 then [''Task failed as expected: '' @ chars_of (error_text e)] else [])
      | _ \<Rightarrow> [])"

definition main_out :: "get_result list \<Rightarrow> string list" where
  "main_out rs = concat (map (\<lambda>k. main_line k (rs ! k)) [0..<length rs])"

text \<open>The rounds of the three benchmarks.\<close>

definition BM_SubmitGet_Square :: "addresses \<Rightarrow> nat \<Rightarrow> call list list" where
  "BM_SubmitGet_Square A iterations = replicate iterations [(square_task A 123, False)]"

definition BM_BatchSubmitGet_Add :: "addresses \<Rightarrow> nat \<Rightarrow> nat \<Rightarrow> call list list" where
  "BM_BatchSubmitGet_Add A task_count iterations =
     replicate iterations (map (\<lambda>i. (add_task A (int i) (int i + 1), False)) [0..<task_count])"

definition BM_SubmitGet_SumRange :: "addresses \<Rightarrow> int \<Rightarrow> nat \<Rightarrow> call list list" where
  "BM_SubmitGet_SumRange A upper iterations = replicate iterations [(sum_task A 1 upper, False)]"

section \<open>The result of each call\<close>

lemma int_bytes_back: "in_int x \<Longrightarrow> bytes_int (int_bytes x) = x"
  by (simp add: bytes_int_def int_bytes_def le_word_le_bytes take_bit_word_id in_int_def sint_sbintrunc' signed_take_bit_int_eq_self)

lemma int64_bytes_back: "in_int64 x \<Longrightarrow> bytes_int64 (int64_bytes x) = x"
  by (simp add: bytes_int64_def int64_bytes_def le_word_le_bytes take_bit_word_id in_int64_def sint_sbintrunc' signed_take_bit_int_eq_self)

lemma length_int_bytes [simp]: "length (int_bytes x) = 4" "length (int64_bytes x) = 8"
  by (simp_all add: int_bytes_def int64_bytes_def)

text \<open>A task runs its function on its arguments.\<close>

lemma executed:
  assumes "map length args = sizes"
  shows "ExecuteTyped sizes is_void call (submit_payload fn args) =
     (case call fn args of
        Inl (StdException text) \<Rightarrow> ([], text)
      | Inl OtherThrown \<Rightarrow> ([], bytes_of ''unknown exception'')
      | Inr result \<Rightarrow> (if is_void then [] else result, []))"
  using ExecuteTyped_submitted [of args] assms by simp

lemmas got_simps = expected_def result_of_def outcome_def Get_def GetVoid_def Wait_def EnsureValid_def rethrow_or_def
  MakeState_def SetException_def

lemma expected_square:
  assumes "addresses_ok A" and "in_int v" and "in_int (v * v)"
  shows "expected (task_exec A undef other) (square_task A v, c) = GetReturned (int_bytes (v * v))"
  using assms by (simp add: got_simps square_task_def task_exec_def executed task_call_def int_bytes_back Square_def)

lemma expected_add:
  assumes "addresses_ok A" and "in_int a" and "in_int b" and "in_int (a + b)"
  shows "expected (task_exec A undef other) (add_task A a b, c) = GetReturned (int_bytes (a + b))"
  using assms
  by (auto simp: got_simps add_task_def task_exec_def executed task_call_def int_bytes_back Add_def addresses_ok_def)

lemma expected_sum:
  assumes "addresses_ok A" and "- (2 ^ 31) \<le> lo" and "lo \<le> hi" and "hi < 2 ^ 31 - 1"
  shows "expected (task_exec A undef other) (sum_task A lo hi, c) =
    GetReturned (int64_bytes ((lo + hi) * (hi - lo + 1) div 2))"
proof -
  have "in_int lo" "in_int hi" using assms(2-) by (simp_all add: in_int_def)
  with assms(1) SumRange_value [OF assms(2-)] show ?thesis
    by (auto simp: got_simps sum_task_def task_exec_def executed task_call_def int_bytes_back addresses_ok_def)
qed

lemma expected_validate:
  assumes "addresses_ok A" and "in_int v"
  shows "expected (task_exec A undef other) (validate_task A v, c) =
    (if v < 0 then GetThrew (RuntimeError (bytes_of ''value must be non-negative'')) else GetReturned [])"
  using assms
  by (auto simp: got_simps validate_task_def task_exec_def executed task_call_def int_bytes_back addresses_ok_def
      ValidatePositive_def bytes_of_def)

text \<open>The results of the executors fit into memory, when those of \<open>undef\<close> and \<open>other\<close> do.\<close>

definition small_call :: "thrown + u8 list \<Rightarrow> bool" where
  "small_call r \<longleftrightarrow>
     (case r of Inl (StdException text) \<Rightarrow> length text < 2 ^ 64 | Inl OtherThrown \<Rightarrow> True | Inr v \<Rightarrow> length v < 2 ^ 64)"

lemma task_call_small: "small_call undef \<Longrightarrow> small_call (task_call A undef fn args)"
  by (auto simp: task_call_def small_call_def Let_def ValidatePositive_def bytes_of_def split: option.splits)

lemma read_args_error:
  "read_args sizes data offset = Inl e \<Longrightarrow> error_text e = bytes_of ''invalid serialized payload''"
  by (induction sizes data offset rule: read_args.induct)
    (auto simp: ReadValue_def split: if_splits sum.splits)

lemma ExecuteTyped_small:
  assumes "\<And>fn args. small_call (call fn args)"
  shows "length (fst (ExecuteTyped sizes is_void call data)) < 2 ^ 64 \<and>
    length (snd (ExecuteTyped sizes is_void call data)) < 2 ^ 64"
proof -
  have texts: "length (bytes_of ''invalid serialized payload'') < 2 ^ 64"
    "length (bytes_of ''payload has unexpected tail bytes'') < 2 ^ 64"
    "length (bytes_of ''unknown exception'') < 2 ^ 64" by (simp_all add: bytes_of_def)
  show ?thesis
  proof (cases "ReadValue 8 data 0")
    case (Inl e)
    then have "error_text e = bytes_of ''invalid serialized payload''" by (auto simp: ReadValue_def split: if_splits)
    with Inl texts show ?thesis by (simp add: ExecuteTyped_def)
  next
    case fn: (Inr a)
    obtain f offset where a: "a = (f, offset)" by (cases a)
    show ?thesis
    proof (cases "read_args sizes data offset")
      case (Inl e)
      with read_args_error [OF Inl] fn a texts show ?thesis by (simp add: ExecuteTyped_def)
    next
      case (Inr b)
      with fn a texts assms [of "le_word f" "fst b"] show ?thesis
        by (auto simp: ExecuteTyped_def small_call_def split: prod.splits sum.splits thrown.splits)
    qed
  qed
qed

lemma task_exec_small:
  assumes "small_call undef" and "exec_small other"
  shows "exec_small (task_exec A undef other)"
  using ExecuteTyped_small [of "task_call A undef"] task_call_small [OF assms(1)] assms(2)
  by (auto simp: exec_small_def task_exec_def)

lemma payload_small:
  "length (payload (square_task A v)) < 2 ^ 64" "length (payload (add_task A a b)) < 2 ^ 64"
  "length (payload (sum_task A lo hi)) < 2 ^ 64" "length (payload (validate_task A v)) < 2 ^ 64"
  by (simp_all add: square_task_def add_task_def sum_task_def validate_task_def submit_payload_eq)

section \<open>Properties\<close>

definition main_lines :: "string list" where
  "main_lines = [''Square(12) = 144'',
     ''SumRange(1, 1'' @ [CHR 0x27] @ ''000'' @ [CHR 0x27] @ ''000) = 500000500000'',
     ''ValidatePositive(42) completed successfully'',
     ''Task failed as expected: value must be non-negative'']"

lemma main_results:
  assumes "addresses_ok A"
  shows "map (expected (task_exec A undef other)) (concat (main_prog A)) =
    [GetReturned (int_bytes 144), GetReturned (int64_bytes 500000500000), GetReturned [],
     GetThrew (RuntimeError (bytes_of ''value must be non-negative''))]"
  using assms by (simp add: main_prog_def expected_square expected_sum expected_validate in_int_def)

lemma main_results_printed:
  assumes "addresses_ok A"
  shows "main_out (map (expected (task_exec A undef other)) (concat (main_prog A))) = main_lines"
proof -
  have "bytes_int (int_bytes 144) = 144" by (rule int_bytes_back) (simp add: in_int_def)
  moreover have "bytes_int64 (int64_bytes 500000500000) = 500000500000"
    by (rule int64_bytes_back) (simp add: in_int64_def)
  ultimately show ?thesis
    by (simp add: main_results [OF assms] main_out_def main_line_def main_lines_def show_int_def digits.simps
        chars_of_def bytes_of_def upt_rec char_of_eq_iff)
qed

lemma main_calls_ok:
  assumes "addresses_ok A"
  shows "calls_ok (task_exec A undef other) (main_prog A)"
  using assms payload_small
  by (simp add: calls_ok_def main_prog_def expected_square expected_sum expected_validate in_int_def)

text \<open>Concrete addresses, for the witnesses; nothing else is at any address.\<close>

definition some_addresses :: addresses where
  "some_addresses = \<lparr>fn_square = 1, fn_add = 2, fn_sum = 3, fn_validate = 4,
     ex_square = 5, ex_add = 6, ex_sum = 7, ex_validate = 8\<rparr>"

lemma some_addresses_ok: "addresses_ok some_addresses"
  by (simp add: addresses_ok_def some_addresses_def)

lemma nothing_small: "small_call (Inl OtherThrown)" "exec_small (\<lambda>a data. ([], []))"
  by (simp_all add: small_call_def exec_small_def)

lemma fresh_session:
  assumes "ProcessPool k n = Inr p"
  shows "\<not> crashed (spool (session_start p prog))"
  using assms by (auto simp: session_start_def ProcessPool_def split: if_splits)

text \<open>C21: The program of \<^verbatim>\<open>main.cpp\<close>: as long as no worker crashes it can always be brought to its
  end, no exception leaves \<open>main\<close>, and when it ends it has printed its four lines: the square
  144, the sum 500000500000, the success of the third task and the message of the exception the
  fourth task has thrown in its process.\<close>
theorem main_prints:
  assumes "addresses_ok A" and "small_call undef" and "exec_small other" and "ProcessPool 4 1 = Inr p"
    and "(session_step (task_exec A undef other))\<^sup>*\<^sup>* (session_start p (main_prog A)) s"
  shows "(at s = Ended \<longrightarrow> main_out (got s) = main_lines) \<and>
    (\<not> crashed (spool s) \<longrightarrow> at s \<noteq> Escaped \<and>
      (\<exists>s'. (session_step (task_exec A undef other))\<^sup>*\<^sup>* s s' \<and> at s' = Ended \<and> main_out (got s') = main_lines))"
  using session_results [OF assms(4) _ task_exec_small [OF assms(2,3)] main_calls_ok [OF assms(1)] assms(5)]
    main_results_printed [OF assms(1)]
  by auto

theorem main_prints_witness:
  "\<exists>p s. ProcessPool 4 1 = Inr p \<and>
    (session_step (task_exec some_addresses (Inl OtherThrown) (\<lambda>a data. ([], []))))\<^sup>*\<^sup>*
      (session_start p (main_prog some_addresses)) s \<and> at s = Ended \<and> main_out (got s) = main_lines"
proof -
  obtain p where p: "ProcessPool 4 1 = Inr p" by (simp add: ProcessPool_def)
  from main_prints [OF some_addresses_ok nothing_small p rtranclp.rtrancl_refl] fresh_session [OF p] p
  show ?thesis by blast
qed

lemma bench_results:
  assumes "addresses_ok A"
  shows "map (expected (task_exec A undef other)) (concat (BM_SubmitGet_Square A n)) =
      replicate n (GetReturned (int_bytes 15129))"
    and "task_count \<le> 2 ^ 30 \<Longrightarrow> map (expected (task_exec A undef other)) (concat (BM_BatchSubmitGet_Add A task_count n)) =
      concat (replicate n (map (\<lambda>i. GetReturned (int_bytes (2 * int i + 1))) [0..<task_count]))"
    and "1 \<le> upper \<Longrightarrow> upper < 2 ^ 31 - 1 \<Longrightarrow>
      map (expected (task_exec A undef other)) (concat (BM_SubmitGet_SumRange A upper n)) =
      replicate n (GetReturned (int64_bytes (upper * (upper + 1) div 2)))"
proof -
  have cat: "map f (concat (replicate n xs)) = concat (replicate n (map f xs))" for f :: "call \<Rightarrow> get_result" and xs
    by (simp add: map_concat)
  have one: "concat (replicate n [x]) = replicate n x" for x :: get_result by (induction n) auto
  show "map (expected (task_exec A undef other)) (concat (BM_SubmitGet_Square A n)) =
      replicate n (GetReturned (int_bytes 15129))"
    using assms by (simp add: BM_SubmitGet_Square_def cat one expected_square in_int_def)
  show "map (expected (task_exec A undef other)) (concat (BM_BatchSubmitGet_Add A task_count n)) =
      concat (replicate n (map (\<lambda>i. GetReturned (int_bytes (2 * int i + 1))) [0..<task_count]))"
    if "task_count \<le> 2 ^ 30"
  proof -
    have "expected (task_exec A undef other) (add_task A (int i) (int i + 1), False)
        = GetReturned (int_bytes (2 * int i + 1))" if "i < task_count" for i
      using expected_add [OF assms, of "int i" "int i + 1"] that \<open>task_count \<le> 2 ^ 30\<close> by (simp add: in_int_def)
    then have "map (\<lambda>i. expected (task_exec A undef other) (add_task A (int i) (int i + 1), False)) [0..<task_count]
        = map (\<lambda>i. GetReturned (int_bytes (2 * int i + 1))) [0..<task_count]"
      by (intro map_cong) simp_all
    then show ?thesis unfolding BM_BatchSubmitGet_Add_def cat map_map o_def by (simp only:)
  qed
  show "map (expected (task_exec A undef other)) (concat (BM_SubmitGet_SumRange A upper n)) =
      replicate n (GetReturned (int64_bytes (upper * (upper + 1) div 2)))" if "1 \<le> upper" "upper < 2 ^ 31 - 1"
    using assms that by (simp add: BM_SubmitGet_SumRange_def cat one expected_sum algebra_simps)
qed

lemma bench_calls_ok:
  assumes "addresses_ok A" and "n * task_count < 2 ^ 64" and "n < 2 ^ 64" and "task_count \<le> 2 ^ 30"
    and "1 \<le> upper" and "upper < 2 ^ 31 - 1"
  shows "calls_ok (task_exec A undef other) (BM_SubmitGet_Square A n)"
    and "calls_ok (task_exec A undef other) (BM_BatchSubmitGet_Add A task_count n)"
    and "calls_ok (task_exec A undef other) (BM_SubmitGet_SumRange A upper n)"
proof -
  have len: "length (concat (replicate n xs)) = n * length xs" for xs :: "call list"
    by (induction n) auto
  show "calls_ok (task_exec A undef other) (BM_SubmitGet_Square A n)"
    using assms payload_small by (auto simp: calls_ok_def BM_SubmitGet_Square_def len expected_square in_int_def)
  show "calls_ok (task_exec A undef other) (BM_BatchSubmitGet_Add A task_count n)"
    using assms payload_small by (auto simp: calls_ok_def BM_BatchSubmitGet_Add_def len expected_add in_int_def)
  show "calls_ok (task_exec A undef other) (BM_SubmitGet_SumRange A upper n)"
    using assms payload_small by (auto simp: calls_ok_def BM_SubmitGet_SumRange_def len expected_sum)
qed

text \<open>The benchmarks of the pool get right results in every iteration, for any number of
  workers, iterations and tasks in a batch: as long as no worker crashes, each can be brought to
  its end, and then the squares are 15129, the sums of the \<open>i\<close>-th task of a batch \<open>2 * i + 1\<close>, in
  order, and the sums of the ranges \<open>upper * (upper + 1) / 2\<close>.\<close>
theorem pool_benchmarks_results:
  assumes "addresses_ok A" and "small_call undef" and "exec_small other"
    and "ProcessPool process_count 1 = Inr p" and "process_count < 2 ^ 64"
    and "iterations * task_count < 2 ^ 64" and "iterations < 2 ^ 64" and "task_count \<le> 2 ^ 30"
    and "1 \<le> upper" and "upper < 2 ^ 31 - 1"
    and "(prog, results) \<in> {(BM_SubmitGet_Square A iterations, replicate iterations (GetReturned (int_bytes 15129))),
      (BM_BatchSubmitGet_Add A task_count iterations,
       concat (replicate iterations (map (\<lambda>i. GetReturned (int_bytes (2 * int i + 1))) [0..<task_count]))),
      (BM_SubmitGet_SumRange A upper iterations,
       replicate iterations (GetReturned (int64_bytes (upper * (upper + 1) div 2))))}"
    and "(session_step (task_exec A undef other))\<^sup>*\<^sup>* (session_start p prog) s"
  shows "(at s = Ended \<longrightarrow> got s = results) \<and>
    (\<not> crashed (spool s) \<longrightarrow> at s \<noteq> Escaped \<and>
      (\<exists>s'. (session_step (task_exec A undef other))\<^sup>*\<^sup>* s s' \<and> at s' = Ended \<and> got s' = results))"
proof -
  have prog: "calls_ok (task_exec A undef other) prog"
    "map (expected (task_exec A undef other)) (concat prog) = results"
    using assms(11) bench_calls_ok [OF assms(1,6-10)] bench_results [OF assms(1)] assms(8-10) by auto
  from session_results [OF assms(4,5) task_exec_small [OF assms(2,3)] prog(1) assms(12)] prog(2)
  show ?thesis by auto
qed

theorem pool_benchmarks_results_witness:
  "\<exists>p s. ProcessPool 2 1 = Inr p \<and>
    (session_step (task_exec some_addresses (Inl OtherThrown) (\<lambda>a data. ([], []))))\<^sup>*\<^sup>*
      (session_start p (BM_BatchSubmitGet_Add some_addresses 10 3)) s \<and> at s = Ended \<and>
    got s = concat (replicate 3 (map (\<lambda>i. GetReturned (int_bytes (2 * int i + 1))) [0..<10]))"
proof -
  obtain p where p: "ProcessPool 2 1 = Inr p" by (simp add: ProcessPool_def)
  from pool_benchmarks_results [OF some_addresses_ok nothing_small p, where iterations = 3 and task_count = 10
      and upper = 1000, OF _ _ _ _ _ _ insertI2 [OF insertI1] rtranclp.rtrancl_refl] fresh_session [OF p] p
  show ?thesis by auto
qed

end
