(* ===== verification/Spec2Isabelle.thy ===== *)
theory Spec2Isabelle
  imports Channel_Client_Live Mutex_Benchmark Apply_Programs Dfs_Programs Dfs_Tasks Mpsc_Programs_Live Mpsc_Nodes_Runs Mpsc_Whole Pool_Runs Pool_Fine_Runs Pool_Futures Pool_Exact Pool_Spawn Pool_Main
begin

text \<open>
  A verification development for a collection of C++ concurrency programs.

  \<^bold>\<open>Parts of the program and their theories\<close>

  \<^item> \<^verbatim>\<open>hw-1/dfs.cpp\<close>, cooperative depth-first search on coroutines: theory \<open>Dfs\<close> models the
    frames, the scheduler and \<open>CooperativeDFS\<close>; \<open>Dfs_Correct\<close> has the invariant of the run and
    the properties (every vertex once, frames destroyed, errors, the order). \<open>Dfs_Tasks\<close>
    has the \<open>Task\<close> objects that own the frames, and \<open>current_\<close>. \<open>Dfs_Programs\<close> has
    the graphs and the loops of \<^verbatim>\<open>hw-1/benchmark.cpp\<close>.
  \<^item> \<^verbatim>\<open>hw-2/apply_function.hpp\<close>, a parallel map: theory \<open>Apply_Function\<close> (chunks, workers,
    exceptions; the result is the map, for every schedule); \<open>Apply_Programs\<close> has the benchmarks of
    \<^verbatim>\<open>hw-2/apply_function_benchmark.cpp\<close>.
  \<^item> \<^verbatim>\<open>hw-3/buffered_channel.h\<close>, a bounded channel: \<open>Channel\<close> models the ring and the
    critical sections, \<open>Channel_Monitor\<close> the threads around them (FIFO, no lost wake-up,
    refinement of a closable queue). Its client \<^verbatim>\<open>hw-3/benchmark.cpp\<close> is \<open>Channel_Client\<close> (senders,
    closer, readers and \<open>CalcSum\<close> around the channel), \<open>Channel_Client_Sum\<close> (the invariant of the
    sum) and \<open>Channel_Client_Live\<close> (it can always finish; properties).
  \<^item> \<^verbatim>\<open>hw-4/mutex.h\<close>, a futex mutex: theory \<open>Mutex\<close> (exclusion, no deadlock, refinement of
    a lock), \<open>Mutex_Ends\<close> (a measure under which every run ends: no thread starves). \<open>Mutex_Benchmark\<close>
    has \<^verbatim>\<open>hw-4/benchmark.cpp\<close>: globals that an earlier run has left, the barrier, the rounds.
  \<^item> \<^verbatim>\<open>hw-5/mpsc_queue.cpp\<close>, a multi-producer single-consumer queue in shared memory:
    \<open>Bytes\<close> and \<open>Mpsc_Layout\<close> (objects as bytes, headers, records), \<open>Mpsc_Queue\<close> (sending and
    receiving), \<open>Mpsc_Concurrent\<close> (the step relation and its invariant), \<open>Mpsc_Safe\<close> and
    \<open>Mpsc_Steps\<close> (every step keeps it), \<open>Mpsc_Runs\<close> and \<open>Mpsc_Seq\<close> (properties of concurrent
    runs and of calls one at a time). \<open>Mpsc_Programs\<close> has the consumer, the producers and the
    benchmark of \<^verbatim>\<open>hw-5\<close> around it, with the texts of theory \<open>Texts\<close> (\<open>std::stoull\<close>, printing of
    integers); \<open>Mpsc_Programs_Live\<close> shows that they can always finish. The life of the nodes around it, from \<open>shm_open\<close> to
    \<open>shm_unlink\<close>, is \<open>Mpsc_Nodes\<close>, with \<open>Mpsc_Nodes_Inv\<close> and \<open>Mpsc_Nodes_Steps\<close> (invariant) and
    \<open>Mpsc_Nodes_Runs\<close> (properties). \<open>Mpsc_Region\<close> is a node in its own process: descriptor and mapping of
    \<open>SharedMemoryRegion\<close>, with every call that can fail. \<open>Mpsc_Whole\<close> puts these together with the calls of
    the queue into the four programs as whole processes, from command line to exit code.
  \<^item> \<^verbatim>\<open>hw-6\<close>, a pool of worker processes: \<open>Pool_Io\<close> (\<open>WriteExact\<close>, \<open>ReadExact\<close>, buffers of
    \<^verbatim>\<open>detail.h\<close>), \<open>Pool_Exact\<close> (over any system calls they always return, and what they move), \<open>Pool_Parts\<close> (\<^verbatim>\<open>future.h\<close>, handlers,
    headers, \<open>ExecuteTyped\<close>, one pass of a worker and of a reader), \<open>Pool_System\<close> (submitting
    threads, workers, readers and \<open>Shutdown\<close> of \<^verbatim>\<open>process_pool.cpp\<close> as steps), \<open>Pool_Invariant\<close>,
    \<open>Pool_Steps\<close>, \<open>Pool_Correct\<close> (the invariant and its preservation), \<open>Pool_Turns\<close> (an executable
    scheduler), \<open>Pool_Progress\<close> and \<open>Pool_Runs\<close> (progress, properties). \<open>Pool_Fine\<close> is the same pool with
    one call of \<open>read\<close> or \<open>write\<close> a step, on sockets with a capacity; \<open>Pool_Fine_Sim\<close> and
    \<open>Pool_Fine_Steps\<close> show that it refines \<open>Pool_System\<close>, \<open>Pool_Fine_Runs\<close> has its progress and
    properties; \<open>Frames\<close> is the interface of messages with a header in a byte stream. \<open>Pool_Spawn\<close> has what happens
    before and after: \<open>SpawnWorker\<close>, the constructor and the end of \<open>Shutdown\<close> on tables of descriptors
    and processes, with every call that can fail. \<open>Pool_Futures\<close> has the \<open>Future\<close> objects and the handlers
    as owners of the shared states between them. \<open>Pool_Client\<close> runs a program that submits and gets
    against the pool, and \<open>Pool_Main\<close> instantiates it with \<^verbatim>\<open>hw-6/main.cpp\<close> and
    \<^verbatim>\<open>hw-6/benchmark.cpp\<close>.

  The programs share no code; what they share here is theory \<open>Prelude\<close>: machine words, the
  interface of a transition system with an invariant (\<open>invariant_system\<close>) and with computable
  turns (\<open>scheduled_system\<close>, \<open>scheduled_invariant\<close>), the interface of a bounded queue
  (\<open>bounded_queue\<close>) and counting threads at a program point. \<open>Bytes\<close> has the
  interface of an object that is stored as bytes (\<open>byte_codec\<close>), which the headers of \<^verbatim>\<open>hw-5\<close> and
  \<^verbatim>\<open>hw-6\<close> implement; \<open>Pool_Io\<close> has the interfaces \<open>byte_sink\<close> and \<open>byte_source\<close>, what POSIX promises
  of \<open>write\<close> and \<open>read\<close>; \<open>Frames\<close> the interface \<open>framing\<close>, which both directions of a worker's
  sockets implement; \<open>Owners\<close> counts the handles of objects that own something (\<open>Task\<close>s, \<open>Future\<close>s), and \<open>Descriptors\<close> is the
  descriptor table of a process, for the pool and for the regions of the queue.

  \<^bold>\<open>How the code is modelled\<close>

  State is a record with the fields of the class; a concurrent component is an inductive
  relation between states in which the threads are a list of program points, so that every
  interleaving of any number of threads is covered. What a mutex makes atomic is one step; each
  atomic operation, system call and unprotected access of lock-free code is a step of its own.
  Memory is sequentially consistent. Exceptions are values of a sum or of a result type. Loops
  that may not end are \<open>while_option\<close> or partial functions into \<open>option\<close>, and that they
  return is proved; there is no fuel.

  Ghost fields record what a property speaks about and no operation reads: the sequence of
  values sent and received, the tasks behind the numbers of the pool, whether a thread has
  acted on a stale position. Executable schedulers (\<open>take_turns\<close>, \<open>chan_turns\<close>, \<open>mutex_turns\<close>,
  \<open>node_turns\<close>, \<open>pool_turns\<close>, \<open>fine_turns\<close>, \<open>demo_move\<close>) name who moves; every turn is a step, so that a computed run is a
  run of the relation. They carry the witnesses and the runs in which the code goes wrong.

  \<^bold>\<open>Bounds\<close>

  Positions of the queue are 64-bit words that count bytes and never restart: its properties
  hold until 2^64 bytes were reserved. Numbers of tasks are 64-bit words: the properties of the
  pool hold for fewer than 2^64 submissions. The counter of the mutex's clients is an \<open>int\<close> of 32 bits:
  it counts the rounds below 2^31 and is marked as overflowed from there on. Reference counts are 32-bit words: exact for fewer
  than 2^32 nodes.

  \<^bold>\<open>What each group of lemmas shows\<close>

  For each concurrent component: the invariant holds initially, one lemma per step that keeps it,
  an interpretation of \<open>invariant_system\<close>, and properties read off a reachable state. For the
  queue and the channel also a refinement of an abstract queue. For the pool the invariant ties
  the bytes in each socket to lists of requests and responses, so that every decoded message is
  one that was sent; a lexicographic measure on the bytes waiting shows that serving and
  collecting end. The pool with partial reads and writes is tied to it by a forward simulation
  (a message counts as sent with its last byte), so its futures are right for the same reasons; its
  own measure counts, in this order, the bytes unsent, unread, unserved, unwritten and uncollected. Where the code does not do what it means to, a theorem gives the run: a queue
  message overwritten by two producers, \<open>Send\<close> without end, a lost message in an unaligned ring,
  a truncated size, an order that is no depth-first order, sockets and processes left behind by a
  constructor that throws, workers that keep each other alive, nodes that race with the creation and
  the removal of their segment, a write to a dead worker that ends the process.

  The example programs and benchmarks are steps of their component with the program's own control
  around them (or, where one thread calls, a loop over its operations). What is shown is what they
  print or return: the sum of all values, the lines of \<open>main\<close>, the messages of both producers
  before the stop. Their arguments are bounded where the code registers them.

  \<^bold>\<open>Not modelled\<close>

  Weak memory orders (the model is sequentially consistent). In the pool: failing allocation, and (in the steps of the pool, not
  in \<open>Pool_Spawn\<close>) a descriptor number that is reused after \<open>close\<close>; taking a handler out of the
  map and completing it are one step, as nobody else can reach it in between. The text of a task's
  exception is taken without zero bytes. In the nodes of the queue: nodes killed from outside; the
  programs as whole processes run one after the other in \<open>Mpsc_Whole\<close>, and at the same time only on a queue
  that is open (\<open>Mpsc_Programs\<close>). \<open>FutexWakeAll\<close> has no caller. The type and the functions of floating-point
  numbers are parameters. \<^verbatim>\<open>hw-5/cleanup.cpp\<close> calls a function that the repository does not define;
  tests, build files and scripts, and the repetition and the clocks of the benchmark library are left out.
\<close>

end
